(* ===== verification/Daos_Prelude.thy ===== *)
theory Daos_Prelude
  imports Complex_Main "HOL-Library.Word"
begin

text \<open>
  Shared base of the development: the types every component uses (bytes, exceptions, the
  state-and-exception computations that model Python code with side effects), the proof
  collections, and the generic lemmas on lists and byte images.

  A Python function that calls into libdfs, libdaos or LMCache, or that changes an object, is a
  computation of type \<open>('s, 'a) io\<close>: it takes the state and gives a result, either an exception
  (\<open>Inl\<close>) or a value (\<open>Inr\<close>), together with the state it leaves behind, also when it raises.
\<close>

section \<open>Bytes, exceptions, computations\<close>

type_synonym byte = "8 word"
type_synonym bytes = "8 word list"

text \<open>
  The exceptions of the source. \<open>DaosError rc\<close> is the class of \<^verbatim>\<open>dfs_binding.py\<close> (an
  \<^verbatim>\<open>OSError\<close>), \<open>DaosPoolWedged\<close> its subclass in \<^verbatim>\<open>connector.py\<close>; \<open>BadHeader\<close> is a
  \<^verbatim>\<open>ValueError\<close>. \<open>OtherError\<close> is an exception raised by LMCache or by the interpreter.
  \<open>MemoryFault\<close> is no Python exception: it marks a C call that stores past the end of the buffer
  it was given, after which nothing is known about the process.
\<close>

datatype exn =
    DaosError int
  | DaosPoolWedged nat real
  | ValueError
  | BadHeader
  | StructError
  | RuntimeError
  | NotImplementedError
  | TypeError
  | IOError
  | AssertionError
  | KeyError
  | OtherError
  | MemoryFault

definition EBUSY :: int where "EBUSY = 16"
definition ENOENT :: int where "ENOENT = 2"
definition EINVAL :: int where "EINVAL = 22"
definition EEXIST :: int where "EEXIST = 17"
definition ENOMEM :: int where "ENOMEM = 12"

fun is_DaosError :: "exn \<Rightarrow> bool" where
  "is_DaosError (DaosError _) = True"
| "is_DaosError (DaosPoolWedged _ _) = True"
| "is_DaosError _ = False"

fun is_ValueError :: "exn \<Rightarrow> bool" where
  "is_ValueError ValueError = True"
| "is_ValueError BadHeader = True"
| "is_ValueError _ = False"

text \<open>\<^verbatim>\<open>except (DaosError, OSError, ...)\<close>: \<^verbatim>\<open>IOError\<close> is \<^verbatim>\<open>OSError\<close> in Python 3.\<close>

definition is_OSError :: "exn \<Rightarrow> bool" where
  "is_OSError e \<longleftrightarrow> is_DaosError e \<or> e = IOError"

text \<open>\<^verbatim>\<open>except Exception\<close> catches every Python exception, and no memory fault.\<close>

definition is_Exception :: "exn \<Rightarrow> bool" where
  "is_Exception e \<longleftrightarrow> e \<noteq> MemoryFault"

text \<open>The attribute \<^verbatim>\<open>e.rc\<close>, for the classes that have one.\<close>

fun exn_rc :: "exn \<Rightarrow> int option" where
  "exn_rc (DaosError rc) = Some rc"
| "exn_rc (DaosPoolWedged _ _) = Some EBUSY"
| "exn_rc _ = None"

type_synonym ('s, 'a) io = "'s \<Rightarrow> (exn + 'a) \<times> 's"

definition ret :: "'a \<Rightarrow> ('s, 'a) io" where
  "ret a = (\<lambda>s. (Inr a, s))"

definition raise :: "exn \<Rightarrow> ('s, 'a) io" where
  "raise e = (\<lambda>s. (Inl e, s))"

definition bind_io :: "('s, 'a) io \<Rightarrow> ('a \<Rightarrow> ('s, 'b) io) \<Rightarrow> ('s, 'b) io" where
  "bind_io m f = (\<lambda>s. case m s of (Inl e, s') \<Rightarrow> (Inl e, s') | (Inr a, s') \<Rightarrow> f a s')"

text \<open>\<^verbatim>\<open>try: m finally: c\<close>; an exception of \<open>c\<close> replaces the outcome of \<open>m\<close>.\<close>

definition finally_io :: "('s, 'a) io \<Rightarrow> ('s, unit) io \<Rightarrow> ('s, 'a) io" where
  "finally_io m c = (\<lambda>s. case m s of (r, s1) \<Rightarrow>
     (case c s1 of (Inl e, s2) \<Rightarrow> (Inl e, s2) | (Inr _, s2) \<Rightarrow> (r, s2)))"

text \<open>\<^verbatim>\<open>try: m except P as e: h e\<close>.\<close>

definition catch_io :: "(exn \<Rightarrow> bool) \<Rightarrow> ('s, 'a) io \<Rightarrow> (exn \<Rightarrow> ('s, 'a) io) \<Rightarrow> ('s, 'a) io" where
  "catch_io P m h = (\<lambda>s. case m s of
     (Inl e, s1) \<Rightarrow> (if P e then h e s1 else (Inl e, s1))
   | (Inr a, s1) \<Rightarrow> (Inr a, s1))"

text \<open>A pure computation that may raise, and a computation on one half of a paired state.\<close>

definition of_sum :: "exn + 'a \<Rightarrow> ('s, 'a) io" where
  "of_sum r = (\<lambda>s. (r, s))"

definition on_fst :: "('d, 'a) io \<Rightarrow> ('d \<times> 'm, 'a) io" where
  "on_fst m = (\<lambda>(d, x). case m d of (r, d') \<Rightarrow> (r, (d', x)))"

definition on_snd :: "('m, 'a) io \<Rightarrow> ('d \<times> 'm, 'a) io" where
  "on_snd m = (\<lambda>(d, x). case m x of (r, x') \<Rightarrow> (r, (d, x')))"

named_theorems io_defs "definitions of the computation combinators"
declare ret_def [io_defs] raise_def [io_defs] bind_io_def [io_defs] finally_io_def [io_defs]
  catch_io_def [io_defs] of_sum_def [io_defs] on_fst_def [io_defs] on_snd_def [io_defs]

lemma run_ret [simp]: "ret a s = (Inr a, s)"
  by (simp add: io_defs)

lemma run_raise [simp]: "raise e s = (Inl e, s)"
  by (simp add: io_defs)

lemma run_of_sum [simp]: "of_sum r s = (r, s)"
  by (simp add: io_defs)

lemma run_on_fst [simp]: "on_fst m (d, x) = (case m d of (r, d') \<Rightarrow> (r, (d', x)))"
  by (simp add: io_defs)

lemma run_on_snd [simp]: "on_snd m (d, x) = (case m x of (r, x') \<Rightarrow> (r, (d, x')))"
  by (simp add: io_defs)

lemma run_bind:
  "bind_io m f s = (case m s of (Inl e, s') \<Rightarrow> (Inl e, s') | (Inr a, s') \<Rightarrow> f a s')"
  by (simp add: io_defs)

lemma bind_ret [simp]: "bind_io (ret a) f = f a"
  by (simp add: io_defs)

lemma bind_raise [simp]: "bind_io (raise e) f = raise e"
  by (simp add: io_defs)

lemma bind_assoc: "bind_io (bind_io m f) g = bind_io m (\<lambda>x. bind_io (f x) g)"
  by (auto simp: io_defs fun_eq_iff split: prod.splits sum.splits)

text \<open>Reading and updating the state.\<close>

definition get_s :: "('s \<Rightarrow> 'a) \<Rightarrow> ('s, 'a) io" where
  "get_s f = (\<lambda>s. (Inr (f s), s))"

definition put_s :: "('s \<Rightarrow> 's) \<Rightarrow> ('s, unit) io" where
  "put_s f = (\<lambda>s. (Inr (), f s))"

text \<open>\<^verbatim>\<open>try: m except Exception: pass\<close>\<close>

definition swallow :: "('s, unit) io \<Rightarrow> ('s, unit) io" where
  "swallow m = catch_io is_Exception m (\<lambda>_. ret ())"

subsection \<open>Weakest preconditions\<close>

text \<open>
  \<open>wp m Q s\<close>: the run of \<open>m\<close> from \<open>s\<close> ends in an outcome and a state that satisfy \<open>Q\<close>. Every run ends,
  so this is total correctness. The rules of \<open>wp_simps\<close> push \<open>wp\<close> through the combinators; the
  rules in \<open>wp_rules\<close> replace a call by what its contract says about every outcome.
\<close>

definition wp :: "('s, 'a) io \<Rightarrow> (exn + 'a \<Rightarrow> 's \<Rightarrow> bool) \<Rightarrow> 's \<Rightarrow> bool" where
  "wp m Q s = (case m s of (r, s') \<Rightarrow> Q r s')"

named_theorems wp_simps "equations for wp on the combinators"
named_theorems wp_rules "introduction rules for wp on calls with a contract"

lemma wp_ret [wp_simps]: "wp (ret a) Q s = Q (Inr a) s"
  by (simp add: wp_def)

lemma wp_raise [wp_simps]: "wp (raise e) Q s = Q (Inl e) s"
  by (simp add: wp_def)

lemma wp_of_sum [wp_simps]: "wp (of_sum r) Q s = Q r s"
  by (simp add: wp_def)

lemma wp_get_s [wp_simps]: "wp (get_s f) Q s = Q (Inr (f s)) s"
  by (simp add: wp_def get_s_def)

lemma wp_put_s [wp_simps]: "wp (put_s f) Q s = Q (Inr ()) (f s)"
  by (simp add: wp_def put_s_def)

lemma wp_bind [wp_simps]:
  "wp (bind_io m f) Q s = wp m (\<lambda>r s'. case r of Inl e \<Rightarrow> Q (Inl e) s' | Inr a \<Rightarrow> wp (f a) Q s') s"
  by (auto simp: wp_def bind_io_def split: prod.splits sum.splits)

lemma wp_finally [wp_simps]:
  "wp (finally_io m c) Q s =
     wp m (\<lambda>r s1. wp c (\<lambda>u s2. case u of Inl e \<Rightarrow> Q (Inl e) s2 | Inr _ \<Rightarrow> Q r s2) s1) s"
  by (auto simp: wp_def finally_io_def split: prod.splits sum.splits)

lemma wp_catch [wp_simps]:
  "wp (catch_io P m h) Q s =
     wp m (\<lambda>r s1. case r of Inl e \<Rightarrow> (if P e then wp (h e) Q s1 else Q (Inl e) s1) | Inr a \<Rightarrow> Q (Inr a) s1) s"
  by (auto simp: wp_def catch_io_def split: prod.splits sum.splits)

lemma wp_on_fst [wp_simps]: "wp (on_fst m) Q (d, x) = wp m (\<lambda>r d'. Q r (d', x)) d"
  by (auto simp: wp_def split: prod.splits)

lemma wp_on_snd [wp_simps]: "wp (on_snd m) Q (d, x) = wp m (\<lambda>r x'. Q r (d, x')) x"
  by (auto simp: wp_def split: prod.splits)

lemma wp_if [wp_simps]: "wp (if b then m else m') Q s = (if b then wp m Q s else wp m' Q s)"
  by simp

lemma wp_swallow [wp_simps]:
  "wp (swallow m) Q s =
     wp m (\<lambda>r s1. Q (case r of Inl e \<Rightarrow> if is_Exception e then Inr () else Inl e | Inr _ \<Rightarrow> Inr ()) s1) s"
  by (auto simp: wp_def swallow_def catch_io_def split: prod.splits sum.splits)

lemma wp_mono: "wp m P s \<Longrightarrow> (\<And>r s'. P r s' \<Longrightarrow> Q r s') \<Longrightarrow> wp m Q s"
  by (auto simp: wp_def split: prod.splits)

lemma wp_conj: "wp m P s \<Longrightarrow> wp m Q s \<Longrightarrow> wp m (\<lambda>r s'. P r s' \<and> Q r s') s"
  by (auto simp: wp_def split: prod.splits)

lemma wp_bindI:
  "wp m P s \<Longrightarrow> (\<And>e s'. P (Inl e) s' \<Longrightarrow> Q (Inl e) s') \<Longrightarrow> (\<And>a s'. P (Inr a) s' \<Longrightarrow> wp (f a) Q s') \<Longrightarrow>
     wp (bind_io m f) Q s"
  by (fastforce simp: wp_def bind_io_def split: prod.splits sum.splits)

text \<open>A fact about the outcome that is known already may be used in the goal.\<close>

lemma wp_use: "wp m P s \<Longrightarrow> wp m (\<lambda>r s'. P r s' \<longrightarrow> Q r s') s \<Longrightarrow> wp m Q s"
  by (auto simp: wp_def split: prod.splits)

lemma wpI: "(\<And>r s'. m s = (r, s') \<Longrightarrow> Q r s') \<Longrightarrow> wp m Q s"
  by (cases "m s") (simp add: wp_def)

lemma wpD: "wp m Q s \<Longrightarrow> m s = (r, s') \<Longrightarrow> Q r s'"
  by (simp add: wp_def)

text \<open>The three ways a bind can end, for proofs that follow a run step by step.\<close>

lemma bind_InrE:
  assumes "bind_io m f s = (Inr b, s'')"
  obtains a s' where "m s = (Inr a, s')" and "f a s' = (Inr b, s'')"
  using assms by (auto simp: run_bind split: prod.splits sum.splits)

lemma bind_InlE:
  assumes "bind_io m f s = (Inl e, s'')"
  obtains "m s = (Inl e, s'')" | a s' where "m s = (Inr a, s')" and "f a s' = (Inl e, s'')"
  using assms by (auto simp: run_bind split: prod.splits sum.splits)

lemma bind_cong_Inr: "m s = (Inr a, s') \<Longrightarrow> bind_io m f s = f a s'"
  by (simp add: run_bind)

lemma bind_cong_Inl: "m s = (Inl e, s') \<Longrightarrow> bind_io m f s = (Inl e, s')"
  by (simp add: run_bind)

lemma finally_total:
  assumes "m s = (r, s1)" and "c s1 = (Inr u, s2)"
  shows "finally_io m c s = (r, s2)"
  using assms by (simp add: finally_io_def)

lemmas io_run = run_bind finally_io_def catch_io_def

text \<open>The same sequencing for a function that has no state: the first error wins.\<close>

definition bind_sum :: "exn + 'a \<Rightarrow> ('a \<Rightarrow> exn + 'b) \<Rightarrow> exn + 'b" where
  "bind_sum r f = (case r of Inl e \<Rightarrow> Inl e | Inr a \<Rightarrow> f a)"

lemma bind_sum_simps [simp]:
  "bind_sum (Inl e) f = Inl e"
  "bind_sum (Inr a) f = f a"
  by (simp_all add: bind_sum_def)

lemma bind_sum_Inr_iff: "bind_sum r f = Inr b \<longleftrightarrow> (\<exists>a. r = Inr a \<and> f a = Inr b)"
  by (cases r) auto

text \<open>The first error in a list of outcomes, or all the values.\<close>

fun seq_sum :: "(exn + 'a) list \<Rightarrow> exn + 'a list" where
  "seq_sum [] = Inr []"
| "seq_sum (r # rs) = bind_sum r (\<lambda>x. bind_sum (seq_sum rs) (\<lambda>xs. Inr (x # xs)))"

lemma seq_sum_Inr_iff: "seq_sum rs = Inr xs \<longleftrightarrow> rs = map Inr xs"
  by (induction rs arbitrary: xs) (auto simp: bind_sum_Inr_iff)

lemma seq_sum_Inl: "seq_sum rs = Inl e \<Longrightarrow> Inl e \<in> set rs"
  by (induction rs) (auto simp: bind_sum_def split: sum.splits)

section \<open>Tasks on a thread pool\<close>

text \<open>
  A thread pool runs the tasks it was given in an order the program does not control. \<open>run_all\<close> runs
  them in the order \<open>sched\<close> and gives the outcomes by position; theorems hold for every schedule that
  runs each task once. \<open>pool_map\<close> is \<^verbatim>\<open>list(pool.map(f, items))\<close>, which raises the first
  exception in item order and then cancels the tasks after it that no thread has begun: these are missing
  from the schedule (\<open>may_run\<close>), and nobody reads their outcome. The state after \<open>pool_map\<close> is the one when
  every task that began has ended.
\<close>

definition is_schedule :: "nat \<Rightarrow> nat list \<Rightarrow> bool" where
  "is_schedule n sched \<longleftrightarrow> distinct sched \<and> set sched = {..<n}"

definition may_run :: "nat \<Rightarrow> nat list \<Rightarrow> bool" where
  "may_run n sched \<longleftrightarrow> distinct sched \<and> set sched \<subseteq> {..<n}"

lemma schedule_may_run: "is_schedule n sched \<Longrightarrow> may_run n sched"
  by (simp add: is_schedule_def may_run_def)

definition run_step ::
  "('s, 'a) io list \<Rightarrow> nat \<Rightarrow> (nat \<Rightarrow> exn + 'a) \<times> 's \<Rightarrow> (nat \<Rightarrow> exn + 'a) \<times> 's" where
  "run_step tasks i = (\<lambda>(rs, s). case (tasks ! i) s of (r, s') \<Rightarrow> (rs(i := r), s'))"

definition run_all :: "nat list \<Rightarrow> ('s, 'a) io list \<Rightarrow> 's \<Rightarrow> (exn + 'a) list \<times> 's" where
  "run_all sched tasks s =
     (case fold (run_step tasks) sched (\<lambda>_. Inl OtherError, s) of (rs, s') \<Rightarrow> (map rs [0..<length tasks], s'))"

definition pool_map :: "nat list \<Rightarrow> ('s, 'a) io list \<Rightarrow> ('s, 'a list) io" where
  "pool_map sched tasks = (\<lambda>s. case run_all sched tasks s of (rs, s') \<Rightarrow> (seq_sum rs, s'))"

lemma is_schedule_upt [simp]: "is_schedule n [0..<n]"
  by (auto simp: is_schedule_def)

lemma fold_run_step_rule:
  assumes step: "\<And>D rs i s. i \<in> set sched \<Longrightarrow> i \<notin> D \<Longrightarrow> D \<subseteq> A \<union> set sched \<Longrightarrow> I D rs s \<Longrightarrow>
      wp (tasks ! i) (\<lambda>r s'. I (insert i D) (rs(i := r)) s') s"
    and "distinct sched" and "set sched \<inter> A = {}" and "I A rs s"
    and "fold (run_step tasks) sched (rs, s) = (rs', s')"
  shows "I (A \<union> set sched) rs' s'"
  using assms
proof (induction sched arbitrary: A rs s)
  case Nil
  then show ?case by simp
next
  case (Cons j sched)
  obtain r s1 where run: "(tasks ! j) s = (r, s1)" by (cases "(tasks ! j) s")
  have "wp (tasks ! j) (\<lambda>r s'. I (insert j A) (rs(j := r)) s') s"
    using Cons.prems by (intro Cons.prems(1)) auto
  with run have i: "I (insert j A) (rs(j := r)) s1" by (auto dest: wpD)
  have "I (insert j A \<union> set sched) rs' s'"
  proof (rule Cons.IH)
    fix D rs i t
    assume "i \<in> set sched" "i \<notin> D" "D \<subseteq> insert j A \<union> set sched" "I D rs t"
    then show "wp (tasks ! i) (\<lambda>r s'. I (insert i D) (rs(i := r)) s') t"
      by (intro Cons.prems(1)) auto
  next
    show "distinct sched" "set sched \<inter> insert j A = {}" "I (insert j A) (rs(j := r)) s1"
      using Cons.prems i by auto
    have "run_step tasks j (rs, s) = (rs(j := r), s1)" using run by (simp add: run_step_def)
    then show "fold (run_step tasks) sched (rs(j := r), s1) = (rs', s')"
      using Cons.prems(5) by simp
  qed
  then show ?case by simp
qed

lemma fold_run_step_other:
  "i \<notin> set sched \<Longrightarrow> fold (run_step tasks) sched (rs, s) = (rs', s') \<Longrightarrow> rs' i = rs i"
  by (induction sched arbitrary: rs s) (auto simp: run_step_def split: prod.splits)

text \<open>
  The rule for a batch: \<open>I D rs s\<close> holds of the outcomes \<open>rs\<close> and the state \<open>s\<close> when exactly the tasks
  in \<open>D\<close> have run.
\<close>

lemma run_all_part_rule:
  assumes step: "\<And>D rs i s. i < length tasks \<Longrightarrow> i \<notin> D \<Longrightarrow> D \<subseteq> {..<length tasks} \<Longrightarrow> I D rs s \<Longrightarrow>
      wp (tasks ! i) (\<lambda>r s'. I (insert i D) (rs(i := r)) s') s"
    and sched: "may_run (length tasks) sched" and "I {} (\<lambda>_. Inl OtherError) s"
    and run: "run_all sched tasks s = (rs, s')"
  shows "\<exists>f. rs = map f [0..<length tasks] \<and> I (set sched) f s' \<and> (\<forall>i. i \<notin> set sched \<longrightarrow> f i = Inl OtherError)"
proof -
  obtain f where f: "fold (run_step tasks) sched (\<lambda>_. Inl OtherError, s) = (f, s')"
    and rs: "rs = map f [0..<length tasks]"
    using run by (auto simp: run_all_def split: prod.splits)
  have "I ({} \<union> set sched) f s'"
    by (rule fold_run_step_rule [OF _ _ _ _ f])
      (use sched assms(3) in \<open>auto simp: may_run_def simp del: fun_upd_apply intro!: step\<close>)
  moreover have "f i = Inl OtherError" if "i \<notin> set sched" for i
    using fold_run_step_other [OF that f] .
  ultimately show ?thesis using rs by auto
qed

lemma run_all_results_rule:
  assumes "\<And>D rs i s. i < length tasks \<Longrightarrow> i \<notin> D \<Longrightarrow> D \<subseteq> {..<length tasks} \<Longrightarrow> I D rs s \<Longrightarrow>
      wp (tasks ! i) (\<lambda>r s'. I (insert i D) (rs(i := r)) s') s"
    and sched: "is_schedule (length tasks) sched" and "I {} (\<lambda>_. Inl OtherError) s"
    and "run_all sched tasks s = (rs, s')"
  shows "\<exists>f. rs = map f [0..<length tasks] \<and> I {..<length tasks} f s'"
proof -
  have "set sched = {..<length tasks}" using sched by (simp add: is_schedule_def)
  then show ?thesis using run_all_part_rule [of tasks I, OF assms(1) schedule_may_run [OF sched] assms(3,4)] by auto
qed

lemma run_all_rule:
  assumes step: "\<And>D i s. i < length tasks \<Longrightarrow> i \<notin> D \<Longrightarrow> D \<subseteq> {..<length tasks} \<Longrightarrow> I D s \<Longrightarrow>
      wp (tasks ! i) (\<lambda>r s'. Q i r \<and> I (insert i D) s') s"
    and sched: "is_schedule (length tasks) sched" and "I {} s" and "run_all sched tasks s = (rs, s')"
  shows "I {..<length tasks} s' \<and> length rs = length tasks \<and> (\<forall>i < length tasks. Q i (rs ! i))"
proof -
  have "\<exists>f. rs = map f [0..<length tasks] \<and> I {..<length tasks} s' \<and> (\<forall>i \<in> {..<length tasks}. Q i (f i))"
    by (rule run_all_results_rule [where I = "\<lambda>D rs s. I D s \<and> (\<forall>i \<in> D. Q i (rs i))", OF _ sched _ assms(4)])
      (use assms in \<open>auto intro!: wp_mono [OF step]\<close>)
  then show ?thesis by auto
qed

lemma run_all_length: "run_all sched tasks s = (rs, s') \<Longrightarrow> length rs = length tasks"
  by (auto simp: run_all_def split: prod.splits)

text \<open>
  The same tasks one after the other, stopping at the first exception; and \<open>exec_map\<close>, which the
  source writes as \<^verbatim>\<open>_map = executor.map if executor is not None else map\<close>.
\<close>

fun seq_io :: "('s, 'a) io list \<Rightarrow> ('s, 'a list) io" where
  "seq_io [] = ret []"
| "seq_io (m # ms) = bind_io m (\<lambda>x. bind_io (seq_io ms) (\<lambda>xs. ret (x # xs)))"

definition exec_map :: "nat list option \<Rightarrow> ('s, 'a) io list \<Rightarrow> ('s, 'a list) io" where
  "exec_map ex tasks = (case ex of None \<Rightarrow> seq_io tasks | Some sched \<Rightarrow> pool_map sched tasks)"

text \<open>What every task keeps, and what holds of each result, holds after the batch.\<close>

lemma seq_io_rule:
  assumes "\<And>m s. m \<in> set ms \<Longrightarrow> I s \<Longrightarrow> wp m (\<lambda>r s'. I s' \<and> (\<forall>x. r = Inr x \<longrightarrow> Q x)) s" and "I s"
  shows "wp (seq_io ms) (\<lambda>r s'. I s' \<and> (\<forall>xs. r = Inr xs \<longrightarrow> length xs = length ms \<and> (\<forall>x \<in> set xs. Q x))) s"
  using assms
proof (induction ms arbitrary: s)
  case Nil
  then show ?case by (simp only: seq_io.simps wp_ret) simp
next
  case (Cons m ms)
  have m: "wp m (\<lambda>r s'. I s' \<and> (\<forall>x. r = Inr x \<longrightarrow> Q x)) s" using Cons.prems by simp
  have ms: "wp (seq_io ms) (\<lambda>r s'. I s' \<and> (\<forall>xs. r = Inr xs \<longrightarrow> length xs = length ms \<and> (\<forall>x \<in> set xs. Q x))) s'"
    if "I s'" for s' using Cons that by simp
  show ?case
    unfolding seq_io.simps
    by (rule wp_bindI [OF m], simp, rule wp_bindI [OF ms]) (auto simp: wp_ret)
qed

lemma pool_map_results_rule:
  assumes "\<And>D rs i s. i < length tasks \<Longrightarrow> i \<notin> D \<Longrightarrow> D \<subseteq> {..<length tasks} \<Longrightarrow> I D rs s \<Longrightarrow>
      wp (tasks ! i) (\<lambda>r s'. I (insert i D) (rs(i := r)) s') s"
    and "is_schedule (length tasks) sched" and "I {} (\<lambda>_. Inl OtherError) s"
  shows "wp (pool_map sched tasks) (\<lambda>r s'. \<exists>f. r = seq_sum (map f [0..<length tasks]) \<and> I {..<length tasks} f s') s"
proof (rule wpI)
  fix r s'
  assume "pool_map sched tasks s = (r, s')"
  then obtain rs where "run_all sched tasks s = (rs, s')" "r = seq_sum rs"
    by (auto simp: pool_map_def split: prod.splits)
  with run_all_results_rule [of tasks I sched s rs s', OF assms] show "\<exists>f. r = seq_sum (map f [0..<length tasks]) \<and> I {..<length tasks} f s'"
    by blast
qed

text \<open>The same when no task raises: \<open>J D f s\<close> holds of the values \<open>f\<close> of the tasks in \<open>D\<close>.\<close>

lemma pool_map_values_rule:
  fixes tasks :: "('s, 'a) io list"
  assumes step: "\<And>D f i s. i < length tasks \<Longrightarrow> i \<notin> D \<Longrightarrow> D \<subseteq> {..<length tasks} \<Longrightarrow> J D f s \<Longrightarrow>
      wp (tasks ! i) (\<lambda>r s'. \<exists>z. r = Inr z \<and> J (insert i D) (f(i := z)) s') s"
    and "is_schedule (length tasks) sched" and "J {} f0 s"
  shows "wp (pool_map sched tasks) (\<lambda>r s'. \<exists>f. r = Inr (map f [0..<length tasks]) \<and> J {..<length tasks} f s') s"
proof -
  define I where "I = (\<lambda>D rs s. \<exists>f. (\<forall>i \<in> D. rs i = (Inr (f i) :: exn + 'a)) \<and> J D f s)"
  have "wp (pool_map sched tasks) (\<lambda>r s'. \<exists>rs. r = seq_sum (map rs [0..<length tasks]) \<and> I {..<length tasks} rs s') s"
  proof (rule pool_map_results_rule [OF _ assms(2)])
    fix D i t and rs :: "nat \<Rightarrow> exn + 'a"
    assume i: "i < length tasks" "i \<notin> D" "D \<subseteq> {..<length tasks}" and "I D rs t"
    then obtain f where f: "\<forall>j \<in> D. rs j = Inr (f j)" "J D f t" by (auto simp: I_def)
    from step [OF i f(2)] show "wp (tasks ! i) (\<lambda>r s'. I (insert i D) (rs(i := r)) s') t"
    proof (rule wp_mono)
      fix r :: "exn + 'a" and s'
      assume "\<exists>z. r = Inr z \<and> J (insert i D) (f(i := z)) s'"
      then obtain z where "r = Inr z" "J (insert i D) (f(i := z)) s'" by blast
      with f i(2) show "I (insert i D) (rs(i := r)) s'" unfolding I_def by (intro exI [of _ "f(i := z)"]) auto
    qed
  next
    show "I {} (\<lambda>_. Inl OtherError) s" using assms(3) by (auto simp: I_def)
  qed
  then show ?thesis
  proof (rule wp_mono)
    fix r s'
    assume "\<exists>rs. r = seq_sum (map rs [0..<length tasks]) \<and> I {..<length tasks} rs s'"
    then obtain rs f where r: "r = seq_sum (map rs [0..<length tasks])" and f: "\<forall>i < length tasks. rs i = Inr (f i)"
      and J: "J {..<length tasks} f s'" by (auto simp: I_def)
    have "map rs [0..<length tasks] = map Inr (map f [0..<length tasks])" using f by simp
    then have "r = Inr (map f [0..<length tasks])" unfolding r by (simp only: seq_sum_Inr_iff)
    with J show "\<exists>f. r = Inr (map f [0..<length tasks]) \<and> J {..<length tasks} f s'" by blast
  qed
qed

lemma pool_map_rule:
  assumes "\<And>m s. m \<in> set tasks \<Longrightarrow> I s \<Longrightarrow> wp m (\<lambda>r s'. I s' \<and> (\<forall>x. r = Inr x \<longrightarrow> Q x)) s"
    and "is_schedule (length tasks) sched" and "I s"
  shows "wp (pool_map sched tasks) (\<lambda>r s'. I s' \<and> (\<forall>xs. r = Inr xs \<longrightarrow> length xs = length tasks \<and> (\<forall>x \<in> set xs. Q x))) s"
proof (rule wpI)
  fix r s'
  assume "pool_map sched tasks s = (r, s')"
  then obtain rs where run: "run_all sched tasks s = (rs, s')" and r: "r = seq_sum rs"
    by (auto simp: pool_map_def split: prod.splits)
  have "I s' \<and> length rs = length tasks \<and> (\<forall>i < length tasks. \<forall>x. rs ! i = Inr x \<longrightarrow> Q x)"
    by (rule run_all_rule [where I = "\<lambda>_. I" and Q = "\<lambda>_ r. \<forall>x. r = Inr x \<longrightarrow> Q x", OF _ assms(2,3) run])
      (auto intro!: wp_mono [OF assms(1)])
  with r show "I s' \<and> (\<forall>xs. r = Inr xs \<longrightarrow> length xs = length tasks \<and> (\<forall>x \<in> set xs. Q x))"
    by (auto simp: seq_sum_Inr_iff in_set_conv_nth)
qed

lemma exec_map_rule:
  assumes "\<And>m s. m \<in> set tasks \<Longrightarrow> I s \<Longrightarrow> wp m (\<lambda>r s'. I s' \<and> (\<forall>x. r = Inr x \<longrightarrow> Q x)) s"
    and "case ex of None \<Rightarrow> True | Some sched \<Rightarrow> is_schedule (length tasks) sched" and "I s"
  shows "wp (exec_map ex tasks) (\<lambda>r s'. I s' \<and> (\<forall>xs. r = Inr xs \<longrightarrow> length xs = length tasks \<and> (\<forall>x \<in> set xs. Q x))) s"
  using assms by (cases ex) (auto simp: exec_map_def intro!: seq_io_rule pool_map_rule)

section \<open>Byte images of files and arrays\<close>

text \<open>
  Writing \<open>x\<close> at offset \<open>off\<close> of a byte image \<open>b\<close>: a gap between the end of \<open>b\<close> and \<open>off\<close> reads as
  zeros, bytes past the written range stay, and nothing is ever truncated.
\<close>

definition overlay :: "bytes \<Rightarrow> nat \<Rightarrow> bytes \<Rightarrow> bytes" where
  "overlay b off x =
     (if x = [] then b
      else take off b @ replicate (off - length b) 0 @ x @ drop (off + length x) b)"

lemma overlay_Nil [simp]: "overlay b off [] = b"
  by (simp add: overlay_def)

lemma overlay_empty [simp]: "overlay [] 0 x = x"
  by (simp add: overlay_def)

lemma length_overlay:
  "length (overlay b off x) = (if x = [] then length b else max (length b) (off + length x))"
  by (auto simp: overlay_def)

lemma overlay_append: "off = length b \<Longrightarrow> overlay b off x = b @ x"
  by (simp add: overlay_def)

lemma take_drop_overlay:
  "x \<noteq> [] \<Longrightarrow> off \<le> length b \<Longrightarrow> take (length x) (drop off (overlay b off x)) = x"
  by (simp add: overlay_def)

lemma overlay_overwrite: "length b \<le> length x \<Longrightarrow> overlay b 0 x = x"
  by (auto simp: overlay_def)

text \<open>
  A truncated image \<open>take k b\<close> of a complete object \<open>b\<close> stays a truncated image of \<open>b\<close> when bytes
  of \<open>b\<close> are written at their own place and leave no gap.
\<close>

lemma overlay_prefix:
  assumes "k \<le> length b" and "off \<le> k" and "x = take n (drop off b)"
  shows "overlay (take k b) off x = take (max k (off + length x)) b"
proof (rule nth_equalityI)
  show "length (overlay (take k b) off x) = length (take (max k (off + length x)) b)"
    using assms by (auto simp: length_overlay)
next
  fix i
  assume "i < length (overlay (take k b) off x)"
  then have i: "i < max k (off + length x)" "i < length b"
    using assms by (auto simp: length_overlay split: if_splits)
  have "overlay (take k b) off x ! i = b ! i"
    using assms i by (auto simp: overlay_def nth_append min_def)
  with i show "overlay (take k b) off x ! i = take (max k (off + length x)) b ! i"
    by simp
qed

section \<open>Lists\<close>

text \<open>\<^verbatim>\<open>itertools.takewhile(lambda o: o is not None)\<close>: the leading hits of a result list.\<close>

fun leading_hits :: "'a option list \<Rightarrow> 'a list" where
  "leading_hits [] = []"
| "leading_hits (None # _) = []"
| "leading_hits (Some x # xs) = x # leading_hits xs"

lemma leading_hits_prefix: "map Some (leading_hits xs) = take (length (leading_hits xs)) xs"
  by (induction xs rule: leading_hits.induct) auto

lemma leading_hits_maximal:
  "length (leading_hits xs) < length xs \<Longrightarrow> xs ! length (leading_hits xs) = None"
  by (induction xs rule: leading_hits.induct) auto

lemma length_leading_hits: "length (leading_hits xs) \<le> length xs"
  by (induction xs rule: leading_hits.induct) auto

section \<open>What a computation may do to the state\<close>

text \<open>\<open>R\<close> relates the state before a computation to the state after it, whatever its outcome.\<close>

definition keeps :: "('s \<Rightarrow> 's \<Rightarrow> bool) \<Rightarrow> ('s, 'a) io \<Rightarrow> bool" where
  "keeps R m \<longleftrightarrow> (\<forall>s. R s (snd (m s)))"

lemma keepsD: "keeps R m \<Longrightarrow> m s = (r, s') \<Longrightarrow> R s s'"
  by (metis keeps_def snd_conv)

locale step_order =
  fixes R :: "'s \<Rightarrow> 's \<Rightarrow> bool"
  assumes R_refl: "R s s" and R_trans: "R s t \<Longrightarrow> R t u \<Longrightarrow> R s u"
begin

lemma keeps_unit: "keeps R (Pair z)" "keeps R (ret x)" "keeps R (raise e)" "keeps R (get_s f)" "keeps R (of_sum y)"
  by (simp_all add: keeps_def get_s_def R_refl)

lemma keeps_put: "(\<And>s. R s (f s)) \<Longrightarrow> keeps R (put_s f)"
  by (simp add: keeps_def put_s_def)

lemma keeps_bind: "keeps R m \<Longrightarrow> (\<And>x. keeps R (f x)) \<Longrightarrow> keeps R (bind_io m f)"
  unfolding keeps_def bind_io_def by (auto split: prod.splits sum.splits) (metis R_trans snd_conv)+

lemma keeps_catch: "keeps R m \<Longrightarrow> (\<And>e. keeps R (h e)) \<Longrightarrow> keeps R (catch_io P m h)"
  unfolding keeps_def catch_io_def by (auto split: prod.splits sum.splits) (metis R_trans snd_conv)+

lemma keeps_finally: "keeps R m \<Longrightarrow> keeps R c \<Longrightarrow> keeps R (finally_io m c)"
  unfolding keeps_def finally_io_def by (auto split: prod.splits sum.splits) (metis R_trans snd_conv)+

lemma keeps_pool:
  assumes "may_run (length tasks) sched" and "\<And>t. t \<in> set tasks \<Longrightarrow> keeps R t"
  shows "keeps R (pool_map sched tasks)"
  unfolding keeps_def
proof
  fix s
  obtain rs s' where run: "run_all sched tasks s = (rs, s')" by (cases "run_all sched tasks s")
  have "\<exists>f. rs = map f [0..<length tasks] \<and> R s s' \<and> (\<forall>i. i \<notin> set sched \<longrightarrow> f i = Inl OtherError)"
  proof (rule run_all_part_rule [where I = "\<lambda>_ _ t. R s t", OF _ assms(1) R_refl run])
    fix i t
    assume "i < length tasks" "R s t"
    with assms(2) [of "tasks ! i"] show "wp (tasks ! i) (\<lambda>r s'. R s s') t"
      by (auto simp: wp_def keeps_def split: prod.splits) (metis R_trans snd_conv)
  qed
  then have "R s s'" by blast
  then show "R s (snd (pool_map sched tasks s))" by (simp add: pool_map_def run)
qed

lemmas keeps_rules = keeps_unit keeps_bind keeps_catch keeps_finally keeps_pool

end

end
