(* ===== verification/Py_Url.thy ===== *)
theory Py_Url
  imports Daos_Prelude
begin

text \<open>
  The parts of Python's \<^verbatim>\<open>urllib.parse\<close> the program uses: \<^verbatim>\<open>urlparse\<close> with its scheme, network
  location, path and query, and \<^verbatim>\<open>parse_qs\<close>. A string of the model is the UTF-8 form of the
  Python string, so a percent escape stands for the byte it names.
\<close>

section \<open>String operations\<close>

text \<open>\<^verbatim>\<open>s.split(c)\<close>\<close>

fun split_on :: "char \<Rightarrow> string \<Rightarrow> string list" where
  "split_on c [] = [[]]"
| "split_on c (x # xs) =
     (if x = c then [] # split_on c xs
      else case split_on c xs of [] \<Rightarrow> [[x]] | y # ys \<Rightarrow> (x # y) # ys)"

text \<open>\<^verbatim>\<open>s.split(c, 1)\<close>: the part before the first \<open>c\<close> and, if there is one, the rest.\<close>

definition split_once :: "char \<Rightarrow> string \<Rightarrow> string \<times> string option" where
  "split_once c s =
     (takeWhile (\<lambda>x. x \<noteq> c) s, if c \<in> set s then Some (tl (dropWhile (\<lambda>x. x \<noteq> c) s)) else None)"

lemma split_on_Nil_iff [simp]: "split_on c s \<noteq> []"
  by (induction s) (auto split: list.splits)

lemma split_on_none: "c \<notin> set s \<Longrightarrow> split_on c s = [s]"
  by (induction s) auto

lemma split_on_append: "c \<notin> set a \<Longrightarrow> split_on c (a @ c # b) = a # split_on c b"
  by (induction a) auto

lemma split_once_append: "c \<notin> set a \<Longrightarrow> split_once c (a @ c # b) = (a, Some b)"
  by (induction a) (auto simp: split_once_def)

lemma split_once_none: "c \<notin> set a \<Longrightarrow> split_once c a = (a, None)"
  by (auto simp: split_once_def takeWhile_eq_all_conv)

section \<open>urlparse\<close>

record parsed_url =
  scheme :: string
  netloc :: string
  url_path :: string
  query :: string

definition is_alpha :: "char \<Rightarrow> bool" where
  "is_alpha c \<longleftrightarrow> c \<in> set ''abcdefghijklmnopqrstuvwxyzABCDEFGHIJKLMNOPQRSTUVWXYZ''"

definition scheme_char :: "char \<Rightarrow> bool" where
  "scheme_char c \<longleftrightarrow> is_alpha c \<or> c \<in> set ''0123456789+-.''"

definition to_lower :: "char \<Rightarrow> char" where
  "to_lower c = (if 65 \<le> (of_char c :: nat) \<and> (of_char c :: nat) \<le> 90 then char_of (of_char c + 32 :: nat) else c)"

definition uses_params :: "string list" where
  "uses_params = ['''', ''ftp'', ''hdl'', ''prospero'', ''http'', ''https'', ''shttp'', ''rtsp'', ''rtsps'',
     ''rtspu'', ''sip'', ''sips'', ''mms'', ''sftp'', ''tel'']"

text \<open>Leading control characters and spaces, and every tab, carriage return and newline, go.\<close>

definition clean_url :: "string \<Rightarrow> string" where
  "clean_url url = filter (\<lambda>c. (of_char c :: nat) \<notin> {9, 10, 13}) (dropWhile (\<lambda>c. (of_char c :: nat) \<le> 32) url)"

definition split_scheme :: "string \<Rightarrow> string \<times> string" where
  "split_scheme url = (case split_once CHR '':'' url of
     (a, Some rest) \<Rightarrow>
       if a \<noteq> [] \<and> is_alpha (hd a) \<and> list_all scheme_char a then (map to_lower a, rest) else ('''', url)
   | (a, None) \<Rightarrow> ('''', url))"

definition split_netloc :: "string \<Rightarrow> string \<times> string" where
  "split_netloc url =
     (if take 2 url = ''//''
      then (takeWhile (\<lambda>c. c \<notin> set ''/?#'') (drop 2 url), dropWhile (\<lambda>c. c \<notin> set ''/?#'') (drop 2 url))
      else ('''', url))"

text \<open>\<^verbatim>\<open>_splitparams\<close>: cut at the first \<open>;\<close> after the last slash.\<close>

definition split_params :: "string \<Rightarrow> string" where
  "split_params url =
     (let last = rev (takeWhile (\<lambda>c. c \<noteq> CHR ''/'') (rev url))
      in take (length url - length last) url @ fst (split_once CHR '';'' last))"

definition urlparse :: "string \<Rightarrow> exn + parsed_url" where
  "urlparse url0 =
     (let (sch, u1) = split_scheme (clean_url url0);
          (net, u2) = split_netloc u1;
          u3 = fst (split_once CHR ''#'' u2);
          (p, q) = split_once CHR ''?'' u3;
          p' = (if sch \<in> set uses_params \<and> CHR '';'' \<in> set p then split_params p else p)
      in if (CHR ''['' \<in> set net) \<noteq> (CHR '']'' \<in> set net) then Inl ValueError
         else Inr \<lparr>scheme = sch, netloc = net, url_path = p', query = (case q of None \<Rightarrow> '''' | Some s \<Rightarrow> s)\<rparr>)"

section \<open>parse\_qs\<close>

definition hex_val :: "char \<Rightarrow> nat option" where
  "hex_val c =
     (let n = of_char c :: nat in
      if 48 \<le> n \<and> n \<le> 57 then Some (n - 48)
      else if 65 \<le> n \<and> n \<le> 70 then Some (n - 55)
      else if 97 \<le> n \<and> n \<le> 102 then Some (n - 87) else None)"

fun unquote :: "string \<Rightarrow> string" where
  "unquote (c # a # b # s) =
     (case (c = CHR ''%'', hex_val a, hex_val b) of
        (True, Some x, Some y) \<Rightarrow> char_of (16 * x + y) # unquote s
      | _ \<Rightarrow> c # unquote (a # b # s))"
| "unquote s = s"

definition unquote_plus :: "string \<Rightarrow> string" where
  "unquote_plus s = unquote (map (\<lambda>c. if c = CHR ''+'' then CHR '' '' else c) s)"

text \<open>
  The (name, value) pairs of a query. A field without \<open>=\<close> or with an empty value is dropped, the
  defaults of \<^verbatim>\<open>parse_qs\<close>; \<open>qs_get\<close> is \<^verbatim>\<open>parse_qs(q).get(name, [None])[0]\<close>.
\<close>

definition parse_qsl :: "string \<Rightarrow> (string \<times> string) list" where
  "parse_qsl q = concat (map (\<lambda>nv. case split_once CHR ''='' nv of
       (n, Some v) \<Rightarrow> if v = [] then [] else [(unquote_plus n, unquote_plus v)]
     | (n, None) \<Rightarrow> []) (split_on CHR ''&'' q))"

definition qs_get :: "string \<Rightarrow> string \<Rightarrow> string option" where
  "qs_get q name = map_of (parse_qsl q) name"

section \<open>Plain words\<close>

text \<open>Letters, digits, dash, underscore, dot: the characters that mean only themselves in a URL.\<close>

definition plain_char :: "char \<Rightarrow> bool" where
  "plain_char c \<longleftrightarrow> is_alpha c \<or> c \<in> set ''0123456789-_.''"

definition plain :: "string \<Rightarrow> bool" where
  "plain s \<longleftrightarrow> s \<noteq> [] \<and> list_all plain_char s"

lemma plain_char_code: "plain_char c \<Longrightarrow> 45 \<le> (of_char c :: nat)"
  by (auto simp: plain_char_def is_alpha_def)

lemma special_not_plain: "c \<in> set ''/?#:;&=+%[] '' \<Longrightarrow> \<not> plain_char c"
  by (auto simp: plain_char_def is_alpha_def)

lemma plain_special:
  assumes "plain s" and "c \<in> set ''/?#:;&=+%[] ''"
  shows "c \<notin> set s"
  using assms(1) special_not_plain [OF assms(2)] unfolding plain_def list_all_iff by blast

lemma unquote_plain: "CHR ''%'' \<notin> set s \<Longrightarrow> unquote s = s"
  by (induction s rule: unquote.induct) auto

lemma unquote_plus_plain:
  assumes "plain s"
  shows "unquote_plus s = s"
proof -
  have "map (\<lambda>c. if c = CHR ''+'' then CHR '' '' else c) s = s"
    using plain_special [OF assms, of "CHR ''+''"] by (auto intro!: map_idI)
  then show ?thesis
    using plain_special [OF assms, of "CHR ''%''"] by (simp add: unquote_plus_def unquote_plain)
qed

end
