(* ===== verification/Py_Struct.thy ===== *)
theory Py_Struct
  imports Daos_Prelude
begin

text \<open>
  The part of Python's \<^verbatim>\<open>struct\<close> and \<^verbatim>\<open>zlib\<close> modules that the on-disk formats use: little-endian
  unsigned fields (\<^verbatim>\<open>I\<close> is four bytes, \<^verbatim>\<open>Q\<close> eight) with the range check of \<^verbatim>\<open>Struct.pack\<close>, and
  CRC-32 with its continuation argument. The lemmas are the round trip of the fields and the two
  facts the header formats rest on: CRC-32 runs over a concatenation piece by piece, and two
  messages of equal length that differ in one byte have different checksums.
\<close>

unbundle bit_operations_syntax

section \<open>Little-endian fields\<close>

primrec le :: "nat \<Rightarrow> nat \<Rightarrow> bytes" where
  "le 0 v = []"
| "le (Suc n) v = of_nat v # le n (v div 256)"

primrec un_le :: "bytes \<Rightarrow> nat" where
  "un_le [] = 0"
| "un_le (b # bs) = unat b + 256 * un_le bs"

text \<open>Unfolding a field of literal width, for evaluation on concrete values.\<close>

lemma le_eval: "le (numeral k) v = of_nat v # le (pred_numeral k) (v div 256)"
  unfolding numeral_eq_Suc [of k] by (rule le.simps)

lemma length_le [simp]: "length (le n v) = n"
  by (induction n arbitrary: v) auto

lemma un_le_le: "un_le (le n v) = v mod 256 ^ n"
proof (induction n arbitrary: v)
  case 0
  then show ?case by simp
next
  case (Suc n)
  have "v mod 256 ^ Suc n = v mod 256 + 256 * (v div 256 mod 256 ^ n)"
    by (simp add: mod_mult2_eq)
  with Suc show ?case by (simp add: unat_of_nat)
qed

lemma un_le_le_exact: "v < 256 ^ n \<Longrightarrow> un_le (le n v) = v"
  by (simp add: un_le_le)

lemma byte_less: "unat (b :: byte) < 256"
  using unsigned_less [of b, where 'a = nat] by simp

lemma un_le_bound: "un_le bs < 256 ^ length bs"
proof (induction bs)
  case Nil
  then show ?case by simp
next
  case (Cons b bs)
  with byte_less [of b] show ?case by simp
qed

lemma le_un_le: "le (length bs) (un_le bs) = bs"
proof (induction bs)
  case Nil
  then show ?case by simp
next
  case (Cons b bs)
  have "(unat b + 256 * un_le bs) div 256 = un_le bs"
    using byte_less [of b] by simp
  moreover have "of_nat (unat b + 256 * un_le bs) = b"
  proof -
    have "(256 :: byte) = 0" by simp
    then show ?thesis by (simp only: of_nat_add of_nat_mult of_nat_numeral) simp
  qed
  ultimately show ?case using Cons by simp
qed

lemma un_le_inj: "length a = length b \<Longrightarrow> un_le a = un_le b \<Longrightarrow> a = b"
  by (metis le_un_le)

text \<open>\<^verbatim>\<open>Struct.pack\<close> refuses a value that does not fit its field.\<close>

definition pack_field :: "nat \<Rightarrow> nat \<Rightarrow> exn + bytes" where
  "pack_field n v = (if v < 256 ^ n then Inr (le n v) else Inl StructError)"

section \<open>CRC-32\<close>

definition crc_poly :: "32 word" where
  "crc_poly = 0xEDB88320"

definition crc_bit :: "32 word \<Rightarrow> 32 word" where
  "crc_bit s = (if bit s 0 then drop_bit 1 s XOR crc_poly else drop_bit 1 s)"

definition crc_byte :: "32 word \<Rightarrow> byte \<Rightarrow> 32 word" where
  "crc_byte s b = (crc_bit ^^ 8) (s XOR ucast b)"

text \<open>\<^verbatim>\<open>zlib.crc32(data, value)\<close>, with the value and the result as 32-bit words.\<close>

definition crc32 :: "bytes \<Rightarrow> 32 word \<Rightarrow> 32 word" where
  "crc32 data v = NOT (fold (\<lambda>b s. crc_byte s b) data (NOT v))"

lemma crc32_append: "crc32 (a @ b) v = crc32 b (crc32 a v)"
  by (simp add: crc32_def)

lemma xor_cancel_right: "(a :: 32 word) XOR c = b XOR c \<longleftrightarrow> a = b"
  by (metis xor.assoc xor_self_eq xor.right_neutral)

lemma xor_cancel_left: "(c :: 32 word) XOR a = c XOR b \<longleftrightarrow> a = b"
  by (simp add: xor.commute [of c] xor_cancel_right)

lemma not_bit_32: "\<not> bit (s :: 32 word) 32"
  using bit_imp_le_length [of s 32] by auto

lemma bit_crc_bit_31: "bit (crc_bit s) 31 = bit s 0"
  by (simp add: crc_bit_def crc_poly_def bit_simps not_bit_32)

lemma crc_bit_inj: "crc_bit s = crc_bit t \<Longrightarrow> s = t"
proof (rule bit_eqI)
  fix n
  assume eq: "crc_bit s = crc_bit t" and "possible_bit TYPE(32 word) n"
  then have n: "n < 32" by simp
  from eq have z: "bit s 0 = bit t 0" by (metis bit_crc_bit_31)
  with eq have d: "drop_bit 1 s = drop_bit 1 t"
    by (auto simp: crc_bit_def xor_cancel_right split: if_splits)
  show "bit s n = bit t n"
  proof (cases n)
    case 0
    with z show ?thesis by simp
  next
    case (Suc m)
    with n d show ?thesis by (metis bit_drop_bit_eq comp_apply plus_1_eq_Suc)
  qed
qed

lemma inj_crc_bit_pow: "inj (crc_bit ^^ n)"
  by (induction n) (auto simp: inj_def dest: crc_bit_inj)

lemma crc_byte_state_inj: "crc_byte s b = crc_byte t b \<Longrightarrow> s = t"
  unfolding crc_byte_def by (drule injD [OF inj_crc_bit_pow]) (simp add: xor_cancel_right)

lemma ucast_byte_inj: "(ucast b :: 32 word) = ucast (c :: byte) \<Longrightarrow> b = c"
proof (rule bit_eqI)
  fix n
  assume eq: "(ucast b :: 32 word) = ucast c" and "possible_bit TYPE(byte) n"
  then have "n < 8" by simp
  with eq show "bit b n = bit c n"
    by (simp add: bit_eq_iff bit_simps)
qed

lemma crc_byte_data_inj: "crc_byte s b = crc_byte s c \<Longrightarrow> b = c"
  unfolding crc_byte_def
  by (drule injD [OF inj_crc_bit_pow]) (auto simp: xor_cancel_left dest: ucast_byte_inj)

lemma crc_fold_state_inj:
  "fold (\<lambda>b s. crc_byte s b) data s = fold (\<lambda>b s. crc_byte s b) data t \<Longrightarrow> s = t"
  by (induction data arbitrary: s t) (auto dest: crc_byte_state_inj)

lemma crc32_state_inj: "crc32 data v = crc32 data w \<Longrightarrow> v = w"
  by (auto simp: crc32_def dest: crc_fold_state_inj)

theorem crc32_detects_byte:
  assumes "i < length data" and "x \<noteq> data ! i"
  shows "crc32 (data[i := x]) v \<noteq> crc32 data v"
proof
  let ?f = "fold (\<lambda>b s. crc_byte s b)"
  assume eq: "crc32 (data[i := x]) v = crc32 data v"
  let ?s = "?f (take i data) (NOT v)"
  have "?f (data[i := x]) (NOT v) = ?f (drop (Suc i) data) (crc_byte ?s x)"
    using assms(1) by (simp add: upd_conv_take_nth_drop)
  moreover have "?f data (NOT v) = ?f (drop (Suc i) data) (crc_byte ?s (data ! i))"
    using assms(1) by (subst id_take_nth_drop [OF assms(1)]) simp
  ultimately have "crc_byte ?s x = crc_byte ?s (data ! i)"
    using eq by (auto simp: crc32_def dest: crc_fold_state_inj)
  with assms(2) show False by (auto dest: crc_byte_data_inj)
qed

end
