(* ===== verification/Serde.thy ===== *)
theory Serde
  imports Py_Struct
begin

text \<open>
  \<^verbatim>\<open>lmcache_daos/serde.py\<close>: the v1 object, \<open>[meta_len : u32][payload_len : u32][meta][payload]\<close>.
\<close>

definition prefix_size :: nat where
  "prefix_size = 8"

definition parse_prefix :: "bytes \<Rightarrow> exn + nat \<times> nat" where
  "parse_prefix prefix =
     (if length prefix \<noteq> prefix_size then Inl ValueError
      else Inr (un_le (take 4 prefix), un_le (drop 4 prefix)))"

definition prefix_pack :: "nat \<Rightarrow> nat \<Rightarrow> exn + bytes" where
  "prefix_pack meta_len payload_len =
     bind_sum (pack_field 4 meta_len) (\<lambda>m.
     bind_sum (pack_field 4 payload_len) (\<lambda>p. Inr (m @ p)))"

definition pack :: "bytes \<Rightarrow> bytes \<Rightarrow> exn + bytes" where
  "pack meta payload =
     bind_sum (prefix_pack (length meta) (length payload)) (\<lambda>pre. Inr (pre @ meta @ payload))"

definition unpack :: "bytes \<Rightarrow> exn + bytes \<times> bytes" where
  "unpack blob =
     bind_sum (parse_prefix (take prefix_size blob)) (\<lambda>(meta_len, payload_len).
       let mstart = prefix_size; pstart = mstart + meta_len
       in Inr (take meta_len (drop mstart blob), take payload_len (drop pstart blob)))"

lemma prefix_pack_Inr_iff:
  "prefix_pack m p = Inr pre \<longleftrightarrow> m < 2 ^ 32 \<and> p < 2 ^ 32 \<and> pre = le 4 m @ le 4 p"
  by (auto simp: prefix_pack_def pack_field_def)

lemma length_prefix_pack: "prefix_pack m p = Inr pre \<Longrightarrow> length pre = prefix_size"
  by (auto simp: prefix_pack_Inr_iff prefix_size_def)

lemma parse_prefix_pack:
  "prefix_pack m p = Inr pre \<Longrightarrow> parse_prefix pre = Inr (m, p)"
  by (auto simp: prefix_pack_Inr_iff parse_prefix_def prefix_size_def un_le_le)

lemma pack_Inr_iff:
  "pack meta payload = Inr blob \<longleftrightarrow>
     (\<exists>pre. prefix_pack (length meta) (length payload) = Inr pre \<and> blob = pre @ meta @ payload)"
  by (auto simp: pack_def bind_sum_Inr_iff)

text \<open>
  What the reader of a truncated v1 file can still see: below eight bytes the prefix is short, and
  from there on the two lengths are the writer's.
\<close>

lemma parse_prefix_short: "length b < prefix_size \<Longrightarrow> parse_prefix (take prefix_size b) = Inl ValueError"
  by (simp add: parse_prefix_def min_def)

lemma parse_prefix_truncated:
  assumes "prefix_pack m p = Inr pre" and "prefix_size \<le> k"
  shows "parse_prefix (take prefix_size (take k (pre @ rest))) = Inr (m, p)"
  using assms by (simp add: length_prefix_pack [OF assms(1)] min_def parse_prefix_pack)

text \<open>
  a v1 object splits back into its metadata and its payload, whatever bytes follow the object
  in the file.
\<close>

theorem unpack_pack:
  assumes "pack meta payload = Inr blob"
  shows "unpack (blob @ rest) = Inr (meta, payload)"
proof -
  from assms obtain pre where pre: "prefix_pack (length meta) (length payload) = Inr pre"
    and blob: "blob = pre @ meta @ payload"
    by (auto simp: pack_Inr_iff)
  from pre have "length pre = 8" by (simp add: length_prefix_pack prefix_size_def)
  with pre blob show ?thesis
    by (simp add: unpack_def prefix_size_def parse_prefix_pack)
qed

theorem unpack_pack_witness:
  "pack [1, 2, 3] [9, 8] = Inr [3, 0, 0, 0, 2, 0, 0, 0, 1, 2, 3, 9, 8] \<and>
   unpack ([3, 0, 0, 0, 2, 0, 0, 0, 1, 2, 3, 9, 8] @ [7]) = Inr ([1, 2, 3], [9, 8])"
proof -
  have "pack [1, 2, 3] [9, 8] = Inr [3, 0, 0, 0, 2, 0, 0, 0, 1, 2, 3, 9, 8]"
    by (simp add: pack_def prefix_pack_def pack_field_def le_eval)
  then show ?thesis using unpack_pack [of "[1, 2, 3]" "[9, 8]" _ "[7]"] by blast
qed

end
