(* ===== verification/Sha256.thy ===== *)
theory Sha256
  imports Daos_Prelude
begin

text \<open>
  \<^verbatim>\<open>hashlib.sha256\<close> of the Python standard library (FIPS 180-4), which names every stored object:
  \<^verbatim>\<open>digest()\<close> is the list of the 32 digest bytes and \<^verbatim>\<open>hexdigest()\<close> their 64 lower-case
  hexadecimal digits. The lemmas are the facts the name spaces of the program rest on: the length of
  a digest and the alphabet of its hexadecimal form.
\<close>

unbundle bit_operations_syntax

definition sha_K :: "32 word list" where
  "sha_K =
    [1116352408, 1899447441, 3049323471, 3921009573, 961987163, 1508970993, 2453635748, 2870763221,
     3624381080, 310598401, 607225278, 1426881987, 1925078388, 2162078206, 2614888103, 3248222580,
     3835390401, 4022224774, 264347078, 604807628, 770255983, 1249150122, 1555081692, 1996064986,
     2554220882, 2821834349, 2952996808, 3210313671, 3336571891, 3584528711, 113926993, 338241895,
     666307205, 773529912, 1294757372, 1396182291, 1695183700, 1986661051, 2177026350, 2456956037,
     2730485921, 2820302411, 3259730800, 3345764771, 3516065817, 3600352804, 4094571909, 275423344,
     430227734, 506948616, 659060556, 883997877, 958139571, 1322822218, 1537002063, 1747873779,
     1955562222, 2024104815, 2227730452, 2361852424, 2428436474, 2756734187, 3204031479, 3329325298]"

definition sha_init :: "32 word list" where
  "sha_init = [1779033703, 3144134277, 1013904242, 2773480762,
               1359893119, 2600822924, 528734635, 1541459225]"

definition sha_ch :: "32 word \<Rightarrow> 32 word \<Rightarrow> 32 word \<Rightarrow> 32 word" where
  "sha_ch x y z = (x AND y) XOR (NOT x AND z)"

definition sha_maj :: "32 word \<Rightarrow> 32 word \<Rightarrow> 32 word \<Rightarrow> 32 word" where
  "sha_maj x y z = (x AND y) XOR (x AND z) XOR (y AND z)"

definition big_sigma0 :: "32 word \<Rightarrow> 32 word" where
  "big_sigma0 x = word_rotr 2 x XOR word_rotr 13 x XOR word_rotr 22 x"

definition big_sigma1 :: "32 word \<Rightarrow> 32 word" where
  "big_sigma1 x = word_rotr 6 x XOR word_rotr 11 x XOR word_rotr 25 x"

definition small_sigma0 :: "32 word \<Rightarrow> 32 word" where
  "small_sigma0 x = word_rotr 7 x XOR word_rotr 18 x XOR drop_bit 3 x"

definition small_sigma1 :: "32 word \<Rightarrow> 32 word" where
  "small_sigma1 x = word_rotr 17 x XOR word_rotr 19 x XOR drop_bit 10 x"

text \<open>The message schedule, newest word first: word \<open>t\<close> from words \<open>t-2\<close>, \<open>t-7\<close>, \<open>t-15\<close>, \<open>t-16\<close>.\<close>

primrec sha_schedule :: "nat \<Rightarrow> 32 word list \<Rightarrow> 32 word list" where
  "sha_schedule 0 ws = ws"
| "sha_schedule (Suc n) ws =
     sha_schedule n
       ((small_sigma1 (ws ! 1) + ws ! 6 + small_sigma0 (ws ! 14) + ws ! 15) # ws)"

fun sha_round :: "32 word \<times> 32 word \<Rightarrow> 32 word list \<Rightarrow> 32 word list" where
  "sha_round (k, w) [a, b, c, d, e, f, g, h] =
     (let t1 = h + big_sigma1 e + sha_ch e f g + k + w;
          t2 = big_sigma0 a + sha_maj a b c
      in [t1 + t2, a, b, c, d + t1, e, f, g])"
| "sha_round _ hs = hs"

definition be_word :: "byte list \<Rightarrow> 32 word" where
  "be_word bs = fold (\<lambda>b acc. acc * 256 + ucast b) bs 0"

definition word_be :: "32 word \<Rightarrow> byte list" where
  "word_be w = [ucast (drop_bit 24 w), ucast (drop_bit 16 w), ucast (drop_bit 8 w), ucast w]"

fun be_words :: "byte list \<Rightarrow> 32 word list" where
  "be_words (a # b # c # d # rest) = be_word [a, b, c, d] # be_words rest"
| "be_words _ = []"

definition sha_block :: "byte list \<Rightarrow> 32 word list \<Rightarrow> 32 word list" where
  "sha_block blk hs =
     map2 (+) hs (fold sha_round (zip sha_K (rev (sha_schedule 48 (rev (be_words blk))))) hs)"

text \<open>The bit length as a 64-bit big-endian field, and the padding to a multiple of 64 bytes.\<close>

definition be64 :: "nat \<Rightarrow> byte list" where
  "be64 n = rev (map (\<lambda>i. of_nat (n div 256 ^ i)) [0..<8])"

definition sha_pad :: "byte list \<Rightarrow> byte list" where
  "sha_pad m = m @ [0x80] @ replicate ((119 - length m mod 64) mod 64) 0 @ be64 (8 * length m)"

function sha_blocks :: "byte list \<Rightarrow> 32 word list \<Rightarrow> 32 word list" where
  "sha_blocks m hs = (if length m < 64 then hs else sha_blocks (drop 64 m) (sha_block (take 64 m) hs))"
  by pat_completeness auto
termination
  by (relation "measure (\<lambda>(m, hs). length m)") auto

declare sha_blocks.simps [simp del]

definition sha256 :: "bytes \<Rightarrow> bytes" where
  "sha256 m = concat (map word_be (sha_blocks (sha_pad m) sha_init))"

definition hex_digit :: "nat \<Rightarrow> char" where
  "hex_digit n = ''0123456789abcdef'' ! (n mod 16)"

definition hex_of_bytes :: "bytes \<Rightarrow> string" where
  "hex_of_bytes bs = concat (map (\<lambda>b. [hex_digit (unat b div 16), hex_digit (unat b)]) bs)"

text \<open>\<^verbatim>\<open>s.encode()\<close>: a \<open>string\<close> of the model is the UTF-8 form of the Python string.\<close>

definition encode :: "string \<Rightarrow> bytes" where
  "encode s = map (of_nat \<circ> of_char) s"

section \<open>Shape of a digest\<close>

lemma length_sha_round: "length (sha_round kw hs) = length hs"
  by (cases "(kw, hs)" rule: sha_round.cases) (auto simp: Let_def)

lemma length_fold_sha_round: "length (fold sha_round kws hs) = length hs"
  by (induction kws arbitrary: hs) (auto simp: length_sha_round)

lemma length_sha_block: "length (sha_block blk hs) = length hs"
  by (simp add: sha_block_def length_fold_sha_round)

lemma length_sha_blocks: "length (sha_blocks m hs) = length hs"
  by (induction m hs rule: sha_blocks.induct) (subst sha_blocks.simps, simp add: length_sha_block)

lemma length_sha256 [simp]: "length (sha256 m) = 32"
  by (simp add: sha256_def length_concat comp_def word_be_def sum_list_triv length_sha_blocks
      sha_init_def)

definition hex_alphabet :: "char set" where
  "hex_alphabet = set ''0123456789abcdef''"

lemma hex_digit_alphabet: "hex_digit n \<in> hex_alphabet"
proof -
  have "n mod 16 < length ''0123456789abcdef''" by simp
  then show ?thesis unfolding hex_digit_def hex_alphabet_def by (rule nth_mem)
qed

lemma set_hex_of_bytes: "set (hex_of_bytes bs) \<subseteq> hex_alphabet"
  by (auto simp: hex_of_bytes_def hex_digit_alphabet)

lemma length_hex_of_bytes [simp]: "length (hex_of_bytes bs) = 2 * length bs"
  by (simp add: hex_of_bytes_def length_concat comp_def sum_list_triv)

lemma hex_digit_inj:
  assumes "hex_digit m = hex_digit n"
  shows "m mod 16 = n mod 16"
proof -
  have "distinct ''0123456789abcdef''" by simp
  with assms show ?thesis unfolding hex_digit_def
    by (subst (asm) nth_eq_iff_index_eq) auto
qed

lemma hex_of_bytes_inj: "hex_of_bytes a = hex_of_bytes b \<Longrightarrow> a = b"
proof (induction a arbitrary: b)
  case Nil
  then show ?case by (cases b) (auto simp: hex_of_bytes_def)
next
  case (Cons x xs)
  then obtain y ys where b: "b = y # ys"
    by (cases b) (auto simp: hex_of_bytes_def)
  with Cons.prems have "hex_digit (unat x div 16) = hex_digit (unat y div 16)"
    and "hex_digit (unat x) = hex_digit (unat y)" and tl: "hex_of_bytes xs = hex_of_bytes ys"
    by (auto simp: hex_of_bytes_def)
  moreover have "unat z div 16 < 16" for z :: byte
    using unsigned_less [of z, where 'a = nat] by simp
  ultimately have "unat x div 16 = unat y div 16" and "unat x mod 16 = unat y mod 16"
    by (auto dest!: hex_digit_inj)
  then have "unat x = unat y" by (metis div_mult_mod_eq)
  then have "x = y" by (simp add: word_unat_eq_iff)
  with Cons.IH [OF tl] b show ?case by simp
qed

lemma encode_inj: "encode a = encode b \<Longrightarrow> a = b"
proof -
  have "inj (of_nat \<circ> of_char :: char \<Rightarrow> byte)"
  proof (rule injI)
    fix c d :: char
    assume "(of_nat \<circ> of_char) c = ((of_nat \<circ> of_char) d :: byte)"
    then have "unat (of_nat (of_char c) :: byte) = unat (of_nat (of_char d) :: byte)" by simp
    then have "(of_char c :: nat) = of_char d" by (simp add: unat_of_nat)
    then show "c = d" by simp
  qed
  then show "encode a = encode b \<Longrightarrow> a = b"
    by (simp add: encode_def inj_map_eq_map)
qed

end
