(* ===== verification/Py_Key.thy ===== *)
theory Py_Key
  imports Sha256
begin

text \<open>
  A cache key as the program sees it. \<^verbatim>\<open>CacheEngineKey\<close> and \<^verbatim>\<open>LayerCacheEngineKey\<close> belong to
  LMCache; the program reads from a key only what this record holds: the text of \<^verbatim>\<open>to_string()\<close>
  if the key has that method, the text of \<^verbatim>\<open>str(key)\<close>, the attribute \<^verbatim>\<open>layer_id\<close>, and what the
  first base class with a \<^verbatim>\<open>to_string\<close> of its own renders for the same key.
\<close>

record pykey =
  to_string :: "string option"
  str_of :: string
  layer_id :: "int option"
  base_to_string :: "string option"

definition key_string :: "pykey \<Rightarrow> string" where
  "key_string key = (case to_string key of Some s \<Rightarrow> s | None \<Rightarrow> str_of key)"

definition sha256_hex :: "string \<Rightarrow> string" where
  "sha256_hex s = hex_of_bytes (sha256 (encode s))"

lemma length_sha256_hex [simp]: "length (sha256_hex s) = 64"
  by (simp add: sha256_hex_def)

lemma set_sha256_hex: "set (sha256_hex s) \<subseteq> hex_alphabet"
  by (simp add: sha256_hex_def set_hex_of_bytes)

lemma sha256_hex_no: "c \<notin> hex_alphabet \<Longrightarrow> c \<notin> set (sha256_hex s)"
  using set_sha256_hex by blast

lemma hex_alphabet_no [simp]:
  "CHR ''/'' \<notin> hex_alphabet" "CHR ''.'' \<notin> hex_alphabet" "CHR ''-'' \<notin> hex_alphabet"
  by (auto simp: hex_alphabet_def)

lemma sha256_hex_eq_iff: "sha256_hex a = sha256_hex b \<longleftrightarrow> sha256 (encode a) = sha256 (encode b)"
  by (auto simp: sha256_hex_def dest: hex_of_bytes_inj)

end
