(* ===== verification/Serde_V2.thy ===== *)
theory Serde_V2
  imports Py_Struct Py_Key Serde
begin

text \<open>
  \<^verbatim>\<open>lmcache_daos/serde_v2.py\<close>: the v2 header page, a 36-byte fixed part followed by the metadata
  and zero fill up to 4096 bytes, with the payload at offset 4096.
\<close>

definition MAGIC :: bytes where
  "MAGIC = [0x4C, 0x4D, 0x44, 0x47, 0x44, 0x53, 0x32, 0]"

definition VERSION :: nat where "VERSION = 2"
definition HEADER_SIZE :: nat where "HEADER_SIZE = 4096"
definition STATE_WRITING :: int where "STATE_WRITING = 0"
definition STATE_COMMITTED :: int where "STATE_COMMITTED = 1"
definition FIXED_SIZE :: nat where "FIXED_SIZE = 36"
definition MAX_META :: nat where "MAX_META = HEADER_SIZE - FIXED_SIZE"
definition V2_PREFIX :: string where "V2_PREFIX = ''/v2''"

lemmas v2_sizes = HEADER_SIZE_def FIXED_SIZE_def MAX_META_def

record header =
  state :: int
  meta :: bytes
  payload_len :: nat

definition committed :: "header \<Rightarrow> bool" where
  "committed h \<longleftrightarrow> state h = STATE_COMMITTED"

definition total_len :: "header \<Rightarrow> nat" where
  "total_len h = HEADER_SIZE + payload_len h"

text \<open>\<^verbatim>\<open>struct.pack("<8sIIIIQ", MAGIC, VERSION, state, len(meta), 0, payload_len)\<close>.\<close>

definition pack_crc_part :: "int \<Rightarrow> nat \<Rightarrow> int \<Rightarrow> exn + bytes" where
  "pack_crc_part st ml pl =
     (if 0 \<le> st \<and> st < 2 ^ 32 \<and> ml < 2 ^ 32 \<and> 0 \<le> pl \<and> pl < 2 ^ 64
      then Inr (MAGIC @ le 4 VERSION @ le 4 (nat st) @ le 4 ml @ le 4 0 @ le 8 (nat pl))
      else Inl StructError)"

definition v2_crc :: "int \<Rightarrow> bytes \<Rightarrow> int \<Rightarrow> exn + 32 word" where
  "v2_crc st m pl =
     bind_sum (pack_crc_part st (length m) pl) (\<lambda>fixed. Inr (crc32 m (crc32 fixed 0)))"

text \<open>\<^verbatim>\<open>_FIXED.pack(MAGIC, VERSION, state, len(meta), 0, payload_len, _crc(...))\<close>.\<close>

definition pack_FIXED :: "int \<Rightarrow> bytes \<Rightarrow> int \<Rightarrow> exn + bytes" where
  "pack_FIXED st m pl =
     bind_sum (v2_crc st m pl) (\<lambda>crc.
     bind_sum (pack_crc_part st (length m) pl) (\<lambda>fixed. Inr (fixed @ le 4 (unat crc))))"

definition pack_header :: "bytes \<Rightarrow> int \<Rightarrow> int \<Rightarrow> exn + bytes" where
  "pack_header m pl st =
     (if MAX_META < length m then Inl ValueError
      else if pl < 0 then Inl ValueError
      else if st \<notin> {STATE_WRITING, STATE_COMMITTED} then Inl ValueError
      else bind_sum (pack_FIXED st m pl) (\<lambda>fixed.
             let page = fixed @ m in Inr (page @ replicate (HEADER_SIZE - length page) 0)))"

text \<open>The little-endian field of \<open>n\<close> bytes at offset \<open>off\<close>.\<close>

definition field_at :: "nat \<Rightarrow> nat \<Rightarrow> bytes \<Rightarrow> nat" where
  "field_at off n page = un_le (take n (drop off page))"

definition parse_header :: "bytes \<Rightarrow> bool \<Rightarrow> exn + header" where
  "parse_header page require_committed =
     (if length page < FIXED_SIZE then Inl BadHeader
      else let magic = take 8 page; version = field_at 8 4 page; st = int (field_at 12 4 page);
               meta_len = field_at 16 4 page; pl = field_at 24 8 page; crc = field_at 32 4 page
           in if magic \<noteq> MAGIC then Inl BadHeader
              else if version \<noteq> VERSION then Inl BadHeader
              else if MAX_META < meta_len then Inl BadHeader
              else if length page < FIXED_SIZE + meta_len then Inl BadHeader
              else let m = take meta_len (drop FIXED_SIZE page)
                   in bind_sum (v2_crc st m (int pl)) (\<lambda>c.
                        if unat c \<noteq> crc then Inl BadHeader
                        else if require_committed \<and> st \<noteq> STATE_COMMITTED then Inl BadHeader
                        else Inr \<lparr>state = st, meta = m, payload_len = pl\<rparr>))"

definition payload_offset :: nat where
  "payload_offset = HEADER_SIZE"

definition check_payload_len :: "header \<Rightarrow> nat \<Rightarrow> bool" where
  "check_payload_len hdr got \<longleftrightarrow> got = payload_len hdr"

definition v2_key_to_path :: "pykey \<Rightarrow> string" where
  "v2_key_to_path key = V2_PREFIX @ ''/'' @ sha256_hex (key_string key)"

text \<open>
  \<^verbatim>\<open>final.rpartition("/")\<close> gives the text before the last slash and the text after it; without a
  slash the first part is empty and the second is the whole string.
\<close>

definition rpartition :: "char \<Rightarrow> string \<Rightarrow> string \<times> string" where
  "rpartition c s =
     (if c \<in> set s
      then (rev (tl (dropWhile (\<lambda>x. x \<noteq> c) (rev s))), rev (takeWhile (\<lambda>x. x \<noteq> c) (rev s)))
      else ([], s))"

definition temp_path :: "string \<Rightarrow> string \<Rightarrow> string" where
  "temp_path final nonce =
     (let (d, name) = rpartition CHR ''/'' final in d @ ''/.tmp-'' @ name @ ''-'' @ nonce)"

definition split_v1_blob :: "bytes \<Rightarrow> exn + bytes \<times> bytes" where
  "split_v1_blob blob = unpack blob"

section \<open>Parsing a page given field by field\<close>

definition page_of :: "bytes \<Rightarrow> bytes \<Rightarrow> bytes \<Rightarrow> bytes \<Rightarrow> bytes \<Rightarrow> bytes \<Rightarrow> bytes \<Rightarrow> bytes \<Rightarrow> bytes" where
  "page_of mg v st ml rs pl c rest = mg @ v @ st @ ml @ rs @ pl @ c @ rest"

definition fields_ok :: "bytes \<Rightarrow> bytes \<Rightarrow> bytes \<Rightarrow> bytes \<Rightarrow> bytes \<Rightarrow> bytes \<Rightarrow> bytes \<Rightarrow> bool" where
  "fields_ok mg v st ml rs pl c \<longleftrightarrow>
     length mg = 8 \<and> length v = 4 \<and> length st = 4 \<and> length ml = 4 \<and> length rs = 4 \<and>
     length pl = 8 \<and> length c = 4"

text \<open>The bytes the checksum runs over, for the fields as they are stored.\<close>

definition crc_message :: "bytes \<Rightarrow> bytes \<Rightarrow> bytes \<Rightarrow> bytes \<Rightarrow> bytes" where
  "crc_message st ml pl m = MAGIC @ le 4 VERSION @ st @ ml @ le 4 0 @ pl @ m"

lemma length_MAGIC [simp]: "length MAGIC = 8"
  by (simp add: MAGIC_def)

lemma un_le_less:
  "length b = 4 \<Longrightarrow> un_le b < 2 ^ 32"
  "length b = 8 \<Longrightarrow> un_le b < 2 ^ 64"
  using un_le_bound [of b] by simp_all

lemma v2_crc_fields:
  assumes "length st = 4" and "length ml = 4" and "length pl = 8" and "length m = un_le ml"
  shows "v2_crc (int (un_le st)) m (int (un_le pl)) = Inr (crc32 (crc_message st ml pl m) 0)"
  using assms un_le_less [of st] un_le_less [of ml] un_le_less [of pl]
    le_un_le [of st] le_un_le [of ml] le_un_le [of pl]
  by (simp add: v2_crc_def pack_crc_part_def crc_message_def crc32_append)

lemma parse_page_of:
  assumes "fields_ok mg v st ml rs pl c"
  shows "parse_header (page_of mg v st ml rs pl c rest) rq =
     (if mg \<noteq> MAGIC \<or> un_le v \<noteq> VERSION \<or> MAX_META < un_le ml \<or> length rest < un_le ml then Inl BadHeader
      else let m = take (un_le ml) rest
           in if unat (crc32 (crc_message st ml pl m) 0) \<noteq> un_le c then Inl BadHeader
              else if rq \<and> int (un_le st) \<noteq> STATE_COMMITTED then Inl BadHeader
              else Inr \<lparr>state = int (un_le st), meta = m, payload_len = un_le pl\<rparr>)"
proof -
  have len: "length mg = 8" "length v = 4" "length st = 4" "length ml = 4" "length rs = 4"
      "length pl = 8" "length c = 4"
    using assms by (auto simp: fields_ok_def)
  have fld: "take 8 (page_of mg v st ml rs pl c rest) = mg"
      "field_at 8 4 (page_of mg v st ml rs pl c rest) = un_le v"
      "field_at 12 4 (page_of mg v st ml rs pl c rest) = un_le st"
      "field_at 16 4 (page_of mg v st ml rs pl c rest) = un_le ml"
      "field_at 24 8 (page_of mg v st ml rs pl c rest) = un_le pl"
      "field_at 32 4 (page_of mg v st ml rs pl c rest) = un_le c"
      "drop FIXED_SIZE (page_of mg v st ml rs pl c rest) = rest"
      "length (page_of mg v st ml rs pl c rest) = FIXED_SIZE + length rest"
    using len by (simp_all add: field_at_def page_of_def FIXED_SIZE_def)
  have crc: "\<not> length rest < un_le ml \<Longrightarrow>
      v2_crc (int (un_le st)) (take (un_le ml) rest) (int (un_le pl)) =
      Inr (crc32 (crc_message st ml pl (take (un_le ml) rest)) 0)"
    using len by (intro v2_crc_fields) auto
  show ?thesis
    unfolding parse_header_def Let_def fld using crc by auto
qed

text \<open>Every page that is long enough is given by its fields.\<close>

lemma page_ofE:
  assumes "FIXED_SIZE \<le> length page"
  obtains mg v st ml rs pl c rest where "fields_ok mg v st ml rs pl c"
    and "page = page_of mg v st ml rs pl c rest"
proof -
  let ?f = "\<lambda>off n. take n (drop off page)"
  have "fields_ok (?f 0 8) (?f 8 4) (?f 12 4) (?f 16 4) (?f 20 4) (?f 24 8) (?f 32 4)"
    using assms by (simp add: fields_ok_def FIXED_SIZE_def)
  moreover have "page = page_of (?f 0 8) (?f 8 4) (?f 12 4) (?f 16 4) (?f 20 4) (?f 24 8) (?f 32 4) (drop 36 page)"
  proof -
    have split: "take n xs @ take m (drop n xs) = take (n + m) xs" for n m :: nat and xs :: bytes
      by (simp add: take_add)
    show ?thesis unfolding page_of_def drop_0
      by (simp add: append_assoc [symmetric] del: append_assoc) (simp add: split append_assoc [symmetric] del: append_assoc)
  qed
  ultimately show ?thesis by (rule that)
qed

lemma length_page_of:
  "fields_ok mg v st ml rs pl c \<Longrightarrow> length (page_of mg v st ml rs pl c rest) = FIXED_SIZE + length rest"
  by (simp add: fields_ok_def page_of_def FIXED_SIZE_def)

section \<open>The page that the writer builds\<close>

definition header_crc :: "bytes \<Rightarrow> int \<Rightarrow> int \<Rightarrow> nat" where
  "header_crc m pl st =
     unat (crc32 (crc_message (le 4 (nat st)) (le 4 (length m)) (le 8 (nat pl)) m) 0)"

definition header_image :: "bytes \<Rightarrow> int \<Rightarrow> int \<Rightarrow> bytes \<Rightarrow> bytes" where
  "header_image m pl st rest =
     page_of MAGIC (le 4 VERSION) (le 4 (nat st)) (le 4 (length m)) (le 4 0) (le 8 (nat pl))
       (le 4 (header_crc m pl st)) (m @ rest)"

text \<open>The arguments for which a writer gets a header at all.\<close>

definition header_args :: "bytes \<Rightarrow> int \<Rightarrow> int \<Rightarrow> bool" where
  "header_args m pl st \<longleftrightarrow>
     length m \<le> MAX_META \<and> 0 \<le> pl \<and> pl < 2 ^ 64 \<and> st \<in> {STATE_WRITING, STATE_COMMITTED}"

lemma fields_ok_image:
  "fields_ok MAGIC (le 4 VERSION) (le 4 (nat st)) (le 4 (length m)) (le 4 0) (le 8 (nat pl))
     (le 4 (header_crc m pl st))"
  by (simp add: fields_ok_def)

lemma crc_word_less: "unat (w :: 32 word) < 2 ^ 32"
  using unsigned_less [of w, where 'a = nat] by simp

lemma header_args_fields:
  assumes "header_args m pl st"
  shows "un_le (le 4 (nat st)) = nat st" and "un_le (le 4 (length m)) = length m"
    and "un_le (le 8 (nat pl)) = nat pl" and "un_le (le 4 (header_crc m pl st)) = header_crc m pl st"
    and "int (nat st) = st" and "un_le (le 4 VERSION) = VERSION" and "length m < 2 ^ 32"
  using assms crc_word_less
  by (auto simp: header_args_def v2_sizes STATE_WRITING_def STATE_COMMITTED_def VERSION_def
      header_crc_def un_le_le nat_less_iff)

lemma pack_FIXED_image:
  assumes "header_args m pl st"
  shows "bind_sum (pack_FIXED st m pl) (\<lambda>fixed. Inr (fixed @ m @ rest)) = Inr (header_image m pl st rest)"
proof -
  have "0 \<le> st" "st < 2 ^ 32" "length m < 2 ^ 32" "0 \<le> pl" "pl < 2 ^ 64"
    using assms by (auto simp: header_args_def STATE_WRITING_def STATE_COMMITTED_def v2_sizes)
  then show ?thesis
    by (simp add: pack_FIXED_def v2_crc_def pack_crc_part_def header_image_def page_of_def
        header_crc_def crc_message_def crc32_append)
qed

lemma pack_FIXED_refuses:
  "\<not> (0 \<le> pl \<and> pl < 2 ^ 64) \<Longrightarrow> pack_FIXED st m pl = Inl StructError"
  by (auto simp: pack_FIXED_def v2_crc_def pack_crc_part_def)

lemma pack_header_Inr_iff:
  "pack_header m pl st = Inr page \<longleftrightarrow>
     header_args m pl st \<and> page = header_image m pl st (replicate (MAX_META - length m) 0)"
proof (cases "header_args m pl st")
  case True
  have "pack_header m pl st =
      bind_sum (pack_FIXED st m pl) (\<lambda>fixed. Inr (fixed @ m @ replicate (HEADER_SIZE - length (fixed @ m)) 0))"
    using True by (simp add: pack_header_def header_args_def Let_def)
  also have "\<dots> = bind_sum (pack_FIXED st m pl) (\<lambda>fixed. Inr (fixed @ m @ replicate (MAX_META - length m) 0))"
    by (auto simp: pack_FIXED_def v2_crc_def pack_crc_part_def v2_sizes)
  also have "\<dots> = Inr (header_image m pl st (replicate (MAX_META - length m) 0))"
    using True by (rule pack_FIXED_image)
  finally show ?thesis using True by auto
next
  case False
  then show ?thesis
    by (auto simp: pack_header_def header_args_def pack_FIXED_refuses not_less)
qed

lemma parse_image:
  assumes "header_args m pl st"
  shows "parse_header (header_image m pl st rest) rq =
     (if rq \<and> st \<noteq> STATE_COMMITTED then Inl BadHeader
      else Inr \<lparr>state = st, meta = m, payload_len = nat pl\<rparr>)"
  unfolding header_image_def parse_page_of [OF fields_ok_image] header_args_fields [OF assms]
  using assms by (simp add: header_args_def Let_def header_crc_def)

lemma length_header_image:
  "length (header_image m pl st rest) = FIXED_SIZE + length m + length rest"
  by (simp add: header_image_def length_page_of [OF fields_ok_image])

lemma take_header_image:
  assumes "FIXED_SIZE \<le> k"
  shows "take k (header_image m pl st rest) =
     page_of MAGIC (le 4 VERSION) (le 4 (nat st)) (le 4 (length m)) (le 4 0) (le 8 (nat pl))
       (le 4 (header_crc m pl st)) (take (k - FIXED_SIZE) (m @ rest))"
  using assms by (simp add: header_image_def page_of_def FIXED_SIZE_def)

lemma parse_cut_image:
  assumes "header_args m pl st" and "k < FIXED_SIZE + length m"
  shows "parse_header (take k (header_image m pl st rest)) rq = Inl BadHeader"
proof (cases "k < FIXED_SIZE")
  case True
  then show ?thesis by (simp add: parse_header_def length_header_image)
next
  case False
  with assms(2) have "k - FIXED_SIZE < length m" by simp
  with False show ?thesis
    by (simp add: take_header_image parse_page_of [OF fields_ok_image] header_args_fields [OF assms(1)])
qed

lemma parse_only_BadHeader: "parse_header b rq = Inl e \<Longrightarrow> e = BadHeader"
proof (cases "FIXED_SIZE \<le> length b")
  case True
  then obtain mg v st ml rs pl c rest where "fields_ok mg v st ml rs pl c"
    and "b = page_of mg v st ml rs pl c rest" by (rule page_ofE)
  then show "parse_header b rq = Inl e \<Longrightarrow> e = BadHeader"
    by (auto simp: parse_page_of Let_def split: if_splits)
qed (simp add: parse_header_def)

lemma parse_Inr_committed: "parse_header b True = Inr h \<Longrightarrow> committed h"
proof (cases "FIXED_SIZE \<le> length b")
  case True
  then obtain mg v st ml rs pl c rest where "fields_ok mg v st ml rs pl c"
    and "b = page_of mg v st ml rs pl c rest" by (rule page_ofE)
  then show "parse_header b True = Inr h \<Longrightarrow> committed h"
    by (auto simp: parse_page_of Let_def committed_def split: if_splits)
qed (simp add: parse_header_def)

section \<open>The contract of a header codec\<close>

text \<open>
  What a reader of stored headers relies on, for the padded v2 page and the unpadded v3 record
  alike: the writer's header comes back, a cut anywhere in the fixed part or the metadata is
  refused, a refusal is always a \<open>BadHeader\<close> (which every reader turns into a miss), and what a
  strict parse accepts is committed.
\<close>

locale header_codec =
  fixes pack :: "bytes \<Rightarrow> int \<Rightarrow> int \<Rightarrow> exn + bytes"
    and parse :: "bytes \<Rightarrow> bool \<Rightarrow> exn + header"
  assumes pack_args: "(\<exists>b. pack m pl st = Inr b) \<longleftrightarrow> header_args m pl st"
    and parse_packed: "pack m pl st = Inr b \<Longrightarrow> FIXED_SIZE + length m \<le> k \<Longrightarrow> parse (take k b @ rest) rq =
       (if rq \<and> st \<noteq> STATE_COMMITTED then Inl BadHeader
        else Inr \<lparr>state = st, meta = m, payload_len = nat pl\<rparr>)"
    and parse_cut: "pack m pl st = Inr b \<Longrightarrow> k < FIXED_SIZE + length m \<Longrightarrow> parse (take k b) rq = Inl BadHeader"
    and parse_refusal: "parse b rq = Inl e \<Longrightarrow> e = BadHeader"
    and parse_strict: "parse b True = Inr h \<Longrightarrow> committed h"
    and pack_length: "pack m pl st = Inr b \<Longrightarrow> FIXED_SIZE + length m \<le> length b"
begin

lemma parse_whole:
  assumes "pack m pl st = Inr b"
  shows "parse (b @ rest) rq =
       (if rq \<and> st \<noteq> STATE_COMMITTED then Inl BadHeader
        else Inr \<lparr>state = st, meta = m, payload_len = nat pl\<rparr>)"
  using parse_packed [OF assms pack_length [OF assms]] by simp

lemma parse_committed: "pack m pl STATE_COMMITTED = Inr b \<Longrightarrow>
    parse b rq = Inr \<lparr>state = STATE_COMMITTED, meta = m, payload_len = nat pl\<rparr>"
  using parse_whole [of m pl STATE_COMMITTED b "[]" rq] by simp

lemma parse_writing: "pack m pl STATE_WRITING = Inr b \<Longrightarrow> parse (b @ rest) True = Inl BadHeader"
  by (simp add: parse_whole STATE_WRITING_def STATE_COMMITTED_def)

text \<open>Reading any prefix of a stored header gives the writer's header or a refusal, nothing else.\<close>

lemma parse_prefix_all_or_nothing:
  assumes "pack m pl st = Inr b"
  shows "parse (take k b) True =
    (if k < FIXED_SIZE + length m \<or> st \<noteq> STATE_COMMITTED then Inl BadHeader
     else Inr \<lparr>state = STATE_COMMITTED, meta = m, payload_len = nat pl\<rparr>)"
proof (cases "k < FIXED_SIZE + length m")
  case True
  then show ?thesis using parse_cut [OF assms, of k True] by simp
next
  case False
  then show ?thesis using parse_packed [OF assms, of k "[]" True] by simp
qed

end

interpretation v2: header_codec pack_header parse_header
proof unfold_locales
  fix m b rest h e and pl st :: int and rq k
  show "(\<exists>b. pack_header m pl st = Inr b) \<longleftrightarrow> header_args m pl st"
    by (auto simp: pack_header_Inr_iff)
  show "parse_header (take k b @ rest) rq = (if rq \<and> st \<noteq> STATE_COMMITTED then Inl BadHeader
      else Inr \<lparr>state = st, meta = m, payload_len = nat pl\<rparr>)"
    if "pack_header m pl st = Inr b" "FIXED_SIZE + length m \<le> k"
  proof -
    from that have "header_args m pl st" and "take k b @ rest =
        header_image m pl st (take (k - FIXED_SIZE - length m) (replicate (MAX_META - length m) 0) @ rest)"
      by (auto simp: pack_header_Inr_iff header_image_def page_of_def FIXED_SIZE_def)
    then show ?thesis by (simp only: parse_image)
  qed
  show "parse_header (take k b) rq = Inl BadHeader"
    if "pack_header m pl st = Inr b" "k < FIXED_SIZE + length m"
    using that by (auto simp: pack_header_Inr_iff intro: parse_cut_image)
  show "FIXED_SIZE + length m \<le> length b" if "pack_header m pl st = Inr b"
    using that by (auto simp: pack_header_Inr_iff length_header_image)
qed (auto intro: parse_only_BadHeader parse_Inr_committed)

section \<open>Detection of corrupted bytes\<close>

lemma crc_message_update:
  assumes "length st = 4" and "length ml = 4" and "length pl = 8"
  shows "i < 4 \<Longrightarrow> crc_message (st[i := x]) ml pl m = (crc_message st ml pl m)[12 + i := x]"
    and "i < 8 \<Longrightarrow> crc_message st ml (pl[i := x]) m = (crc_message st ml pl m)[24 + i := x]"
    and "i < length m \<Longrightarrow> crc_message st ml pl (m[i := x]) = (crc_message st ml pl m)[32 + i := x]"
  using assms by (simp_all add: crc_message_def list_update_append)

lemma nth_crc_message:
  assumes "length st = 4" and "length ml = 4" and "length pl = 8"
  shows "i < 4 \<Longrightarrow> crc_message st ml pl m ! (12 + i) = st ! i"
    and "i < 8 \<Longrightarrow> crc_message st ml pl m ! (24 + i) = pl ! i"
    and "i < length m \<Longrightarrow> crc_message st ml pl m ! (32 + i) = m ! i"
  using assms by (simp_all add: crc_message_def nth_append)

lemma length_crc_message:
  "length st = 4 \<Longrightarrow> length ml = 4 \<Longrightarrow> length pl = 8 \<Longrightarrow> length (crc_message st ml pl m) = 32 + length m"
  by (simp add: crc_message_def)

text \<open>A page whose checksummed bytes differ in one place from those its checksum was made for.\<close>

lemma parse_crc_mismatch:
  assumes ok: "fields_ok mg v st ml rs pl c" and "un_le ml \<le> length rest"
    and c: "un_le c = unat (crc32 msg 0)" and "i < length msg" and "x \<noteq> msg ! i"
    and upd: "crc_message st ml pl (take (un_le ml) rest) = msg[i := x]"
  shows "parse_header (page_of mg v st ml rs pl c rest) rq = Inl BadHeader"
proof -
  have "crc32 (msg[i := x]) 0 \<noteq> crc32 msg 0"
    using assms(4,5) by (rule crc32_detects_byte)
  then have "unat (crc32 (msg[i := x]) 0) \<noteq> un_le c"
    using c by (simp add: word_unat_eq_iff)
  then show ?thesis by (simp add: parse_page_of [OF ok] upd Let_def)
qed

text \<open>One byte of a page, field by field: the first component updates it, the second reads it.\<close>

lemma page_of_byte:
  fixes rest :: bytes
  assumes "fields_ok mg v st ml rs pl c"
  defines "p \<equiv> page_of mg v st ml rs pl c rest"
  shows "j < 8 \<Longrightarrow> p[j := x] = page_of (mg[j := x]) v st ml rs pl c rest \<and> p ! j = mg ! j"
    and "j < 4 \<Longrightarrow> p[8 + j := x] = page_of mg (v[j := x]) st ml rs pl c rest \<and> p ! (8 + j) = v ! j"
    and "j < 4 \<Longrightarrow> p[12 + j := x] = page_of mg v (st[j := x]) ml rs pl c rest \<and> p ! (12 + j) = st ! j"
    and "j < 4 \<Longrightarrow> p[20 + j := x] = page_of mg v st ml (rs[j := x]) pl c rest \<and> p ! (20 + j) = rs ! j"
    and "j < 8 \<Longrightarrow> p[24 + j := x] = page_of mg v st ml rs (pl[j := x]) c rest \<and> p ! (24 + j) = pl ! j"
    and "j < 4 \<Longrightarrow> p[32 + j := x] = page_of mg v st ml rs pl (c[j := x]) rest \<and> p ! (32 + j) = c ! j"
    and "p[36 + j := x] = page_of mg v st ml rs pl c (rest[j := x]) \<and> p ! (36 + j) = rest ! j"
  using assms(1) by (simp_all add: p_def fields_ok_def page_of_def list_update_append nth_append)

lemma fields_ok_update [simp]:
  "fields_ok (mg[i := x]) v st ml rs pl c = fields_ok mg v st ml rs pl c"
  "fields_ok mg (v[i := x]) st ml rs pl c = fields_ok mg v st ml rs pl c"
  "fields_ok mg v (st[i := x]) ml rs pl c = fields_ok mg v st ml rs pl c"
  "fields_ok mg v st ml (rs[i := x]) pl c = fields_ok mg v st ml rs pl c"
  "fields_ok mg v st ml rs (pl[i := x]) c = fields_ok mg v st ml rs pl c"
  "fields_ok mg v st ml rs pl (c[i := x]) = fields_ok mg v st ml rs pl c"
  by (simp_all add: fields_ok_def)

lemma list_update_neq: "i < length xs \<Longrightarrow> x \<noteq> xs ! i \<Longrightarrow> xs[i := x] \<noteq> xs"
  by (metis nth_list_update_eq)

text \<open>
  One changed byte of a stored header image: refused in the magic, the version, the state, the
  payload length, the checksum and the metadata; without effect in the reserved word.
\<close>

lemma parse_image_flip:
  assumes args: "header_args m pl st" and i: "i < FIXED_SIZE + length m" and "i \<notin> {16..<24}"
    and x: "x \<noteq> header_image m pl st rest ! i"
  shows "parse_header ((header_image m pl st rest)[i := x]) rq = Inl BadHeader"
proof -
  let ?msg = "crc_message (le 4 (nat st)) (le 4 (length m)) (le 8 (nat pl)) m"
  let ?c = "le 4 (header_crc m pl st)"
  note f = header_args_fields [OF args] and ok = fields_ok_image [of st m pl]
  note byte = page_of_byte [OF ok]
  note mis = parse_crc_mismatch [where msg = ?msg and x = x] and hi = header_image_def
  have c: "un_le ?c = unat (crc32 ?msg 0)" using f(4) by (simp add: header_crc_def)
  have i36: "i < 36 + length m" using i by (simp add: FIXED_SIZE_def)
  consider j where "i = j" "j < 8" | j where "i = 8 + j" "j < 4" | j where "i = 12 + j" "j < 4"
    | j where "i = 24 + j" "j < 8" | j where "i = 32 + j" "j < 4" | j where "i = 36 + j" "j < length m"
  proof -
    have "i < 8 \<or> (\<exists>j. i = 8 + j \<and> j < 4) \<or> (\<exists>j. i = 12 + j \<and> j < 4) \<or> (\<exists>j. i = 24 + j \<and> j < 8)
        \<or> (\<exists>j. i = 32 + j \<and> j < 4) \<or> (\<exists>j. i = 36 + j \<and> j < length m)"
      using assms(3) i36 by (simp only: atLeastLessThan_iff) presburger
    then show ?thesis using that by blast
  qed
  then show ?thesis
  proof cases
    case (1 j)
    then have "MAGIC[j := x] \<noteq> MAGIC" using x byte(1) by (intro list_update_neq) (auto simp: hi)
    with 1 show ?thesis by (simp add: hi byte parse_page_of ok)
  next
    case (2 j)
    then have "(le 4 VERSION)[j := x] \<noteq> le 4 VERSION"
      using x byte(2) by (intro list_update_neq) (auto simp: hi)
    then have "un_le ((le 4 VERSION)[j := x]) \<noteq> VERSION"
      using un_le_inj [of "(le 4 VERSION)[j := x]" "le 4 VERSION"] f by auto
    with 2 show ?thesis by (simp add: hi byte parse_page_of ok)
  next
    case (3 j)
    then have "x \<noteq> ?msg ! (12 + j)" using x by (simp add: hi byte nth_crc_message)
    with 3 c f(2) show ?thesis
      by (simp add: hi byte) (rule mis [where i = "12 + j"],
        simp_all add: ok length_crc_message crc_message_update)
  next
    case (4 j)
    then have "x \<noteq> ?msg ! (24 + j)" using x by (simp add: hi byte nth_crc_message)
    with 4 c f(2) show ?thesis
      by (simp add: hi byte) (rule mis [where i = "24 + j"],
        simp_all add: ok length_crc_message crc_message_update)
  next
    case (5 j)
    then have "?c[j := x] \<noteq> ?c" using x byte(6) by (intro list_update_neq) (auto simp: hi)
    then have "un_le (?c[j := x]) \<noteq> unat (crc32 ?msg 0)"
      using un_le_inj [of "?c[j := x]" ?c] c by auto
    with 5 f(2) show ?thesis by (simp add: hi byte parse_page_of ok Let_def)
  next
    case (6 j)
    then have "x \<noteq> ?msg ! (32 + j)" using x by (simp add: hi byte nth_crc_message nth_append)
    with 6 c f(2) show ?thesis
      by (simp add: hi byte list_update_append) (rule mis [where i = "32 + j"],
        simp_all add: ok length_crc_message crc_message_update)
  qed
qed

lemma parse_image_reserved:
  assumes "header_args m pl st" and "20 \<le> i" and "i < 24"
  shows "parse_header ((header_image m pl st rest)[i := x]) rq = parse_header (header_image m pl st rest) rq"
proof -
  from assms(2,3) have "i = 20 + (i - 20)" and "i - 20 < 4" by auto
  then obtain j where "i = 20 + j" and "j < 4" by blast
  then show ?thesis
    by (simp add: header_image_def page_of_byte [OF fields_ok_image] parse_page_of fields_ok_image)
qed

section \<open>Names of objects and of objects being written\<close>

lemma rpartition_last:
  assumes "c \<notin> set name"
  shows "rpartition c (d @ c # name) = (d, name)"
  using assms by (auto simp: rpartition_def takeWhile_append dropWhile_append takeWhile_eq_all_conv
      dropWhile_eq_Nil_conv)

lemma temp_path_of_key:
  "temp_path (v2_key_to_path key) nonce = V2_PREFIX @ ''/.tmp-'' @ sha256_hex (key_string key) @ ''-'' @ nonce"
proof -
  have "rpartition CHR ''/'' (V2_PREFIX @ CHR ''/'' # sha256_hex (key_string key)) =
      (V2_PREFIX, sha256_hex (key_string key))"
    by (rule rpartition_last) (rule sha256_hex_no, simp)
  then show ?thesis by (simp add: temp_path_def v2_key_to_path_def)
qed

text \<open>
  the header page of the v2 writer is exactly one page of 4096 bytes, so that the payload that
  follows it is page aligned, and the writer refuses precisely the metadata, lengths and states that
  do not fit.
\<close>

theorem pack_header_page:
  "(\<exists>page. pack_header m pl st = Inr page) =
      (length m \<le> 4060 \<and> 0 \<le> pl \<and> pl < 2 ^ 64 \<and> st \<in> {STATE_WRITING, STATE_COMMITTED}) \<and>
   (case pack_header m pl st of Inr page \<Rightarrow> length page = payload_offset | Inl e \<Rightarrow> e \<in> {ValueError, StructError})"
proof -
  have "case pack_header m pl st of Inr page \<Rightarrow> length page = payload_offset | Inl e \<Rightarrow> e \<in> {ValueError, StructError}"
  proof (cases "pack_header m pl st")
    case (Inl e)
    then show ?thesis
      by (auto simp: pack_header_def pack_FIXED_def v2_crc_def pack_crc_part_def Let_def split: if_splits)
  next
    case (Inr page)
    then have "length page = payload_offset"
      by (auto simp: pack_header_Inr_iff length_header_image header_args_def payload_offset_def v2_sizes)
    with Inr show ?thesis by simp
  qed
  moreover have "(\<exists>page. pack_header m pl st = Inr page) =
      (length m \<le> 4060 \<and> 0 \<le> pl \<and> pl < 2 ^ 64 \<and> st \<in> {STATE_WRITING, STATE_COMMITTED})"
    using v2.pack_args [of m pl st] by (simp add: header_args_def v2_sizes)
  ultimately show ?thesis by blast
qed

text \<open>
  reading back any prefix of a v2 header page, as a reader does after a torn write, gives the
  metadata and the payload length the writer stored when the page was committed and the fixed part
  and the metadata are whole, and in every other case a \<open>BadHeader\<close>, which is a cache miss.
\<close>

theorem v2_torn_header:
  assumes "pack_header m pl st = Inr page"
  shows "parse_header (take k page) True =
    (if k < FIXED_SIZE + length m \<or> st \<noteq> STATE_COMMITTED then Inl BadHeader
     else Inr \<lparr>state = STATE_COMMITTED, meta = m, payload_len = nat pl\<rparr>)"
  using assms by (rule v2.parse_prefix_all_or_nothing)

theorem v2_torn_header_witness:
  "\<exists>page. pack_header [1, 2] 5 STATE_COMMITTED = Inr page \<and>
     parse_header (take 37 page) True = Inl BadHeader \<and>
     parse_header (take 38 page) True = Inr \<lparr>state = 1, meta = [1, 2], payload_len = 5\<rparr>"
proof -
  obtain page where p: "pack_header [1, 2] 5 STATE_COMMITTED = Inr page"
    using v2.pack_args [of "[1, 2]" 5 STATE_COMMITTED] by (auto simp: header_args_def v2_sizes)
  then show ?thesis using v2_torn_header [OF p, of 37] v2_torn_header [OF p, of 38]
    by (simp add: FIXED_SIZE_def STATE_COMMITTED_def)
qed



text \<open>
  the temporary name of an object being written lies in the directory of its final name, is the
  final name of no key, and differs for different nonces, so that a half-written object is never
  visible under a key.
\<close>

theorem temp_path_hidden:
  "(\<exists>name. temp_path (v2_key_to_path key) nonce = V2_PREFIX @ ''/.'' @ name) \<and>
   temp_path (v2_key_to_path key) nonce \<noteq> v2_key_to_path key' \<and>
   (temp_path (v2_key_to_path key) nonce = temp_path (v2_key_to_path key) nonce') = (nonce = nonce')"
proof -
  have "sha256_hex (key_string key') \<noteq> CHR ''.'' # name" for name
    using sha256_hex_no [of "CHR ''.''" "key_string key'"] by (metis hex_alphabet_no(2) list.set_intros(1))
  then show ?thesis
    unfolding temp_path_of_key by (auto simp: v2_key_to_path_def) metis
qed

end
