(* ===== verification/Serde_V3.thy ===== *)
theory Serde_V3
  imports Serde_V2
begin

text \<open>
  \<^verbatim>\<open>lmcache_daos/serde_v3.py\<close>: one dkey per chunk, the header and the payload in separate akeys.
  The header record is the v2 header without the zero fill; akeys carry a three-digit layer number.
\<close>

definition AKEY_META :: bytes where "AKEY_META = [0x4D]"
definition AKEY_PAYLOAD :: bytes where "AKEY_PAYLOAD = [0x50]"
definition MAX_LAYER :: int where "MAX_LAYER = 999"

definition dkey_for_str :: "string \<Rightarrow> bytes" where
  "dkey_for_str s = sha256 (encode s)"

definition dkey_for :: "pykey \<Rightarrow> bytes" where
  "dkey_for key = dkey_for_str (key_string key)"

text \<open>\<^verbatim>\<open>b"%03d" % i\<close> for \<open>0 \<le> i \<le> 999\<close>, the only numbers that reach it.\<close>

definition dec3 :: "nat \<Rightarrow> bytes" where
  "dec3 i = [of_nat (48 + i div 100 mod 10), of_nat (48 + i div 10 mod 10), of_nat (48 + i mod 10)]"

definition akey_layer :: "int \<Rightarrow> exn + bytes" where
  "akey_layer i = (if \<not> (0 \<le> i \<and> i \<le> MAX_LAYER) then Inl ValueError else Inr (0x4C # dec3 (nat i)))"

definition akey_meta_layer :: "int \<Rightarrow> exn + bytes" where
  "akey_meta_layer i = (if \<not> (0 \<le> i \<and> i \<le> MAX_LAYER) then Inl ValueError else Inr (0x4D # dec3 (nat i)))"

definition meta_akeys :: "int \<Rightarrow> exn + bytes list" where
  "meta_akeys n_layers =
     (if n_layers \<le> 0 then Inr [AKEY_META] else seq_sum (map akey_meta_layer [0..n_layers - 1]))"

definition pack_meta :: "bytes \<Rightarrow> int \<Rightarrow> int \<Rightarrow> exn + bytes" where
  "pack_meta m pl st =
     (if MAX_META < length m then Inl ValueError
      else if pl < 0 then Inl ValueError
      else if st \<notin> {STATE_WRITING, STATE_COMMITTED} then Inl ValueError
      else bind_sum (pack_FIXED st m pl) (\<lambda>fixed. Inr (fixed @ m)))"

definition parse_meta :: "bytes \<Rightarrow> bool \<Rightarrow> exn + header" where
  "parse_meta buf require_committed = parse_header buf require_committed"

definition meta_len_for :: "bytes \<Rightarrow> nat" where
  "meta_len_for m = FIXED_SIZE + length m"

definition payload_akeys :: "int \<Rightarrow> exn + bytes list" where
  "payload_akeys n_layers =
     (if n_layers \<le> 0 then Inr [AKEY_PAYLOAD] else seq_sum (map akey_layer [0..n_layers - 1]))"

section \<open>The header record\<close>

lemma pack_meta_Inr_iff:
  "pack_meta m pl st = Inr b \<longleftrightarrow> header_args m pl st \<and> b = header_image m pl st []"
proof (cases "header_args m pl st")
  case True
  then have "pack_meta m pl st = bind_sum (pack_FIXED st m pl) (\<lambda>fixed. Inr (fixed @ m @ []))"
    by (simp add: pack_meta_def header_args_def)
  also have "\<dots> = Inr (header_image m pl st [])"
    using True by (rule pack_FIXED_image)
  finally show ?thesis using True by auto
next
  case False
  then show ?thesis
    by (auto simp: pack_meta_def header_args_def pack_FIXED_refuses not_less)
qed

interpretation v3: header_codec pack_meta parse_meta
proof unfold_locales
  fix m b rest h e and pl st :: int and rq k
  show "(\<exists>b. pack_meta m pl st = Inr b) \<longleftrightarrow> header_args m pl st"
    by (auto simp: pack_meta_Inr_iff)
  show "parse_meta (take k b @ rest) rq = (if rq \<and> st \<noteq> STATE_COMMITTED then Inl BadHeader
      else Inr \<lparr>state = st, meta = m, payload_len = nat pl\<rparr>)"
    if "pack_meta m pl st = Inr b" "FIXED_SIZE + length m \<le> k"
  proof -
    from that have "header_args m pl st" and "take k b @ rest = header_image m pl st rest"
      by (auto simp: pack_meta_Inr_iff header_image_def page_of_def FIXED_SIZE_def)
    then show ?thesis by (simp add: parse_image parse_meta_def)
  qed
  show "parse_meta (take k b) rq = Inl BadHeader"
    if "pack_meta m pl st = Inr b" "k < FIXED_SIZE + length m"
    using that by (auto simp: pack_meta_Inr_iff parse_meta_def intro: parse_cut_image)
  show "FIXED_SIZE + length m \<le> length b" if "pack_meta m pl st = Inr b"
    using that by (auto simp: pack_meta_Inr_iff length_header_image)
qed (auto simp: parse_meta_def intro: parse_only_BadHeader parse_Inr_committed)

lemma length_pack_meta: "pack_meta m pl st = Inr b \<Longrightarrow> length b = meta_len_for m"
  by (auto simp: pack_meta_Inr_iff length_header_image meta_len_for_def)

section \<open>The akeys of a chunk\<close>

lemma dec3_inj:
  assumes "i < 1000" and "j < 1000" and "dec3 i = dec3 j"
  shows "i = j"
proof -
  have d: "(of_nat (48 + a) :: byte) = of_nat (48 + b) \<Longrightarrow> a = b" if "a < 10" "b < 10" for a b
  proof -
    assume "(of_nat (48 + a) :: byte) = of_nat (48 + b)"
    then have "unat (of_nat (48 + a) :: byte) = unat (of_nat (48 + b) :: byte)" by simp
    with that show "a = b" by (simp add: unat_of_nat del: of_nat_add)
  qed
  from assms(3) have "i div 100 mod 10 = j div 100 mod 10" and "i div 10 mod 10 = j div 10 mod 10"
    and "i mod 10 = j mod 10"
    by (auto simp: dec3_def simp del: of_nat_add intro!: d)
  moreover have "n = 100 * (n div 100 mod 10) + 10 * (n div 10 mod 10) + n mod 10" if "n < 1000" for n :: nat
  proof -
    have "n div 100 mod 10 = n div 100" using that by simp
    moreover have "n div 10 = 10 * (n div 100) + n div 10 mod 10"
      using div_mult_mod_eq [of "n div 10" 10] by (simp add: div_mult2_eq [symmetric])
    moreover have "n = 10 * (n div 10) + n mod 10" by simp
    ultimately show ?thesis by linarith
  qed
  ultimately show ?thesis using assms(1,2) by metis
qed

lemma akey_layer_Inr_iff: "akey_layer i = Inr k \<longleftrightarrow> 0 \<le> i \<and> i \<le> 999 \<and> k = 0x4C # dec3 (nat i)"
  by (auto simp: akey_layer_def MAX_LAYER_def)

lemma akey_meta_layer_Inr_iff:
  "akey_meta_layer i = Inr k \<longleftrightarrow> 0 \<le> i \<and> i \<le> 999 \<and> k = 0x4D # dec3 (nat i)"
  by (auto simp: akey_meta_layer_def MAX_LAYER_def)

lemma dec3_nat_inj:
  "0 \<le> i \<Longrightarrow> i \<le> 999 \<Longrightarrow> 0 \<le> j \<Longrightarrow> j \<le> 999 \<Longrightarrow> dec3 (nat i) = dec3 (nat j) \<Longrightarrow> i = j"
  using dec3_inj [of "nat i" "nat j"] by (simp add: nat_less_iff eq_nat_nat_iff)

lemma length_dec3 [simp]: "length (dec3 i) = 3"
  by (simp add: dec3_def)

lemma map_akeys:
  assumes "n \<le> 1000"
  shows "map akey_layer [0..n - 1] = map Inr (map (\<lambda>i. 0x4C # dec3 (nat i)) [0..n - 1])"
    and "map akey_meta_layer [0..n - 1] = map Inr (map (\<lambda>i. 0x4D # dec3 (nat i)) [0..n - 1])"
  using assms by (auto simp: akey_layer_def akey_meta_layer_def MAX_LAYER_def)

text \<open>
  the v3 header record is the v2 header page with the zero fill dropped, and both refuse the
  same arguments in the same way.
\<close>

theorem pack_meta_is_unpadded_header:
  "pack_meta m pl st = (case pack_header m pl st of Inl e \<Rightarrow> Inl e | Inr page \<Rightarrow> Inr (take (meta_len_for m) page))"
proof (cases "pack_header m pl st")
  case (Inl e)
  then show ?thesis
    by (auto simp: pack_header_def pack_meta_def Let_def bind_sum_def split: if_splits sum.splits)
next
  case (Inr page)
  then have "header_args m pl st" and "page = header_image m pl st (replicate (MAX_META - length m) 0)"
    by (auto simp: pack_header_Inr_iff)
  then show ?thesis
    by (simp add: Inr pack_meta_Inr_iff header_image_def page_of_def meta_len_for_def FIXED_SIZE_def)
qed

text \<open>
  a v3 header record read back whole or cut anywhere gives the writer's metadata and payload
  length exactly when the record is whole and committed, and a \<open>BadHeader\<close> otherwise.
\<close>

theorem v3_torn_record:
  assumes "pack_meta m pl st = Inr buf"
  shows "parse_meta (take k buf) True =
    (if k < meta_len_for m \<or> st \<noteq> STATE_COMMITTED then Inl BadHeader
     else Inr \<lparr>state = STATE_COMMITTED, meta = m, payload_len = nat pl\<rparr>)"
  unfolding meta_len_for_def using assms by (rule v3.parse_prefix_all_or_nothing)

theorem v3_torn_record_witness:
  "\<exists>buf. pack_meta [7] 3 STATE_WRITING = Inr buf \<and> parse_meta (take 37 buf) True = Inl BadHeader"
proof -
  obtain buf where p: "pack_meta [7] 3 STATE_WRITING = Inr buf"
    using v3.pack_args [of "[7]" 3 STATE_WRITING] by (auto simp: header_args_def v2_sizes)
  then show ?thesis using v3_torn_record [OF p, of 37]
    by (simp add: STATE_WRITING_def STATE_COMMITTED_def)
qed

text \<open>
  for up to a thousand layers the payload akeys and the metadata akeys of a chunk are one per
  layer, pairwise different, and no payload akey is a metadata akey; past a thousand layers both
  lists are refused.
\<close>

theorem chunk_akeys_distinct:
  "(if n \<le> 1000
    then \<exists>ps ms. payload_akeys n = Inr ps \<and> meta_akeys n = Inr ms \<and> distinct (ps @ ms) \<and>
           length ps = max 1 (nat n) \<and> length ms = max 1 (nat n)
    else payload_akeys n = Inl ValueError \<and> meta_akeys n = Inl ValueError)"
proof -
  have inj: "inj_on (\<lambda>i. b # dec3 (nat i)) {0..n - 1}" if "n \<le> 1000" for b
    using that by (auto simp: inj_on_def intro: dec3_nat_inj)
  have up: "seq_sum (map f [0..n - 1]) = Inl ValueError"
    if "1000 < n" and f: "\<And>i. f i = (if 0 \<le> i \<and> i \<le> 999 then Inr (g i) else Inl ValueError)"
    for f :: "int \<Rightarrow> exn + bytes" and g
  proof -
    have "f 1000 \<in> set (map f [0..n - 1])" using that(1) by auto
    moreover have "f 1000 = Inl ValueError" using f by simp
    ultimately have "\<not> (\<exists>xs. map f [0..n - 1] = map Inr xs)"
      by (metis Inl_Inr_False image_iff list.set_map)
    then obtain e where e: "seq_sum (map f [0..n - 1]) = Inl e"
      using seq_sum_Inr_iff by (cases "seq_sum (map f [0..n - 1])") auto
    with seq_sum_Inl [OF e] f show ?thesis by (auto split: if_splits)
  qed
  show ?thesis
  proof (cases "n \<le> 1000")
    case True
    let ?k = "\<lambda>b. map (\<lambda>i. b # dec3 (nat i)) [0..n - 1]"
    have "0 < n \<Longrightarrow> payload_akeys n = Inr (?k 0x4C) \<and> meta_akeys n = Inr (?k 0x4D)"
      using map_akeys [OF True] by (auto simp: payload_akeys_def meta_akeys_def seq_sum_Inr_iff)
    moreover have "distinct (?k 0x4C @ ?k 0x4D)" using inj [OF True] by (auto simp: distinct_map)
    ultimately have "0 < n \<Longrightarrow> ?thesis" using True by (auto simp: max_def)
    moreover have "\<not> 0 < n \<Longrightarrow> ?thesis"
      using True by (auto simp: payload_akeys_def meta_akeys_def AKEY_META_def AKEY_PAYLOAD_def)
    ultimately show ?thesis by blast
  next
    case False
    then show ?thesis
      by (auto simp: payload_akeys_def meta_akeys_def akey_layer_def akey_meta_layer_def MAX_LAYER_def
          intro!: up)
  qed
qed

end
