(* ===== verification/Libdfs.thy ===== *)
theory Libdfs
  imports Daos_Prelude
begin

text \<open>
  The interface of \<^verbatim>\<open>libdfs\<close>/\<^verbatim>\<open>libdaos\<close> that \<^verbatim>\<open>dfs_binding.py\<close> calls through ctypes. The library is
  not part of the program: it is a record of C functions, an argument of every definition that calls
  it. Each function takes the library's own state \<open>'d\<close> (everything behind the handle: the container,
  the network, the servers, other clients) and returns its C results with the new state. \<open>rc\<close> is the
  return code, sizes are the values of the in/out \<^verbatim>\<open>daos_size_t\<close> parameters, and a read returns the
  bytes it stored at the start of the caller's buffer.

  The locales state what the program relies on, in two strengths: \<open>dfs_lib\<close> is what every call does
  to the name space and to the file contents, whether it succeeds or fails; \<open>dfs_full\<close> adds that a
  successful write is complete; \<open>dfs_live\<close> adds a condition under which calls succeed.
\<close>

record 'd libdfs =
  c_daos_init :: "'d \<Rightarrow> int \<times> 'd"
  c_dfs_init :: "'d \<Rightarrow> int \<times> 'd"
  c_dfs_sys_connect :: "string \<Rightarrow> string option \<Rightarrow> string \<Rightarrow> int \<Rightarrow> int \<Rightarrow> 'd \<Rightarrow> int \<times> 'd"
  c_dfs_sys_disconnect :: "'d \<Rightarrow> int \<times> 'd"
  c_dfs_sys_open :: "string \<Rightarrow> nat \<Rightarrow> nat \<Rightarrow> nat \<Rightarrow> 'd \<Rightarrow> (int \<times> nat) \<times> 'd"
  c_dfs_sys_close :: "nat \<Rightarrow> 'd \<Rightarrow> int \<times> 'd"
  c_dfs_sys_read :: "nat \<Rightarrow> nat \<Rightarrow> nat \<Rightarrow> 'd \<Rightarrow> (int \<times> bytes) \<times> 'd"
  c_dfs_sys_write :: "nat \<Rightarrow> nat \<Rightarrow> bytes \<Rightarrow> 'd \<Rightarrow> (int \<times> nat) \<times> 'd"
  c_dfs_sys_remove_type :: "string \<Rightarrow> bool \<Rightarrow> nat \<Rightarrow> 'd \<Rightarrow> int \<times> 'd"
  c_dfs_sys_stat :: "string \<Rightarrow> 'd \<Rightarrow> (int \<times> nat) \<times> 'd"
  c_dfs_sys_mkdir_p :: "string \<Rightarrow> 'd \<Rightarrow> int \<times> 'd"
  c_dfs_sys_opendir :: "string \<Rightarrow> 'd \<Rightarrow> (int \<times> nat) \<times> 'd"
  c_dfs_sys_readdir :: "nat \<Rightarrow> 'd \<Rightarrow> (int \<times> string option) \<times> 'd"
  c_dfs_sys_closedir :: "nat \<Rightarrow> 'd \<Rightarrow> int \<times> 'd"
  c_dfs_sys2base :: "'d \<Rightarrow> (int \<times> nat) \<times> 'd"
  c_dfs_read_gpu :: "(nat \<Rightarrow> nat \<Rightarrow> nat \<Rightarrow> nat \<Rightarrow> 'd \<Rightarrow> (int \<times> bytes) \<times> 'd) option"
  c_dfs_write_gpu :: "(nat \<Rightarrow> nat \<Rightarrow> nat \<Rightarrow> bytes \<Rightarrow> 'd \<Rightarrow> int \<times> 'd) option"
  c_dfs_lookup :: "nat \<Rightarrow> string \<Rightarrow> nat \<Rightarrow> 'd \<Rightarrow> (int \<times> nat) \<times> 'd"
  c_dfs_release :: "nat \<Rightarrow> 'd \<Rightarrow> int \<times> 'd"
  c_dfs_move :: "nat \<Rightarrow> nat \<Rightarrow> string \<Rightarrow> nat \<Rightarrow> string \<Rightarrow> 'd \<Rightarrow> int \<times> 'd"

text \<open>\<^verbatim>\<open>O_CREAT\<close> is bit 6 of the open flags.\<close>

definition O_RDONLY :: nat where "O_RDONLY = 0"
definition O_RDWR :: nat where "O_RDWR = 2"
definition O_CREAT :: nat where "O_CREAT = 64"

definition creates :: "nat \<Rightarrow> bool" where
  "creates flags \<longleftrightarrow> flags div O_CREAT mod 2 = 1"

lemma creates_flags [simp]: "creates (O_RDWR + O_CREAT)" "\<not> creates O_RDONLY"
  by (simp_all add: creates_def O_RDWR_def O_CREAT_def O_RDONLY_def)

text \<open>
  \<open>fs d p\<close> is the content of the regular file at path \<open>p\<close>, \<open>hs d h\<close> the path an open handle stands
  for. A failed call leaves the state as it was or, for a create and for a write, with part of the
  effect: a write that fails or comes back short has stored some prefix of its bytes.
\<close>

locale dfs_lib =
  fixes L :: "'d libdfs"
    and fs :: "'d \<Rightarrow> string \<Rightarrow> bytes option"
    and hs :: "'d \<Rightarrow> nat \<Rightarrow> string option"
  assumes open_ok: "c_dfs_sys_open L p md fl cid d = ((0, h), d') \<Longrightarrow>
       (creates fl \<or> fs d p \<noteq> None) \<and> hs d' = (hs d)(h \<mapsto> p) \<and> hs d h = None \<and>
       fs d' = (if fs d p = None then (fs d)(p \<mapsto> []) else fs d)"
    and open_fail: "c_dfs_sys_open L p md fl cid d = ((rc, h), d') \<Longrightarrow> rc \<noteq> 0 \<Longrightarrow>
       hs d' = hs d \<and> (fs d' = fs d \<or> creates fl \<and> fs d p = None \<and> fs d' = (fs d)(p \<mapsto> []))"
    and open_enoent: "c_dfs_sys_open L p md fl cid d = ((ENOENT, h), d') \<Longrightarrow> \<not> creates fl \<Longrightarrow> fs d p = None"
    and close_eff: "c_dfs_sys_close L h d = (rc, d') \<Longrightarrow> fs d' = fs d \<and> hs d' = (hs d)(h := None)"
    and read_eff: "hs d h = Some p \<Longrightarrow> fs d p = Some b \<Longrightarrow>
       c_dfs_sys_read L h off n d = ((rc, x), d') \<Longrightarrow>
       fs d' = fs d \<and> hs d' = hs d \<and> (rc = 0 \<longrightarrow> x = take n (drop off b))"
    and write_eff: "hs d h = Some p \<Longrightarrow> fs d p = Some b \<Longrightarrow>
       c_dfs_sys_write L h off x d = ((rc, k), d') \<Longrightarrow> hs d' = hs d \<and>
       (\<exists>j \<le> length x. fs d' = (fs d)(p \<mapsto> overlay b off (take j x)) \<and> (rc = 0 \<longrightarrow> k = j))"
    and remove_eff: "c_dfs_sys_remove_type L p force md d = (rc, d') \<Longrightarrow> hs d' = hs d \<and>
       (fs d' = fs d \<or> fs d' = (fs d)(p := None)) \<and> (rc = 0 \<longrightarrow> fs d' p = None) \<and>
       (rc = ENOENT \<longrightarrow> fs d p = None)"
    and stat_eff: "c_dfs_sys_stat L p d = ((rc, n), d') \<Longrightarrow> fs d' = fs d \<and> hs d' = hs d \<and>
       (rc = 0 \<longrightarrow> (\<exists>b. fs d p = Some b \<and> n = length b)) \<and> (rc = ENOENT \<longrightarrow> fs d p = None)"
    and mkdir_eff: "c_dfs_sys_mkdir_p L p d = (rc, d') \<Longrightarrow> fs d' = fs d \<and> hs d' = hs d"

locale dfs_full = dfs_lib +
  assumes write_full: "hs d h = Some p \<Longrightarrow> fs d p = Some b \<Longrightarrow>
       c_dfs_sys_write L h off x d = ((0, k), d') \<Longrightarrow>
       fs d' = (fs d)(p \<mapsto> overlay b off x) \<and> k = length x"

text \<open>\<open>up d\<close>: the servers answer, and keep answering.\<close>

locale dfs_live = dfs_full +
  fixes up :: "'d \<Rightarrow> bool"
  assumes open_live: "up d \<Longrightarrow> creates fl \<or> fs d p \<noteq> None \<Longrightarrow>
       \<exists>h d'. c_dfs_sys_open L p md fl cid d = ((0, h), d') \<and> up d'"
    and open_absent: "up d \<Longrightarrow> \<not> creates fl \<Longrightarrow> fs d p = None \<Longrightarrow>
       \<exists>h d'. c_dfs_sys_open L p md fl cid d = ((ENOENT, h), d') \<and> up d'"
    and close_live: "up d \<Longrightarrow> c_dfs_sys_close L h d = (rc, d') \<Longrightarrow> up d'"
    and read_live: "up d \<Longrightarrow> hs d h \<noteq> None \<Longrightarrow>
       \<exists>x d'. c_dfs_sys_read L h off n d = ((0, x), d') \<and> up d'"
    and write_live: "up d \<Longrightarrow> hs d h \<noteq> None \<Longrightarrow>
       \<exists>k d'. c_dfs_sys_write L h off x d = ((0, k), d') \<and> up d'"
    and remove_live: "up d \<Longrightarrow> \<exists>d'. c_dfs_sys_remove_type L p force md d =
       (if fs d p = None then ENOENT else 0, d') \<and> up d'"
    and stat_live: "up d \<Longrightarrow> \<exists>n d'. c_dfs_sys_stat L p d =
       ((if fs d p = None then ENOENT else 0, n), d') \<and> up d'"

end
