(* ===== verification/Dfs_Binding.thy ===== *)
theory Dfs_Binding
  imports Libdfs
begin

text \<open>
  \<^verbatim>\<open>lmcache_daos/dfs_binding.py\<close>: the class \<^verbatim>\<open>DfsSys\<close> and the start-up warm-up. A wrapper turns a
  non-zero return code into \<open>DaosError rc\<close>. Offsets and lengths are natural numbers: every one the
  program passes is below \<open>2 ^ 64\<close>, so the conversion to \<^verbatim>\<open>c_ulonglong\<close> is exact.
\<close>

section \<open>Object I/O\<close>

definition chk_rc :: "('d \<Rightarrow> int \<times> 'd) \<Rightarrow> ('d, unit) io" where
  "chk_rc f = (\<lambda>d. case f d of (rc, d') \<Rightarrow> (if rc \<noteq> 0 then Inl (DaosError rc) else Inr (), d'))"

definition chk_rc2 :: "('d \<Rightarrow> (int \<times> 'a) \<times> 'd) \<Rightarrow> ('d, 'a) io" where
  "chk_rc2 f = (\<lambda>d. case f d of ((rc, x), d') \<Rightarrow> (if rc \<noteq> 0 then Inl (DaosError rc) else Inr x, d'))"

text \<open>A call whose return code the source ignores.\<close>

definition ignore_rc :: "('d \<Rightarrow> int \<times> 'd) \<Rightarrow> ('d, unit) io" where
  "ignore_rc f = (\<lambda>d. case f d of (_, d') \<Rightarrow> (Inr (), d'))"

text \<open>C stores \<open>x\<close> at the start of the buffer it was handed.\<close>

definition store_into :: "bytes \<Rightarrow> bytes \<Rightarrow> exn + bytes" where
  "store_into buf x = (if length buf < length x then Inl MemoryFault else Inr (x @ drop (length x) buf))"

text \<open>\<^verbatim>\<open>_S_IFREG | 0o644\<close>\<close>

definition create_mode :: nat where "create_mode = 33188"

definition open_obj :: "'d libdfs \<Rightarrow> string \<Rightarrow> nat \<Rightarrow> bool \<Rightarrow> nat \<Rightarrow> ('d, nat) io" where
  "open_obj L path flags create cid =
     (let mode = (if create then create_mode else 0) in chk_rc2 (c_dfs_sys_open L path mode flags cid))"

definition open_rdwr_create :: "'d libdfs \<Rightarrow> string \<Rightarrow> nat \<Rightarrow> ('d, nat) io" where
  "open_rdwr_create L path oclass = open_obj L path (O_RDWR + O_CREAT) True oclass"

definition open_rdonly :: "'d libdfs \<Rightarrow> string \<Rightarrow> ('d, nat) io" where
  "open_rdonly L path = open_obj L path O_RDONLY False 0"

definition close_obj :: "'d libdfs \<Rightarrow> nat \<Rightarrow> ('d, unit) io" where
  "close_obj L h = ignore_rc (c_dfs_sys_close L h)"

definition write_obj_from :: "'d libdfs \<Rightarrow> nat \<Rightarrow> nat \<Rightarrow> nat \<Rightarrow> bytes \<Rightarrow> ('d, nat) io" where
  "write_obj_from L h off len src =
     (if length src < len then raise MemoryFault
      else chk_rc2 (c_dfs_sys_write L h off (take len src)))"

definition read_obj_into :: "'d libdfs \<Rightarrow> nat \<Rightarrow> nat \<Rightarrow> nat \<Rightarrow> bytes \<Rightarrow> ('d, nat \<times> bytes) io" where
  "read_obj_into L h off len dest =
     bind_io (chk_rc2 (c_dfs_sys_read L h off len)) (\<lambda>x.
     bind_io (of_sum (store_into dest x)) (\<lambda>buf. ret (length x, buf)))"

definition read_obj :: "'d libdfs \<Rightarrow> nat \<Rightarrow> nat \<Rightarrow> nat \<Rightarrow> ('d, bytes) io" where
  "read_obj L h off len =
     bind_io (read_obj_into L h off len (replicate len 0)) (\<lambda>(k, buf). ret (take k buf))"

definition dfs_write :: "'d libdfs \<Rightarrow> string \<Rightarrow> bytes \<Rightarrow> ('d, unit) io" where
  "dfs_write L path data =
     bind_io (open_obj L path (O_RDWR + O_CREAT) True 0) (\<lambda>obj.
     finally_io
       (bind_io (chk_rc2 (c_dfs_sys_write L obj 0 data)) (\<lambda>_. ret ()))
       (close_obj L obj))"

definition dfs_read :: "'d libdfs \<Rightarrow> string \<Rightarrow> nat \<Rightarrow> nat \<Rightarrow> ('d, bytes) io" where
  "dfs_read L path off len =
     bind_io (open_obj L path O_RDONLY False 0) (\<lambda>obj.
     finally_io (read_obj L obj off len) (close_obj L obj))"

definition dfs_exists :: "'d libdfs \<Rightarrow> string \<Rightarrow> ('d, bool) io" where
  "dfs_exists L path =
     catch_io is_DaosError
       (bind_io (open_obj L path O_RDONLY False 0) (\<lambda>obj.
        bind_io (close_obj L obj) (\<lambda>_. ret True)))
       (\<lambda>e. if exn_rc e = Some ENOENT then ret False else raise e)"

definition stat_size :: "'d libdfs \<Rightarrow> string \<Rightarrow> ('d, nat option) io" where
  "stat_size L path = (\<lambda>d. case c_dfs_sys_stat L path d of ((rc, n), d') \<Rightarrow>
     (if rc = ENOENT then Inr None else if rc \<noteq> 0 then Inl (DaosError rc) else Inr (Some n), d'))"

definition mkdir_p :: "'d libdfs \<Rightarrow> string \<Rightarrow> ('d, unit) io" where
  "mkdir_p L path = (\<lambda>d. case c_dfs_sys_mkdir_p L path d of (rc, d') \<Rightarrow>
     (if rc \<notin> {0, EEXIST} then Inl (DaosError rc) else Inr (), d'))"

definition dfs_remove :: "'d libdfs \<Rightarrow> string \<Rightarrow> ('d, bool) io" where
  "dfs_remove L path = (\<lambda>d. case c_dfs_sys_remove_type L path False 0 d of (rc, d') \<Rightarrow>
     (if rc = ENOENT then Inr False else if rc \<noteq> 0 then Inl (DaosError rc) else Inr True, d'))"

section \<open>Enumeration\<close>

text \<open>
  \<^verbatim>\<open>listdir\<close> drives the generator \<^verbatim>\<open>iterdir\<close>: it reads one entry at a time, skips the two dot
  entries, and stops at the end of the directory, at an error, or when \<open>limit\<close> names are collected;
  the directory is closed in each case. The number of entries is the server's, so the loop carries
  fuel; \<open>None\<close> means the fuel ran out.
\<close>

fun readdir_loop ::
  "'d libdfs \<Rightarrow> nat \<Rightarrow> nat \<Rightarrow> nat option \<Rightarrow> string list \<Rightarrow> 'd \<Rightarrow> ((exn + string list) \<times> 'd) option" where
  "readdir_loop L 0 dirp limit out d = None"
| "readdir_loop L (Suc fuel) dirp limit out d =
     (case c_dfs_sys_readdir L dirp d of ((rc, ent), d') \<Rightarrow>
        if rc \<noteq> 0 then Some (Inl (DaosError rc), d')
        else case ent of
          None \<Rightarrow> Some (Inr out, d')
        | Some name \<Rightarrow>
            if name = ''.'' \<or> name = ''..'' then readdir_loop L fuel dirp limit out d'
            else let out' = out @ [name]
                 in if (case limit of None \<Rightarrow> False | Some l \<Rightarrow> l \<le> length out') then Some (Inr out', d')
                    else readdir_loop L fuel dirp limit out' d')"

definition listdir ::
  "'d libdfs \<Rightarrow> nat \<Rightarrow> string \<Rightarrow> nat option \<Rightarrow> 'd \<Rightarrow> ((exn + string list) \<times> 'd) option" where
  "listdir L fuel path limit d =
     (case c_dfs_sys_opendir L path d of ((rc, dirp), d1) \<Rightarrow>
        if rc \<noteq> 0 then Some (Inl (DaosError rc), d1)
        else map_option (\<lambda>(r, d2). (r, snd (c_dfs_sys_closedir L dirp d2)))
               (readdir_loop L fuel dirp limit [] d1))"

section \<open>The mounted name space, its base handle and the GPU entry points\<close>

text \<open>
  The Python object: the class attribute \<^verbatim>\<open>_daos_inited\<close>, the handle \<^verbatim>\<open>_sys\<close> (valid or not) and the
  cached \<^verbatim>\<open>_base\<close>, together with the library state.
\<close>

record 'd dfssys =
  lib_state :: 'd
  daos_inited :: bool
  sys_valid :: bool
  base_handle :: "nat option"

definition on_lib :: "('d, 'a) io \<Rightarrow> ('d dfssys, 'a) io" where
  "on_lib m = (\<lambda>s. case m (lib_state s) of (r, d') \<Rightarrow> (r, s\<lparr>lib_state := d'\<rparr>))"

definition DfsSys_init ::
  "'d libdfs \<Rightarrow> string \<Rightarrow> string \<Rightarrow> string option \<Rightarrow> int \<Rightarrow> int \<Rightarrow> ('d dfssys, unit) io" where
  "DfsSys_init L pool cont sysname mflags sflags =
     bind_io (get_s daos_inited) (\<lambda>inited.
     bind_io (if inited then ret () else
        bind_io (on_lib (chk_rc (c_daos_init L))) (\<lambda>_.
        bind_io (on_lib (chk_rc (c_dfs_init L))) (\<lambda>_.
        put_s (\<lambda>s. s\<lparr>daos_inited := True\<rparr>)))) (\<lambda>_.
     bind_io (put_s (\<lambda>s. s\<lparr>sys_valid := False, base_handle := None\<rparr>)) (\<lambda>_.
     bind_io (on_lib (chk_rc (c_dfs_sys_connect L pool sysname cont mflags sflags))) (\<lambda>_.
     put_s (\<lambda>s. s\<lparr>sys_valid := True\<rparr>)))))"

definition DfsSys_close :: "'d libdfs \<Rightarrow> ('d dfssys, unit) io" where
  "DfsSys_close L =
     bind_io (get_s sys_valid) (\<lambda>v.
       if v then bind_io (on_lib (ignore_rc (c_dfs_sys_disconnect L))) (\<lambda>_.
                 put_s (\<lambda>s. s\<lparr>sys_valid := False\<rparr>))
       else ret ())"

definition base :: "'d libdfs \<Rightarrow> ('d dfssys, nat) io" where
  "base L =
     bind_io (get_s base_handle) (\<lambda>b. case b of
       Some h \<Rightarrow> ret h
     | None \<Rightarrow> bind_io (on_lib (chk_rc2 (c_dfs_sys2base L))) (\<lambda>h.
                bind_io (put_s (\<lambda>s. s\<lparr>base_handle := Some h\<rparr>)) (\<lambda>_. ret h)))"

definition gpu_supported :: "'d libdfs \<Rightarrow> bool" where
  "gpu_supported L \<longleftrightarrow> c_dfs_read_gpu L \<noteq> None \<and> c_dfs_write_gpu L \<noteq> None"

text \<open>
  Device memory is a buffer like host memory: \<open>dev\<close> is the contents of the \<open>length\<close> bytes at
  \<^verbatim>\<open>dev_ptr\<close>. A read returns the byte count with the new contents.
\<close>

definition read_gpu_into :: "'d libdfs \<Rightarrow> nat \<Rightarrow> nat \<Rightarrow> nat \<Rightarrow> bytes \<Rightarrow> ('d dfssys, nat \<times> bytes) io" where
  "read_gpu_into L obj off len dev =
     (if \<not> gpu_supported L then raise RuntimeError
      else bind_io (base L) (\<lambda>b.
           bind_io (on_lib (chk_rc2 (the (c_dfs_read_gpu L) b obj off len))) (\<lambda>x.
           bind_io (of_sum (store_into dev x)) (\<lambda>dev'. ret (length x, dev')))))"

definition write_gpu_from :: "'d libdfs \<Rightarrow> nat \<Rightarrow> nat \<Rightarrow> nat \<Rightarrow> bytes \<Rightarrow> ('d dfssys, nat) io" where
  "write_gpu_from L obj off len dev =
     (if \<not> gpu_supported L then raise RuntimeError
      else bind_io (base L) (\<lambda>b.
           if length dev < len then raise MemoryFault else
           bind_io (on_lib (chk_rc (the (c_dfs_write_gpu L) b obj off (take len dev)))) (\<lambda>_. ret len)))"

definition lookup :: "'d libdfs \<Rightarrow> string \<Rightarrow> nat \<Rightarrow> ('d dfssys, nat) io" where
  "lookup L path flags = bind_io (base L) (\<lambda>b. on_lib (chk_rc2 (c_dfs_lookup L b path flags)))"

definition release_dir :: "'d libdfs \<Rightarrow> nat \<Rightarrow> ('d dfssys, unit) io" where
  "release_dir L obj = on_lib (ignore_rc (c_dfs_release L obj))"

definition move :: "'d libdfs \<Rightarrow> nat \<Rightarrow> string \<Rightarrow> nat \<Rightarrow> string \<Rightarrow> ('d dfssys, unit) io" where
  "move L parent name new_parent new_name =
     bind_io (base L) (\<lambda>b. on_lib (chk_rc (c_dfs_move L b parent name new_parent new_name)))"

section \<open>Start-up warm-up\<close>

text \<open>
  \<^verbatim>\<open>warm_up_all_targets\<close>: a probe file gets one small write per chunk in order, then one full chunk
  per shard on the executor, then is read back and removed. The result is the number of chunks read
  back complete and the object class used; the measured times are left out. \<open>ex1\<close> and \<open>ex2\<close> are the
  executor's schedules of the two parallel phases (\<open>None\<close>: no executor). \<open>chunk\<close> is \<open>4 * 2 ^ 20\<close> by
  default.
\<close>

definition OC_SX :: nat where "OC_SX = 2 ^ 24 + 65535"

definition warm_open :: "'d libdfs \<Rightarrow> string \<Rightarrow> ('d, nat \<times> nat) io" where
  "warm_open L path =
     catch_io is_OSError
       (bind_io (open_rdwr_create L path OC_SX) (\<lambda>h. ret (h, OC_SX)))
       (\<lambda>e. if exn_rc e \<noteq> Some EINVAL then raise e
            else bind_io (open_rdwr_create L path 0) (\<lambda>h. ret (h, 0)))"

definition warm_read :: "'d libdfs \<Rightarrow> string \<Rightarrow> nat \<Rightarrow> nat \<Rightarrow> ('d, nat) io" where
  "warm_read L path chunk i =
     bind_io (open_rdonly L path) (\<lambda>hh.
     finally_io
       (bind_io (read_obj_into L hh (i * chunk) chunk (replicate chunk 0)) (\<lambda>(k, _). ret k))
       (close_obj L hh))"

definition warm_up_all_targets ::
  "'d libdfs \<Rightarrow> string \<Rightarrow> nat \<Rightarrow> nat list option \<Rightarrow> nat list option \<Rightarrow> nat \<Rightarrow> ('d, nat \<times> nat) io" where
  "warm_up_all_targets L probe_path nchunks ex1 ex2 chunk =
     (let tiny = 4096; small = replicate tiny 90; src = replicate chunk 165 in
     bind_io (warm_open L probe_path) (\<lambda>(h, oclass).
     bind_io
       (finally_io
         (bind_io (seq_io (map (\<lambda>i. write_obj_from L h (i * chunk) tiny small) [0..<nchunks])) (\<lambda>_.
          bind_io (exec_map ex1 (map (\<lambda>i. write_obj_from L h (i * chunk) chunk src) [0..<nchunks])) (\<lambda>_.
          ret ())))
         (close_obj L h)) (\<lambda>_.
     bind_io (exec_map ex2 (map (warm_read L probe_path chunk) [0..<nchunks])) (\<lambda>got.
     bind_io (swallow (bind_io (dfs_remove L probe_path) (\<lambda>_. ret ()))) (\<lambda>_.
     ret (length (filter (\<lambda>g. g = chunk) got), oclass))))))"

section \<open>What the wrappers do, given the contract of the library\<close>

lemma wp_chk_rc [wp_simps]:
  "wp (chk_rc f) Q d = (case f d of (rc, d') \<Rightarrow> Q (if rc \<noteq> 0 then Inl (DaosError rc) else Inr ()) d')"
  by (auto simp: wp_def chk_rc_def split: prod.splits)

lemma wp_chk_rc2 [wp_simps]:
  "wp (chk_rc2 f) Q d = (case f d of ((rc, x), d') \<Rightarrow> Q (if rc \<noteq> 0 then Inl (DaosError rc) else Inr x) d')"
  by (auto simp: wp_def chk_rc2_def split: prod.splits)

lemma wp_ignore_rc [wp_simps]:
  "wp (ignore_rc f) Q d = (case f d of (_, d') \<Rightarrow> Q (Inr ()) d')"
  by (auto simp: wp_def ignore_rc_def split: prod.splits)

lemma store_into_fits [simp]:
  "length x \<le> length buf \<Longrightarrow> store_into buf x = Inr (x @ drop (length x) buf)"
  by (simp add: store_into_def)

text \<open>
  Each rule gives every outcome of a wrapper, the failures included, in terms of the file contents
  and the open handles; a proof about a caller never looks at the library again.
\<close>

context dfs_lib
begin

lemma wp_open_rdonly [wp_rules]:
  assumes "\<And>h b d'. fs d p = Some b \<Longrightarrow> hs d h = None \<Longrightarrow> fs d' = fs d \<Longrightarrow> hs d' = (hs d)(h \<mapsto> p) \<Longrightarrow> Q (Inr h) d'"
    and "\<And>rc d'. rc \<noteq> 0 \<Longrightarrow> (rc = ENOENT \<Longrightarrow> fs d p = None) \<Longrightarrow> fs d' = fs d \<Longrightarrow> hs d' = hs d \<Longrightarrow>
           Q (Inl (DaosError rc)) d'"
  shows "wp (open_rdonly L p) Q d"
proof -
  obtain rc h d' where run: "c_dfs_sys_open L p 0 O_RDONLY 0 d = ((rc, h), d')"
    by (metis surj_pair)
  have "Q (if rc \<noteq> 0 then Inl (DaosError rc) else Inr h) d'"
  proof (cases "rc = 0")
    case True
    with open_ok [of p 0 O_RDONLY 0 d h d'] run obtain b where "fs d p = Some b" "hs d h = None"
      "fs d' = fs d" "hs d' = (hs d)(h \<mapsto> p)" by (auto split: if_splits)
    with True show ?thesis by (auto intro: assms(1))
  next
    case False
    with open_fail [OF run] open_enoent run show ?thesis by (auto intro!: assms(2))
  qed
  with run show ?thesis
    by (simp add: open_rdonly_def open_obj_def wp_simps)
qed

lemma wp_open_rdwr_create [wp_rules]:
  assumes "\<And>h d'. hs d h = None \<Longrightarrow> hs d' = (hs d)(h \<mapsto> p) \<Longrightarrow>
             fs d' = (fs d)(p \<mapsto> (case fs d p of None \<Rightarrow> [] | Some b \<Rightarrow> b)) \<Longrightarrow> Q (Inr h) d'"
    and "\<And>rc d'. rc \<noteq> 0 \<Longrightarrow> hs d' = hs d \<Longrightarrow>
           fs d' = fs d \<or> fs d p = None \<and> fs d' = (fs d)(p \<mapsto> []) \<Longrightarrow> Q (Inl (DaosError rc)) d'"
  shows "wp (open_rdwr_create L p oc) Q d"
proof -
  obtain rc h d' where run: "c_dfs_sys_open L p create_mode (O_RDWR + O_CREAT) oc d = ((rc, h), d')"
    by (metis surj_pair)
  have "Q (if rc \<noteq> 0 then Inl (DaosError rc) else Inr h) d'"
  proof (cases "rc = 0")
    case True
    with open_ok run have "hs d' = (hs d)(h \<mapsto> p)" "hs d h = None"
      "fs d' = (fs d)(p \<mapsto> (case fs d p of None \<Rightarrow> [] | Some b \<Rightarrow> b))"
      by (auto simp: fun_eq_iff split: option.splits if_splits)
    with True show ?thesis by (auto intro!: assms(1))
  next
    case False
    with open_fail [OF run] show ?thesis by (auto intro!: assms(2))
  qed
  with run show ?thesis
    by (simp add: open_rdwr_create_def open_obj_def wp_simps)
qed

lemma wp_close_obj [wp_rules]:
  assumes "\<And>d'. fs d' = fs d \<Longrightarrow> hs d' = (hs d)(h := None) \<Longrightarrow> Q (Inr ()) d'"
  shows "wp (close_obj L h) Q d"
  using assms close_eff by (auto simp: close_obj_def wp_simps split: prod.splits)

lemma wp_read_obj_into [wp_rules]:
  assumes "hs d h = Some p" and "fs d p = Some b" and "min n (length b - off) \<le> length dest"
    and "\<And>x d'. x = take n (drop off b) \<Longrightarrow> fs d' = fs d \<Longrightarrow> hs d' = hs d \<Longrightarrow>
           Q (Inr (length x, x @ drop (length x) dest)) d'"
    and "\<And>rc d'. rc \<noteq> 0 \<Longrightarrow> fs d' = fs d \<Longrightarrow> hs d' = hs d \<Longrightarrow> Q (Inl (DaosError rc)) d'"
  shows "wp (read_obj_into L h off n dest) Q d"
proof -
  obtain rc x d' where run: "c_dfs_sys_read L h off n d = ((rc, x), d')" by (metis surj_pair)
  note eff = read_eff [OF assms(1,2) run]
  show ?thesis
  proof (cases "rc = 0")
    case True
    with eff have "x = take n (drop off b)" by simp
    moreover from this have "length x \<le> length dest" using assms(3) by simp
    ultimately show ?thesis using True eff run assms(4) [of x d']
      by (simp add: read_obj_into_def wp_simps)
  next
    case False
    with eff run assms(5) show ?thesis by (simp add: read_obj_into_def wp_simps)
  qed
qed

lemma wp_read_obj [wp_rules]:
  assumes "hs d h = Some p" and "fs d p = Some b"
    and "\<And>d'. fs d' = fs d \<Longrightarrow> hs d' = hs d \<Longrightarrow> Q (Inr (take n (drop off b))) d'"
    and "\<And>rc d'. rc \<noteq> 0 \<Longrightarrow> fs d' = fs d \<Longrightarrow> hs d' = hs d \<Longrightarrow> Q (Inl (DaosError rc)) d'"
  shows "wp (read_obj L h off n) Q d"
  unfolding read_obj_def wp_bind
proof (rule wp_read_obj_into [OF assms(1,2)])
  fix x d'
  assume "x = take n (drop off b)" "fs d' = fs d" "hs d' = hs d"
  moreover have "take (length x) (x @ y) = x" for y :: bytes by simp
  ultimately show "case Inr (length x, x @ drop (length x) (replicate n 0)) of Inl e \<Rightarrow> Q (Inl e) d'
      | Inr a \<Rightarrow> wp (case a of (k, buf) \<Rightarrow> ret (take k buf)) Q d'"
    using assms(3) by (simp only: wp_ret sum.case prod.case)
qed (use assms(4) in auto)

lemma wp_write_obj_from [wp_rules]:
  assumes "hs d h = Some p" and "fs d p = Some b" and "n \<le> length src"
    and "\<And>j rc d'. j \<le> n \<Longrightarrow> hs d' = hs d \<Longrightarrow> fs d' = (fs d)(p \<mapsto> overlay b off (take j src)) \<Longrightarrow>
           rc = Inr j \<or> (\<exists>c. c \<noteq> 0 \<and> rc = Inl (DaosError c)) \<Longrightarrow> Q rc d'"
  shows "wp (write_obj_from L h off n src) Q d"
proof -
  obtain rc k d' where run: "c_dfs_sys_write L h off (take n src) d = ((rc, k), d')" by (metis surj_pair)
  from write_eff [OF assms(1,2) run] assms(3) obtain j where j: "j \<le> n" "hs d' = hs d"
    "fs d' = (fs d)(p \<mapsto> overlay b off (take j src))" "rc = 0 \<longrightarrow> k = j"
    by (auto simp: min_absorb1)
  from j run assms(3) show ?thesis
    by (auto simp: write_obj_from_def wp_simps intro!: assms(4) [of j])
qed

lemma wp_stat_size [wp_rules]:
  assumes "\<And>d'. fs d' = fs d \<Longrightarrow> hs d' = hs d \<Longrightarrow> Q (Inr (map_option length (fs d p))) d'"
    and "\<And>rc d'. rc \<noteq> 0 \<Longrightarrow> fs d' = fs d \<Longrightarrow> hs d' = hs d \<Longrightarrow> Q (Inl (DaosError rc)) d'"
  shows "wp (stat_size L p) Q d"
proof -
  obtain rc n d' where run: "c_dfs_sys_stat L p d = ((rc, n), d')" by (metis surj_pair)
  from stat_eff [OF run] assms(1) [of d'] assms(2) [of rc d'] run show ?thesis
    by (auto simp: wp_def stat_size_def ENOENT_def)
qed

lemma wp_dfs_remove [wp_rules]:
  assumes "\<And>d'. hs d' = hs d \<Longrightarrow> fs d' = (fs d)(p := None) \<Longrightarrow> Q (Inr True) d'"
    and "\<And>d'. hs d' = hs d \<Longrightarrow> fs d p = None \<Longrightarrow> fs d' = fs d \<Longrightarrow> Q (Inr False) d'"
    and "\<And>rc d'. rc \<noteq> 0 \<Longrightarrow> hs d' = hs d \<Longrightarrow> fs d' = fs d \<or> fs d' = (fs d)(p := None) \<Longrightarrow>
           Q (Inl (DaosError rc)) d'"
  shows "wp (dfs_remove L p) Q d"
proof -
  obtain rc d' where run: "c_dfs_sys_remove_type L p False 0 d = (rc, d')" by (metis surj_pair)
  note eff = remove_eff [OF run]
  consider "rc = 0" | "rc = ENOENT" | "rc \<noteq> 0" "rc \<noteq> ENOENT" by blast
  then have "Q (if rc = ENOENT then Inr False else if rc \<noteq> 0 then Inl (DaosError rc) else Inr True) d'"
  proof cases
    case 1
    with eff have "fs d' = (fs d)(p := None)" by (auto simp: fun_eq_iff)
    with 1 eff show ?thesis by (auto simp: ENOENT_def intro: assms(1))
  next
    case 2
    with eff have "fs d p = None" "fs d' = fs d" by (auto simp: fun_eq_iff)
    with 2 eff show ?thesis by (auto intro: assms(2))
  next
    case 3
    with eff show ?thesis by (auto intro: assms(3))
  qed
  with run show ?thesis by (simp add: wp_def dfs_remove_def)
qed

lemma wp_dfs_exists [wp_rules]:
  assumes "\<And>d'. fs d' = fs d \<Longrightarrow> hs d' = hs d \<Longrightarrow> Q (Inr (fs d p \<noteq> None)) d'"
    and "\<And>rc d'. rc \<noteq> 0 \<Longrightarrow> fs d' = fs d \<Longrightarrow> hs d' = hs d \<Longrightarrow> Q (Inl (DaosError rc)) d'"
  shows "wp (dfs_exists L p) Q d"
proof -
  have "dfs_exists L p = catch_io is_DaosError
       (bind_io (open_rdonly L p) (\<lambda>obj. bind_io (close_obj L obj) (\<lambda>_. ret True)))
       (\<lambda>e. if exn_rc e = Some ENOENT then ret False else raise e)"
    by (simp add: dfs_exists_def open_rdonly_def)
  then show ?thesis
    unfolding wp_catch wp_bind
    by (auto simp: wp_simps intro!: wp_open_rdonly wp_close_obj)
      (use assms in \<open>auto simp: fun_upd_idem\<close>)
qed

text \<open>
  The warm-up leaves no handle open and touches no file but its probe, whatever fails on the way.
\<close>

definition only_probe :: "'d \<Rightarrow> string \<Rightarrow> 'd \<Rightarrow> bool" where
  "only_probe d p d' \<longleftrightarrow> (\<forall>q. q \<noteq> p \<longrightarrow> fs d' q = fs d q)"

lemma warm_open_rule:
  "wp (warm_open L p) (\<lambda>r d'. only_probe d p d' \<and>
     (case r of Inl _ \<Rightarrow> hs d' = hs d
      | Inr (h, _) \<Rightarrow> hs d h = None \<and> hs d' = (hs d)(h \<mapsto> p) \<and> fs d' p \<noteq> None)) d"
  unfolding warm_open_def wp_catch wp_bind
  by (rule wp_open_rdwr_create)
    (auto simp: wp_simps only_probe_def is_OSError_def intro!: wp_open_rdwr_create)

lemma warm_read_rule:
  assumes "fs d p \<noteq> None"
  shows "wp (warm_read L p chunk i) (\<lambda>r d'. fs d' = fs d \<and> hs d' = hs d) d"
proof -
  have "wp (finally_io (bind_io (read_obj_into L hh (i * chunk) chunk (replicate chunk 0)) (\<lambda>(k, _). ret k))
          (close_obj L hh)) (\<lambda>r d''. fs d'' = fs d \<and> hs d'' = hs d) d'"
    if "fs d p = Some b" "hs d hh = None" "fs d' = fs d" "hs d' = (hs d)(hh \<mapsto> p)" for hh b d'
    unfolding wp_finally wp_bind
    by (rule wp_read_obj_into [where p = p and b = b])
      (use that in \<open>auto simp: wp_simps fun_upd_idem intro!: wp_close_obj\<close>)
  then show ?thesis
    unfolding warm_read_def wp_bind
    by (auto intro!: wp_open_rdonly)
qed

lemma warm_write_keeps:
  assumes "hs d' h = Some p" and "fs d' p \<noteq> None" and "only_probe d p d'" and "n \<le> length src" and "hs d' = H"
  shows "wp (write_obj_from L h off n src)
    (\<lambda>r d''. (only_probe d p d'' \<and> fs d'' p \<noteq> None \<and> hs d'' = H) \<and> (\<forall>x. r = Inr x \<longrightarrow> True)) d'"
  using assms by (auto simp: only_probe_def intro!: wp_write_obj_from [where p = p])

lemma warm_writes_rule:
  assumes "hs d' = (hs d)(h \<mapsto> p)" and "fs d' p \<noteq> None" and "only_probe d p d'"
    and ex: "case ex of None \<Rightarrow> True | Some sched \<Rightarrow> is_schedule nchunks sched"
  shows "wp (bind_io (seq_io (map (\<lambda>i. write_obj_from L h (i * chunk) tiny (replicate tiny x)) [0..<nchunks])) (\<lambda>_.
          bind_io (exec_map ex (map (\<lambda>i. write_obj_from L h (i * chunk) chunk (replicate chunk y)) [0..<nchunks]))
            (\<lambda>_. ret ())))
    (\<lambda>r d''. only_probe d p d'' \<and> fs d'' p \<noteq> None \<and> hs d'' = (hs d)(h \<mapsto> p)) d'"
proof -
  define I where "I = (\<lambda>d''. only_probe d p d'' \<and> fs d'' p \<noteq> None \<and> hs d'' = (hs d)(h \<mapsto> p))"
  have keep: "wp (write_obj_from L h off n (replicate n z)) (\<lambda>r d''. I d'' \<and> (\<forall>x. r = Inr x \<longrightarrow> True)) e"
    if "I e" for off n z e
    using that unfolding I_def by (intro warm_write_keeps) auto
  have "wp (exec_map ex (map (\<lambda>i. write_obj_from L h (i * chunk) chunk (replicate chunk y)) [0..<nchunks]))
     (\<lambda>r d''. I d'') e" if "I e" for e
    by (rule wp_mono [OF exec_map_rule [where I = I and Q = "\<lambda>_. True"]])
      (use keep that ex in \<open>auto split: option.splits\<close>)
  moreover have "wp (seq_io (map (\<lambda>i. write_obj_from L h (i * chunk) tiny (replicate tiny x)) [0..<nchunks]))
     (\<lambda>r d''. I d'') d'"
    by (rule wp_mono [OF seq_io_rule [where I = I and Q = "\<lambda>_. True"]])
      (use keep assms in \<open>auto simp: I_def\<close>)
  ultimately have "wp (bind_io (seq_io (map (\<lambda>i. write_obj_from L h (i * chunk) tiny (replicate tiny x)) [0..<nchunks])) (\<lambda>_.
          bind_io (exec_map ex (map (\<lambda>i. write_obj_from L h (i * chunk) chunk (replicate chunk y)) [0..<nchunks]))
            (\<lambda>_. ret ()))) (\<lambda>r d''. I d'') d'"
    by (auto simp: wp_ret intro!: wp_bindI [where P = "\<lambda>_. I"])
  then show ?thesis by (simp add: I_def)
qed

lemma warm_up_rule:
  assumes ex: "case ex1 of None \<Rightarrow> True | Some sched \<Rightarrow> is_schedule nchunks sched"
    "case ex2 of None \<Rightarrow> True | Some sched \<Rightarrow> is_schedule nchunks sched"
  shows "wp (warm_up_all_targets L p nchunks ex1 ex2 chunk)
           (\<lambda>r d'. only_probe d p d' \<and> hs d' = hs d) d"
proof -
  have reads: "wp (exec_map ex2 (map (warm_read L p chunk) [0..<nchunks]))
      (\<lambda>r d''. fs d'' = fs d' \<and> hs d'' = hs d') d'" if "fs d' p \<noteq> None" for d'
    by (rule wp_mono [OF exec_map_rule [where I = "\<lambda>e. fs e = fs d' \<and> hs e = hs d'" and Q = "\<lambda>_. True"]])
      (use ex(2) that in \<open>auto split: option.splits intro!: wp_mono [OF warm_read_rule]\<close>)
  have rest: "wp (bind_io (exec_map ex2 (map (warm_read L p chunk) [0..<nchunks])) (\<lambda>got.
     bind_io (swallow (bind_io (dfs_remove L p) (\<lambda>_. ret ()))) (\<lambda>_. ret (f got))))
      (\<lambda>r d'. only_probe d p d' \<and> hs d' = hs d) d'"
    if "fs d' p \<noteq> None" "only_probe d p d'" "hs d' = hs d" for d' and f :: "nat list \<Rightarrow> nat \<times> nat"
    using that unfolding wp_bind
    by (intro wp_mono [OF reads])
      (auto simp: wp_simps only_probe_def is_Exception_def split: sum.splits intro!: wp_dfs_remove)
  have close: "wp (finally_io m (close_obj L h)) (\<lambda>r d''. only_probe d p d'' \<and> fs d'' p \<noteq> None \<and> hs d'' = hs d) d'"
    if "wp m (\<lambda>r d''. only_probe d p d'' \<and> fs d'' p \<noteq> None \<and> hs d'' = (hs d)(h \<mapsto> p)) d'" "hs d h = None"
    for h d' and m :: "('d, unit) io"
    using that(2) unfolding wp_finally
    by (intro wp_mono [OF that(1)]) (auto simp: only_probe_def fun_upd_idem intro!: wp_close_obj)
  show ?thesis
    unfolding warm_up_all_targets_def Let_def
    by (rule wp_bindI [OF warm_open_rule])
      (auto intro!: wp_bindI [OF close [OF warm_writes_rule]] rest ex)
qed

end

context dfs_full
begin

lemma wp_write_full [wp_rules]:
  assumes "hs d h = Some p" and "fs d p = Some b" and "n \<le> length src"
    and "\<And>d'. hs d' = hs d \<Longrightarrow> fs d' = (fs d)(p \<mapsto> overlay b off (take n src)) \<Longrightarrow> Q (Inr n) d'"
    and "\<And>j c d'. j \<le> n \<Longrightarrow> c \<noteq> 0 \<Longrightarrow> hs d' = hs d \<Longrightarrow>
           fs d' = (fs d)(p \<mapsto> overlay b off (take j src)) \<Longrightarrow> Q (Inl (DaosError c)) d'"
  shows "wp (write_obj_from L h off n src) Q d"
proof (rule wp_use)
  show "wp (write_obj_from L h off n src) (\<lambda>r d'. \<forall>k. r = Inr k \<longrightarrow>
      k = n \<and> fs d' = (fs d)(p \<mapsto> overlay b off (take n src))) d"
    using assms(3) write_full [OF assms(1,2), of off "take n src"]
    by (auto simp: write_obj_from_def wp_simps split: prod.splits)
  show "wp (write_obj_from L h off n src) (\<lambda>r d'. (\<forall>k. r = Inr k \<longrightarrow>
      k = n \<and> fs d' = (fs d)(p \<mapsto> overlay b off (take n src))) \<longrightarrow> Q r d') d"
    by (rule wp_write_obj_from [OF assms(1-3)]) (auto intro: assms(4,5))
qed

end

context dfs_live
begin

lemma wp_open_create_up:
  assumes "up d"
    and "\<And>h d'. up d' \<Longrightarrow> hs d' = (hs d)(h \<mapsto> p) \<Longrightarrow> hs d h = None \<Longrightarrow>
           fs d' = (fs d)(p \<mapsto> (case fs d p of None \<Rightarrow> [] | Some b \<Rightarrow> b)) \<Longrightarrow> Q (Inr h) d'"
  shows "wp (open_rdwr_create L p oc) Q d"
proof (rule wp_use)
  from open_live [OF assms(1), of "O_RDWR + O_CREAT" p create_mode oc]
  show "wp (open_rdwr_create L p oc) (\<lambda>r d'. up d' \<and> (\<exists>h. r = Inr h)) d"
    by (auto simp: open_rdwr_create_def open_obj_def wp_simps)
  show "wp (open_rdwr_create L p oc) (\<lambda>r d'. up d' \<and> (\<exists>h. r = Inr h) \<longrightarrow> Q r d') d"
    by (rule wp_open_rdwr_create) (auto intro: assms(2))
qed

lemma wp_open_rdonly_up:
  assumes "up d" and "fs d p = Some b"
    and "\<And>h d'. up d' \<Longrightarrow> fs d' = fs d \<Longrightarrow> hs d' = (hs d)(h \<mapsto> p) \<Longrightarrow> hs d h = None \<Longrightarrow> Q (Inr h) d'"
  shows "wp (open_rdonly L p) Q d"
proof (rule wp_use)
  from open_live [OF assms(1), of O_RDONLY p 0 0] assms(2)
  show "wp (open_rdonly L p) (\<lambda>r d'. up d' \<and> (\<exists>h. r = Inr h)) d"
    by (auto simp: open_rdonly_def open_obj_def wp_simps)
  show "wp (open_rdonly L p) (\<lambda>r d'. up d' \<and> (\<exists>h. r = Inr h) \<longrightarrow> Q r d') d"
    by (rule wp_open_rdonly) (auto intro: assms(3))
qed

lemma wp_close_up:
  assumes "up d" and "\<And>d'. up d' \<Longrightarrow> fs d' = fs d \<Longrightarrow> hs d' = (hs d)(h := None) \<Longrightarrow> Q (Inr ()) d'"
  shows "wp (close_obj L h) Q d"
  using assms close_eff close_live
  by (auto simp: close_obj_def wp_simps split: prod.splits)

lemma wp_read_into_up:
  assumes "up d" and "hs d h = Some p" and "fs d p = Some b" and "min n (length b - off) \<le> length dest"
    and "\<And>x d'. up d' \<Longrightarrow> x = take n (drop off b) \<Longrightarrow> fs d' = fs d \<Longrightarrow> hs d' = hs d \<Longrightarrow>
           Q (Inr (length x, x @ drop (length x) dest)) d'"
  shows "wp (read_obj_into L h off n dest) Q d"
proof -
  from read_live [OF assms(1), of h off n] assms(2) obtain x d' where
    run: "c_dfs_sys_read L h off n d = ((0, x), d')" and up: "up d'" by auto
  note eff = read_eff [OF assms(2,3) run]
  then have "x = take n (drop off b)" by simp
  moreover from this have "length x \<le> length dest" using assms(4) by simp
  ultimately show ?thesis using eff run assms(5) [of d' x] up
    by (simp add: read_obj_into_def wp_simps)
qed

lemma wp_read_up:
  assumes "up d" and "hs d h = Some p" and "fs d p = Some b"
    and "\<And>d'. up d' \<Longrightarrow> fs d' = fs d \<Longrightarrow> hs d' = hs d \<Longrightarrow> Q (Inr (take n (drop off b))) d'"
  shows "wp (read_obj L h off n) Q d"
proof (rule wp_use)
  show "wp (read_obj L h off n) (\<lambda>r d'. up d' \<and> (\<exists>x. r = Inr x)) d"
    unfolding read_obj_def wp_bind
    by (rule wp_read_into_up [OF assms(1-3)]) (auto simp: wp_simps)
  show "wp (read_obj L h off n) (\<lambda>r d'. up d' \<and> (\<exists>x. r = Inr x) \<longrightarrow> Q r d') d"
    by (rule wp_read_obj [OF assms(2,3)]) (auto intro: assms(4))
qed

lemma wp_write_up:
  assumes "up d" and "hs d h = Some p" and "fs d p = Some b" and "n \<le> length src"
    and "\<And>d'. up d' \<Longrightarrow> hs d' = hs d \<Longrightarrow> fs d' = (fs d)(p \<mapsto> overlay b off (take n src)) \<Longrightarrow> Q (Inr n) d'"
  shows "wp (write_obj_from L h off n src) Q d"
proof (rule wp_use)
  from write_live [OF assms(1), of h off "take n src"] assms(2,4)
  show "wp (write_obj_from L h off n src) (\<lambda>r d'. up d' \<and> (\<exists>k. r = Inr k)) d"
    by (auto simp: write_obj_from_def wp_simps)
  show "wp (write_obj_from L h off n src) (\<lambda>r d'. up d' \<and> (\<exists>k. r = Inr k) \<longrightarrow> Q r d') d"
    by (rule wp_write_full [OF assms(2-4)]) (auto intro: assms(5))
qed

end

end
