(* ===== verification/Obj_Binding.thy ===== *)
theory Obj_Binding
  imports Dfs_Binding
begin

text \<open>
  \<^verbatim>\<open>lmcache_daos/obj_binding.py\<close>: the dkey/akey object API. The C structures are records; a pointer
  to a buffer is the buffer's contents, and the key buffers that the source keeps alive until the
  call returns are part of the structures. \<^verbatim>\<open>libdaos\<close> is the record \<open>libobj\<close>, with its contract as
  the locale \<open>obj_lib\<close>.
\<close>

section \<open>Structure building\<close>

record diov =
  iov_buf :: bytes
  iov_buf_len :: nat
  iov_len :: nat

record daosrecx =
  rx_idx :: nat
  rx_nr :: nat

record daosiod =
  iod_name :: diov
  iod_type :: nat
  iod_size :: nat
  iod_flags :: nat
  iod_nr :: nat
  iod_recxs :: "daosrecx option"

record dsglist =
  sg_nr :: nat
  sg_nr_out :: nat
  sg_iovs :: "diov list"

definition DAOS_IOD_SINGLE :: nat where "DAOS_IOD_SINGLE = 1"
definition DAOS_IOD_ARRAY :: nat where "DAOS_IOD_ARRAY = 2"

definition set_iov :: "bytes \<Rightarrow> nat \<Rightarrow> diov" where
  "set_iov buf nbytes = \<lparr>iov_buf = buf, iov_buf_len = nbytes, iov_len = nbytes\<rparr>"

definition build_key :: "bytes \<Rightarrow> diov" where
  "build_key name = set_iov name (length name)"

definition build_iod :: "bytes \<Rightarrow> nat \<Rightarrow> bool \<Rightarrow> daosiod" where
  "build_iod akey nbytes single =
     (let recx = \<lparr>rx_idx = 0, rx_nr = nbytes\<rparr> in
      if single
      then \<lparr>iod_name = build_key akey, iod_type = DAOS_IOD_SINGLE, iod_size = nbytes, iod_flags = 0,
            iod_nr = 1, iod_recxs = None\<rparr>
      else \<lparr>iod_name = build_key akey, iod_type = DAOS_IOD_ARRAY, iod_size = 1, iod_flags = 0,
            iod_nr = 1, iod_recxs = Some recx\<rparr>)"

definition build_sgl :: "bytes \<Rightarrow> nat \<Rightarrow> dsglist" where
  "build_sgl buf nbytes = \<lparr>sg_nr = 1, sg_nr_out = 0, sg_iovs = [set_iov buf nbytes]\<rparr>"

text \<open>An item of a transfer: akey, buffer, number of bytes.\<close>

type_synonym item = "bytes \<times> bytes \<times> nat"

definition build_vectors :: "item list \<Rightarrow> bool \<Rightarrow> daosiod list \<times> dsglist list" where
  "build_vectors items single =
     (map (\<lambda>(akey, buf, nbytes). build_iod akey nbytes single) items,
      map (\<lambda>(akey, buf, nbytes). build_sgl buf nbytes) items)"

section \<open>The library\<close>

record 'o libobj =
  o_daos_init :: "'o \<Rightarrow> int \<times> 'o"
  o_pool_connect :: "string \<Rightarrow> string option \<Rightarrow> nat \<Rightarrow> 'o \<Rightarrow> (int \<times> nat) \<times> 'o"
  o_pool_disconnect :: "nat \<Rightarrow> 'o \<Rightarrow> int \<times> 'o"
  o_cont_open :: "nat \<Rightarrow> string \<Rightarrow> nat \<Rightarrow> 'o \<Rightarrow> (int \<times> nat) \<times> 'o"
  o_cont_close :: "nat \<Rightarrow> 'o \<Rightarrow> int \<times> 'o"
  o_generate_oid :: "nat \<Rightarrow> nat \<times> nat \<Rightarrow> nat \<Rightarrow> 'o \<Rightarrow> (int \<times> nat \<times> nat) \<times> 'o"
  o_obj_open :: "nat \<Rightarrow> nat \<times> nat \<Rightarrow> nat \<Rightarrow> 'o \<Rightarrow> (int \<times> nat) \<times> 'o"
  o_obj_close :: "nat \<Rightarrow> 'o \<Rightarrow> int \<times> 'o"
  o_obj_update :: "nat \<Rightarrow> diov \<Rightarrow> daosiod list \<Rightarrow> dsglist list \<Rightarrow> 'o \<Rightarrow> int \<times> 'o"
  o_obj_fetch :: "nat \<Rightarrow> diov \<Rightarrow> daosiod list \<Rightarrow> dsglist list \<Rightarrow> 'o \<Rightarrow> (int \<times> dsglist list) \<times> 'o"
  o_punch_dkeys :: "nat \<Rightarrow> diov list \<Rightarrow> 'o \<Rightarrow> int \<times> 'o"
  o_punch_akeys :: "nat \<Rightarrow> diov \<Rightarrow> diov list \<Rightarrow> 'o \<Rightarrow> int \<times> 'o"
  o_prop_alloc :: "nat \<Rightarrow> 'o \<Rightarrow> bool \<times> 'o"
  o_cont_query :: "nat \<Rightarrow> nat \<Rightarrow> 'o \<Rightarrow> (int \<times> nat) \<times> 'o"
  o_prop_free :: "'o \<Rightarrow> unit \<times> 'o"

text \<open>
  \<open>sv o dk ak\<close> is the single value and \<open>av o dk ak\<close> the byte array stored under an akey. A fetch
  reports an absent akey with return code zero and no segment (\<open>sg_nr_out = 0\<close>), and leaves the
  length it was given in \<open>iov_len\<close>; a single value larger than the buffer is an error; an array
  shorter than asked comes back short. An update that fails may have reached some of the akeys, and
  some of the bytes of each.
\<close>

definition sgl_result :: "bytes \<Rightarrow> nat \<Rightarrow> bytes option \<Rightarrow> dsglist \<Rightarrow> bool" where
  "sgl_result buf n v sgl = (case v of
     None \<Rightarrow> sgl = build_sgl buf n
   | Some x \<Rightarrow> sgl = \<lparr>sg_nr = 1, sg_nr_out = 1,
        sg_iovs = [\<lparr>iov_buf = x @ drop (length x) buf, iov_buf_len = n, iov_len = length x\<rparr>]\<rparr>)"

definition old_bytes :: "bytes option \<Rightarrow> bytes" where
  "old_bytes v = (case v of None \<Rightarrow> [] | Some b \<Rightarrow> b)"

text \<open>
  What a failed array update may leave behind: some of the new bytes at their place, the old ones or
  holes elsewhere. Nothing says that the bytes that arrived come first.
\<close>

definition partial_write :: "bytes \<Rightarrow> bytes \<Rightarrow> bytes \<Rightarrow> bool" where
  "partial_write old x c \<longleftrightarrow> length old \<le> length c \<and> length c \<le> max (length old) (length x) \<and>
     (\<forall>i < length c. i < length old \<and> c ! i = old ! i \<or> i < length x \<and> c ! i = x ! i \<or> length old \<le> i \<and> c ! i = 0)"

locale obj_lib =
  fixes OL :: "'o libobj"
    and hdl :: nat
    and sv :: "'o \<Rightarrow> bytes \<Rightarrow> bytes \<Rightarrow> bytes option"
    and av :: "'o \<Rightarrow> bytes \<Rightarrow> bytes \<Rightarrow> bytes option"
  assumes update_array:
    "distinct (map fst items) \<Longrightarrow> (\<forall>(ak, buf, n) \<in> set items. n \<le> length buf) \<Longrightarrow>
     build_vectors items False = (iods, sgls) \<Longrightarrow>
     o_obj_update OL hdl (build_key dk) iods sgls d = (rc, d') \<Longrightarrow>
     sv d' = sv d \<and> (\<forall>dk' ak. dk' \<noteq> dk \<or> ak \<notin> fst ` set items \<longrightarrow> av d' dk' ak = av d dk' ak) \<and>
     (\<forall>(ak, buf, n) \<in> set items.
        if rc = 0 then av d' dk ak = Some (overlay (old_bytes (av d dk ak)) 0 (take n buf))
        else av d' dk ak = av d dk ak \<or>
             (\<exists>c. av d' dk ak = Some c \<and> partial_write (old_bytes (av d dk ak)) (take n buf) c))"
  and update_single:
    "distinct (map fst items) \<Longrightarrow> (\<forall>(ak, buf, n) \<in> set items. n \<le> length buf) \<Longrightarrow>
     build_vectors items True = (iods, sgls) \<Longrightarrow>
     o_obj_update OL hdl (build_key dk) iods sgls d = (rc, d') \<Longrightarrow>
     av d' = av d \<and> (\<forall>dk' ak. dk' \<noteq> dk \<or> ak \<notin> fst ` set items \<longrightarrow> sv d' dk' ak = sv d dk' ak) \<and>
     (\<forall>(ak, buf, n) \<in> set items. sv d' dk ak = Some (take n buf) \<or> rc \<noteq> 0 \<and> sv d' dk ak = sv d dk ak)"
  and fetch_array:
    "build_vectors items False = (iods, sgls) \<Longrightarrow>
     o_obj_fetch OL hdl (build_key dk) iods sgls d = ((rc, sgls'), d') \<Longrightarrow>
     sv d' = sv d \<and> av d' = av d \<and>
     (rc = 0 \<longrightarrow> list_all2 (\<lambda>(ak, buf, n) sgl. sgl_result buf n (map_option (take n) (av d dk ak)) sgl) items sgls')"
  and fetch_single:
    "build_vectors items True = (iods, sgls) \<Longrightarrow>
     o_obj_fetch OL hdl (build_key dk) iods sgls d = ((rc, sgls'), d') \<Longrightarrow>
     sv d' = sv d \<and> av d' = av d \<and>
     (rc = 0 \<longrightarrow> list_all2 (\<lambda>(ak, buf, n) sgl. sgl_result buf n (sv d dk ak) sgl \<and>
                   (\<forall>x. sv d dk ak = Some x \<longrightarrow> length x \<le> n)) items sgls')"
  and punch_dkey:
    "o_punch_dkeys OL hdl [build_key dk] d = (rc, d') \<Longrightarrow>
     (\<forall>dk'. dk' \<noteq> dk \<longrightarrow> sv d' dk' = sv d dk' \<and> av d' dk' = av d dk') \<and>
     (\<forall>ak. sv d' dk ak = None \<or> rc \<noteq> 0 \<and> sv d' dk ak = sv d dk ak) \<and>
     (\<forall>ak. av d' dk ak = None \<or> rc \<noteq> 0 \<and> av d' dk ak = av d dk ak)"
  and punch_akey:
    "o_punch_akeys OL hdl (build_key dk) (map build_key aks) d = (rc, d') \<Longrightarrow>
     (\<forall>dk' ak. dk' \<noteq> dk \<or> ak \<notin> set aks \<longrightarrow> sv d' dk' ak = sv d dk' ak \<and> av d' dk' ak = av d dk' ak) \<and>
     (\<forall>ak \<in> set aks. (sv d' dk ak = None \<or> rc \<noteq> 0 \<and> sv d' dk ak = sv d dk ak) \<and>
                      (av d' dk ak = None \<or> rc \<noteq> 0 \<and> av d' dk ak = av d dk ak))"

text \<open>\<open>up d\<close>: the servers answer, and keep answering.\<close>

locale obj_live = obj_lib +
  fixes up :: "'a \<Rightarrow> bool"
  assumes update_live: "up d \<Longrightarrow> \<exists>d'. o_obj_update OL hdl dk iods sgls d = (0, d') \<and> up d'"
    and fetch_array_live: "up d \<Longrightarrow> build_vectors items False = (iods, sgls) \<Longrightarrow>
       \<exists>sgls' d'. o_obj_fetch OL hdl dk iods sgls d = ((0, sgls'), d') \<and> up d'"
    and fetch_single_live: "up d \<Longrightarrow> build_vectors items True = (iods, sgls) \<Longrightarrow>
       (\<forall>(ak, buf, n) \<in> set items. \<forall>x. sv d dkey ak = Some x \<longrightarrow> length x \<le> n) \<Longrightarrow>
       \<exists>sgls' d'. o_obj_fetch OL hdl (build_key dkey) iods sgls d = ((0, sgls'), d') \<and> up d'"

section \<open>The class ObjSys\<close>

definition buffers_fit :: "item list \<Rightarrow> bool" where
  "buffers_fit items \<longleftrightarrow> list_all (\<lambda>(ak, buf, n). n \<le> length buf) items"

text \<open>
  \<^verbatim>\<open>update\<close> and \<^verbatim>\<open>fetch\<close>. The C call reads or stores up to \<open>n\<close> bytes of each buffer, so a buffer
  smaller than that is a memory fault. A fetch gives the byte count of each akey, zero for an absent
  one, together with the contents the buffers have afterwards.
\<close>

definition obj_update :: "'o libobj \<Rightarrow> nat \<Rightarrow> bytes \<Rightarrow> item list \<Rightarrow> bool \<Rightarrow> ('o, unit) io" where
  "obj_update OL hdl dkey items single =
     (let dk_iov = build_key dkey; (iods, sgls) = build_vectors items single in
      if \<not> buffers_fit items then raise MemoryFault
      else chk_rc (o_obj_update OL hdl dk_iov iods sgls))"

definition obj_got :: "dsglist \<Rightarrow> nat" where
  "obj_got sgl = (if sg_nr_out sgl \<noteq> 0 then iov_len (sg_iovs sgl ! 0) else 0)"

definition obj_fetch ::
  "'o libobj \<Rightarrow> nat \<Rightarrow> bytes \<Rightarrow> item list \<Rightarrow> bool \<Rightarrow> ('o, (nat \<times> bytes) list) io" where
  "obj_fetch OL hdl dkey items single =
     (let dk_iov = build_key dkey; (iods, sgls) = build_vectors items single in
      if \<not> buffers_fit items then raise MemoryFault
      else bind_io (chk_rc2 (o_obj_fetch OL hdl dk_iov iods sgls)) (\<lambda>sgls'.
           ret (map (\<lambda>sgl. (obj_got sgl, iov_buf (sg_iovs sgl ! 0))) sgls')))"

definition obj_punch :: "'o libobj \<Rightarrow> nat \<Rightarrow> bytes \<Rightarrow> ('o, unit) io" where
  "obj_punch OL hdl dkey = chk_rc (o_punch_dkeys OL hdl [build_key dkey])"

definition obj_punch_akeys :: "'o libobj \<Rightarrow> nat \<Rightarrow> bytes \<Rightarrow> bytes list \<Rightarrow> ('o, unit) io" where
  "obj_punch_akeys OL hdl dkey akeys =
     (if akeys = [] then ret ()
      else chk_rc (o_punch_akeys OL hdl (build_key dkey) (map build_key akeys)))"

text \<open>Opening and closing: a handle is its cookie, zero when it is not valid.\<close>

record 'o objsys =
  obj_state :: 'o
  poh :: nat
  coh :: nat
  oh :: nat
  is_open :: bool

definition DAOS_PC_RO :: nat where "DAOS_PC_RO = 1"
definition DAOS_PC_RW :: nat where "DAOS_PC_RW = 2"
definition DAOS_COO_RO :: nat where "DAOS_COO_RO = 1"
definition DAOS_COO_RW :: nat where "DAOS_COO_RW = 2"
definition DAOS_OO_RW :: nat where "DAOS_OO_RW = 4"
definition OC_UNKNOWN :: nat where "OC_UNKNOWN = 0"
definition DAOS_PROP_CO_LAYOUT_TYPE :: nat where "DAOS_PROP_CO_LAYOUT_TYPE = 0x1002"
definition DAOS_PROP_CO_LAYOUT_POSIX :: nat where "DAOS_PROP_CO_LAYOUT_POSIX = 1"

definition on_obj :: "('o, 'a) io \<Rightarrow> ('o objsys, 'a) io" where
  "on_obj m = (\<lambda>s. case m (obj_state s) of (r, d') \<Rightarrow> (r, s\<lparr>obj_state := d'\<rparr>))"

text \<open>
  A C call that stores a handle through a pointer. The out parameter of a failing call is left as it
  was, as the documentation of each of these calls has it.
\<close>

definition chk_handle :: "('o \<Rightarrow> (int \<times> nat) \<times> 'o) \<Rightarrow> (nat \<Rightarrow> 'o objsys \<Rightarrow> 'o objsys) \<Rightarrow> ('o objsys, unit) io" where
  "chk_handle f setter = bind_io (on_obj (chk_rc2 f)) (\<lambda>h. put_s (setter h))"

definition ObjSys_close :: "'o libobj \<Rightarrow> ('o objsys, unit) io" where
  "ObjSys_close OL =
     bind_io (get_s id) (\<lambda>s.
     bind_io (if is_open s
              then bind_io (on_obj (ignore_rc (o_obj_close OL (oh s)))) (\<lambda>_.
                   put_s (\<lambda>s. s\<lparr>is_open := False\<rparr>))
              else ret ()) (\<lambda>_.
     bind_io (if coh s \<noteq> 0
              then bind_io (on_obj (ignore_rc (o_cont_close OL (coh s)))) (\<lambda>_.
                   put_s (\<lambda>s. s\<lparr>coh := 0\<rparr>))
              else ret ()) (\<lambda>_.
     if poh s \<noteq> 0
     then bind_io (on_obj (ignore_rc (o_pool_disconnect OL (poh s)))) (\<lambda>_.
          put_s (\<lambda>s. s\<lparr>poh := 0\<rparr>))
     else ret ())))"

definition ObjSys_init ::
  "'o libobj \<Rightarrow> string \<Rightarrow> string \<Rightarrow> string option \<Rightarrow> nat \<Rightarrow> nat \<Rightarrow> ('o objsys, nat \<times> nat) io" where
  "ObjSys_init OL pool cont sysname oid_lo oid_hi =
     bind_io (on_obj (chk_rc (o_daos_init OL))) (\<lambda>_.
     bind_io (put_s (\<lambda>s. s\<lparr>poh := 0, coh := 0, oh := 0, is_open := False\<rparr>)) (\<lambda>_.
     catch_io is_Exception
       (bind_io (chk_handle (o_pool_connect OL pool sysname DAOS_PC_RW) (\<lambda>h s. s\<lparr>poh := h\<rparr>)) (\<lambda>_.
        bind_io (get_s poh) (\<lambda>p.
        bind_io (chk_handle (o_cont_open OL p cont DAOS_COO_RW) (\<lambda>h s. s\<lparr>coh := h\<rparr>)) (\<lambda>_.
        bind_io (get_s coh) (\<lambda>c.
        bind_io (on_obj (chk_rc2 (o_generate_oid OL c (oid_lo, oid_hi) OC_UNKNOWN))) (\<lambda>oid.
        bind_io (chk_handle (o_obj_open OL c oid DAOS_OO_RW) (\<lambda>h s. s\<lparr>oh := h\<rparr>)) (\<lambda>_.
        bind_io (put_s (\<lambda>s. s\<lparr>is_open := True\<rparr>)) (\<lambda>_. ret oid))))))))
       (\<lambda>e. bind_io (ObjSys_close OL) (\<lambda>_. raise e))))"

text \<open>\<^verbatim>\<open>container_layout\<close>: the handles are local; \<open>finally\<close> gives back the ones that were obtained.\<close>

definition layout_cleanup :: "'o libobj \<Rightarrow> bool \<Rightarrow> nat \<Rightarrow> nat \<Rightarrow> ('o, unit) io" where
  "layout_cleanup OL prop c p =
     bind_io (if prop then (\<lambda>d. (Inr (), snd (o_prop_free OL d))) else ret ()) (\<lambda>_.
     bind_io (if c \<noteq> 0 then ignore_rc (o_cont_close OL c) else ret ()) (\<lambda>_.
     if p \<noteq> 0 then ignore_rc (o_pool_disconnect OL p) else ret ()))"

definition layout_query :: "'o libobj \<Rightarrow> nat \<Rightarrow> nat \<Rightarrow> ('o, nat) io" where
  "layout_query OL c p =
     bind_io (\<lambda>d. case o_prop_alloc OL 1 d of (b, d') \<Rightarrow> (Inr b, d')) (\<lambda>prop.
     finally_io
       (if \<not> prop then raise (DaosError ENOMEM)
        else chk_rc2 (o_cont_query OL c DAOS_PROP_CO_LAYOUT_TYPE))
       (layout_cleanup OL prop c p))"

definition container_layout :: "'o libobj \<Rightarrow> string \<Rightarrow> string \<Rightarrow> string option \<Rightarrow> ('o, nat) io" where
  "container_layout OL pool cont sysname =
     bind_io (chk_rc (o_daos_init OL)) (\<lambda>_.
     bind_io (chk_rc2 (o_pool_connect OL pool sysname DAOS_PC_RO)) (\<lambda>p.
     bind_io (catch_io (\<lambda>_. True) (chk_rc2 (o_cont_open OL p cont DAOS_COO_RO))
                (\<lambda>e. bind_io (layout_cleanup OL False 0 p) (\<lambda>_. raise e))) (\<lambda>c.
     layout_query OL c p)))"

section \<open>What a transfer does, given the contract of the library\<close>

definition fetched :: "bytes \<Rightarrow> bytes option \<Rightarrow> nat \<times> bytes \<Rightarrow> bool" where
  "fetched buf v res = (case v of
     None \<Rightarrow> res = (0, buf)
   | Some x \<Rightarrow> res = (length x, x @ drop (length x) buf))"

lemma sgl_result_fetched:
  "sgl_result buf n v sgl \<Longrightarrow> fetched buf v (obj_got sgl, iov_buf (sg_iovs sgl ! 0))"
  by (auto simp: sgl_result_def fetched_def obj_got_def build_sgl_def set_iov_def split: option.splits)

text \<open>
  The count a fetch reports is the length of the value that is stored, never the length left over
  in \<^verbatim>\<open>iov_len\<close>, and the counted bytes of the buffer are that value.
\<close>

lemma fetched_count: "fetched buf v (k, x) \<Longrightarrow> take k x = old_bytes v"
  by (auto simp: fetched_def old_bytes_def split: option.splits)

lemma length_fetched:
  "fetched buf v (k, x) \<Longrightarrow> (\<forall>y. v = Some y \<longrightarrow> length y \<le> length buf) \<Longrightarrow> length x = length buf"
  by (auto simp: fetched_def split: option.splits)

context obj_lib
begin

lemma wp_update_array [wp_rules]:
  assumes "distinct (map fst items)" and fit: "buffers_fit items"
    and "\<And>r d'. sv d' = sv d \<Longrightarrow> (\<And>dk' ak. dk' \<noteq> dk \<or> ak \<notin> fst ` set items \<Longrightarrow> av d' dk' ak = av d dk' ak) \<Longrightarrow>
           (\<And>ak buf n. (ak, buf, n) \<in> set items \<Longrightarrow>
              if r = Inr () then av d' dk ak = Some (overlay (old_bytes (av d dk ak)) 0 (take n buf))
              else av d' dk ak = av d dk ak \<or>
                   (\<exists>c. av d' dk ak = Some c \<and> partial_write (old_bytes (av d dk ak)) (take n buf) c)) \<Longrightarrow>
           r = Inr () \<or> (\<exists>c. c \<noteq> 0 \<and> r = Inl (DaosError c)) \<Longrightarrow> Q r d'"
  shows "wp (obj_update OL hdl dk items False) Q d"
proof -
  obtain iods sgls where v: "build_vectors items False = (iods, sgls)" by (cases "build_vectors items False")
  obtain rc d' where run: "o_obj_update OL hdl (build_key dk) iods sgls d = (rc, d')" by (metis surj_pair)
  from fit have "\<forall>(ak, buf, n) \<in> set items. n \<le> length buf" by (auto simp: buffers_fit_def list_all_iff)
  from update_array [OF assms(1) this v run] have
    "Q (if rc \<noteq> 0 then Inl (DaosError rc) else Inr ()) d'"
    by (intro assms(3)) (force split: if_splits)+
  with fit v run show ?thesis by (simp add: obj_update_def wp_simps)
qed

lemma wp_update_single [wp_rules]:
  assumes "distinct (map fst items)" and fit: "buffers_fit items"
    and "\<And>r d'. av d' = av d \<Longrightarrow> (\<And>dk' ak. dk' \<noteq> dk \<or> ak \<notin> fst ` set items \<Longrightarrow> sv d' dk' ak = sv d dk' ak) \<Longrightarrow>
           (\<And>ak buf n. (ak, buf, n) \<in> set items \<Longrightarrow>
              sv d' dk ak = Some (take n buf) \<or> r \<noteq> Inr () \<and> sv d' dk ak = sv d dk ak) \<Longrightarrow>
           r = Inr () \<or> (\<exists>c. c \<noteq> 0 \<and> r = Inl (DaosError c)) \<Longrightarrow> Q r d'"
  shows "wp (obj_update OL hdl dk items True) Q d"
proof -
  obtain iods sgls where v: "build_vectors items True = (iods, sgls)" by (cases "build_vectors items True")
  obtain rc d' where run: "o_obj_update OL hdl (build_key dk) iods sgls d = (rc, d')" by (metis surj_pair)
  from fit have "\<forall>(ak, buf, n) \<in> set items. n \<le> length buf" by (auto simp: buffers_fit_def list_all_iff)
  from update_single [OF assms(1) this v run] have
    "Q (if rc \<noteq> 0 then Inl (DaosError rc) else Inr ()) d'"
    by (intro assms(3)) (force split: if_splits)+
  with fit v run show ?thesis by (simp add: obj_update_def wp_simps)
qed

lemma wp_fetch_array [wp_rules]:
  assumes fit: "buffers_fit items"
    and "\<And>res d'. sv d' = sv d \<Longrightarrow> av d' = av d \<Longrightarrow>
           list_all2 (\<lambda>(ak, buf, n). fetched buf (map_option (take n) (av d dk ak))) items res \<Longrightarrow> Q (Inr res) d'"
    and "\<And>c d'. c \<noteq> 0 \<Longrightarrow> sv d' = sv d \<Longrightarrow> av d' = av d \<Longrightarrow> Q (Inl (DaosError c)) d'"
  shows "wp (obj_fetch OL hdl dk items False) Q d"
proof -
  obtain iods sgls where v: "build_vectors items False = (iods, sgls)" by (cases "build_vectors items False")
  obtain rc sgls' d' where run: "o_obj_fetch OL hdl (build_key dk) iods sgls d = ((rc, sgls'), d')"
    by (metis surj_pair)
  from fetch_array [OF v run] fit v run show ?thesis
    by (auto simp: obj_fetch_def wp_simps list_all2_map2 intro!: assms(2,3)
        elim!: list_all2_mono dest: sgl_result_fetched)
qed

lemma wp_fetch_single [wp_rules]:
  assumes fit: "buffers_fit items"
    and "\<And>res d'. sv d' = sv d \<Longrightarrow> av d' = av d \<Longrightarrow>
           list_all2 (\<lambda>(ak, buf, n) res. fetched buf (sv d dk ak) res \<and>
              (\<forall>x. sv d dk ak = Some x \<longrightarrow> length x \<le> n)) items res \<Longrightarrow> Q (Inr res) d'"
    and "\<And>c d'. c \<noteq> 0 \<Longrightarrow> sv d' = sv d \<Longrightarrow> av d' = av d \<Longrightarrow> Q (Inl (DaosError c)) d'"
  shows "wp (obj_fetch OL hdl dk items True) Q d"
proof -
  obtain iods sgls where v: "build_vectors items True = (iods, sgls)" by (cases "build_vectors items True")
  obtain rc sgls' d' where run: "o_obj_fetch OL hdl (build_key dk) iods sgls d = ((rc, sgls'), d')"
    by (metis surj_pair)
  from fetch_single [OF v run] fit v run show ?thesis
    by (auto simp: obj_fetch_def wp_simps list_all2_map2 intro!: assms(2,3)
        elim!: list_all2_mono dest: sgl_result_fetched)
qed

lemma wp_punch [wp_rules]:
  assumes "\<And>r d'. (\<And>dk'. dk' \<noteq> dk \<Longrightarrow> sv d' dk' = sv d dk' \<and> av d' dk' = av d dk') \<Longrightarrow>
      (\<And>ak. sv d' dk ak = None \<or> r \<noteq> Inr () \<and> sv d' dk ak = sv d dk ak) \<Longrightarrow>
      (\<And>ak. av d' dk ak = None \<or> r \<noteq> Inr () \<and> av d' dk ak = av d dk ak) \<Longrightarrow>
      r = Inr () \<or> (\<exists>c. c \<noteq> 0 \<and> r = Inl (DaosError c)) \<Longrightarrow> Q r d'"
  shows "wp (obj_punch OL hdl dk) Q d"
proof -
  obtain rc d' where run: "o_punch_dkeys OL hdl [build_key dk] d = (rc, d')" by (metis surj_pair)
  from punch_dkey [OF run] have "Q (if rc \<noteq> 0 then Inl (DaosError rc) else Inr ()) d'"
    by (intro assms) (auto split: if_splits)
  with run show ?thesis by (simp add: obj_punch_def wp_simps)
qed

lemma wp_punch_akeys [wp_rules]:
  assumes "\<And>r d'. (\<And>dk' ak. dk' \<noteq> dk \<or> ak \<notin> set aks \<Longrightarrow> sv d' dk' ak = sv d dk' ak \<and> av d' dk' ak = av d dk' ak) \<Longrightarrow>
      (\<And>ak. ak \<in> set aks \<Longrightarrow> (sv d' dk ak = None \<or> r \<noteq> Inr () \<and> sv d' dk ak = sv d dk ak) \<and>
                                 (av d' dk ak = None \<or> r \<noteq> Inr () \<and> av d' dk ak = av d dk ak)) \<Longrightarrow>
      r = Inr () \<or> (\<exists>c. c \<noteq> 0 \<and> r = Inl (DaosError c)) \<Longrightarrow> Q r d'"
  shows "wp (obj_punch_akeys OL hdl dk aks) Q d"
proof (cases "aks = []")
  case True
  then show ?thesis using assms [of d "Inr ()"] by (simp add: obj_punch_akeys_def wp_simps)
next
  case False
  obtain rc d' where run: "o_punch_akeys OL hdl (build_key dk) (map build_key aks) d = (rc, d')"
    by (metis surj_pair)
  from punch_akey [OF run] have "Q (if rc \<noteq> 0 then Inl (DaosError rc) else Inr ()) d'"
    by (intro assms) (auto split: if_splits)
  with False run show ?thesis by (simp add: obj_punch_akeys_def wp_simps)
qed

end

text \<open>With the servers up, a transfer succeeds; \<open>wp_use\<close> combines these with the rules above.\<close>

context obj_live
begin

lemma update_up:
  "up d \<Longrightarrow> buffers_fit items \<Longrightarrow> wp (obj_update OL hdl dk items single) (\<lambda>r d'. up d' \<and> r = Inr ()) d"
proof -
  assume "up d" and fit: "buffers_fit items"
  obtain iods sgls where v: "build_vectors items single = (iods, sgls)" by (cases "build_vectors items single")
  with update_live [OF \<open>up d\<close>, of "build_key dk" iods sgls] fit show ?thesis
    by (auto simp: obj_update_def wp_simps)
qed

lemma fetch_array_up:
  assumes "up d" and "buffers_fit items"
  shows "wp (obj_fetch OL hdl dk items False) (\<lambda>r d'. up d' \<and> (\<exists>x. r = Inr x)) d"
proof -
  obtain iods sgls where v: "build_vectors items False = (iods, sgls)" by (cases "build_vectors items False")
  with fetch_array_live [OF assms(1) v, of "build_key dk"] assms show ?thesis
    by (auto simp: obj_fetch_def wp_simps)
qed

lemma fetch_single_up:
  assumes "up d" and "buffers_fit items"
    and "\<forall>(ak, buf, n) \<in> set items. \<forall>x. sv d dk ak = Some x \<longrightarrow> length x \<le> n"
  shows "wp (obj_fetch OL hdl dk items True) (\<lambda>r d'. up d' \<and> (\<exists>x. r = Inr x)) d"
proof -
  obtain iods sgls where v: "build_vectors items True = (iods, sgls)" by (cases "build_vectors items True")
  with fetch_single_live [OF assms(1) v assms(3)] assms show ?thesis
    by (auto simp: obj_fetch_def wp_simps)
qed

end

section \<open>Handles\<close>

text \<open>
  What opening and closing does to the handles the process holds: a successful open returns a fresh
  non-zero cookie, a failed one leaves the handles as they are, and every other call keeps them.
\<close>

record handles =
  h_pools :: "nat set"
  h_conts :: "nat set"
  h_objs :: "nat set"

locale obj_handles =
  fixes OL :: "'o libobj" and held :: "'o \<Rightarrow> handles"
  assumes init_held: "o_daos_init OL d = (rc, d') \<Longrightarrow> held d' = held d"
    and connect_held: "o_pool_connect OL p s m d = ((rc, h), d') \<Longrightarrow>
      (if rc = 0 then h \<noteq> 0 \<and> h \<notin> h_pools (held d) \<and> held d' = (held d)\<lparr>h_pools := insert h (h_pools (held d))\<rparr>
       else held d' = held d)"
    and disconnect_held: "o_pool_disconnect OL h d = (rc, d') \<Longrightarrow>
      held d' = (held d)\<lparr>h_pools := h_pools (held d) - {h}\<rparr>"
    and cont_open_held: "o_cont_open OL ph c m d = ((rc, h), d') \<Longrightarrow>
      (if rc = 0 then h \<noteq> 0 \<and> h \<notin> h_conts (held d) \<and> held d' = (held d)\<lparr>h_conts := insert h (h_conts (held d))\<rparr>
       else held d' = held d)"
    and cont_close_held: "o_cont_close OL h d = (rc, d') \<Longrightarrow>
      held d' = (held d)\<lparr>h_conts := h_conts (held d) - {h}\<rparr>"
    and oid_held: "o_generate_oid OL ch oid cls d = ((rc, x), d') \<Longrightarrow> held d' = held d"
    and obj_open_held: "o_obj_open OL ch oid m d = ((rc, h), d') \<Longrightarrow>
      (if rc = 0 then h \<notin> h_objs (held d) \<and> held d' = (held d)\<lparr>h_objs := insert h (h_objs (held d))\<rparr>
       else held d' = held d)"
    and obj_close_held: "o_obj_close OL h d = (rc, d') \<Longrightarrow>
      held d' = (held d)\<lparr>h_objs := h_objs (held d) - {h}\<rparr>"
    and prop_alloc_held: "o_prop_alloc OL n d = (b, d') \<Longrightarrow> held d' = held d"
    and query_held: "o_cont_query OL ch ty d = ((rc, v), d') \<Longrightarrow> held d' = held d"
    and prop_free_held: "o_prop_free OL d = (u, d') \<Longrightarrow> held d' = held d"
begin

lemma wp_on_obj [wp_simps]: "wp (on_obj m) Q s = wp m (\<lambda>r d'. Q r (s\<lparr>obj_state := d'\<rparr>)) (obj_state s)"
  by (auto simp: wp_def on_obj_def split: prod.splits)

lemma wp_cleanup:
  assumes "\<And>d'. held d' = (held d)\<lparr>h_pools := h_pools (held d) - {p}, h_conts := (if c \<noteq> 0 then h_conts (held d) - {c} else h_conts (held d))\<rparr> \<Longrightarrow> Q (Inr ()) d'"
    and "p \<noteq> 0"
  shows "wp (layout_cleanup OL prop c p) Q d"
proof -
  obtain u d1 where 1: "o_prop_free OL d = (u, d1)" by (metis surj_pair)
  define e where "e = (if prop then d1 else d)"
  obtain rc2 d2 where 2: "o_cont_close OL c e = (rc2, d2)" by (metis surj_pair)
  define f where "f = (if c \<noteq> 0 then d2 else e)"
  obtain rc3 d3 where 3: "o_pool_disconnect OL p f = (rc3, d3)" by (metis surj_pair)
  have "held e = held d" using prop_free_held [OF 1] by (simp add: e_def)
  with cont_close_held [OF 2] disconnect_held [OF 3] have "Q (Inr ()) d3"
    by (intro assms(1)) (auto simp: f_def)
  moreover have "layout_cleanup OL prop c p d = (Inr (), d3)"
    using 1 2 3 assms(2) by (auto simp: layout_cleanup_def run_bind ignore_rc_def e_def f_def)
  ultimately show ?thesis by (simp add: wp_def)
qed

lemma layout_query_held:
  assumes "held d = H\<lparr>h_pools := insert p (h_pools H), h_conts := insert c (h_conts H)\<rparr>"
    and "p \<noteq> 0" "c \<noteq> 0" "p \<notin> h_pools H" "c \<notin> h_conts H"
  shows "wp (layout_query OL c p) (\<lambda>r d'. held d' = H) d"
proof -
  obtain b d1 where 1: "o_prop_alloc OL 1 d = (b, d1)" by (metis surj_pair)
  obtain rc v d2 where 2: "o_cont_query OL c DAOS_PROP_CO_LAYOUT_TYPE d1 = ((rc, v), d2)" by (metis surj_pair)
  have h1: "held d1 = held d" using prop_alloc_held [OF 1] .
  have h2: "held d2 = held d" using query_held [OF 2] h1 by simp
  have "wp (layout_query OL c p) Q d = wp (finally_io (if \<not> b then raise (DaosError ENOMEM)
        else chk_rc2 (o_cont_query OL c DAOS_PROP_CO_LAYOUT_TYPE)) (layout_cleanup OL b c p)) Q d1" for Q
    using 1 by (simp add: layout_query_def wp_def run_bind)
  moreover have "wp (finally_io (if \<not> b then raise (DaosError ENOMEM)
        else chk_rc2 (o_cont_query OL c DAOS_PROP_CO_LAYOUT_TYPE)) (layout_cleanup OL b c p)) (\<lambda>r d'. held d' = H) d1"
    using 2 assms h1 h2 by (cases b) (auto simp: wp_simps intro!: wp_cleanup)
  ultimately show ?thesis by simp
qed

lemma container_layout_held: "wp (container_layout OL pool cont sys) (\<lambda>r d'. held d' = held d) d"
proof -
  have open_case: "wp (bind_io (catch_io (\<lambda>_. True) (chk_rc2 (o_cont_open OL p cont DAOS_COO_RO))
                (\<lambda>e. bind_io (layout_cleanup OL False 0 p) (\<lambda>_. raise e))) (\<lambda>c. layout_query OL c p))
        (\<lambda>r d'. held d' = H) d"
    if "held d = H\<lparr>h_pools := insert p (h_pools H)\<rparr>" "p \<noteq> 0" "p \<notin> h_pools H" for p d H
  proof -
    obtain rc c d1 where 1: "o_cont_open OL p cont DAOS_COO_RO d = ((rc, c), d1)" by (metis surj_pair)
    from cont_open_held [OF 1] that show ?thesis
      by (cases "rc = 0") (auto simp: wp_simps 1 intro!: wp_cleanup layout_query_held)
  qed
  obtain rc0 d0 where 0: "o_daos_init OL d = (rc0, d0)" by (metis surj_pair)
  obtain rc p d1 where 1: "o_pool_connect OL pool sys DAOS_PC_RO d0 = ((rc, p), d1)" by (metis surj_pair)
  have h0: "held d0 = held d" using init_held [OF 0] .
  show ?thesis
  proof (cases "rc0 = 0 \<and> rc = 0")
    case True
    with connect_held [OF 1] h0 have "held d1 = (held d)\<lparr>h_pools := insert p (h_pools (held d))\<rparr>"
      "p \<noteq> 0" "p \<notin> h_pools (held d)" by auto
    note open_case [OF this]
    with True show ?thesis unfolding container_layout_def
      by (simp add: wp_bind [of "chk_rc _"] wp_bind [of "chk_rc2 (o_pool_connect _ _ _ _)"] wp_chk_rc wp_chk_rc2 0 1)
  next
    case False
    with connect_held [OF 1] h0 show ?thesis unfolding container_layout_def
      by (auto simp: wp_bind [of "chk_rc _"] wp_bind [of "chk_rc2 (o_pool_connect _ _ _ _)"] wp_chk_rc wp_chk_rc2 0 1)
  qed
qed

text \<open>The handles the object owns, on top of those the process held before.\<close>

definition owns :: "handles \<Rightarrow> 'o objsys \<Rightarrow> bool" where
  "owns H s \<longleftrightarrow>
     (poh s \<noteq> 0 \<longrightarrow> poh s \<notin> h_pools H) \<and> (coh s \<noteq> 0 \<longrightarrow> coh s \<notin> h_conts H) \<and>
     (is_open s \<longrightarrow> oh s \<notin> h_objs H) \<and>
     held (obj_state s) = \<lparr>h_pools = (if poh s \<noteq> 0 then insert (poh s) (h_pools H) else h_pools H),
        h_conts = (if coh s \<noteq> 0 then insert (coh s) (h_conts H) else h_conts H),
        h_objs = (if is_open s then insert (oh s) (h_objs H) else h_objs H)\<rparr>"

lemma close_held:
  assumes "owns H s"
  shows "wp (ObjSys_close OL) (\<lambda>r s'. held (obj_state s') = H) s"
proof -
  obtain rc1 d1 where 1: "o_obj_close OL (oh s) (obj_state s) = (rc1, d1)" by (metis surj_pair)
  define e where "e = (if is_open s then d1 else obj_state s)"
  obtain rc2 d2 where 2: "o_cont_close OL (coh s) e = (rc2, d2)" by (metis surj_pair)
  define f where "f = (if coh s \<noteq> 0 then d2 else e)"
  obtain rc3 d3 where 3: "o_pool_disconnect OL (poh s) f = (rc3, d3)" by (metis surj_pair)
  have "obj_state (snd (ObjSys_close OL s)) = (if poh s \<noteq> 0 then d3 else f)"
    using 1 2 3 unfolding e_def f_def
    by (cases "is_open s"; cases "coh s = 0"; cases "poh s = 0")
      (simp_all add: ObjSys_close_def run_bind get_s_def put_s_def on_obj_def ignore_rc_def)
  moreover have "held (if poh s \<noteq> 0 then d3 else f) = H"
    using assms obj_close_held [OF 1] cont_close_held [OF 2] disconnect_held [OF 3]
    unfolding owns_def by (auto simp: e_def f_def)
  ultimately show ?thesis by (cases "ObjSys_close OL s") (simp add: wp_def)
qed

lemma connect_owns:
  assumes "owns H s" "poh s = 0" "coh s = 0" "\<not> is_open s"
  shows "wp (chk_handle (o_pool_connect OL pool sys m) (\<lambda>h s. s\<lparr>poh := h\<rparr>))
    (\<lambda>r s'. owns H s' \<and> coh s' = 0 \<and> \<not> is_open s' \<and> r \<noteq> Inl MemoryFault) s"
  using assms connect_held [of pool sys m "obj_state s"]
  by (auto simp: chk_handle_def wp_simps owns_def split: prod.splits)

lemma cont_open_owns:
  assumes "owns H s" "coh s = 0" "\<not> is_open s"
  shows "wp (chk_handle (o_cont_open OL p c m) (\<lambda>h s. s\<lparr>coh := h\<rparr>))
    (\<lambda>r s'. owns H s' \<and> \<not> is_open s' \<and> r \<noteq> Inl MemoryFault) s"
  using assms cont_open_held [of p c m "obj_state s"]
  by (auto simp: chk_handle_def wp_simps owns_def split: prod.splits)

lemma oid_owns:
  assumes "owns H s" "\<not> is_open s"
  shows "wp (on_obj (chk_rc2 (o_generate_oid OL c oid cls)))
    (\<lambda>r s'. owns H s' \<and> \<not> is_open s' \<and> r \<noteq> Inl MemoryFault) s"
  using assms oid_held [of c oid cls "obj_state s"]
  by (auto simp: wp_simps owns_def split: prod.splits)

lemma obj_open_owns:
  assumes "owns H s" "\<not> is_open s"
  shows "wp (bind_io (chk_handle (o_obj_open OL c oid m) (\<lambda>h s. s\<lparr>oh := h\<rparr>)) (\<lambda>_.
             bind_io (put_s (\<lambda>s. s\<lparr>is_open := True\<rparr>)) (\<lambda>_. ret x))) (\<lambda>r s'. owns H s' \<and> r \<noteq> Inl MemoryFault) s"
  using assms obj_open_held [of c oid m "obj_state s"]
  by (auto simp: chk_handle_def wp_simps owns_def split: prod.splits)

lemma ObjSys_init_held:
  "wp (ObjSys_init OL pool cont sys lo hi)
     (\<lambda>r s'. case r of Inl _ \<Rightarrow> held (obj_state s') = held (obj_state s) | Inr _ \<Rightarrow> owns (held (obj_state s)) s') s"
proof -
  let ?H = "held (obj_state s)"
  let ?body = "bind_io (chk_handle (o_pool_connect OL pool sys DAOS_PC_RW) (\<lambda>h s. s\<lparr>poh := h\<rparr>)) (\<lambda>_.
        bind_io (get_s poh) (\<lambda>p.
        bind_io (chk_handle (o_cont_open OL p cont DAOS_COO_RW) (\<lambda>h s. s\<lparr>coh := h\<rparr>)) (\<lambda>_.
        bind_io (get_s coh) (\<lambda>c.
        bind_io (on_obj (chk_rc2 (o_generate_oid OL c (lo, hi) OC_UNKNOWN))) (\<lambda>oid.
        bind_io (chk_handle (o_obj_open OL c oid DAOS_OO_RW) (\<lambda>h s. s\<lparr>oh := h\<rparr>)) (\<lambda>_.
        bind_io (put_s (\<lambda>s. s\<lparr>is_open := True\<rparr>)) (\<lambda>_. ret oid)))))))"
  have get: "wp (bind_io (get_s g) f) Q t = wp (f (g t)) Q t" for g :: "'o objsys \<Rightarrow> nat" and f Q t
    by (simp add: wp_simps)
  have body: "wp ?body (\<lambda>r s'. owns ?H s' \<and> r \<noteq> Inl MemoryFault) t"
    if "owns ?H t" "poh t = 0" "coh t = 0" "\<not> is_open t" for t
    by (rule wp_bindI [OF connect_owns [OF that]], simp, simp only: get, elim conjE,
        rule wp_bindI [OF cont_open_owns], assumption+, simp, simp only: get, elim conjE,
        rule wp_bindI [OF oid_owns], assumption+, simp) (auto intro: obj_open_owns)
  obtain rc d where 0: "o_daos_init OL (obj_state s) = (rc, d)" by (metis surj_pair)
  let ?t = "s\<lparr>obj_state := d, poh := 0, coh := 0, oh := 0, is_open := False\<rparr>"
  have "owns ?H ?t" using init_held [OF 0] by (simp add: owns_def)
  then have "wp (catch_io is_Exception ?body (\<lambda>e. bind_io (ObjSys_close OL) (\<lambda>_. raise e)))
      (\<lambda>r s'. case r of Inl _ \<Rightarrow> held (obj_state s') = ?H | Inr _ \<Rightarrow> owns ?H s') ?t"
    unfolding wp_catch
    by (intro wp_mono [OF body]) (auto simp: is_Exception_def wp_raise split: sum.splits intro!: wp_bindI [OF close_held])
  then show ?thesis
    using init_held [OF 0] unfolding ObjSys_init_def
    by (simp add: wp_bind [of "on_obj (chk_rc _)"] wp_bind [of "put_s _"] wp_on_obj wp_chk_rc wp_put_s 0)
qed

end

end
