(* ===== verification/Mem_Obj.thy ===== *)
theory Mem_Obj
  imports Obj_Binding
begin

text \<open>
  A reference implementation of the object library in memory. It shows that the contracts of
  \<open>Obj_Binding\<close> can hold together, and the witnesses run the program on it. While \<open>mdown\<close> is set,
  every transfer fails.
\<close>

record memobj =
  msv :: "bytes \<Rightarrow> bytes \<Rightarrow> bytes option"
  mav :: "bytes \<Rightarrow> bytes \<Rightarrow> bytes option"
  mdown :: bool
  mheld :: handles

definition DER_REC2BIG :: int where "DER_REC2BIG = - 2013"
definition DER_TIMEDOUT :: int where "DER_TIMEDOUT = - 1011"

definition sgl_data :: "dsglist \<Rightarrow> bytes" where
  "sgl_data sgl = take (iov_len (sg_iovs sgl ! 0)) (iov_buf (sg_iovs sgl ! 0))"

definition key_of :: "diov \<Rightarrow> bytes" where
  "key_of iov = take (iov_len iov) (iov_buf iov)"

definition memo_update :: "nat \<Rightarrow> diov \<Rightarrow> daosiod list \<Rightarrow> dsglist list \<Rightarrow> memobj \<Rightarrow> int \<times> memobj" where
  "memo_update h dk iods sgls d =
     (if mdown d then (DER_TIMEDOUT, d)
      else
        (let m = map_of (map2 (\<lambda>i s. (key_of (iod_name i), (iod_type i, sgl_data s))) iods sgls);
             k = key_of dk
         in (0, d\<lparr>msv := (msv d)(k := (\<lambda>ak. case m ak of
                      Some (ty, x) \<Rightarrow> if ty = DAOS_IOD_SINGLE then Some x else msv d k ak
                    | None \<Rightarrow> msv d k ak)),
                  mav := (mav d)(k := (\<lambda>ak. case m ak of
                      Some (ty, x) \<Rightarrow> if ty = DAOS_IOD_ARRAY then Some (overlay (old_bytes (mav d k ak)) 0 x)
                                       else mav d k ak
                    | None \<Rightarrow> mav d k ak))\<rparr>)))"

definition memo_value :: "memobj \<Rightarrow> bytes \<Rightarrow> daosiod \<Rightarrow> dsglist \<Rightarrow> bytes option" where
  "memo_value d k i s =
     (if iod_type i = DAOS_IOD_SINGLE then msv d k (key_of (iod_name i))
      else map_option (take (iov_buf_len (sg_iovs s ! 0))) (mav d k (key_of (iod_name i))))"

definition memo_fill :: "bytes option \<Rightarrow> dsglist \<Rightarrow> dsglist" where
  "memo_fill v s = (case v of None \<Rightarrow> s | Some x \<Rightarrow>
     s\<lparr>sg_nr_out := 1, sg_iovs := [(sg_iovs s ! 0)\<lparr>iov_buf := x @ drop (length x) (iov_buf (sg_iovs s ! 0)),
        iov_len := length x\<rparr>]\<rparr>)"

definition too_big :: "bytes option \<Rightarrow> nat \<Rightarrow> bool" where
  "too_big v n \<longleftrightarrow> n < length (old_bytes v)"

definition memo_fetch ::
  "nat \<Rightarrow> diov \<Rightarrow> daosiod list \<Rightarrow> dsglist list \<Rightarrow> memobj \<Rightarrow> (int \<times> dsglist list) \<times> memobj" where
  "memo_fetch h dk iods sgls d =
     (let k = key_of dk; vs = map2 (memo_value d k) iods sgls in
      if mdown d then ((DER_TIMEDOUT, sgls), d)
      else if list_ex (\<lambda>(v, s). too_big v (iov_buf_len (sg_iovs s ! 0))) (zip vs sgls)
           then ((DER_REC2BIG, sgls), d)
      else ((0, map2 memo_fill vs sgls), d))"

definition memo_punch_dkeys :: "nat \<Rightarrow> diov list \<Rightarrow> memobj \<Rightarrow> int \<times> memobj" where
  "memo_punch_dkeys h dks d =
     (if mdown d then (DER_TIMEDOUT, d)
      else (0, d\<lparr>msv := (\<lambda>k. if k \<in> set (map key_of dks) then (\<lambda>_. None) else msv d k),
                 mav := (\<lambda>k. if k \<in> set (map key_of dks) then (\<lambda>_. None) else mav d k)\<rparr>))"

definition memo_punch_akeys :: "nat \<Rightarrow> diov \<Rightarrow> diov list \<Rightarrow> memobj \<Rightarrow> int \<times> memobj" where
  "memo_punch_akeys h dk aks d =
     (if mdown d then (DER_TIMEDOUT, d)
      else (0, d\<lparr>msv := (\<lambda>k a. if k = key_of dk \<and> a \<in> set (map key_of aks) then None else msv d k a),
                 mav := (\<lambda>k a. if k = key_of dk \<and> a \<in> set (map key_of aks) then None else mav d k a)\<rparr>))"

text \<open>Handle 7 is the one the reference library gives out, once per kind.\<close>

definition memo_connect :: "string \<Rightarrow> string option \<Rightarrow> nat \<Rightarrow> memobj \<Rightarrow> (int \<times> nat) \<times> memobj" where
  "memo_connect p s m d =
     (if mdown d \<or> 7 \<in> h_pools (mheld d) then ((DER_TIMEDOUT, 0), d)
      else ((0, 7), d\<lparr>mheld := (mheld d)\<lparr>h_pools := insert 7 (h_pools (mheld d))\<rparr>\<rparr>))"

definition memo_cont_open :: "nat \<Rightarrow> string \<Rightarrow> nat \<Rightarrow> memobj \<Rightarrow> (int \<times> nat) \<times> memobj" where
  "memo_cont_open ph c m d =
     (if c = ''none'' \<or> 7 \<in> h_conts (mheld d) then ((DER_TIMEDOUT, 0), d)
      else ((0, 7), d\<lparr>mheld := (mheld d)\<lparr>h_conts := insert 7 (h_conts (mheld d))\<rparr>\<rparr>))"

definition memo_obj_open :: "nat \<Rightarrow> nat \<times> nat \<Rightarrow> nat \<Rightarrow> memobj \<Rightarrow> (int \<times> nat) \<times> memobj" where
  "memo_obj_open ch oid m d =
     (if 7 \<in> h_objs (mheld d) then ((DER_TIMEDOUT, 0), d)
      else ((0, 7), d\<lparr>mheld := (mheld d)\<lparr>h_objs := insert 7 (h_objs (mheld d))\<rparr>\<rparr>))"

definition mem_obj :: "memobj libobj" where
  "mem_obj = \<lparr>o_daos_init = (\<lambda>d. (0, d)),
     o_pool_connect = memo_connect,
     o_pool_disconnect = (\<lambda>h d. (0, d\<lparr>mheld := (mheld d)\<lparr>h_pools := h_pools (mheld d) - {h}\<rparr>\<rparr>)),
     o_cont_open = memo_cont_open,
     o_cont_close = (\<lambda>h d. (0, d\<lparr>mheld := (mheld d)\<lparr>h_conts := h_conts (mheld d) - {h}\<rparr>\<rparr>)),
     o_generate_oid = (\<lambda>c oid cls d. ((0, oid), d)),
     o_obj_open = memo_obj_open,
     o_obj_close = (\<lambda>h d. (0, d\<lparr>mheld := (mheld d)\<lparr>h_objs := h_objs (mheld d) - {h}\<rparr>\<rparr>)),
     o_obj_update = memo_update, o_obj_fetch = memo_fetch,
     o_punch_dkeys = memo_punch_dkeys, o_punch_akeys = memo_punch_akeys,
     o_prop_alloc = (\<lambda>n d. (True, d)), o_cont_query = (\<lambda>c ty d. ((0, 2), d)),
     o_prop_free = (\<lambda>d. ((), d))\<rparr>"

definition memo_init :: memobj where
  "memo_init = \<lparr>msv = (\<lambda>_ _. None), mav = (\<lambda>_ _. None), mdown = False,
     mheld = \<lparr>h_pools = {}, h_conts = {}, h_objs = {}\<rparr>\<rparr>"

definition memo_up :: "memobj \<Rightarrow> bool" where
  "memo_up d \<longleftrightarrow> \<not> mdown d"

lemma memo_init_up [simp]: "memo_up memo_init"
  by (simp add: memo_up_def memo_init_def)

lemma memo_init_values [simp]: "msv memo_init = (\<lambda>_ _. None)" "mav memo_init = (\<lambda>_ _. None)"
  by (simp_all add: memo_init_def)

section \<open>The contracts hold\<close>

lemma key_of_build_key [simp]: "key_of (build_key k) = k"
  by (simp add: key_of_def build_key_def set_iov_def)

lemma build_iod_fields [simp]:
  "iod_name (build_iod ak n s) = build_key ak"
  "iod_type (build_iod ak n s) = (if s then DAOS_IOD_SINGLE else DAOS_IOD_ARRAY)"
  by (simp_all add: build_iod_def Let_def)

lemma sgl_data_build [simp]: "sgl_data (build_sgl buf n) = take n buf"
  by (simp add: sgl_data_def build_sgl_def set_iov_def)

lemma iod_types [simp]: "DAOS_IOD_ARRAY \<noteq> DAOS_IOD_SINGLE" "DAOS_IOD_SINGLE \<noteq> DAOS_IOD_ARRAY"
  by (simp_all add: DAOS_IOD_ARRAY_def DAOS_IOD_SINGLE_def)

lemma vectors_assoc:
  assumes "build_vectors items s = (iods, sgls)"
  shows "map2 (\<lambda>i s. (key_of (iod_name i), (iod_type i, sgl_data s))) iods sgls =
    map (\<lambda>(ak, buf, n). (ak, (if s then DAOS_IOD_SINGLE else DAOS_IOD_ARRAY, take n buf))) items"
  using assms by (auto simp: build_vectors_def zip_map_map zip_same_conv_map split: prod.splits)

lemma map_of_vectors:
  assumes "distinct (map fst items)" and "(ak, buf, n) \<in> set items"
  shows "map_of (map (\<lambda>(ak, buf, n). (ak, (ty, take n buf))) items) ak = Some (ty, take n buf)"
  using assms by (intro map_of_is_SomeI) (force simp: comp_def case_prod_unfold)+

lemma map_of_vectors_None:
  "ak \<notin> fst ` set items \<Longrightarrow> map_of (map (\<lambda>(ak, buf, n). (ak, (ty, take n buf))) items) ak = None"
  by (induction items) auto

lemma map_of_vectors_type:
  "map_of (map (\<lambda>(ak, buf, n). (ak, (ty, take n buf))) items) ak = Some (ty', x) \<Longrightarrow> ty' = ty"
  by (auto dest!: map_of_SomeD)

lemma memo_update_ok:
  assumes "build_vectors items s = (iods, sgls)" "memo_update h (build_key dk) iods sgls d = (rc, d')"
    "distinct (map fst items)"
  shows "rc \<noteq> 0 \<and> d' = d \<or> rc = 0 \<and>
    (\<forall>dk' ak. dk' \<noteq> dk \<or> ak \<notin> fst ` set items \<longrightarrow> mav d' dk' ak = mav d dk' ak \<and> msv d' dk' ak = msv d dk' ak) \<and>
    (if s then mav d' = mav d \<and> (\<forall>(ak, buf, n) \<in> set items. msv d' dk ak = Some (take n buf))
     else msv d' = msv d \<and> (\<forall>(ak, buf, n) \<in> set items. mav d' dk ak = Some (overlay (old_bytes (mav d dk ak)) 0 (take n buf))))"
proof (cases "mdown d")
  case True
  with assms(2) show ?thesis by (auto simp: memo_update_def Let_def DER_TIMEDOUT_def)
next
  case False
  define T where "T = (if s then DAOS_IOD_SINGLE else DAOS_IOD_ARRAY)"
  define m where "m = map_of (map (\<lambda>(ak, buf, n). (ak, (T, take n buf))) items)"
  note type = map_of_vectors_type [of T items, folded m_def]
  have other: "(case m ak of None \<Rightarrow> b | Some (ty, x) \<Rightarrow> if ty = U then f ak x else b) = (b :: bytes option)"
    if "T \<noteq> U" for U ak f b
    using type [of ak] that by (auto split: option.splits)
  from False assms(2) have "rc = 0" and sv: "msv d' = (msv d)(dk := (\<lambda>ak. case m ak of None \<Rightarrow> msv d dk ak
        | Some (ty, x) \<Rightarrow> if ty = DAOS_IOD_SINGLE then Some x else msv d dk ak))"
    and av: "mav d' = (mav d)(dk := (\<lambda>ak. case m ak of None \<Rightarrow> mav d dk ak
        | Some (ty, x) \<Rightarrow> if ty = DAOS_IOD_ARRAY then Some (overlay (old_bytes (mav d dk ak)) 0 x) else mav d dk ak))"
    unfolding memo_update_def Let_def vectors_assoc [OF assms(1)] m_def T_def key_of_build_key by auto
  moreover have "m ak = Some (T, take n buf)" if "(ak, buf, n) \<in> set items" for ak buf n
    unfolding m_def using map_of_vectors [OF assms(3) that] .
  moreover have "m ak = None" if "ak \<notin> fst ` set items" for ak
    unfolding m_def using map_of_vectors_None [OF that] .
  moreover have "mav d' = mav d" if s
    using other [of DAOS_IOD_ARRAY] that by (auto simp: av T_def fun_eq_iff)
  moreover have "msv d' = msv d" if "\<not> s"
    using other [of DAOS_IOD_SINGLE] that by (auto simp: sv T_def fun_eq_iff)
  ultimately show ?thesis by (auto simp: T_def)
qed

lemma too_big_take: "\<not> too_big (map_option (take n) v) n"
  by (cases v) (simp_all add: too_big_def old_bytes_def)

lemma not_too_bigD: "\<not> too_big v n \<Longrightarrow> v = Some x \<Longrightarrow> length x \<le> n"
  by (simp add: too_big_def old_bytes_def)

lemma memo_fetch_ok:
  assumes "build_vectors items s = (iods, sgls)"
  shows "memo_fetch h (build_key dk) iods sgls d =
    (if mdown d then ((DER_TIMEDOUT, sgls), d)
     else if s \<and> list_ex (\<lambda>(ak, buf, n). too_big (msv d dk ak) n) items
          then ((DER_REC2BIG, sgls), d)
     else ((0, map (\<lambda>(ak, buf, n). memo_fill (if s then msv d dk ak else map_option (take n) (mav d dk ak)) (build_sgl buf n)) items), d))"
proof -
  let ?v = "\<lambda>(ak, buf, n). if s then msv d dk ak else map_option (take n) (mav d dk ak)"
  have iods: "iods = map (\<lambda>(ak, buf, n). build_iod ak n s) items"
    and sgls: "sgls = map (\<lambda>(ak, buf, n). build_sgl buf n) items"
    using assms by (simp_all add: build_vectors_def)
  have vs: "map2 (memo_value d dk) iods sgls = map ?v items"
    by (auto simp: iods sgls zip_map_map zip_same_conv_map memo_value_def build_sgl_def set_iov_def)
  have "list_ex (\<lambda>(v, s). too_big v (iov_buf_len (sg_iovs s ! 0))) (zip (map ?v items) sgls) \<longleftrightarrow>
      s \<and> list_ex (\<lambda>(ak, buf, n). too_big (msv d dk ak) n) items"
    by (auto simp: sgls zip_map_map zip_same_conv_map list_ex_iff build_sgl_def set_iov_def too_big_take
        split: prod.splits if_splits)
  then show ?thesis
    by (simp add: memo_fetch_def Let_def vs)
      (auto simp: sgls zip_map_map zip_same_conv_map)
qed

lemma memo_fill_result: "sgl_result buf n v (memo_fill v (build_sgl buf n))"
  by (auto simp: sgl_result_def memo_fill_def build_sgl_def set_iov_def split: option.splits)

lemma mem_obj_fields [simp]:
  "o_obj_update mem_obj = memo_update" "o_obj_fetch mem_obj = memo_fetch"
  "o_punch_dkeys mem_obj = memo_punch_dkeys" "o_punch_akeys mem_obj = memo_punch_akeys"
  by (simp_all add: mem_obj_def)

interpretation memo: obj_lib mem_obj h msv mav
proof (unfold_locales, goal_cases)
  case (1 items iods sgls dk d rc d')
  then show ?case using memo_update_ok [of items False iods sgls h dk d rc d'] by fastforce
next
  case (2 items iods sgls dk d rc d')
  then show ?case using memo_update_ok [of items True iods sgls h dk d rc d'] by fastforce
next
  case (3 items iods sgls dk d rc sgls' d')
  then show ?case
    by (auto simp: memo_fetch_ok DER_TIMEDOUT_def list_all2_map2 memo_fill_result list_all2_same
        split: if_splits)
next
  case (4 items iods sgls dk d rc sgls' d')
  then show ?case
    by (auto simp: memo_fetch_ok DER_TIMEDOUT_def DER_REC2BIG_def list_all2_map2 memo_fill_result list_all2_same
        list_ex_iff split: if_splits) (use not_too_bigD in fastforce)
qed (auto simp: memo_punch_dkeys_def memo_punch_akeys_def comp_def DER_TIMEDOUT_def split: if_splits)

interpretation memo_live: obj_live mem_obj h msv mav memo_up
proof (unfold_locales, goal_cases)
  case (1 d dk iods sgls)
  then show ?case by (simp add: memo_update_def Let_def memo_up_def)
next
  case (2 d items iods sgls dk)
  then show ?case
    by (auto simp: memo_fetch_def Let_def memo_up_def memo_value_def build_vectors_def build_sgl_def
        set_iov_def list_ex_iff zip_map_map zip_same_conv_map too_big_take)
next
  case (3 d items iods sgls dkey)
  then show ?case
    by (auto simp: memo_fetch_ok memo_up_def list_ex_iff too_big_def old_bytes_def split: option.splits)
qed

interpretation memo_handles: obj_handles mem_obj mheld
  by unfold_locales
    (auto simp: mem_obj_def memo_connect_def memo_cont_open_def memo_obj_open_def DER_TIMEDOUT_def split: if_splits)

end
