(* ===== verification/Conn_Addr.thy ===== *)
theory Conn_Addr
  imports Py_Url Serde Serde_V3 Mem_Obj
begin

text \<open>
  \<^verbatim>\<open>lmcache_daos/connector.py\<close>, the module-level functions: where a URL points, which container
  layout decides the backend, and where a key's data lives in each of the two layouts.
\<close>

definition HDR_CAP :: nat where "HDR_CAP = 512"
definition META_CAP :: nat where "META_CAP = FIXED_SIZE + HDR_CAP"

definition url_target :: "parsed_url \<Rightarrow> exn + string \<times> string" where
  "url_target parsed =
     (let parts = filter (\<lambda>p. p \<noteq> []) (split_on CHR ''/'' (url_path parsed)) in
      if scheme parsed = ''plugin''
      then if length parts < 2 then Inl ValueError else Inr (parts ! 0, parts ! 1)
      else Inr (netloc parsed, case parts of [] \<Rightarrow> '''' | p # _ \<Rightarrow> p))"

definition parse_daos_url :: "string \<Rightarrow> exn + string \<times> string \<times> string option" where
  "parse_daos_url url =
     bind_sum (urlparse url) (\<lambda>parsed.
     bind_sum (url_target parsed) (\<lambda>(pool, cont).
       if pool = [] \<or> cont = [] then Inl ValueError
       else Inr (pool, cont, qs_get (query parsed) ''sys'')))"

definition layer_of :: "pykey \<Rightarrow> int option" where
  "layer_of key = layer_id key"

definition chunk_str :: "pykey \<Rightarrow> string" where
  "chunk_str key =
     (if layer_of key \<noteq> None \<and> base_to_string key \<noteq> None then the (base_to_string key)
      else key_string key)"

definition raw_addr :: "pykey \<Rightarrow> bytes \<times> int option" where
  "raw_addr key = (dkey_for_str (chunk_str key), layer_of key)"

definition akeys_for :: "int option \<Rightarrow> exn + bytes \<times> bytes" where
  "akeys_for layer = (case layer of
     None \<Rightarrow> Inr (AKEY_PAYLOAD, AKEY_META)
   | Some i \<Rightarrow> bind_sum (akey_layer i) (\<lambda>p. bind_sum (akey_meta_layer i) (\<lambda>m. Inr (p, m))))"

definition repack_header :: "bytes \<Rightarrow> exn + bytes" where
  "repack_header header =
     (let ps = prefix_size in
      bind_sum (parse_prefix (take ps header)) (\<lambda>(meta_len, payload_len).
        pack_meta (take meta_len (drop ps header)) (int payload_len) STATE_COMMITTED))"

text \<open>
  \<^verbatim>\<open>_choose_backend\<close>: \<open>forced\<close> is \<^verbatim>\<open>DAOS_FORCE_LAYOUT\<close>, stripped and in lower case, \<open>probe\<close> the
  outcome of \<^verbatim>\<open>container_layout\<close>; true means the object API.
\<close>

definition choose_backend_from :: "string \<Rightarrow> exn + nat \<Rightarrow> exn + bool" where
  "choose_backend_from forced probe =
     (case probe of
        Inl e \<Rightarrow> if is_Exception e \<and> forced \<noteq> [] then Inr (forced = ''raw'') else Inl e
      | Inr layout \<Rightarrow>
          (let raw = (layout \<noteq> DAOS_PROP_CO_LAYOUT_POSIX) in
           if forced \<noteq> [] \<and> (forced = ''raw'') \<noteq> raw then Inl ValueError else Inr raw))"

definition choose_backend ::
  "'o libobj \<Rightarrow> string \<Rightarrow> string \<Rightarrow> string option \<Rightarrow> string \<Rightarrow> ('o, bool) io" where
  "choose_backend OL pool cont sysname forced =
     (if forced \<noteq> [] \<and> forced \<notin> {''posix'', ''raw''} then raise ValueError
      else (\<lambda>d. case container_layout OL pool cont sysname d of (probe, d') \<Rightarrow>
             (choose_backend_from forced probe, d')))"

definition key_to_path :: "pykey \<Rightarrow> string" where
  "key_to_path key = ''/'' @ sha256_hex (key_string key)"

definition PING_PATH :: string where "PING_PATH = ''/.daos-ping''"

text \<open>The address of a key, by backend.\<close>

datatype addr = Path string | Cell bytes "int option"

definition addr_of :: "bool \<Rightarrow> pykey \<Rightarrow> addr" where
  "addr_of raw key = (if raw then (case raw_addr key of (dk, l) \<Rightarrow> Cell dk l) else Path (key_to_path key))"

section \<open>URLs\<close>

lemma clean_plain:
  assumes "list_all (\<lambda>c. 33 \<le> (of_char c :: nat)) s"
  shows "clean_url s = s"
proof -
  have "dropWhile (\<lambda>c. (of_char c :: nat) \<le> 32) s = s"
    using assms by (cases s) auto
  then show ?thesis
    using assms unfolding clean_url_def list_all_iff by (auto intro!: filter_True)
qed

lemma plain_codes: "plain s \<Longrightarrow> list_all (\<lambda>c. 33 \<le> (of_char c :: nat)) s"
  unfolding plain_def list_all_iff using plain_char_code by fastforce

text \<open>The query part of a target URL: empty, or a system name.\<close>

definition sys_suffix :: "string option \<Rightarrow> string" where
  "sys_suffix sysname = (case sysname of None \<Rightarrow> '''' | Some s \<Rightarrow> ''?sys='' @ s)"

lemma sys_suffix_codes: "(\<forall>s. sysname = Some s \<longrightarrow> plain s) \<Longrightarrow> list_all (\<lambda>c. 33 \<le> (of_char c :: nat)) (sys_suffix sysname)"
  by (auto simp: sys_suffix_def plain_codes split: option.splits)

lemma split_query:
  assumes "\<forall>s. sysname = Some s \<longrightarrow> plain s" and "CHR ''#'' \<notin> set p" and "CHR ''?'' \<notin> set p"
  shows "split_once CHR ''?'' (fst (split_once CHR ''#'' (p @ sys_suffix sysname))) =
    (p, case sysname of None \<Rightarrow> None | Some s \<Rightarrow> Some (''sys='' @ s))"
proof -
  have "CHR ''#'' \<notin> set (p @ sys_suffix sysname)"
    using assms plain_special [of _ "CHR ''#''"] by (auto simp: sys_suffix_def split: option.splits)
  then show ?thesis
    using assms split_once_append [of "CHR ''?''" p] split_once_none [of "CHR ''?''" p]
    by (auto simp: split_once_none sys_suffix_def split: option.splits)
qed

lemma qs_get_sys:
  assumes "plain s"
  shows "qs_get (''sys='' @ s) ''sys'' = Some s"
proof -
  have sys: "unquote_plus ''sys'' = ''sys''" by (simp add: unquote_plus_def)
  have one: "split_on CHR ''&'' (''sys='' @ s) = [''sys='' @ s]"
    using plain_special [OF assms, of "CHR ''&''"] by (intro split_on_none) simp
  have "split_once CHR ''='' (''sys='' @ s) = (''sys'', Some s)"
    using split_once_append [of "CHR ''=''" "''sys''" s] by simp
  moreover have "s \<noteq> []" using assms by (simp add: plain_def)
  ultimately show ?thesis
    unfolding qs_get_def parse_qsl_def one by (simp add: sys unquote_plus_plain [OF assms])
qed

text \<open>Parsing \<open>sch://net/path?query\<close> for plain parts.\<close>

lemma urlparse_target:
  assumes sch: "sch = ''daos'' \<or> sch = ''plugin''" and net: "plain net"
    and p: "list_all (\<lambda>c. plain_char c \<or> c = CHR ''/'') p"
    and sys: "\<forall>s. sysname = Some s \<longrightarrow> plain s"
  shows "urlparse (sch @ ''://'' @ net @ ''/'' @ p @ sys_suffix sysname) =
    Inr \<lparr>scheme = sch, netloc = net, url_path = ''/'' @ p, query = (case sysname of None \<Rightarrow> '''' | Some s \<Rightarrow> ''sys='' @ s)\<rparr>"
proof -
  have pc: "CHR ''#'' \<notin> set p" "CHR ''?'' \<notin> set p"
    using p special_not_plain by (auto simp: list_all_iff)
  have p33: "list_all (\<lambda>c. 33 \<le> (of_char c :: nat)) p"
    using p plain_char_code by (fastforce simp: list_all_iff)
  have clean: "clean_url (sch @ ''://'' @ net @ ''/'' @ p @ sys_suffix sysname) =
      sch @ ''://'' @ net @ ''/'' @ p @ sys_suffix sysname"
    using sch plain_codes [OF net] p33 sys_suffix_codes [OF sys] by (intro clean_plain) auto
  have sc: "split_scheme (sch @ ''://'' @ x) = (sch, ''//'' @ x)" for x
  proof -
    have "split_once CHR '':'' (sch @ ''://'' @ x) = (sch, Some (''//'' @ x))"
      using sch split_once_append [of "CHR '':''" sch "''//'' @ x"] by auto
    moreover have "sch \<noteq> [] \<and> is_alpha (hd sch) \<and> list_all scheme_char sch \<and> map to_lower sch = sch"
      using sch by (elim disjE) (simp_all add: is_alpha_def scheme_char_def to_lower_def)
    ultimately show ?thesis by (simp add: split_scheme_def)
  qed
  have tw: "takeWhile (\<lambda>c. c \<notin> set ''/?#'') (net @ ''/'' @ x) = net"
    and dw: "dropWhile (\<lambda>c. c \<notin> set ''/?#'') (net @ ''/'' @ x) = ''/'' @ x" for x
    using plain_special [OF net, of "CHR ''/''"] plain_special [OF net, of "CHR ''?''"]
      plain_special [OF net, of "CHR ''#''"]
    by (induction net) auto
  have "split_netloc (''//'' @ net @ ''/'' @ x) = (net, ''/'' @ x)" for x
    using tw dw by (simp add: split_netloc_def)
  moreover have "sch \<notin> set uses_params"
    using sch by (elim disjE) (simp_all add: uses_params_def)
  moreover have "split_once CHR ''?'' (fst (split_once CHR ''#'' (''/'' @ p @ sys_suffix sysname))) =
      (''/'' @ p, case sysname of None \<Rightarrow> None | Some s \<Rightarrow> Some (''sys='' @ s))"
    using split_query [OF sys, of "''/'' @ p"] pc by simp
  moreover have "CHR ''['' \<notin> set net" "CHR '']'' \<notin> set net"
    using plain_special [OF net] by simp_all
  ultimately show ?thesis
    unfolding urlparse_def clean sc Let_def by (simp add: sc split: option.splits)
qed

lemma qs_of_sys:
  "(\<forall>s. sysname = Some s \<longrightarrow> plain s) \<Longrightarrow>
   qs_get (case sysname of None \<Rightarrow> '''' | Some s \<Rightarrow> ''sys='' @ s) ''sys'' = sysname"
  using qs_get_sys by (auto simp: qs_get_def parse_qsl_def split_once_def split: option.splits)

lemma plain_no_slash: "plain s \<Longrightarrow> CHR ''/'' \<notin> set s"
  by (rule plain_special) auto

text \<open>
  the two spellings of a target URL name the same pool, container and system:
  \<^verbatim>\<open>daos://pool/cont\<close> and \<^verbatim>\<open>plugin://name/pool/cont\<close>, each with an optional \<^verbatim>\<open>?sys=\<close>.
\<close>

theorem url_spellings:
  assumes "plain name" and "plain pool" and "plain cont" and "\<forall>s. sysname = Some s \<longrightarrow> plain s"
  shows "parse_daos_url (''daos://'' @ pool @ ''/'' @ cont @ sys_suffix sysname) = Inr (pool, cont, sysname) \<and>
    parse_daos_url (''plugin://'' @ name @ ''/'' @ pool @ ''/'' @ cont @ sys_suffix sysname) = Inr (pool, cont, sysname)"
proof -
  have ne: "pool \<noteq> []" "cont \<noteq> []" using assms by (simp_all add: plain_def)
  have lp: "list_all (\<lambda>c. plain_char c \<or> c = CHR ''/'') s" if "plain s" for s
    using that by (auto simp: plain_def list_all_iff)
  have daos: "urlparse (''daos://'' @ pool @ ''/'' @ cont @ sys_suffix sysname) =
      Inr \<lparr>scheme = ''daos'', netloc = pool, url_path = ''/'' @ cont,
        query = (case sysname of None \<Rightarrow> '''' | Some s \<Rightarrow> ''sys='' @ s)\<rparr>"
    using urlparse_target [of "''daos''" pool cont sysname] lp assms by simp
  have "list_all (\<lambda>c. plain_char c \<or> c = CHR ''/'') (pool @ ''/'' @ cont)"
    using lp assms by simp
  then have plugin: "urlparse (''plugin://'' @ name @ ''/'' @ pool @ ''/'' @ cont @ sys_suffix sysname) =
      Inr \<lparr>scheme = ''plugin'', netloc = name, url_path = ''/'' @ pool @ ''/'' @ cont,
        query = (case sysname of None \<Rightarrow> '''' | Some s \<Rightarrow> ''sys='' @ s)\<rparr>"
    using urlparse_target [of "''plugin''" name "pool @ ''/'' @ cont" sysname] assms by simp
  have "split_on CHR ''/'' (''/'' @ cont) = ['''', cont]"
    and "split_on CHR ''/'' (''/'' @ pool @ ''/'' @ cont) = ['''', pool, cont]"
    using split_on_append [of "CHR ''/''" pool cont] plain_no_slash assms by (simp_all add: split_on_none)
  with ne show ?thesis
    unfolding parse_daos_url_def daos plugin
    by (simp add: url_target_def qs_of_sys [OF assms(4)])
qed

theorem url_spellings_witness:
  "parse_daos_url ''daos://kv/c0?sys=daos_server'' = Inr (''kv'', ''c0'', Some ''daos_server'') \<and>
   parse_daos_url ''plugin://daos/kv/c0?sys=daos_server'' = Inr (''kv'', ''c0'', Some ''daos_server'')"
proof -
  have "plain ''daos''" "plain ''kv''" "plain ''c0''" "plain ''daos_server''"
    by (simp_all add: plain_def plain_char_def is_alpha_def)
  then show ?thesis
    using url_spellings [of "''daos''" "''kv''" "''c0''" "Some ''daos_server''"]
    by (simp add: sys_suffix_def)
qed

section \<open>Addresses\<close>

text \<open>
  the health probe never touches cached data: the probe path is not the path of any key, and the
  probe dkey is not the dkey of any key.
\<close>

theorem ping_never_a_key:
  "key_to_path key \<noteq> PING_PATH \<and> fst (raw_addr key) \<noteq> encode ''ping''"
proof -
  have "length (key_to_path key) \<noteq> length PING_PATH" by (simp add: key_to_path_def PING_PATH_def)
  moreover have "length (fst (raw_addr key)) \<noteq> length (encode ''ping'')"
    by (simp add: raw_addr_def dkey_for_str_def length_sha256 encode_def)
  ultimately show ?thesis by metis
qed

lemma akeys_for_Inr:
  "akeys_for layer = Inr (p, m) \<longleftrightarrow>
     (case layer of None \<Rightarrow> p = AKEY_PAYLOAD \<and> m = AKEY_META
      | Some i \<Rightarrow> akey_layer i = Inr p \<and> akey_meta_layer i = Inr m)"
  by (auto simp: akeys_for_def bind_sum_Inr_iff split: option.splits)

lemma akeys_for_neq: "akeys_for layer = Inr (p, m) \<Longrightarrow> p \<noteq> m"
  by (auto simp: akeys_for_Inr AKEY_PAYLOAD_def AKEY_META_def akey_layer_Inr_iff akey_meta_layer_Inr_iff
      split: option.splits)

text \<open>The header the DFS path writes becomes a committed v3 record with the same contents.\<close>

lemma repack_prefix:
  assumes "prefix_pack (length mt) n = Inr pre"
  shows "repack_header (pre @ mt) = pack_meta mt (int n) STATE_COMMITTED"
  using length_prefix_pack [OF assms] parse_prefix_pack [OF assms]
  by (simp add: repack_header_def)

text \<open>
  whatever the override says, a backend is only chosen against the container's own layout: when
  the layout probe answers, the choice is the object API exactly for a container that is not POSIX.
\<close>

theorem choose_backend_agrees:
  assumes "container_layout OL pool cont sysname d = (Inr layout, d1)"
    and "choose_backend OL pool cont sysname forced d = (Inr raw, d2)"
  shows "raw = (layout \<noteq> DAOS_PROP_CO_LAYOUT_POSIX)"
  using assms by (auto simp: choose_backend_def choose_backend_from_def Let_def split: if_splits)

theorem choose_backend_agrees_witness:
  "choose_backend mem_obj ''p'' ''c'' None ''raw'' memo_init = (Inr True, memo_init) \<and>
   True = ((2 :: nat) \<noteq> DAOS_PROP_CO_LAYOUT_POSIX)"
proof -
  have "container_layout mem_obj ''p'' ''c'' None memo_init = (Inr 2, memo_init)"
    by (simp add: container_layout_def layout_query_def layout_cleanup_def mem_obj_def memo_connect_def
        memo_cont_open_def memo_init_def io_defs chk_rc_def chk_rc2_def ignore_rc_def)
  moreover from this have c: "choose_backend mem_obj ''p'' ''c'' None ''raw'' memo_init = (Inr True, memo_init)"
    by (simp add: choose_backend_def choose_backend_from_def DAOS_PROP_CO_LAYOUT_POSIX_def)
  ultimately show ?thesis using choose_backend_agrees [OF _ c] by metis
qed

end
