(* ===== verification/Mem_Dfs.thy ===== *)
theory Mem_Dfs
  imports Dfs_Binding
begin

text \<open>
  A reference implementation of the library interface: a name space in memory with handles, and
  optionally a space quota that makes writes fail half way. It shows that the contracts of
  \<open>Libdfs\<close> can hold together, and the witnesses run the program on it.
\<close>

record memfs =
  mfiles :: "string \<Rightarrow> bytes option"
  mhandles :: "nat \<Rightarrow> string option"
  mnext :: nat
  mspace :: "nat option"

definition ENOSPC :: int where "ENOSPC = 28"
definition EBADF :: int where "EBADF = 9"

definition mem_open :: "string \<Rightarrow> nat \<Rightarrow> nat \<Rightarrow> nat \<Rightarrow> memfs \<Rightarrow> (int \<times> nat) \<times> memfs" where
  "mem_open p md fl cid d =
     (if mhandles d (mnext d) \<noteq> None then ((ENOMEM, 0), d)
      else if mfiles d p = None \<and> \<not> creates fl then ((ENOENT, 0), d)
      else ((0, mnext d),
            d\<lparr>mfiles := (if mfiles d p = None then (mfiles d)(p \<mapsto> []) else mfiles d),
              mhandles := (mhandles d)(mnext d \<mapsto> p), mnext := mnext d + 1\<rparr>))"

definition mem_close :: "nat \<Rightarrow> memfs \<Rightarrow> int \<times> memfs" where
  "mem_close h d = (if mhandles d h = None then EBADF else 0, d\<lparr>mhandles := (mhandles d)(h := None)\<rparr>)"

definition mem_read :: "nat \<Rightarrow> nat \<Rightarrow> nat \<Rightarrow> memfs \<Rightarrow> (int \<times> bytes) \<times> memfs" where
  "mem_read h off n d = (case mhandles d h of
     None \<Rightarrow> ((EBADF, []), d)
   | Some p \<Rightarrow> (case mfiles d p of None \<Rightarrow> ((0, []), d) | Some b \<Rightarrow> ((0, take n (drop off b)), d)))"

definition mem_write :: "nat \<Rightarrow> nat \<Rightarrow> bytes \<Rightarrow> memfs \<Rightarrow> (int \<times> nat) \<times> memfs" where
  "mem_write h off x d = (case mhandles d h of
     None \<Rightarrow> ((EBADF, 0), d)
   | Some p \<Rightarrow> (case mfiles d p of
       None \<Rightarrow> ((0, length x), d)
     | Some b \<Rightarrow> (case mspace d of
         None \<Rightarrow> ((0, length x), d\<lparr>mfiles := (mfiles d)(p \<mapsto> overlay b off x)\<rparr>)
       | Some k \<Rightarrow>
           ((if length x \<le> k then 0 else ENOSPC, min (length x) k),
            d\<lparr>mfiles := (mfiles d)(p \<mapsto> overlay b off (take k x)), mspace := Some (k - length x)\<rparr>))))"

definition mem_remove :: "string \<Rightarrow> bool \<Rightarrow> nat \<Rightarrow> memfs \<Rightarrow> int \<times> memfs" where
  "mem_remove p force md d =
     (if mfiles d p = None then (ENOENT, d) else (0, d\<lparr>mfiles := (mfiles d)(p := None)\<rparr>))"

definition mem_stat :: "string \<Rightarrow> memfs \<Rightarrow> (int \<times> nat) \<times> memfs" where
  "mem_stat p d = (case mfiles d p of None \<Rightarrow> ((ENOENT, 0), d) | Some b \<Rightarrow> ((0, length b), d))"

definition mem_dfs :: "memfs libdfs" where
  "mem_dfs = \<lparr>c_daos_init = (\<lambda>d. (0, d)), c_dfs_init = (\<lambda>d. (0, d)),
     c_dfs_sys_connect = (\<lambda>_ _ _ _ _ d. (0, d)), c_dfs_sys_disconnect = (\<lambda>d. (0, d)),
     c_dfs_sys_open = mem_open, c_dfs_sys_close = mem_close,
     c_dfs_sys_read = mem_read, c_dfs_sys_write = mem_write,
     c_dfs_sys_remove_type = mem_remove, c_dfs_sys_stat = mem_stat,
     c_dfs_sys_mkdir_p = (\<lambda>_ d. (0, d)),
     c_dfs_sys_opendir = (\<lambda>_ d. ((EBADF, 0), d)), c_dfs_sys_readdir = (\<lambda>_ d. ((EBADF, None), d)),
     c_dfs_sys_closedir = (\<lambda>_ d. (0, d)), c_dfs_sys2base = (\<lambda>d. ((0, 0), d)),
     c_dfs_read_gpu = None, c_dfs_write_gpu = None,
     c_dfs_lookup = (\<lambda>_ _ _ d. ((EBADF, 0), d)), c_dfs_release = (\<lambda>_ d. (0, d)),
     c_dfs_move = (\<lambda>_ _ _ _ _ d. (EBADF, d))\<rparr>"

lemmas mem_dfs_defs = mem_open_def mem_close_def mem_read_def mem_write_def mem_remove_def mem_stat_def
  ENOSPC_def EBADF_def ENOENT_def ENOMEM_def

definition mem_up :: "memfs \<Rightarrow> bool" where
  "mem_up d \<longleftrightarrow> mspace d = None \<and> (\<forall>h \<ge> mnext d. mhandles d h = None)"

definition mem_init :: memfs where
  "mem_init = \<lparr>mfiles = (\<lambda>_. None), mhandles = (\<lambda>_. None), mnext = 0, mspace = None\<rparr>"

lemma mem_init_up [simp]: "mem_up mem_init"
  by (simp add: mem_up_def mem_init_def)

lemma mem_init_files [simp]: "mfiles mem_init = (\<lambda>_. None)" "mhandles mem_init = (\<lambda>_. None)"
  by (simp_all add: mem_init_def)

interpretation memlib: dfs_lib mem_dfs mfiles mhandles
proof (unfold_locales, goal_cases)
  case (6 d h p b off x rc k d')
  then show ?case
    by (auto simp: mem_dfs_def mem_dfs_defs split: option.splits if_splits
        intro: exI [of _ "length x"] exI [of _ "min (length x) (the (mspace d))"])
qed (auto simp: mem_dfs_def mem_dfs_defs fun_eq_iff split: option.splits if_splits)

interpretation memfull: dfs_full mem_dfs mfiles mhandles
  by unfold_locales (auto simp: mem_dfs_def mem_dfs_defs split: option.splits if_splits)

interpretation memlive: dfs_live mem_dfs mfiles mhandles mem_up
  by unfold_locales (auto simp: mem_dfs_def mem_dfs_defs mem_up_def split: option.splits if_splits)

end
