(* ===== verification/Lmcache.thy ===== *)
theory Lmcache
  imports Daos_Prelude Py_Struct
begin

text \<open>
  What the program uses of LMCache: the codec of \<^verbatim>\<open>RemoteMetadata\<close> and the memory objects of the
  local CPU backend. LMCache is not part of the program, so its operations are a record that every
  definition using them takes as an argument; \<open>'lay\<close> stands for the triple (shapes, dtypes, format)
  that the program only passes through, \<open>'m\<close> for the state of the allocator with the memory it
  manages, and a memory object is the number the allocator knows it by. The \<^verbatim>\<open>length\<close> field of the
  metadata is a byte count, hence a natural number.
\<close>

record ('lay, 'm) lmcache =
  rm_serialize :: "nat \<Rightarrow> 'lay \<Rightarrow> exn + bytes"
  rm_deserialize :: "bytes \<Rightarrow> exn + nat \<times> 'lay"
  mo_layout :: "'m \<Rightarrow> nat \<Rightarrow> 'lay"
  mo_bytes :: "'m \<Rightarrow> nat \<Rightarrow> bytes"
  mo_store :: "nat \<Rightarrow> bytes \<Rightarrow> 'm \<Rightarrow> 'm"
  lm_allocate :: "'lay \<Rightarrow> ('m, nat option) io"
  m_ref_count_down :: "(nat \<Rightarrow> ('m, unit) io) option"
  m_release :: "(nat \<Rightarrow> ('m, unit) io) option"
  m_free :: "(nat \<Rightarrow> ('m, unit) io) option"

text \<open>The first of the three ways to give a memory object back that this build of LMCache has.\<close>

definition release_method :: "('lay, 'm) lmcache \<Rightarrow> (nat \<Rightarrow> ('m, unit) io) option" where
  "release_method M = (case m_ref_count_down M of
     Some f \<Rightarrow> Some f
   | None \<Rightarrow> (case m_release M of Some f \<Rightarrow> Some f | None \<Rightarrow> m_free M))"

text \<open>
  \<open>refs m o\<close> is the reference count of object \<open>o\<close>, zero when \<open>o\<close> is not allocated. Allocating and
  releasing one object leaves the live others as they are; the size of an object's buffer is
  determined by its layout; metadata reads back as it was serialised.
\<close>

locale lm_env =
  fixes M :: "('lay, 'm) lmcache"
    and refs :: "'m \<Rightarrow> nat \<Rightarrow> nat"
    and nbytes :: "'lay \<Rightarrow> nat"
  assumes deser_ser: "rm_serialize M n lay = Inr b \<Longrightarrow> rm_deserialize M b = Inr (n, lay)"
    and store_bytes: "length x = length (mo_bytes M m ob) \<Longrightarrow>
       mo_bytes M (mo_store M ob x m) = (mo_bytes M m)(ob := x)"
    and store_layout: "mo_layout M (mo_store M ob x m) = mo_layout M m"
    and store_refs: "refs (mo_store M ob x m) = refs m"
    and alloc_some: "lm_allocate M lay m = (Inr (Some ob), m') \<Longrightarrow>
       refs m ob = 0 \<and> refs m' = (refs m)(ob := 1) \<and> mo_layout M m' ob = lay \<and>
       length (mo_bytes M m' ob) = nbytes lay \<and>
       (\<forall>ob'. 0 < refs m ob' \<longrightarrow> mo_bytes M m' ob' = mo_bytes M m ob' \<and> mo_layout M m' ob' = mo_layout M m ob')"
    and alloc_none: "lm_allocate M lay m = (r, m') \<Longrightarrow> (\<forall>ob. r \<noteq> Inr (Some ob)) \<Longrightarrow>
       refs m' = refs m \<and> r \<noteq> Inl MemoryFault \<and>
       (\<forall>ob'. 0 < refs m ob' \<longrightarrow> mo_bytes M m' ob' = mo_bytes M m ob' \<and> mo_layout M m' ob' = mo_layout M m ob')"
    and has_release: "release_method M \<noteq> None"
    and release_eff: "release_method M = Some f \<Longrightarrow> f ob m = (u, m') \<Longrightarrow>
       u \<noteq> Inl MemoryFault \<and> refs m' = (refs m)(ob := refs m ob - 1) \<and>
       (\<forall>ob'. ob' \<noteq> ob \<and> 0 < refs m ob' \<longrightarrow> mo_bytes M m' ob' = mo_bytes M m ob' \<and> mo_layout M m' ob' = mo_layout M m ob')"
begin

text \<open>The contents of the live objects of \<open>m\<close> are untouched in \<open>m'\<close>.\<close>

definition keeps :: "'m \<Rightarrow> 'm \<Rightarrow> bool" where
  "keeps m m' \<longleftrightarrow> (\<forall>ob. 0 < refs m ob \<longrightarrow> mo_bytes M m' ob = mo_bytes M m ob \<and> mo_layout M m' ob = mo_layout M m ob)"

lemma keeps_refl [simp]: "keeps m m"
  by (simp add: keeps_def)

text \<open>The outcomes of an allocation.\<close>

lemma wp_allocate:
  assumes "\<And>ob m'. refs m ob = 0 \<Longrightarrow> refs m' = (refs m)(ob := 1) \<Longrightarrow> mo_layout M m' ob = lay \<Longrightarrow>
             length (mo_bytes M m' ob) = nbytes lay \<Longrightarrow> keeps m m' \<Longrightarrow> Q (Inr (Some ob)) m'"
    and "\<And>r m'. (\<forall>ob. r \<noteq> Inr (Some ob)) \<Longrightarrow> r \<noteq> Inl MemoryFault \<Longrightarrow> refs m' = refs m \<Longrightarrow> keeps m m' \<Longrightarrow> Q r m'"
  shows "wp (lm_allocate M lay) Q m"
proof (rule wpI)
  fix r m'
  assume run: "lm_allocate M lay m = (r, m')"
  show "Q r m'"
  proof (cases "\<exists>ob. r = Inr (Some ob)")
    case True
    then obtain ob where r: "r = Inr (Some ob)" by blast
    with alloc_some [of lay m ob m'] run show ?thesis by (auto simp: keeps_def intro: assms(1))
  next
    case False
    with alloc_none [OF run] show ?thesis by (auto simp: keeps_def intro: assms(2))
  qed
qed

end

section \<open>A reference allocator\<close>

text \<open>
  The layout of an object is just its size, metadata is two 32-bit fields, and object numbers are
  handed out in order up to a limit.
\<close>

record memmo =
  mm_bytes :: "nat \<Rightarrow> bytes"
  mm_refs :: "nat \<Rightarrow> nat"
  mm_next :: nat
  mm_limit :: nat

definition mm_serialize :: "nat \<Rightarrow> nat \<Rightarrow> exn + bytes" where
  "mm_serialize n lay = bind_sum (pack_field 4 n) (\<lambda>a. bind_sum (pack_field 4 lay) (\<lambda>b. Inr (a @ b)))"

definition mm_deserialize :: "bytes \<Rightarrow> exn + nat \<times> nat" where
  "mm_deserialize b = (if length b = 8 then Inr (un_le (take 4 b), un_le (drop 4 b)) else Inl StructError)"

definition mm_allocate :: "nat \<Rightarrow> (memmo, nat option) io" where
  "mm_allocate lay m =
     (if mm_limit m \<le> mm_next m \<or> mm_refs m (mm_next m) \<noteq> 0 then (Inr None, m)
      else (Inr (Some (mm_next m)),
            m\<lparr>mm_bytes := (mm_bytes m)(mm_next m := replicate lay 0),
              mm_refs := (mm_refs m)(mm_next m := 1), mm_next := mm_next m + 1\<rparr>))"

definition mm_down :: "nat \<Rightarrow> (memmo, unit) io" where
  "mm_down ob m = (Inr (), m\<lparr>mm_refs := (mm_refs m)(ob := mm_refs m ob - 1)\<rparr>)"

definition mem_lm :: "(nat, memmo) lmcache" where
  "mem_lm = \<lparr>rm_serialize = mm_serialize, rm_deserialize = mm_deserialize,
     mo_layout = (\<lambda>m ob. length (mm_bytes m ob)), mo_bytes = mm_bytes,
     mo_store = (\<lambda>ob x m. if length x = length (mm_bytes m ob) then m\<lparr>mm_bytes := (mm_bytes m)(ob := x)\<rparr> else m),
     lm_allocate = mm_allocate, m_ref_count_down = Some mm_down, m_release = None, m_free = None\<rparr>"

interpretation memlm: lm_env mem_lm mm_refs id
proof (unfold_locales, goal_cases)
  case (1 n lay b)
  then show ?case
    by (auto simp: mem_lm_def mm_serialize_def mm_deserialize_def pack_field_def un_le_le_exact
        bind_sum_Inr_iff split: if_splits)
next
  case (8 f ob m u m')
  then show ?case by (auto simp: mem_lm_def release_method_def mm_down_def)
qed (auto simp: mem_lm_def mm_allocate_def mm_down_def release_method_def fun_eq_iff split: if_splits)

end
