(* ===== verification/Conn_Io.thy ===== *)
theory Conn_Io
  imports Conn_Addr Mem_Dfs Lmcache
begin

text \<open>
  \<^verbatim>\<open>lmcache_daos/connector.py\<close>, the blocking operations of \<^verbatim>\<open>DaosConnector\<close> that run on the thread
  pool. The state is the world outside the program: the name space behind \<^verbatim>\<open>libdfs\<close>, the object
  behind \<^verbatim>\<open>libdaos\<close>, and LMCache's memory. The environment record holds the two libraries, LMCache
  and the settings the constructor fixes.
\<close>

record ('d, 'o, 'm) world =
  w_dfs :: 'd
  w_obj :: 'o
  w_mem :: 'm

record ('d, 'o, 'lay, 'm) env =
  e_dfs :: "'d libdfs"
  e_obj :: "'o libobj"
  e_oh :: nat
  e_lm :: "('lay, 'm) lmcache"
  e_raw :: bool
  e_alias_store :: bool
  e_via_bytearray :: bool

definition on_dfs :: "('d, 'a) io \<Rightarrow> (('d, 'o, 'm) world, 'a) io" where
  "on_dfs m = (\<lambda>s. case m (w_dfs s) of (r, d') \<Rightarrow> (r, s\<lparr>w_dfs := d'\<rparr>))"

definition on_daos :: "('o, 'a) io \<Rightarrow> (('d, 'o, 'm) world, 'a) io" where
  "on_daos m = (\<lambda>s. case m (w_obj s) of (r, d') \<Rightarrow> (r, s\<lparr>w_obj := d'\<rparr>))"

definition on_mem :: "('m, 'a) io \<Rightarrow> (('d, 'o, 'm) world, 'a) io" where
  "on_mem m = (\<lambda>s. case m (w_mem s) of (r, d') \<Rightarrow> (r, s\<lparr>w_mem := d'\<rparr>))"

lemma wp_on_dfs [wp_simps]: "wp (on_dfs m) Q s = wp m (\<lambda>r d'. Q r (s\<lparr>w_dfs := d'\<rparr>)) (w_dfs s)"
  by (auto simp: wp_def on_dfs_def split: prod.splits)

lemma wp_on_daos [wp_simps]: "wp (on_daos m) Q s = wp m (\<lambda>r d'. Q r (s\<lparr>w_obj := d'\<rparr>)) (w_obj s)"
  by (auto simp: wp_def on_daos_def split: prod.splits)

lemma wp_on_mem [wp_simps]: "wp (on_mem m) Q s = wp m (\<lambda>r d'. Q r (s\<lparr>w_mem := d'\<rparr>)) (w_mem s)"
  by (auto simp: wp_def on_mem_def split: prod.splits)

text \<open>A one-element list taken apart, as in \<^verbatim>\<open>(got,) = ...\<close>.\<close>

definition the_one :: "'a list \<Rightarrow> exn + 'a" where
  "the_one xs = (case xs of [x] \<Rightarrow> Inr x | _ \<Rightarrow> Inl ValueError)"

section \<open>Memory objects\<close>

text \<open>\<^verbatim>\<open>_release\<close>: best effort, with the first method the object has.\<close>

definition release_mo :: "('d, 'o, 'lay, 'm) env \<Rightarrow> nat \<Rightarrow> (('d, 'o, 'm) world, unit) io" where
  "release_mo E ob = (case release_method (e_lm E) of
     None \<Rightarrow> ret ()
   | Some f \<Rightarrow> swallow (on_mem (f ob)))"

text \<open>The bytes behind \<^verbatim>\<open>memoryview(memory_obj.byte_array).cast("B")\<close>.\<close>

definition view_of :: "('d, 'o, 'lay, 'm) env \<Rightarrow> nat \<Rightarrow> (('d, 'o, 'm) world, bytes) io" where
  "view_of E ob = get_s (\<lambda>s. mo_bytes (e_lm E) (w_mem s) ob)"

text \<open>The write source: a private copy, or an alias whose bytes are read when the write runs.\<close>

datatype srcbuf = Copied bytes | Aliased nat

definition src_bytes :: "('d, 'o, 'lay, 'm) env \<Rightarrow> srcbuf \<Rightarrow> (('d, 'o, 'm) world, bytes) io" where
  "src_bytes E src = (case src of Copied b \<Rightarrow> ret b | Aliased ob \<Rightarrow> view_of E ob)"

definition prep_write :: "('d, 'o, 'lay, 'm) env \<Rightarrow> nat \<Rightarrow> (('d, 'o, 'm) world, bytes \<times> srcbuf \<times> nat) io" where
  "prep_write E ob =
     bind_io (view_of E ob) (\<lambda>view.
     let n = length view in
     bind_io (get_s (\<lambda>s. mo_layout (e_lm E) (w_mem s) ob)) (\<lambda>lay.
     bind_io (of_sum (rm_serialize (e_lm E) n lay)) (\<lambda>meta_bytes.
     bind_io (of_sum (prefix_pack (length meta_bytes) n)) (\<lambda>pre.
     ret (pre @ meta_bytes, if e_alias_store E then Aliased ob else Copied view, n)))))"

section \<open>Storing\<close>

definition put_raw :: "('d, 'o, 'lay, 'm) env \<Rightarrow> bytes \<Rightarrow> int option \<Rightarrow> bytes \<Rightarrow> srcbuf \<Rightarrow> nat \<Rightarrow>
    (('d, 'o, 'm) world, unit) io" where
  "put_raw E dkey layer header src n =
     bind_io (of_sum (akeys_for layer)) (\<lambda>(pak, mak).
     bind_io (of_sum (repack_header header)) (\<lambda>hdr.
     bind_io (src_bytes E src) (\<lambda>x.
     bind_io (on_daos (obj_update (e_obj E) (e_oh E) dkey [(pak, x, n)] False)) (\<lambda>_.
     on_daos (obj_update (e_obj E) (e_oh E) dkey [(mak, hdr, length hdr)] True)))))"

definition put_sync :: "('d, 'o, 'lay, 'm) env \<Rightarrow> addr \<Rightarrow> bytes \<Rightarrow> srcbuf \<Rightarrow> nat \<Rightarrow> (('d, 'o, 'm) world, unit) io" where
  "put_sync E a header src n = (case (e_raw E, a) of
     (True, Cell dkey layer) \<Rightarrow> put_raw E dkey layer header src n
   | (False, Path path) \<Rightarrow>
       bind_io (on_dfs (open_rdwr_create (e_dfs E) path 0)) (\<lambda>obj.
       finally_io
         (bind_io (on_dfs (write_obj_from (e_dfs E) obj 0 (length header) header)) (\<lambda>_.
          bind_io (src_bytes E src) (\<lambda>x.
          bind_io (on_dfs (write_obj_from (e_dfs E) obj (length header) n x)) (\<lambda>_. ret ()))))
         (on_dfs (close_obj (e_dfs E) obj)))
   | _ \<Rightarrow> raise TypeError)"

text \<open>One entry of a folded store: layer, header, source, length.\<close>

definition fold_entry :: "int \<times> bytes \<times> srcbuf \<times> nat \<Rightarrow> exn + (bytes \<times> srcbuf \<times> nat) \<times> item" where
  "fold_entry = (\<lambda>(layer, header, src, n).
     bind_sum (akeys_for (Some layer)) (\<lambda>(pak, mak).
     bind_sum (repack_header header) (\<lambda>hdr.
     Inr ((pak, src, n), (mak, hdr, length hdr)))))"

fun load_sources :: "('d, 'o, 'lay, 'm) env \<Rightarrow> (bytes \<times> srcbuf \<times> nat) list \<Rightarrow> (('d, 'o, 'm) world, item list) io" where
  "load_sources E [] = ret []"
| "load_sources E ((ak, src, n) # ps) =
     bind_io (src_bytes E src) (\<lambda>x. bind_io (load_sources E ps) (\<lambda>xs. ret ((ak, x, n) # xs)))"

definition put_raw_folded ::
  "('d, 'o, 'lay, 'm) env \<Rightarrow> bytes \<Rightarrow> (int \<times> bytes \<times> srcbuf \<times> nat) list \<Rightarrow> (('d, 'o, 'm) world, unit) io" where
  "put_raw_folded E dkey entries =
     bind_io (of_sum (seq_sum (map fold_entry entries))) (\<lambda>pms.
     bind_io (load_sources E (map fst pms)) (\<lambda>payloads.
     bind_io (on_daos (obj_update (e_obj E) (e_oh E) dkey payloads False)) (\<lambda>_.
     on_daos (obj_update (e_obj E) (e_oh E) dkey (map snd pms) True))))"

section \<open>Loading\<close>

text \<open>
  The payload read of the DFS path. The destination aliases the object's buffer, so what the C call
  may store into is the whole buffer of the object, not the \<open>n\<close> bytes of the ctypes array laid over
  it; the read asks for \<open>payload_len\<close> bytes.
\<close>

definition read_payload :: "('d, 'o, 'lay, 'm) env \<Rightarrow> nat \<Rightarrow> nat \<Rightarrow> nat \<Rightarrow> nat \<Rightarrow> nat \<Rightarrow>
    (('d, 'o, 'm) world, nat option) io" where
  "read_payload E obj off plen n ob =
     bind_io (view_of E ob) (\<lambda>view.
     if e_via_bytearray E then
       bind_io (on_dfs (read_obj_into (e_dfs E) obj off plen (replicate plen 0))) (\<lambda>(got, tmp).
       if got \<noteq> plen then bind_io (release_mo E ob) (\<lambda>_. ret None)
       else if length view < n then raise ValueError
       else bind_io (on_mem (put_s (mo_store (e_lm E) ob (take n tmp @ drop n view)))) (\<lambda>_. ret (Some ob)))
     else if length view < n then raise ValueError
     else
       bind_io (on_dfs (read_obj_into (e_dfs E) obj off plen view)) (\<lambda>(got, buf).
       bind_io (on_mem (put_s (mo_store (e_lm E) ob buf))) (\<lambda>_.
       if got \<noteq> plen then bind_io (release_mo E ob) (\<lambda>_. ret None)
       else ret (Some ob))))"

definition get_open :: "('d, 'o, 'lay, 'm) env \<Rightarrow> nat \<Rightarrow> (('d, 'o, 'm) world, nat option) io" where
  "get_open E obj =
     (let ps = prefix_size in
     bind_io (on_dfs (read_obj (e_dfs E) obj 0 (ps + HDR_CAP))) (\<lambda>hdr.
     if length hdr < ps then ret None
     else
     bind_io (of_sum (parse_prefix (take ps hdr))) (\<lambda>(meta_len, plen).
     bind_io (if meta_len \<le> length hdr - ps then ret (take meta_len (drop ps hdr))
              else on_dfs (read_obj (e_dfs E) obj ps meta_len)) (\<lambda>meta_bytes.
     if length meta_bytes \<noteq> meta_len then ret None
     else case rm_deserialize (e_lm E) meta_bytes of
       Inl e \<Rightarrow> (if is_Exception e then ret None else raise e)
     | Inr (n, lay) \<Rightarrow>
         if plen < n then ret None
         else bind_io (on_mem (lm_allocate (e_lm E) lay)) (\<lambda>mo. case mo of
                None \<Rightarrow> ret None
              | Some ob \<Rightarrow> read_payload E obj (ps + meta_len) plen n ob)))))"

text \<open>The object-API read of one key.\<close>

definition read_cell :: "('d, 'o, 'lay, 'm) env \<Rightarrow> bytes \<Rightarrow> bytes \<Rightarrow> nat \<Rightarrow> nat \<Rightarrow> (('d, 'o, 'm) world, nat option) io" where
  "read_cell E dkey pak n ob =
     bind_io (view_of E ob) (\<lambda>view.
     if length view < n then raise ValueError
     else
     bind_io (catch_io is_Exception
        (bind_io (on_daos (obj_fetch (e_obj E) (e_oh E) dkey [(pak, view, n)] False)) (\<lambda>res. of_sum (the_one res)))
        (\<lambda>e. bind_io (release_mo E ob) (\<lambda>_. raise e))) (\<lambda>(readn, buf).
     bind_io (on_mem (put_s (mo_store (e_lm E) ob buf))) (\<lambda>_.
     if readn \<noteq> n then bind_io (release_mo E ob) (\<lambda>_. ret None)
     else ret (Some ob))))"

definition get_raw :: "('d, 'o, 'lay, 'm) env \<Rightarrow> bytes \<Rightarrow> int option \<Rightarrow> (('d, 'o, 'm) world, nat option) io" where
  "get_raw E dkey layer =
     bind_io (of_sum (akeys_for layer)) (\<lambda>(pak, mak).
     bind_io (on_daos (obj_fetch (e_obj E) (e_oh E) dkey [(mak, replicate META_CAP 0, META_CAP)] True)) (\<lambda>res.
     bind_io (of_sum (the_one res)) (\<lambda>(got, hdr_buf).
     if got = 0 then ret None
     else case parse_meta (take got hdr_buf) True of
       Inl e \<Rightarrow> (if e = BadHeader then ret None else raise e)
     | Inr hdr \<Rightarrow>
         (case rm_deserialize (e_lm E) (meta hdr) of
            Inl e \<Rightarrow> (if is_Exception e then ret None else raise e)
          | Inr (n, lay) \<Rightarrow>
              if payload_len hdr < n then ret None
              else bind_io (on_mem (lm_allocate (e_lm E) lay)) (\<lambda>mo. case mo of
                     None \<Rightarrow> ret None
                   | Some ob \<Rightarrow> read_cell E dkey pak n ob)))))"

definition get_sync :: "('d, 'o, 'lay, 'm) env \<Rightarrow> addr \<Rightarrow> (('d, 'o, 'm) world, nat option) io" where
  "get_sync E a = (case (e_raw E, a) of
     (True, Cell dkey layer) \<Rightarrow> get_raw E dkey layer
   | (False, Path path) \<Rightarrow>
       bind_io (catch_io is_DaosError
           (bind_io (on_dfs (open_rdonly (e_dfs E) path)) (\<lambda>obj. ret (Some obj)))
           (\<lambda>e. if exn_rc e = Some ENOENT then ret None else raise e)) (\<lambda>o'.
       case o' of
         None \<Rightarrow> ret None
       | Some obj \<Rightarrow> finally_io (get_open E obj) (on_dfs (close_obj (e_dfs E) obj)))
   | _ \<Rightarrow> raise TypeError)"

text \<open>
  The folded read. \<open>stage\<close> is the loop over the headers: it gives the staged buffers with their
  position, akey and length; \<open>settle\<close> the loop over the payload counts.
\<close>

fun stage :: "('d, 'o, 'lay, 'm) env \<Rightarrow> (nat \<times> int \<times> nat \<times> bytes) list \<Rightarrow>
    (('d, 'o, 'm) world, (nat \<times> nat \<times> item) list) io" where
  "stage E [] = ret []"
| "stage E ((i, layer, n_meta, buf) # rest) =
     (if n_meta = 0 then stage E rest
      else case bind_sum (parse_meta (take n_meta buf) True) (\<lambda>hdr.
                  bind_sum (rm_deserialize (e_lm E) (meta hdr)) (\<lambda>(n, lay). Inr (hdr, n, lay))) of
        Inl e \<Rightarrow> if is_Exception e then stage E rest else raise e
      | Inr (hdr, n, lay) \<Rightarrow>
          if payload_len hdr < n then stage E rest
          else bind_io (on_mem (lm_allocate (e_lm E) lay)) (\<lambda>mo. case mo of
                 None \<Rightarrow> stage E rest
               | Some ob \<Rightarrow>
                   bind_io (view_of E ob) (\<lambda>view.
                   if length view < n then raise ValueError
                   else bind_io (of_sum (akey_layer layer)) (\<lambda>pak.
                        bind_io (stage E rest) (\<lambda>staged. ret ((i, ob, (pak, view, n)) # staged))))))"

fun settle :: "('d, 'o, 'lay, 'm) env \<Rightarrow> ((nat \<times> nat \<times> item) \<times> nat \<times> bytes) list \<Rightarrow> nat option list \<Rightarrow>
    (('d, 'o, 'm) world, nat option list) io" where
  "settle E [] out = ret out"
| "settle E (((i, ob, (ak, v, n)), (got_n, buf)) # rest) out =
     bind_io (on_mem (put_s (mo_store (e_lm E) ob buf))) (\<lambda>_.
     if got_n \<noteq> n then bind_io (release_mo E ob) (\<lambda>_. settle E rest out)
     else settle E rest (out[i := Some ob]))"

fun release_all :: "('d, 'o, 'lay, 'm) env \<Rightarrow> nat list \<Rightarrow> (('d, 'o, 'm) world, unit) io" where
  "release_all E [] = ret ()"
| "release_all E (ob # obs) = bind_io (release_mo E ob) (\<lambda>_. release_all E obs)"

definition get_raw_folded ::
  "('d, 'o, 'lay, 'm) env \<Rightarrow> bytes \<Rightarrow> int list \<Rightarrow> (('d, 'o, 'm) world, nat option list) io" where
  "get_raw_folded E dkey layers =
     bind_io (of_sum (seq_sum (map akey_meta_layer layers))) (\<lambda>maks.
     bind_io (on_daos (obj_fetch (e_obj E) (e_oh E) dkey
        (map (\<lambda>mak. (mak, replicate META_CAP 0, META_CAP)) maks) True)) (\<lambda>got.
     let out = replicate (length layers) None in
     bind_io (stage E (zip [0..<length layers] (zip layers got))) (\<lambda>staged.
     if staged = [] then ret out
     else
     bind_io (catch_io is_Exception
        (on_daos (obj_fetch (e_obj E) (e_oh E) dkey (map (\<lambda>(i, ob, it). it) staged) False))
        (\<lambda>e. bind_io (release_all E (map (\<lambda>(i, ob, it). ob) staged)) (\<lambda>_. raise e))) (\<lambda>readn.
     settle E (zip staged readn) out))))"

section \<open>Presence, removal, health probe\<close>

definition exists_at :: "('d, 'o, 'lay, 'm) env \<Rightarrow> addr \<Rightarrow> (('d, 'o, 'm) world, bool) io" where
  "exists_at E a = (case (e_raw E, a) of
     (True, Cell dkey layer) \<Rightarrow>
       bind_io (of_sum (case layer of None \<Rightarrow> Inr AKEY_META | Some i \<Rightarrow> akey_meta_layer i)) (\<lambda>mak.
       bind_io (on_daos (obj_fetch (e_obj E) (e_oh E) dkey [(mak, replicate META_CAP 0, META_CAP)] True)) (\<lambda>res.
       bind_io (of_sum (the_one res)) (\<lambda>(got, _). ret (0 < got))))
   | (False, Path path) \<Rightarrow> on_dfs (dfs_exists (e_dfs E) path)
   | _ \<Rightarrow> raise TypeError)"

definition remove_one :: "('d, 'o, 'lay, 'm) env \<Rightarrow> addr \<Rightarrow> (('d, 'o, 'm) world, bool) io" where
  "remove_one E a = (case (e_raw E, a) of
     (True, Cell dkey (Some layer)) \<Rightarrow>
       bind_io (of_sum (akeys_for (Some layer))) (\<lambda>(pak, mak).
       bind_io (on_daos (obj_punch_akeys (e_obj E) (e_oh E) dkey [pak, mak])) (\<lambda>_. ret True))
   | (True, Cell dkey None) \<Rightarrow> bind_io (on_daos (obj_punch (e_obj E) (e_oh E) dkey)) (\<lambda>_. ret True)
   | (False, Path path) \<Rightarrow> on_dfs (dfs_remove (e_dfs E) path)
   | _ \<Rightarrow> raise TypeError)"

definition ping_probe :: "('d, 'o, 'lay, 'm) env \<Rightarrow> (('d, 'o, 'm) world, unit) io" where
  "ping_probe E =
     (if e_raw E
      then bind_io (on_daos (obj_fetch (e_obj E) (e_oh E) (encode ''ping'') [(AKEY_META, replicate 8 0, 8)] True))
             (\<lambda>_. ret ())
      else bind_io (on_dfs (dfs_exists (e_dfs E) PING_PATH)) (\<lambda>_. ret ()))"

text \<open>The two synchronous entry points, by key.\<close>

definition exists_sync :: "('d, 'o, 'lay, 'm) env \<Rightarrow> pykey \<Rightarrow> (('d, 'o, 'm) world, bool) io" where
  "exists_sync E key = exists_at E (addr_of (e_raw E) key)"

definition remove_sync :: "('d, 'o, 'lay, 'm) env \<Rightarrow> pykey \<Rightarrow> (('d, 'o, 'm) world, bool) io" where
  "remove_sync E key = remove_one E (addr_of (e_raw E) key)"

end
