(* ===== verification/Conn_Mem.thy ===== *)
theory Conn_Mem
  imports Conn_Io
begin

text \<open>
  The memory side of the connector, shared by its two backends: giving an object back, and what a
  load may do to LMCache's memory.
\<close>

text \<open>The v1 object that stores payload \<open>x\<close> of layout \<open>lay\<close>.\<close>

definition v1_object :: "('lay, 'm) lmcache \<Rightarrow> 'lay \<Rightarrow> bytes \<Rightarrow> exn + bytes" where
  "v1_object M lay x = bind_sum (rm_serialize M (length x) lay) (\<lambda>mt. pack mt x)"

lemma v1_objectE:
  assumes "v1_object M lay x = Inr b"
  obtains mt pre where "rm_serialize M (length x) lay = Inr mt"
    and "prefix_pack (length mt) (length x) = Inr pre" and "b = pre @ mt @ x"
  using assms by (auto simp: v1_object_def bind_sum_Inr_iff pack_Inr_iff)

text \<open>A file holds \<open>b\<close>, complete with anything after it, or cut off somewhere.\<close>

definition cut_or_whole :: "bytes \<Rightarrow> bytes \<Rightarrow> bool" where
  "cut_or_whole b c \<longleftrightarrow> take (length c) b = c \<and> length c \<le> length b \<or> take (length b) c = b"

lemma cut_or_whole_take [simp]: "cut_or_whole b (take k b)"
  by (auto simp: cut_or_whole_def)

lemma cut_or_whole_whole [simp]: "cut_or_whole b (b @ rest)"
  by (auto simp: cut_or_whole_def)

lemma cut_or_whole_nth:
  assumes "cut_or_whole b c"
  shows "take k c = take (min k (length c)) b \<or> length b < min k (length c)"
  using assms unfolding cut_or_whole_def
  by (smt (verit, best) length_take min.absorb_iff2 min_def not_less take_all take_take)

text \<open>Reading a range of such a file gives the range of \<open>b\<close>, or comes back short.\<close>

lemma cut_range:
  assumes "cut_or_whole b c" and "off + n \<le> length b"
  shows "take n (drop off c) = take n (drop off (take (length c) b))"
proof -
  from assms(1) consider "c = take (length c) b" "length c \<le> length b" | "take (length b) c = b"
    by (auto simp: cut_or_whole_def)
  then show ?thesis
  proof cases
    case 2
    then have "length b \<le> length c" by (metis length_take min.cobounded2 min.commute)
    have "take n (drop off c) = take n (drop off (take (length b) c))"
      using assms(2) by (simp add: drop_take min_def)
    with 2 \<open>length b \<le> length c\<close> show ?thesis by simp
  qed simp
qed

lemma cut_range_full:
  assumes "cut_or_whole b c" and "off + n \<le> length b" and "length (take n (drop off c)) = n"
  shows "take n (drop off c) = take n (drop off b)"
proof (cases "n = 0")
  case False
  have "length (take n (drop off (take (length c) b))) = n"
    using assms cut_range [OF assms(1,2)] by simp
  with False have "off + n \<le> length c" by auto
  with cut_range [OF assms(1,2)] show ?thesis by (simp add: drop_take min_def)
qed simp

lemma cut_short:
  assumes "cut_or_whole b c" and "off + n \<le> length b"
  shows "length (take n (drop off c)) = min n (length c - off)"
  by simp

section \<open>Preparing a store\<close>

lemma prep_write_rule:
  "wp (prep_write E ob) (\<lambda>r s'. s' = s \<and> (case r of
       Inl e \<Rightarrow> v1_object (e_lm E) (mo_layout (e_lm E) (w_mem s) ob) (mo_bytes (e_lm E) (w_mem s) ob) = Inl e
     | Inr (header, src, n) \<Rightarrow> n = length (mo_bytes (e_lm E) (w_mem s) ob) \<and>
         src = (if e_alias_store E then Aliased ob else Copied (mo_bytes (e_lm E) (w_mem s) ob)) \<and>
         v1_object (e_lm E) (mo_layout (e_lm E) (w_mem s) ob) (mo_bytes (e_lm E) (w_mem s) ob) =
           Inr (header @ mo_bytes (e_lm E) (w_mem s) ob))) s"
  by (auto simp: prep_write_def view_of_def wp_simps Let_def v1_object_def pack_def bind_sum_def
      split: sum.splits)

section \<open>Buffers\<close>

locale lm_conn = lm_env "e_lm E" refs nbytes
  for E :: "('d, 'o, 'lay, 'm) env" and refs nbytes
begin

lemma wp_release:
  assumes "\<And>m'. refs m' = (refs (w_mem s))(ob := refs (w_mem s) ob - 1) \<Longrightarrow>
     (\<And>ob'. ob' \<noteq> ob \<Longrightarrow> 0 < refs (w_mem s) ob' \<Longrightarrow>
        mo_bytes (e_lm E) m' ob' = mo_bytes (e_lm E) (w_mem s) ob' \<and>
        mo_layout (e_lm E) m' ob' = mo_layout (e_lm E) (w_mem s) ob') \<Longrightarrow> Q (Inr ()) (s\<lparr>w_mem := m'\<rparr>)"
  shows "wp (release_mo E ob) Q s"
proof -
  from has_release obtain f where f: "release_method (e_lm E) = Some f" by auto
  obtain u m' where run: "f ob (w_mem s) = (u, m')" by (cases "f ob (w_mem s)")
  from release_eff [OF f run] have "u \<noteq> Inl MemoryFault" and q: "Q (Inr ()) (s\<lparr>w_mem := m'\<rparr>)"
    by (auto intro: assms)
  then have "is_Exception e" if "u = Inl e" for e using that by (auto simp: is_Exception_def)
  with q show ?thesis
    unfolding release_mo_def f option.case wp_swallow wp_on_mem
    by (auto simp: wp_def run split: sum.splits)
qed

text \<open>
  What loading an object with layout \<open>lay\<close> and contents \<open>x\<close> may do to memory: a hit is a new object
  with exactly these contents, and happens only when the store is \<open>whole\<close>; a miss leaves every
  reference count as it was; a failure never is a memory fault.
\<close>

definition load_post :: "'lay \<Rightarrow> bytes \<Rightarrow> bool \<Rightarrow> 'm \<Rightarrow> exn + nat option \<Rightarrow> 'm \<Rightarrow> bool" where
  "load_post lay x whole m r m' \<longleftrightarrow> keeps m m' \<and> (case r of
     Inr (Some ob) \<Rightarrow> whole \<and> refs m ob = 0 \<and> refs m' = (refs m)(ob := 1) \<and>
        mo_bytes (e_lm E) m' ob = x \<and> mo_layout (e_lm E) m' ob = lay
   | Inr None \<Rightarrow> refs m' = refs m
   | Inl e \<Rightarrow> e \<noteq> MemoryFault \<and> (\<forall>ob. refs m ob \<le> refs m' ob))"

lemma keeps_store:
  assumes "keeps m m1" and "refs m ob = 0" and "length y = length (mo_bytes (e_lm E) m1 ob)"
  shows "keeps m (mo_store (e_lm E) ob y m1)"
  using assms by (auto simp: keeps_def store_bytes store_layout)

lemma wp_release_fresh:
  assumes "keeps m (w_mem s)" and "refs m ob = 0" and "refs (w_mem s) = (refs m)(ob := 1)"
    and "\<And>m'. keeps m m' \<Longrightarrow> refs m' = refs m \<Longrightarrow> Q (Inr ()) (s\<lparr>w_mem := m'\<rparr>)"
  shows "wp (release_mo E ob) Q s"
proof (rule wp_release)
  fix m'
  assume r: "refs m' = (refs (w_mem s))(ob := refs (w_mem s) ob - 1)"
    and o: "\<And>ob'. ob' \<noteq> ob \<Longrightarrow> 0 < refs (w_mem s) ob' \<Longrightarrow>
        mo_bytes (e_lm E) m' ob' = mo_bytes (e_lm E) (w_mem s) ob' \<and>
        mo_layout (e_lm E) m' ob' = mo_layout (e_lm E) (w_mem s) ob'"
  have "refs m' = refs m" using r assms(2,3) by auto
  moreover have "keeps m m'"
    unfolding keeps_def
  proof (intro allI impI)
    fix ob'
    assume "0 < refs m ob'"
    with assms(1-3) o [of ob'] show "mo_bytes (e_lm E) m' ob' = mo_bytes (e_lm E) m ob' \<and>
        mo_layout (e_lm E) m' ob' = mo_layout (e_lm E) m ob'"
      by (cases "ob' = ob") (auto simp: keeps_def)
  qed
  ultimately show "Q (Inr ()) (s\<lparr>w_mem := m'\<rparr>)" by (rule assms(4) [rotated])
qed

end

end
