(* ===== verification/Conn_Dfs.thy ===== *)
theory Conn_Dfs
  imports Conn_Mem
begin

text \<open>
  The DFS path of the connector: what \<^verbatim>\<open>_put_sync\<close> leaves in the name space when any call may fail,
  and what \<^verbatim>\<open>_get_sync\<close> makes of it.
\<close>

section \<open>The stages of a load\<close>

text \<open>A load from its metadata on, and the load as header, metadata and this tail.\<close>

definition open_tail :: "('d, 'o, 'lay, 'm) env \<Rightarrow> nat \<Rightarrow> nat \<Rightarrow> nat \<Rightarrow> bytes \<Rightarrow> (('d, 'o, 'm) world, nat option) io" where
  "open_tail E h ml pl mb =
     (if length mb \<noteq> ml then ret None
      else case rm_deserialize (e_lm E) mb of
        Inl e \<Rightarrow> (if is_Exception e then ret None else raise e)
      | Inr (n, lay) \<Rightarrow>
          if pl < n then ret None
          else bind_io (on_mem (lm_allocate (e_lm E) lay)) (\<lambda>mo. case mo of
                 None \<Rightarrow> ret None
               | Some ob \<Rightarrow> read_payload E h (8 + ml) pl n ob))"

lemma get_open_stages:
  "get_open E h = bind_io (on_dfs (read_obj (e_dfs E) h 0 520)) (\<lambda>hdr.
     if length hdr < 8 then ret None
     else bind_io (of_sum (parse_prefix (take 8 hdr))) (\<lambda>(ml, pl).
       bind_io (if ml \<le> length hdr - 8 then ret (take ml (drop 8 hdr)) else on_dfs (read_obj (e_dfs E) h 8 ml)) (open_tail E h ml pl)))"
  unfolding get_open_def open_tail_def [abs_def] by (simp add: prefix_size_def HDR_CAP_def)

text \<open>What the ranges that a load reads hold, when the file is a cut or the whole of an object.\<close>

lemma v1_ranges:
  assumes b: "v1_object lm lay x = Inr b" and cut: "cut_or_whole b c"
  obtains mt where "rm_serialize lm (length x) lay = Inr mt" "length b = 8 + length mt + length x"
    "8 \<le> length c \<longrightarrow> parse_prefix (take 8 c) = Inr (length mt, length x)"
    "length (take (length mt) (drop 8 c)) = length mt \<longrightarrow> take (length mt) (drop 8 c) = mt"
    "8 + length mt + length x \<le> length c \<longrightarrow> take (length x) (drop (8 + length mt) c) = x"
proof -
  from b obtain mt pre where mt: "rm_serialize lm (length x) lay = Inr mt"
    and pre: "prefix_pack (length mt) (length x) = Inr pre" and b': "b = pre @ mt @ x" by (rule v1_objectE)
  have lpre: "length pre = 8" using length_prefix_pack [OF pre] by (simp add: prefix_size_def)
  show thesis
  proof (rule that [OF mt])
    show "length b = 8 + length mt + length x" by (simp add: b' lpre)
    show "8 \<le> length c \<longrightarrow> parse_prefix (take 8 c) = Inr (length mt, length x)"
      using cut_range_full [OF cut, of 0 8] lpre b' parse_prefix_pack [OF pre] by simp
    show "length (take (length mt) (drop 8 c)) = length mt \<longrightarrow> take (length mt) (drop 8 c) = mt"
      using cut_range_full [OF cut, of 8 "length mt"] lpre b' by simp
    show "8 + length mt + length x \<le> length c \<longrightarrow> take (length x) (drop (8 + length mt) c) = x"
      using cut_range_full [OF cut, of "8 + length mt" "length x"] lpre b' by auto
  qed
qed

text \<open>Metadata that fits the first read is the same range of the file.\<close>

lemma meta_in_header: "ml \<le> length (take 520 c) - 8 \<Longrightarrow> take ml (drop 8 (take 520 c)) = take ml (drop 8 c)"
  by (simp add: drop_take min_def split: if_splits)

section \<open>The locale of the DFS connector\<close>

locale dfs_conn = dfs_full "e_dfs E" fs hs + lm_conn E refs nbytes
  for E :: "('d, 'o, 'lay, 'm) env" and fs hs refs nbytes +
  assumes posix: "\<not> e_raw E"
begin

abbreviation files :: "('d, 'o, 'm) world \<Rightarrow> string \<Rightarrow> bytes option" where
  "files s \<equiv> fs (w_dfs s)"

abbreviation handles_of :: "('d, 'o, 'm) world \<Rightarrow> nat \<Rightarrow> string option" where
  "handles_of s \<equiv> hs (w_dfs s)"

text \<open>What a store of \<open>b\<close> does to its path: a prefix of \<open>b\<close> stays a prefix.\<close>

definition put_post :: "string \<Rightarrow> bytes \<Rightarrow> ('d, 'o, 'm) world \<Rightarrow> exn + unit \<Rightarrow> ('d, 'o, 'm) world \<Rightarrow> bool" where
  "put_post p b s r s' \<longleftrightarrow>
     handles_of s' = handles_of s \<and> (\<forall>q. q \<noteq> p \<longrightarrow> files s' q = files s q) \<and>
     w_mem s' = w_mem s \<and> w_obj s' = w_obj s \<and>
     (case files s' p of None \<Rightarrow> files s p = None | Some c \<Rightarrow> \<exists>k. c = take k b) \<and>
     (r = Inr () \<longrightarrow> files s' p = Some b) \<and> r \<noteq> Inl MemoryFault"

text \<open>
  The second write of a store, over a file that holds the header at least: what is there stays a
  prefix of the object.
\<close>

lemma write_payload_rule:
  assumes h: "handles_of s h = Some p" and f: "files s p = Some (take k (header @ x))"
    and k: "length header \<le> k" "k \<le> length (header @ x)"
  shows "wp (on_dfs (write_obj_from (e_dfs E) h (length header) (length x) x))
      (\<lambda>r s'. handles_of s' = handles_of s \<and> (\<forall>q. q \<noteq> p \<longrightarrow> files s' q = files s q) \<and>
         w_mem s' = w_mem s \<and> w_obj s' = w_obj s \<and> (\<exists>k. files s' p = Some (take k (header @ x))) \<and>
         (isl r \<or> files s' p = Some (header @ x)) \<and> r \<noteq> Inl MemoryFault) s"
proof -
  define b where "b = header @ x"
  have pay: "overlay (take k b) (length header) (take j x) = take (max k (length header + min j (length x))) b" for j
    using overlay_prefix [OF k(2,1), of "take j x" j] by (auto simp: b_def min_def)
  have full: "overlay (take k b) (length header) x = b"
    using pay [of "length x"] k by (simp add: b_def max_def)
  show ?thesis
    unfolding wp_on_dfs b_def [symmetric]
  proof (rule wp_write_full [OF h f [folded b_def]], goal_cases)
    case (2 d')
    then show ?case using full by (auto intro: exI [of _ "length b"])
  next
    case (3 j c d')
    then show ?case using pay [of j] by auto
  qed simp
qed

lemma put_writes:
  assumes h: "handles_of s h = Some p" and f: "files s p = Some (take k0 (header @ x))"
  shows "wp (bind_io (on_dfs (write_obj_from (e_dfs E) h 0 (length header) header)) (\<lambda>_.
          bind_io (src_bytes E (Copied x)) (\<lambda>x.
          bind_io (on_dfs (write_obj_from (e_dfs E) h (length header) (length x) x)) (\<lambda>_. ret ()))))
    (\<lambda>r s'. handles_of s' = handles_of s \<and> (\<forall>q. q \<noteq> p \<longrightarrow> files s' q = files s q) \<and>
       w_mem s' = w_mem s \<and> w_obj s' = w_obj s \<and> (\<exists>k. files s' p = Some (take k (header @ x))) \<and>
       (r = Inr () \<longrightarrow> files s' p = Some (header @ x)) \<and> r \<noteq> Inl MemoryFault) s"
proof -
  define b where "b = header @ x"
  define k1 where "k1 = min k0 (length b)"
  have f: "files s p = Some (take k1 b)" and k1: "k1 \<le> length b"
    using f by (auto simp: b_def k1_def min_def)
  have hdr: "overlay (take k1 b) 0 (take j header) = take (max k1 (min j (length header))) b" for j
    using overlay_prefix [OF k1, of 0 "take j header" "min j (length header)"]
    by (auto simp: b_def min_def max_def)
  show ?thesis
    unfolding wp_bind wp_on_dfs
  proof (rule wp_write_full [OF h f], goal_cases)
    case 1
    then show ?case by simp
  next
    case (2 d')
    let ?k = "max k1 (length header)"
    have "handles_of (s\<lparr>w_dfs := d'\<rparr>) h = Some p" "files (s\<lparr>w_dfs := d'\<rparr>) p = Some (take ?k (header @ x))"
      "?k \<le> length (header @ x)"
      using 2 h hdr [of "length header"] k1 by (auto simp: b_def)
    from write_payload_rule [OF this(1,2) _ this(3)] 2 show ?case
      by (auto simp: src_bytes_def wp_simps split: sum.splits elim!: wp_mono)
  next
    case (3 j c d')
    then show ?case using hdr [of j] by (auto simp: b_def)
  qed
qed

lemma put_sync_rule:
  assumes "files s p = None \<or> (\<exists>k. files s p = Some (take k (header @ x)))"
  shows "wp (put_sync E (Path p) header (Copied x) (length x)) (put_post p (header @ x) s) s"
proof -
  define b where "b = header @ x"
  let ?W = "\<lambda>h. bind_io (on_dfs (write_obj_from (e_dfs E) h 0 (length header) header)) (\<lambda>_.
          bind_io (src_bytes E (Copied x)) (\<lambda>y.
          bind_io (on_dfs (write_obj_from (e_dfs E) h (length header) (length x) y)) (\<lambda>_. ret ())))"
  have body: "wp (finally_io (?W h) (on_dfs (close_obj (e_dfs E) h))) (put_post p b s) s1"
    if "handles_of s h = None" "handles_of s1 = (handles_of s)(h \<mapsto> p)"
      "files s1 = (files s)(p \<mapsto> take k b)" "w_mem s1 = w_mem s" "w_obj s1 = w_obj s" for h s1 k
  proof -
    have "wp (?W h) (\<lambda>r s'. handles_of s' = handles_of s1 \<and> (\<forall>q. q \<noteq> p \<longrightarrow> files s' q = files s1 q) \<and>
       w_mem s' = w_mem s1 \<and> w_obj s' = w_obj s1 \<and> (\<exists>k. files s' p = Some (take k b)) \<and>
       (r = Inr () \<longrightarrow> files s' p = Some b) \<and> r \<noteq> Inl MemoryFault) s1"
      using put_writes [of s1 h p k header x, folded b_def] that by (simp add: src_bytes_def)
    then show ?thesis
      unfolding wp_finally
      by (rule wp_mono) (use that in \<open>auto simp: wp_on_dfs put_post_def fun_upd_idem intro!: wp_close_obj\<close>)
  qed
  have "wp (bind_io (on_dfs (open_rdwr_create (e_dfs E) p 0)) (\<lambda>obj.
       finally_io (?W obj) (on_dfs (close_obj (e_dfs E) obj)))) (put_post p b s) s"
    unfolding wp_bind wp_on_dfs
  proof (rule wp_open_rdwr_create, goal_cases)
    case (1 h d')
    from assms [folded b_def] obtain k where "(case files s p of None \<Rightarrow> [] | Some b \<Rightarrow> b) = take k b"
      by (force intro: exI [of _ 0])
    with 1 body [of h "s\<lparr>w_dfs := d'\<rparr>" k] show ?case by simp
  next
    case (2 rc d')
    then show ?case using assms [folded b_def]
      by (auto simp: put_post_def split: option.splits intro: exI [of _ 0])
  qed
  then show ?thesis using posix by (simp add: put_sync_def b_def)
qed

section \<open>Loading\<close>

text \<open>
  What a payload read may leave behind, in the memory \<open>m\<close> before its buffer was allocated; dropping
  the buffer is a miss, storing the whole payload in it a hit.
\<close>

definition payload_left ::
  "'lay \<Rightarrow> bytes \<Rightarrow> bool \<Rightarrow> 'm \<Rightarrow> ('d, 'o, 'm) world \<Rightarrow> exn + nat option \<Rightarrow> ('d, 'o, 'm) world \<Rightarrow> bool" where
  "payload_left lay x whole m s r s' \<longleftrightarrow> files s' = files s \<and> handles_of s' = handles_of s \<and> w_obj s' = w_obj s \<and>
     load_post lay x whole m r (w_mem s')"

lemma payload_drop:
  assumes "keeps m (w_mem s1)" "refs m ob = 0" "refs (w_mem s1) = (refs m)(ob := 1)"
    and "files s1 = files s" "handles_of s1 = handles_of s" "w_obj s1 = w_obj s"
  shows "wp (bind_io (release_mo E ob) (\<lambda>_. ret None)) (payload_left lay x whole m s) s1"
  unfolding wp_bind
  by (rule wp_release_fresh [where m = m]) (use assms in \<open>auto simp: wp_simps load_post_def payload_left_def\<close>)

lemma payload_stored:
  assumes "keeps m (w_mem s)" "refs m ob = 0" "refs (w_mem s) = (refs m)(ob := 1)"
    and "mo_layout (e_lm E) (w_mem s) ob = lay" "length (mo_bytes (e_lm E) (w_mem s) ob) = length x" and whole
  shows "load_post lay x whole m (Inr (Some ob)) (mo_store (e_lm E) ob x (w_mem s))"
  using assms by (auto simp: load_post_def store_bytes store_layout store_refs keeps_store)

lemma read_payload_rule:
  assumes h: "handles_of s h = Some p" and c: "files s p = Some c"
    and m: "keeps m (w_mem s)" "refs m ob = 0" "refs (w_mem s) = (refs m)(ob := 1)"
    and lay: "mo_layout (e_lm E) (w_mem s) ob = lay"
    and len: "length (mo_bytes (e_lm E) (w_mem s) ob) = length x"
    and rng: "length (take (length x) (drop off c)) = length x \<longrightarrow> take (length x) (drop off c) = x \<and> whole"
  shows "wp (read_payload E h off (length x) (length x) ob) (payload_left lay x whole m s) s"
proof (cases "e_via_bytearray E")
  case True
  let ?view = "mo_bytes (e_lm E) (w_mem s) ob"
  have "wp (bind_io (on_dfs (read_obj_into (e_dfs E) h off (length x) (replicate (length x) 0))) (\<lambda>(got, tmp).
       if got \<noteq> length x then bind_io (release_mo E ob) (\<lambda>_. ret None)
       else if length ?view < length x then raise ValueError
       else bind_io (on_mem (put_s (mo_store (e_lm E) ob (take (length x) tmp @ drop (length x) ?view))))
         (\<lambda>_. ret (Some ob)))) (payload_left lay x whole m s) s"
    unfolding wp_bind [of "on_dfs _"] wp_on_dfs
  proof (rule wp_read_obj_into [OF h c], goal_cases)
    case (2 y d')
    have "wp (bind_io (release_mo E ob) (\<lambda>_. ret None)) (payload_left lay x whole m s) (s\<lparr>w_dfs := d'\<rparr>)"
      by (rule payload_drop) (use m 2 in auto)
    with 2 payload_stored [OF m lay len] len rng show ?case
      by (auto simp: wp_bind [of "on_mem _"] wp_simps payload_left_def)
  qed (use m in \<open>auto simp: load_post_def payload_left_def\<close>)
  with True show ?thesis by (simp add: read_payload_def view_of_def wp_bind [of "get_s _"] wp_get_s)
next
  case False
  let ?view = "mo_bytes (e_lm E) (w_mem s) ob"
  have "wp (bind_io (on_dfs (read_obj_into (e_dfs E) h off (length x) ?view)) (\<lambda>(got, buf).
       bind_io (on_mem (put_s (mo_store (e_lm E) ob buf))) (\<lambda>_.
       if got \<noteq> length x then bind_io (release_mo E ob) (\<lambda>_. ret None) else ret (Some ob))))
     (payload_left lay x whole m s) s"
    unfolding wp_bind [of "on_dfs _"] wp_on_dfs
  proof (rule wp_read_obj_into [OF h c], goal_cases)
    case (2 y d')
    have "wp (bind_io (release_mo E ob) (\<lambda>_. ret None)) (payload_left lay x whole m s)
        (s\<lparr>w_dfs := d', w_mem := mo_store (e_lm E) ob (y @ drop (length y) ?view) (w_mem s)\<rparr>)"
      by (rule payload_drop) (use m 2 len in \<open>auto simp: keeps_store store_refs\<close>)
    with 2 payload_stored [OF m lay len] len rng show ?case
      by (cases "length y = length x") (auto simp: wp_bind [of "on_mem _"] wp_simps payload_left_def)
  qed (use len m in \<open>auto simp: load_post_def payload_left_def\<close>)
  with False len show ?thesis by (simp add: read_payload_def view_of_def wp_bind [of "get_s _"] wp_get_s)
qed

text \<open>The same through the header and the metadata.\<close>

definition got_post :: "'lay \<Rightarrow> bytes \<Rightarrow> bool \<Rightarrow> ('d, 'o, 'm) world \<Rightarrow> exn + nat option \<Rightarrow> ('d, 'o, 'm) world \<Rightarrow> bool" where
  "got_post lay x whole s r s' \<longleftrightarrow> files s' = files s \<and> handles_of s' = handles_of s \<and> w_obj s' = w_obj s \<and>
     load_post lay x whole (w_mem s) r (w_mem s')"

lemma got_miss [simp]: "got_post lay x whole s (Inr None) (s\<lparr>w_dfs := d'\<rparr>) \<longleftrightarrow> fs d' = files s \<and> hs d' = handles_of s"
  by (auto simp: got_post_def load_post_def)

lemma got_fail [simp]: "got_post lay x whole s (Inl (DaosError rc)) (s\<lparr>w_dfs := d'\<rparr>) \<longleftrightarrow> fs d' = files s \<and> hs d' = handles_of s"
  by (auto simp: got_post_def load_post_def)

lemma alloc_and_read_rule:
  assumes h: "handles_of s1 h = Some p" and c: "files s1 p = Some c"
    and s1: "files s1 = files s" "handles_of s1 = handles_of s" "w_obj s1 = w_obj s" "w_mem s1 = w_mem s"
    and n: "nbytes lay = length x"
    and rng: "length (take (length x) (drop off c)) = length x \<longrightarrow> take (length x) (drop off c) = x \<and> whole"
  shows "wp (bind_io (on_mem (lm_allocate (e_lm E) lay)) (\<lambda>mo. case mo of None \<Rightarrow> ret None
      | Some ob \<Rightarrow> read_payload E h off (length x) (length x) ob)) (got_post lay x whole s) s1"
  unfolding wp_bind wp_on_mem
proof (rule wp_allocate, goal_cases)
  case (1 ob m')
  let ?t = "s1\<lparr>w_mem := m'\<rparr>"
  have "wp (read_payload E h off (length x) (length x) ob) (payload_left lay x whole (w_mem s) ?t) ?t"
    by (rule read_payload_rule [where p = p and c = c]) (use 1 h c s1 n rng in auto)
  then show ?case using s1 by (auto simp: got_post_def payload_left_def elim!: wp_mono)
next
  case (2 r m')
  then show ?case using s1
    by (auto simp: got_post_def load_post_def wp_simps split: sum.splits option.splits)
qed

lemma open_tail_rule:
  assumes h: "hs d' h = Some p" and c: "fs d' p = Some c" and d': "fs d' = files s" "hs d' = handles_of s"
    and mt: "rm_serialize (e_lm E) (length x) lay = Inr mt" and n: "nbytes lay = length x"
    and mb: "length mb = length mt \<longrightarrow> mb = mt \<and>
      (length (take (length x) (drop (8 + length mt) c)) = length x \<longrightarrow> take (length x) (drop (8 + length mt) c) = x \<and> whole)"
  shows "wp (open_tail E h (length mt) (length x) mb) (got_post lay x whole s) (s\<lparr>w_dfs := d'\<rparr>)"
proof (cases "length mb = length mt")
  case True
  have "wp (bind_io (on_mem (lm_allocate (e_lm E) lay)) (\<lambda>mo. case mo of None \<Rightarrow> ret None
      | Some ob \<Rightarrow> read_payload E h (8 + length mt) (length x) (length x) ob)) (got_post lay x whole s) (s\<lparr>w_dfs := d'\<rparr>)"
    by (rule alloc_and_read_rule [where p = p and c = c]) (use True h c d' n mb in auto)
  then show ?thesis using True mb by (simp add: open_tail_def deser_ser [OF mt] cong: option.case_cong)
qed (use d' in \<open>simp add: open_tail_def wp_simps\<close>)

lemma get_open_rule:
  assumes h: "handles_of s h = Some p" and c: "files s p = Some c"
    and b: "v1_object (e_lm E) lay x = Inr b" and cut: "cut_or_whole b c" and n: "nbytes lay = length x"
  shows "wp (get_open E h) (got_post lay x (length b \<le> length c) s) s"
proof -
  obtain mt where mt: "rm_serialize (e_lm E) (length x) lay = Inr mt" "length b = 8 + length mt + length x"
    and parse: "8 \<le> length c \<longrightarrow> parse_prefix (take 8 c) = Inr (length mt, length x)"
    and meta: "length (take (length mt) (drop 8 c)) = length mt \<longrightarrow> take (length mt) (drop 8 c) = mt"
    and pay: "8 + length mt + length x \<le> length c \<longrightarrow> take (length x) (drop (8 + length mt) c) = x"
    by (rule v1_ranges [OF b cut])
  have tail: "wp (open_tail E h (length mt) (length x) (take (length mt) (drop 8 c))) (got_post lay x (length b \<le> length c) s) (s\<lparr>w_dfs := d'\<rparr>)"
    if "8 \<le> length c" "fs d' = files s" "hs d' = handles_of s" for d'
  proof (rule open_tail_rule [where p = p and c = c])
    have "8 + length mt + length x \<le> length c" if "length (take (length mt) (drop 8 c)) = length mt"
        "length (take (length x) (drop (8 + length mt) c)) = length x"
      using that \<open>8 \<le> length c\<close> by (cases "x = []"; cases "mt = []") auto
    then show "length (take (length mt) (drop 8 c)) = length mt \<longrightarrow> take (length mt) (drop 8 c) = mt \<and>
        (length (take (length x) (drop (8 + length mt) c)) = length x \<longrightarrow> take (length x) (drop (8 + length mt) c) = x \<and> length b \<le> length c)"
      using meta pay mt(2) by auto
  qed (use that h c n mt(1) in auto)
  show ?thesis
    unfolding get_open_stages wp_bind wp_on_dfs
  proof (rule wp_read_obj [OF h c], goal_cases)
    case (1 d')
    show ?case
    proof (cases "8 \<le> length c")
      case True
      have far: "wp (read_obj (e_dfs E) h 8 (length mt)) (\<lambda>r d''. case r of Inl e \<Rightarrow> got_post lay x (length b \<le> length c) s (Inl e) (s\<lparr>w_dfs := d''\<rparr>)
          | Inr mb \<Rightarrow> wp (open_tail E h (length mt) (length x) mb) (got_post lay x (length b \<le> length c) s) (s\<lparr>w_dfs := d''\<rparr>)) d'"
        by (rule wp_read_obj [where p = p and b = c]) (use 1 h c True tail in auto)
      show ?thesis using 1 True parse tail [OF True, of d'] far meta_in_header [of "length mt" c]
        by (auto simp: wp_simps elim!: wp_mono split: sum.splits)
    qed (use 1 in \<open>simp add: wp_simps\<close>)
  qed simp
qed

lemma get_sync_rule:
  assumes b: "v1_object (e_lm E) lay x = Inr b" and n: "nbytes lay = length x"
    and c: "files s p = None \<or> (\<exists>c. files s p = Some c \<and> cut_or_whole b c)"
  shows "wp (get_sync E (Path p)) (got_post lay x (\<exists>c. files s p = Some c \<and> length b \<le> length c) s) s"
proof -
  let ?post = "got_post lay x (\<exists>c. files s p = Some c \<and> length b \<le> length c) s"
  have opened: "wp (finally_io (get_open E h) (on_dfs (close_obj (e_dfs E) h))) ?post s1"
    if "files s p = Some c" "handles_of s h = None" "files s1 = files s" "handles_of s1 = (handles_of s)(h \<mapsto> p)"
      "w_mem s1 = w_mem s" "w_obj s1 = w_obj s" for h c s1
  proof -
    have "wp (get_open E h) (got_post lay x (length b \<le> length c) s1) s1"
      by (rule get_open_rule [where p = p]) (use that assms in auto)
    then show ?thesis
      unfolding wp_finally
      by (rule wp_mono)
        (use that in \<open>auto simp: wp_on_dfs got_post_def fun_upd_idem split: sum.splits intro!: wp_close_obj\<close>)
  qed
  have "wp (bind_io (catch_io is_DaosError
           (bind_io (on_dfs (open_rdonly (e_dfs E) p)) (\<lambda>obj. ret (Some obj)))
           (\<lambda>e. if exn_rc e = Some ENOENT then ret None else raise e)) (\<lambda>o'.
       case o' of None \<Rightarrow> ret None
       | Some obj \<Rightarrow> finally_io (get_open E obj) (on_dfs (close_obj (e_dfs E) obj)))) ?post s"
    unfolding wp_bind wp_catch wp_on_dfs
  proof (rule wp_open_rdonly, goal_cases)
    case (1 h b d')
    with opened [of b h "s\<lparr>w_dfs := d'\<rparr>"] show ?case by (simp add: wp_simps)
  qed (auto simp: wp_simps)
  then show ?thesis using posix by (simp add: get_sync_def)
qed

end

section \<open>With the servers up\<close>

lemma overlay_start: "overlay b 0 h = h @ drop (length h) b"
  by (auto simp: overlay_def)

lemma overlay_after: "overlay (h @ r) (length h) x = h @ x @ drop (length x) r"
  by (auto simp: overlay_def)

locale live_conn = dfs_conn E fs hs refs nbytes + dfs_live "e_dfs E" fs hs up
  for E :: "('d, 'o, 'lay, 'm) env" and fs hs refs nbytes up
begin

text \<open>A store over any old contents leaves the new object, and the old bytes only past its end.\<close>

lemma put_writes_up:
  assumes "up (w_dfs s)" and h: "handles_of s h = Some p" and f: "files s p = Some old"
  shows "wp (bind_io (on_dfs (write_obj_from (e_dfs E) h 0 (length header) header)) (\<lambda>_.
          bind_io (src_bytes E (Copied x)) (\<lambda>y.
          bind_io (on_dfs (write_obj_from (e_dfs E) h (length header) (length x) y)) (\<lambda>_. ret ()))))
    (\<lambda>r s'. r = Inr () \<and> up (w_dfs s') \<and> w_mem s' = w_mem s \<and>
       files s' = (files s)(p \<mapsto> header @ x @ drop (length header + length x) old)) s"
    (is "wp _ ?Q s")
  unfolding wp_bind wp_on_dfs
proof (rule wp_write_up [OF assms], goal_cases)
  case (2 d2)
  then have f2: "fs d2 p = Some (header @ drop (length header) old)" and h2: "hs d2 h = Some p"
    using h by (auto simp: overlay_start)
  have "wp (write_obj_from (e_dfs E) h (length header) (length x) x)
     (\<lambda>r d'. case r of Inl e \<Rightarrow> ?Q (Inl e) (s\<lparr>w_dfs := d'\<rparr>) | Inr a \<Rightarrow> ?Q (Inr ()) (s\<lparr>w_dfs := d'\<rparr>)) d2"
    by (rule wp_write_up [OF 2(1) h2 f2]) (use 2 in \<open>auto simp: overlay_after add.commute fun_eq_iff\<close>)
  then show ?case
    by (auto simp: src_bytes_def wp_bind wp_ret wp_on_dfs elim!: wp_mono split: sum.splits)
qed simp

lemma put_sync_up:
  assumes up: "up (w_dfs s)"
  shows "wp (put_sync E (Path p) header (Copied x) (length x)) (\<lambda>r s'. r = Inr () \<and> up (w_dfs s') \<and>
    w_mem s' = w_mem s \<and>
    files s' = (files s)(p \<mapsto> header @ x @ drop (length header + length x) (old_bytes (files s p)))) s"
    (is "wp _ ?Q s")
proof -
  have closing: "wp (on_dfs (close_obj (e_dfs E) h)) (\<lambda>u s2. case u of Inl e \<Rightarrow> ?Q (Inl e) s2 | Inr _ \<Rightarrow> ?Q (Inr ()) s2) s1"
    if "?Q (Inr ()) s1" for s1 h
    unfolding wp_on_dfs by (rule wp_close_up) (use that in auto)
  have "wp (bind_io (on_dfs (open_rdwr_create (e_dfs E) p 0)) (\<lambda>obj.
       finally_io
         (bind_io (on_dfs (write_obj_from (e_dfs E) obj 0 (length header) header)) (\<lambda>_.
          bind_io (src_bytes E (Copied x)) (\<lambda>y.
          bind_io (on_dfs (write_obj_from (e_dfs E) obj (length header) (length x) y)) (\<lambda>_. ret ()))))
         (on_dfs (close_obj (e_dfs E) obj)))) ?Q s"
    unfolding wp_bind [of "on_dfs (open_rdwr_create _ _ _)"] wp_on_dfs [of "open_rdwr_create _ _ _"]
  proof (rule wp_open_create_up [OF up], goal_cases)
    case (1 h d1)
    then have "fs d1 p = Some (old_bytes (files s p))" by (simp add: old_bytes_def)
    with 1 put_writes_up [of "s\<lparr>w_dfs := d1\<rparr>" h p "old_bytes (files s p)" header x] show ?case
      by (auto simp: wp_finally elim!: wp_mono intro!: closing)
  qed
  then show ?thesis using posix by (simp add: put_sync_def)
qed

lemma read_payload_up:
  assumes "up (w_dfs s)" and h: "handles_of s h = Some p" and c: "files s p = Some c"
    and len: "length (mo_bytes (e_lm E) (w_mem s) ob) = length x" and rng: "off + length x \<le> length c"
  shows "wp (read_payload E h off (length x) (length x) ob) (\<lambda>r s'. r = Inr (Some ob) \<and> up (w_dfs s')) s"
proof -
  have y: "length (take (length x) (drop off c)) = length x" using rng by simp
  show ?thesis
    unfolding read_payload_def view_of_def
    by (auto simp: wp_simps len intro!: wp_read_into_up [OF assms(1) h c]) (use y in simp_all)
qed

lemma open_tail_up:
  assumes d': "up d'" "fs d' = files s" "hs d' = handles_of s" and h: "handles_of s h = Some p" and c: "files s p = Some c"
    and mt: "rm_serialize (e_lm E) (length x) lay = Inr mt" and n: "nbytes lay = length x" and len: "8 + length mt + length x \<le> length c"
    and room: "\<exists>ob. fst (lm_allocate (e_lm E) lay (w_mem s)) = Inr (Some ob)"
  shows "wp (open_tail E h (length mt) (length x) mt) (\<lambda>r s'. (\<exists>ob. r = Inr (Some ob)) \<and> up (w_dfs s')) (s\<lparr>w_dfs := d'\<rparr>)"
proof -
  from room obtain ob m' where a: "lm_allocate (e_lm E) lay (w_mem s) = (Inr (Some ob), m')"
    by (cases "lm_allocate (e_lm E) lay (w_mem s)") auto
  have "wp (read_payload E h (8 + length mt) (length x) (length x) ob) (\<lambda>r s'. r = Inr (Some ob) \<and> up (w_dfs s'))
      (s\<lparr>w_dfs := d', w_mem := m'\<rparr>)"
    by (rule read_payload_up [where p = p and c = c]) (use d' h c n alloc_some [OF a] len in auto)
  then have "wp (bind_io (on_mem (lm_allocate (e_lm E) lay)) (\<lambda>mo. case mo of None \<Rightarrow> ret None
      | Some ob \<Rightarrow> read_payload E h (8 + length mt) (length x) (length x) ob)) (\<lambda>r s'. (\<exists>ob. r = Inr (Some ob)) \<and> up (w_dfs s')) (s\<lparr>w_dfs := d'\<rparr>)"
    unfolding wp_bind wp_on_mem by (auto simp: wp_def [of "lm_allocate _ _"] a elim!: wp_mono)
  then show ?thesis by (simp add: open_tail_def deser_ser [OF mt] cong: option.case_cong)
qed

lemma get_open_up:
  assumes up: "up (w_dfs s)" and h: "handles_of s h = Some p" and c: "files s p = Some c" and cw: "take (length b) c = b"
    and b: "v1_object (e_lm E) lay x = Inr b" and n: "nbytes lay = length x"
    and room: "\<exists>ob. fst (lm_allocate (e_lm E) lay (w_mem s)) = Inr (Some ob)"
  shows "wp (get_open E h) (\<lambda>r s'. (\<exists>ob. r = Inr (Some ob)) \<and> up (w_dfs s')) s"
proof -
  have "cut_or_whole b c" using cw by (simp add: cut_or_whole_def)
  with b obtain mt where mt: "rm_serialize (e_lm E) (length x) lay = Inr mt" "length b = 8 + length mt + length x"
    and p8: "8 \<le> length c \<longrightarrow> parse_prefix (take 8 c) = Inr (length mt, length x)"
    and m8: "length (take (length mt) (drop 8 c)) = length mt \<longrightarrow> take (length mt) (drop 8 c) = mt"
    by (rule v1_ranges)
  have "length b \<le> length c" using cw by (metis length_take min.cobounded2 min.commute)
  then have len: "8 + length mt + length x \<le> length c" "8 \<le> length c" using mt(2) by simp_all
  have parse: "parse_prefix (take 8 c) = Inr (length mt, length x)" and meta: "take (length mt) (drop 8 c) = mt" using p8 m8 len by simp_all
  note tail = open_tail_up [OF _ _ _ h c mt(1) n len(1) room]
  show ?thesis
    unfolding get_open_stages wp_bind wp_on_dfs
  proof (rule wp_read_up [OF up h c], goal_cases)
    case (1 d')
    have h': "hs d' h = Some p" "fs d' p = Some c" using 1 h c by simp_all
    have far: "wp (read_obj (e_dfs E) h 8 (length mt)) (\<lambda>r d''. r = Inr mt \<and> up d'' \<and> fs d'' = files s \<and> hs d'' = handles_of s) d'"
      by (rule wp_read_up [OF 1(1) h']) (use 1 meta in auto)
    show ?case using far tail [OF 1] tail len parse meta meta_in_header [of "length mt" c]
      by (auto simp: wp_simps elim!: wp_mono)
  qed
qed

lemma get_sync_up:
  assumes up: "up (w_dfs s)" and c: "files s p = Some c" and cw: "take (length b) c = b"
    and b: "v1_object (e_lm E) lay x = Inr b" and n: "nbytes lay = length x"
    and room: "\<exists>ob. fst (lm_allocate (e_lm E) lay (w_mem s)) = Inr (Some ob)"
  shows "wp (get_sync E (Path p)) (\<lambda>r s'. \<exists>ob. r = Inr (Some ob)) s"
proof -
  have opened: "wp (finally_io (get_open E h) (on_dfs (close_obj (e_dfs E) h))) (\<lambda>r s'. \<exists>ob. r = Inr (Some ob)) s1"
    if "up (w_dfs s1)" "files s1 = files s" "handles_of s1 = (handles_of s)(h \<mapsto> p)" "w_mem s1 = w_mem s" for h s1
    unfolding wp_finally
    by (rule wp_mono [OF get_open_up [where p = p and b = b and c = c, OF that(1) _ _ cw b n]])
      (use that c room in \<open>auto simp: wp_on_dfs intro!: wp_close_up\<close>)
  have "wp (bind_io (catch_io is_DaosError
           (bind_io (on_dfs (open_rdonly (e_dfs E) p)) (\<lambda>obj. ret (Some obj)))
           (\<lambda>e. if exn_rc e = Some ENOENT then ret None else raise e)) (\<lambda>o'.
       case o' of None \<Rightarrow> ret None
       | Some obj \<Rightarrow> finally_io (get_open E obj) (on_dfs (close_obj (e_dfs E) obj)))) (\<lambda>r s'. \<exists>ob. r = Inr (Some ob)) s"
    unfolding wp_bind wp_catch wp_on_dfs
    by (rule wp_open_rdonly_up [OF up c]) (auto simp: wp_ret intro!: opened)
  then show ?thesis using posix by (simp add: get_sync_def)
qed

end

end
