(* ===== verification/Conn_Raw.thy ===== *)
theory Conn_Raw
  imports Conn_Mem
begin

text \<open>
  The object-API path of the connector: \<^verbatim>\<open>_put_raw\<close> and \<^verbatim>\<open>_get_raw\<close>, the commit protocol between the
  payload akey and the metadata akey, and the removal of one layer.
\<close>

text \<open>The header record that commits payload \<open>x\<close> of layout \<open>lay\<close>.\<close>

definition v3_record :: "('lay, 'm) lmcache \<Rightarrow> 'lay \<Rightarrow> bytes \<Rightarrow> exn + bytes" where
  "v3_record M lay x =
     bind_sum (rm_serialize M (length x) lay) (\<lambda>mt. pack_meta mt (int (length x)) STATE_COMMITTED)"

text \<open>
  The stages of the read: the payload fetch and what is done with its count, the allocation that
  precedes them, and all that follows the header fetch.
\<close>

definition cell_fetch :: "('d, 'o, 'lay, 'm) env \<Rightarrow> bytes \<Rightarrow> bytes \<Rightarrow> nat \<Rightarrow> nat \<Rightarrow> bytes \<Rightarrow> (('d, 'o, 'm) world, nat \<times> bytes) io" where
  "cell_fetch E dk pak n ob view = catch_io is_Exception
     (bind_io (on_daos (obj_fetch (e_obj E) (e_oh E) dk [(pak, view, n)] False)) (\<lambda>res. of_sum (the_one res)))
     (\<lambda>e. bind_io (release_mo E ob) (\<lambda>_. raise e))"

definition cell_settle :: "('d, 'o, 'lay, 'm) env \<Rightarrow> nat \<Rightarrow> nat \<Rightarrow> nat \<times> bytes \<Rightarrow> (('d, 'o, 'm) world, nat option) io" where
  "cell_settle E n ob = (\<lambda>(readn, buf). bind_io (on_mem (put_s (mo_store (e_lm E) ob buf))) (\<lambda>_.
     if readn \<noteq> n then bind_io (release_mo E ob) (\<lambda>_. ret None) else ret (Some ob)))"

definition raw_alloc :: "('d, 'o, 'lay, 'm) env \<Rightarrow> bytes \<Rightarrow> bytes \<Rightarrow> nat \<Rightarrow> 'lay \<Rightarrow> (('d, 'o, 'm) world, nat option) io" where
  "raw_alloc E dk pak n lay = bind_io (on_mem (lm_allocate (e_lm E) lay)) (\<lambda>mo. case mo of
     None \<Rightarrow> ret None | Some ob \<Rightarrow> read_cell E dk pak n ob)"

definition raw_tail :: "('d, 'o, 'lay, 'm) env \<Rightarrow> bytes \<Rightarrow> bytes \<Rightarrow> nat \<times> bytes \<Rightarrow> (('d, 'o, 'm) world, nat option) io" where
  "raw_tail E dk pak = (\<lambda>(got, buf). if got = 0 then ret None
     else case parse_meta (take got buf) True of
       Inl e \<Rightarrow> (if e = BadHeader then ret None else raise e)
     | Inr hdr \<Rightarrow>
         (case rm_deserialize (e_lm E) (meta hdr) of
            Inl e \<Rightarrow> (if is_Exception e then ret None else raise e)
          | Inr (n, lay) \<Rightarrow> if payload_len hdr < n then ret None else raw_alloc E dk pak n lay))"

lemma read_cell_stages:
  "read_cell E dk pak n ob = bind_io (view_of E ob) (\<lambda>view.
     if length view < n then raise ValueError
     else bind_io (cell_fetch E dk pak n ob view) (cell_settle E n ob))"
  unfolding read_cell_def cell_fetch_def cell_settle_def ..

lemma get_raw_stages:
  "get_raw E dk layer = bind_io (of_sum (akeys_for layer)) (\<lambda>(pak, mak).
     bind_io (on_daos (obj_fetch (e_obj E) (e_oh E) dk [(mak, replicate META_CAP 0, META_CAP)] True)) (\<lambda>res.
     bind_io (of_sum (the_one res)) (raw_tail E dk pak)))"
  unfolding get_raw_def raw_tail_def raw_alloc_def ..

text \<open>
  A cell of the store: \<open>payload\<close> is the array under the payload akey, \<open>header\<close> the value under the
  metadata akey. The header is the commit record: it may only be there once the payload is complete.
\<close>

definition cell_ok :: "bytes \<Rightarrow> bytes \<Rightarrow> bytes option \<Rightarrow> bytes option \<Rightarrow> bool" where
  "cell_ok hdr x payload header \<longleftrightarrow> (case header of None \<Rightarrow> True
      | Some h \<Rightarrow> h = hdr \<and> (\<exists>c. payload = Some c \<and> take (length x) c = x))"

lemma cell_ok_None [simp]: "cell_ok hdr x payload None"
  by (simp add: cell_ok_def)

lemma overlay_full: "take (length x) (overlay c 0 x) = x"
  by (simp add: overlay_def)

text \<open>
  A failed update that carries the same payload does no harm to a complete one: every byte is
  either the old one or the new one, and they agree.
\<close>

lemma partial_write_whole:
  assumes "partial_write old x c" and "take (length x) old = x"
  shows "take (length x) c = x"
proof (rule nth_equalityI)
  have "length x \<le> length old" using assms(2) by (metis length_take min.cobounded2 min.commute)
  then have len: "length x \<le> length c" "length x \<le> length old" using assms(1) by (auto simp: partial_write_def)
  then show "length (take (length x) c) = length x" by simp
  fix i
  assume "i < length (take (length x) c)"
  then have i: "i < length x" "i < length c" by simp_all
  have "old ! i = x ! i" using arg_cong [OF assms(2), of "\<lambda>l. l ! i"] i by simp
  moreover have "c ! i = old ! i \<or> c ! i = x ! i"
    using assms(1) i len unfolding partial_write_def by fastforce
  ultimately show "take (length x) c ! i = x ! i" using i by auto
qed

lemma cell_ok_partial:
  "cell_ok hdr x payload header \<Longrightarrow> partial_write (old_bytes payload) x c \<Longrightarrow> cell_ok hdr x (Some c) header"
  by (auto simp: cell_ok_def old_bytes_def dest: partial_write_whole split: option.splits)

lemma cell_ok_complete:
  "cell_ok hdr x payload header \<Longrightarrow> take (length x) c = x \<Longrightarrow> cell_ok hdr x (Some c) header"
  by (auto simp: cell_ok_def split: option.splits)

locale raw_conn = obj_lib "e_obj E" "e_oh E" sv av + lm_conn E refs nbytes
  for E :: "('d, 'o, 'lay, 'm) env" and sv av refs nbytes +
  assumes raw: "e_raw E"
begin

abbreviation singles :: "('d, 'o, 'm) world \<Rightarrow> bytes \<Rightarrow> bytes \<Rightarrow> bytes option" where
  "singles s \<equiv> sv (w_obj s)"

abbreviation arrays :: "('d, 'o, 'm) world \<Rightarrow> bytes \<Rightarrow> bytes \<Rightarrow> bytes option" where
  "arrays s \<equiv> av (w_obj s)"

text \<open>What a store does to its cell and to all others, whatever fails.\<close>

definition cell_post ::
  "bytes \<Rightarrow> bytes \<Rightarrow> bytes \<Rightarrow> bytes \<Rightarrow> bytes \<Rightarrow> ('d, 'o, 'm) world \<Rightarrow> exn + unit \<Rightarrow> ('d, 'o, 'm) world \<Rightarrow> bool" where
  "cell_post dk pak mak hdr x s r s' \<longleftrightarrow>
     w_dfs s' = w_dfs s \<and> w_mem s' = w_mem s \<and>
     (\<forall>dk' ak. dk' \<noteq> dk \<or> ak \<noteq> pak \<longrightarrow> arrays s' dk' ak = arrays s dk' ak) \<and>
     (\<forall>dk' ak. dk' \<noteq> dk \<or> ak \<noteq> mak \<longrightarrow> singles s' dk' ak = singles s dk' ak) \<and>
     cell_ok hdr x (arrays s' dk pak) (singles s' dk mak) \<and>
     (r = Inr () \<longrightarrow> singles s' dk mak = Some hdr) \<and> r \<noteq> Inl MemoryFault"

lemma put_cell_rule:
  assumes ok: "cell_ok hdr x (arrays s dk pak) (singles s dk mak)"
  shows "wp (bind_io (on_daos (obj_update (e_obj E) (e_oh E) dk [(pak, x, length x)] False)) (\<lambda>_.
     on_daos (obj_update (e_obj E) (e_oh E) dk [(mak, hdr, length hdr)] True))) (cell_post dk pak mak hdr x s) s"
  unfolding wp_bind wp_on_daos
proof (rule wp_update_array, goal_cases)
  case (3 r d)
  have pay: "if r = Inr () then av d dk pak = Some (overlay (old_bytes (arrays s dk pak)) 0 x)
      else av d dk pak = arrays s dk pak \<or> (\<exists>c. av d dk pak = Some c \<and> partial_write (old_bytes (arrays s dk pak)) x c)"
    using 3(3) [of pak x "length x"] by (auto split: if_splits)
  have cell: "cell_ok hdr x (av d dk pak) (singles s dk mak)"
    using pay ok cell_ok_partial [OF ok] cell_ok_complete [OF ok overlay_full] by (auto split: if_splits)
  show ?case
  proof (cases "r = Inr ()")
    case False
    with 3 cell show ?thesis by (auto simp: cell_post_def)
  next
    case True
    with pay overlay_full have c: "av d dk pak = Some (overlay (old_bytes (arrays s dk pak)) 0 x)"
      "take (length x) (overlay (old_bytes (arrays s dk pak)) 0 x) = x" by auto
    have "wp (obj_update (e_obj E) (e_oh E) dk [(mak, hdr, length hdr)] True)
        (\<lambda>r d'. cell_post dk pak mak hdr x s r (s\<lparr>w_obj := d'\<rparr>)) d"
    proof (rule wp_update_single, goal_cases)
      case meta: (3 r d')
      have "singles (s\<lparr>w_obj := d'\<rparr>) dk mak = Some hdr \<or>
          r \<noteq> Inr () \<and> singles (s\<lparr>w_obj := d'\<rparr>) dk mak = singles s dk mak"
        using meta(3) [of mak hdr "length hdr"] 3(1) by auto
      moreover have "cell_ok hdr x (av d' dk pak) (Some hdr)"
        using c meta(1) by (simp add: cell_ok_def)
      ultimately show ?case using meta 3 cell by (auto simp: cell_post_def)
    qed (auto simp: buffers_fit_def)
    with True show ?thesis by simp
  qed
qed (auto simp: buffers_fit_def)

lemma put_raw_rule:
  assumes ak: "akeys_for layer = Inr (pak, mak)" and b: "v1_object (e_lm E) lay x = Inr (header @ x)"
    and rec: "v3_record (e_lm E) lay x = Inr hdr" and ok: "cell_ok hdr x (arrays s dk pak) (singles s dk mak)"
  shows "wp (put_raw E dk layer header (Copied x) (length x)) (cell_post dk pak mak hdr x s) s"
proof -
  from b obtain mt pre where mt: "rm_serialize (e_lm E) (length x) lay = Inr mt"
    and pre: "prefix_pack (length mt) (length x) = Inr pre" and h: "header = pre @ mt"
    by (auto elim: v1_objectE)
  from rec mt have "repack_header header = Inr hdr" by (simp add: h repack_prefix [OF pre] v3_record_def)
  with put_cell_rule [OF ok] ak show ?thesis
    by (simp add: put_raw_def src_bytes_def wp_bind [of "of_sum _"] wp_of_sum)
qed

section \<open>Loading\<close>

text \<open>Nothing but memory changes; without a hit no buffer is kept, also when the load raises.\<close>

definition cell_got ::
  "'lay \<Rightarrow> bytes \<Rightarrow> bool \<Rightarrow> ('d, 'o, 'm) world \<Rightarrow> exn + nat option \<Rightarrow> ('d, 'o, 'm) world \<Rightarrow> bool" where
  "cell_got lay x whole s r s' \<longleftrightarrow> w_dfs s' = w_dfs s \<and> singles s' = singles s \<and> arrays s' = arrays s \<and>
     load_post lay x whole (w_mem s) r (w_mem s') \<and> (isl r \<longrightarrow> refs (w_mem s') = refs (w_mem s))"

lemma cell_got_miss [simp]:
  "cell_got lay x whole s (Inr None) (s\<lparr>w_obj := d'\<rparr>) \<longleftrightarrow> sv d' = singles s \<and> av d' = arrays s"
  by (auto simp: cell_got_def load_post_def)

lemma cell_got_fail [simp]:
  "cell_got lay x whole s (Inl (DaosError c)) (s\<lparr>w_obj := d'\<rparr>) \<longleftrightarrow> sv d' = singles s \<and> av d' = arrays s"
  by (auto simp: cell_got_def load_post_def)

lemma the_one_simps [simp]: "the_one [a] = Inr a"
  by (simp add: the_one_def)

text \<open>
  The same for a read into the buffer \<open>ob\<close>, which was allocated in the memory \<open>m\<close>.
\<close>

definition cell_left ::
  "'lay \<Rightarrow> bytes \<Rightarrow> bool \<Rightarrow> 'm \<Rightarrow> ('d, 'o, 'm) world \<Rightarrow> exn + nat option \<Rightarrow> ('d, 'o, 'm) world \<Rightarrow> bool" where
  "cell_left lay x whole m s r s' \<longleftrightarrow> w_dfs s' = w_dfs s \<and> singles s' = singles s \<and> arrays s' = arrays s \<and>
     load_post lay x whole m r (w_mem s') \<and> (isl r \<longrightarrow> refs (w_mem s') = refs m)"

lemma cell_fetch_rule:
  assumes m: "keeps m (w_mem s)" "refs m ob = 0" "refs (w_mem s) = (refs m)(ob := 1)"
    and len: "length view = n"
  shows "wp (cell_fetch E dk pak n ob view)
     (\<lambda>r s1. case r of Inl e \<Rightarrow> cell_left lay x whole m s (Inl e) s1
        | Inr (k, buf) \<Rightarrow> w_mem s1 = w_mem s \<and> w_dfs s1 = w_dfs s \<and> singles s1 = singles s \<and> arrays s1 = arrays s \<and>
            fetched view (map_option (take n) (arrays s dk pak)) (k, buf)) s"
  unfolding cell_fetch_def wp_catch wp_bind wp_on_daos
proof (rule wp_fetch_array, goal_cases)
  case 1
  then show ?case using len by (simp add: buffers_fit_def)
next
  case (2 res d')
  then obtain k buf where "res = [(k, buf)]" "fetched view (map_option (take n) (arrays s dk pak)) (k, buf)"
    by (auto simp: list_all2_Cons1)
  with 2 show ?case by (simp add: wp_simps)
next
  case (3 c d')
  then show ?case using m
    by (auto simp: is_Exception_def wp_raise load_post_def cell_left_def intro!: wp_release_fresh [where m = m])
qed

text \<open>A full count means the first \<open>n\<close> bytes of the array, so the array has as many.\<close>

lemma fetched_all:
  assumes f: "fetched view (map_option (take n) c) (n, buf)" and len: "length view = n"
  shows "buf = take n (old_bytes c)" and "n \<le> length (old_bytes c)"
proof -
  have "length buf = length view" by (rule length_fetched [OF f]) (use len in auto)
  with len have lbuf: "length buf = n" by simp
  moreover have "take n (old_bytes c) = old_bytes (map_option (take n) c)"
    by (cases c) (auto simp: old_bytes_def)
  ultimately show buf: "buf = take n (old_bytes c)" using fetched_count [OF f] by simp
  with lbuf show "n \<le> length (old_bytes c)" by simp
qed

lemma cell_settle_rule:
  assumes m: "keeps m (w_mem s)" "refs m ob = 0" "refs (w_mem s) = (refs m)(ob := 1)"
    and lay: "mo_layout (e_lm E) (w_mem s) ob = lay"
    and lbuf: "length buf = length (mo_bytes (e_lm E) (w_mem s) ob)"
    and pay: "k = n \<Longrightarrow> buf = x \<and> whole"
  shows "wp (cell_settle E n ob (k, buf)) (cell_left lay x whole m s) s"
proof (cases "k = n")
  case True
  with pay m lay lbuf show ?thesis
    by (auto simp: cell_settle_def cell_left_def wp_simps load_post_def store_bytes store_layout store_refs keeps_store)
next
  case False
  have "wp (bind_io (release_mo E ob) (\<lambda>_. ret None)) (cell_left lay x whole m s)
      (s\<lparr>w_mem := mo_store (e_lm E) ob buf (w_mem s)\<rparr>)"
    unfolding wp_bind by (rule wp_release_fresh [where m = m]) (use m lbuf in \<open>auto simp: wp_ret load_post_def cell_left_def store_refs keeps_store\<close>)
  with False show ?thesis by (simp add: cell_settle_def wp_bind [of "on_mem _"] wp_on_mem wp_put_s)
qed

lemma read_cell_rule:
  assumes m: "keeps m (w_mem s)" "refs m ob = 0" "refs (w_mem s) = (refs m)(ob := 1)"
    and lay: "mo_layout (e_lm E) (w_mem s) ob = lay"
    and len: "length (mo_bytes (e_lm E) (w_mem s) ob) = length x"
    and pay: "length x \<le> length (old_bytes (arrays s dk pak)) \<longrightarrow>
        take (length x) (old_bytes (arrays s dk pak)) = x \<and> (arrays s dk pak \<noteq> None \<or> x = [] \<longrightarrow> whole)"
  shows "wp (read_cell E dk pak (length x) ob) (cell_left lay x whole m s) s"
proof -
  let ?view = "mo_bytes (e_lm E) (w_mem s) ob"
  have settle: "wp (cell_settle E (length x) ob (k, buf)) (cell_left lay x whole m s) s1"
    if s1: "w_mem s1 = w_mem s" "w_dfs s1 = w_dfs s" "singles s1 = singles s" "arrays s1 = arrays s"
      and f: "fetched ?view (map_option (take (length x)) (arrays s dk pak)) (k, buf)" for s1 k buf
  proof -
    have "wp (cell_settle E (length x) ob (k, buf)) (cell_left lay x whole m s1) s1"
    proof (rule cell_settle_rule)
      show "length buf = length (mo_bytes (e_lm E) (w_mem s1) ob)"
        unfolding s1 by (rule length_fetched [OF f]) (use len in auto)
      show "buf = x \<and> whole" if "k = length x"
        using fetched_all [OF f [unfolded that] len] pay
        by (cases "arrays s dk pak") (auto simp: old_bytes_def)
    qed (use s1 m lay in auto)
    then show ?thesis by (simp add: cell_left_def [abs_def] s1)
  qed
  have "wp (bind_io (cell_fetch E dk pak (length x) ob ?view) (cell_settle E (length x) ob)) (cell_left lay x whole m s) s"
    by (rule wp_bindI [OF cell_fetch_rule [OF m len]]) (auto intro!: settle)
  then show ?thesis
    using len by (simp add: read_cell_stages view_of_def wp_bind [of "get_s _"] wp_get_s)
qed

lemma raw_alloc_rule:
  assumes d: "sv d' = singles s" "av d' = arrays s" and n: "nbytes lay = length x"
    and c: "arrays s dk pak = Some c" "take (length x) c = x" and whole
  shows "wp (raw_alloc E dk pak (length x) lay) (cell_got lay x whole s) (s\<lparr>w_obj := d'\<rparr>)"
  unfolding raw_alloc_def wp_bind wp_on_mem
proof (rule wp_allocate, goal_cases)
  case (1 ob m')
  have "wp (read_cell E dk pak (length x) ob) (cell_left lay x whole (w_mem s) (s\<lparr>w_obj := d', w_mem := m'\<rparr>))
      (s\<lparr>w_obj := d', w_mem := m'\<rparr>)"
    by (rule read_cell_rule) (use 1 d n c \<open>whole\<close> in \<open>auto simp: old_bytes_def\<close>)
  then show ?case using d by (auto simp: cell_got_def cell_left_def elim!: wp_mono)
next
  case (2 r m')
  then show ?case using d
    by (auto simp: cell_got_def load_post_def wp_simps split: sum.splits option.splits)
qed

text \<open>Behind a committed header the read goes on to the payload.\<close>

lemma raw_tail_committed:
  assumes rec: "v3_record (e_lm E) lay x = Inr hdr"
    and f: "fetched view (Some hdr) (got, buf)"
  shows "raw_tail E dk pak (got, buf) = raw_alloc E dk pak (length x) lay"
proof -
  from rec obtain mt where mt: "rm_serialize (e_lm E) (length x) lay = Inr mt"
    and pm: "pack_meta mt (int (length x)) STATE_COMMITTED = Inr hdr"
    by (auto simp: v3_record_def bind_sum_Inr_iff)
  have "hdr \<noteq> []" using length_pack_meta [OF pm] by (auto simp: meta_len_for_def FIXED_SIZE_def)
  moreover have "take got buf = hdr" "got = length hdr" using f by (auto simp: fetched_def)
  ultimately show ?thesis
    by (simp add: raw_tail_def v3.parse_committed [OF pm, of True] deser_ser [OF mt])
qed

lemma get_raw_rule:
  assumes ak: "akeys_for layer = Inr (pak, mak)" and rec: "v3_record (e_lm E) lay x = Inr hdr"
    and n: "nbytes lay = length x" and ok: "cell_ok hdr x (arrays s dk pak) (singles s dk mak)"
  shows "wp (get_raw E dk layer) (cell_got lay x (singles s dk mak = Some hdr) s) s"
proof -
  let ?post = "cell_got lay x (singles s dk mak = Some hdr) s"
  have "wp (obj_fetch (e_obj E) (e_oh E) dk [(mak, replicate META_CAP 0, META_CAP)] True)
      (\<lambda>r d'. wp (bind_io (of_sum r) (\<lambda>res. bind_io (of_sum (the_one res)) (raw_tail E dk pak))) ?post (s\<lparr>w_obj := d'\<rparr>)) (w_obj s)"
  proof (rule wp_fetch_single, goal_cases)
    case (2 res d')
    then obtain got buf where res: "res = [(got, buf)]"
      and f: "fetched (replicate META_CAP 0) (singles s dk mak) (got, buf)"
      by (auto simp: list_all2_Cons1)
    show ?case
    proof (cases "singles s dk mak")
      case None
      with 2 res f show ?thesis by (simp add: wp_simps fetched_def raw_tail_def)
    next
      case (Some h)
      with ok obtain c where "h = hdr" "arrays s dk pak = Some c" "take (length x) c = x"
        by (auto simp: cell_ok_def)
      with f Some 2 raw_alloc_rule [OF _ _ n, of d' s dk pak c] show ?thesis
        by (simp add: res wp_simps raw_tail_committed [OF rec])
    qed
  qed (auto simp: buffers_fit_def wp_simps)
  then show ?thesis
    by (simp add: get_raw_stages ak wp_bind wp_of_sum wp_on_daos) 
qed

end

section \<open>With the servers up\<close>

locale raw_live = raw_conn E sv av refs nbytes + obj_live "e_obj E" "e_oh E" sv av up
  for E :: "('d, 'o, 'lay, 'm) env" and sv av refs nbytes up
begin

lemma put_cell_up:
  assumes up: "up (w_obj s)"
  shows "wp (bind_io (on_daos (obj_update (e_obj E) (e_oh E) dk [(pak, x, length x)] False)) (\<lambda>_.
     on_daos (obj_update (e_obj E) (e_oh E) dk [(mak, hdr, length hdr)] True)))
   (\<lambda>r s'. r = Inr () \<and> up (w_obj s') \<and> w_mem s' = w_mem s \<and> singles s' dk mak = Some hdr \<and>
      (\<exists>c. arrays s' dk pak = Some c \<and> take (length x) c = x)) s"
  (is "wp ?m ?Q s")
proof -
  have meta: "wp (on_daos (obj_update (e_obj E) (e_oh E) dk [(mak, hdr, length hdr)] True)) ?Q s1"
    if "up (w_obj s1)" "w_mem s1 = w_mem s" "\<exists>c. arrays s1 dk pak = Some c \<and> take (length x) c = x" for s1
    unfolding wp_on_daos
  proof (rule wp_use [OF update_up [OF that(1)]], goal_cases)
    case 2
    show ?case
    proof (rule wp_update_single, goal_cases)
      case (3 r d')
      then show ?case using that 3(3) [of mak hdr "length hdr"] by auto
    qed (auto simp: buffers_fit_def)
  qed (simp add: buffers_fit_def)
  have "wp (on_daos (obj_update (e_obj E) (e_oh E) dk [(pak, x, length x)] False))
      (\<lambda>r s1. r = Inr () \<and> up (w_obj s1) \<and> w_mem s1 = w_mem s \<and>
         (\<exists>c. arrays s1 dk pak = Some c \<and> take (length x) c = x)) s"
    unfolding wp_on_daos
  proof (rule wp_use [OF update_up [OF up]], goal_cases)
    case 2
    show ?case
    proof (rule wp_update_array, goal_cases)
      case (3 r d')
      then show ?case using 3(3) [of pak x "length x"] overlay_full by auto
    qed (auto simp: buffers_fit_def)
  qed (simp add: buffers_fit_def)
  then show ?thesis by (rule wp_bindI) (auto intro: meta)
qed

text \<open>A complete array is read in full, so the buffer is returned.\<close>

lemma read_cell_up:
  assumes up: "up (w_obj s)" and c: "arrays s dk pak = Some c" "take (length x) c = x"
    and len: "length (mo_bytes (e_lm E) (w_mem s) ob) = length x"
  shows "wp (read_cell E dk pak (length x) ob) (\<lambda>r s'. \<exists>ob. r = Inr (Some ob)) s"
proof -
  let ?view = "mo_bytes (e_lm E) (w_mem s) ob"
  have fit: "buffers_fit [(pak, ?view, length x)]" using len by (simp add: buffers_fit_def)
  have "wp (obj_fetch (e_obj E) (e_oh E) dk [(pak, ?view, length x)] False)
      (\<lambda>r d'. \<exists>buf. r = Inr [(length x, buf)]) (w_obj s)"
  proof (rule wp_use [OF fetch_array_up [OF up fit]], rule wp_fetch_array [OF fit], goal_cases)
    case (1 res d')
    have "length (take (length x) c) = length x" by (simp only: c(2))
    with 1 c show ?case by (auto simp: list_all2_Cons1 fetched_def)
  qed auto
  then have "wp (cell_fetch E dk pak (length x) ob ?view) (\<lambda>r s'. \<exists>buf. r = Inr (length x, buf)) s"
    by (auto simp: cell_fetch_def wp_catch wp_bind wp_on_daos wp_of_sum elim!: wp_mono)
  then have "wp (bind_io (cell_fetch E dk pak (length x) ob ?view) (cell_settle E (length x) ob))
      (\<lambda>r s'. \<exists>ob. r = Inr (Some ob)) s"
    by (rule wp_bindI) (auto simp: cell_settle_def wp_bind wp_on_mem wp_put_s wp_ret)
  with len show ?thesis by (simp add: read_cell_stages view_of_def wp_bind [of "get_s _"] wp_get_s)
qed

lemma raw_alloc_up:
  assumes "up (w_obj s)" and "arrays s dk pak = Some c" "take (length x) c = x" and n: "nbytes lay = length x"
    and room: "\<exists>ob. fst (lm_allocate (e_lm E) lay (w_mem s)) = Inr (Some ob)"
  shows "wp (raw_alloc E dk pak (length x) lay) (\<lambda>r s'. \<exists>ob. r = Inr (Some ob)) s"
proof -
  from room obtain ob m' where a: "lm_allocate (e_lm E) lay (w_mem s) = (Inr (Some ob), m')"
    by (cases "lm_allocate (e_lm E) lay (w_mem s)") auto
  have "wp (read_cell E dk pak (length x) ob) (\<lambda>r s'. \<exists>ob. r = Inr (Some ob)) (s\<lparr>w_mem := m'\<rparr>)"
    by (rule read_cell_up) (use assms alloc_some [OF a] in auto)
  then show ?thesis
    unfolding raw_alloc_def wp_bind wp_on_mem by (simp add: wp_def [of "lm_allocate _ _"] a)
qed

lemma get_raw_up:
  assumes up: "up (w_obj s)" and ak: "akeys_for layer = Inr (pak, mak)"
    and rec: "v3_record (e_lm E) lay x = Inr hdr" and n: "nbytes lay = length x"
    and hd: "singles s dk mak = Some hdr" and fits: "length hdr \<le> META_CAP"
    and c: "arrays s dk pak = Some c" "take (length x) c = x"
    and room: "\<exists>ob. fst (lm_allocate (e_lm E) lay (w_mem s)) = Inr (Some ob)"
  shows "wp (get_raw E dk layer) (\<lambda>r s'. \<exists>ob. r = Inr (Some ob)) s"
proof -
  have fit: "buffers_fit [(mak, replicate META_CAP 0, META_CAP)]" by (simp add: buffers_fit_def)
  have small: "\<forall>(ak, buf, n) \<in> set [(mak, replicate META_CAP (0 :: byte), META_CAP)]. \<forall>x. singles s dk ak = Some x \<longrightarrow> length x \<le> n"
    using hd fits by simp
  have "wp (obj_fetch (e_obj E) (e_oh E) dk [(mak, replicate META_CAP 0, META_CAP)] True)
      (\<lambda>r d'. \<exists>got buf. r = Inr [(got, buf)] \<and> fetched (replicate META_CAP 0) (Some hdr) (got, buf) \<and>
         up d' \<and> av d' = arrays s) (w_obj s)"
  proof (rule wp_use [OF fetch_single_up [OF up fit small]], rule wp_fetch_single [OF fit], goal_cases)
    case (1 res d')
    then show ?case using hd by (auto simp: list_all2_Cons1)
  qed auto
  then have "wp (on_daos (obj_fetch (e_obj E) (e_oh E) dk [(mak, replicate META_CAP 0, META_CAP)] True))
      (\<lambda>r s'. \<exists>got buf. r = Inr [(got, buf)] \<and> fetched (replicate META_CAP 0) (Some hdr) (got, buf) \<and>
         up (w_obj s') \<and> arrays s' = arrays s \<and> w_mem s' = w_mem s) s"
    unfolding wp_on_daos by (auto elim!: wp_mono)
  then have "wp (bind_io (on_daos (obj_fetch (e_obj E) (e_oh E) dk [(mak, replicate META_CAP 0, META_CAP)] True)) (\<lambda>res.
      bind_io (of_sum (the_one res)) (raw_tail E dk pak))) (\<lambda>r s'. \<exists>ob. r = Inr (Some ob)) s"
    by (rule wp_bindI)
      (use c n room in \<open>auto simp: wp_bind wp_of_sum raw_tail_committed [OF rec] intro!: raw_alloc_up\<close>)
  then show ?thesis by (simp add: get_raw_stages ak wp_bind [of "of_sum _"] wp_of_sum)
qed

end

end
