(* ===== verification/Conn_Cache.thy ===== *)
theory Conn_Cache
  imports Conn_Dfs Conn_Raw
begin

text \<open>
  What the connector promises to LMCache, for both backends at once: a load never returns anything
  but what was stored under that key. The promise is stated for every state reachable by any
  sequence of stores, loads, presence checks and removals, with failures anywhere, and with LMCache
  using its memory as it likes in between.
\<close>

text \<open>\<^verbatim>\<open>put\<close> without the gate of the thread pool: prepare on the calling side, then write.\<close>

definition put_op :: "('d, 'o, 'lay, 'm) env \<Rightarrow> addr \<Rightarrow> nat \<Rightarrow> (('d, 'o, 'm) world, unit) io" where
  "put_op E a ob = bind_io (prep_write E ob) (\<lambda>(header, src, n). put_sync E a header src n)"

definition mo_value :: "('d, 'o, 'lay, 'm) env \<Rightarrow> ('d, 'o, 'm) world \<Rightarrow> nat \<Rightarrow> 'lay \<times> bytes" where
  "mo_value E s ob = (mo_layout (e_lm E) (w_mem s) ob, mo_bytes (e_lm E) (w_mem s) ob)"

text \<open>
  \<open>plan a\<close> is the object that belongs to address \<open>a\<close>: cache keys are content hashes, so a key is only
  ever stored with one object. A removal that raises is not followed here: it may have removed the
  payload of a cell and not its header.
\<close>

inductive conn_reach ::
  "('d, 'o, 'lay, 'm) env \<Rightarrow> (addr \<Rightarrow> ('lay \<times> bytes) option) \<Rightarrow> ('d, 'o, 'm) world \<Rightarrow> ('d, 'o, 'm) world \<Rightarrow> bool"
  for E plan s0 where
  start: "conn_reach E plan s0 s0"
| put: "conn_reach E plan s0 s \<Longrightarrow> plan a = Some (mo_value E s ob) \<Longrightarrow> put_op E a ob s = (r, s') \<Longrightarrow>
    conn_reach E plan s0 s'"
| get: "conn_reach E plan s0 s \<Longrightarrow> plan a \<noteq> None \<Longrightarrow> get_sync E a s = (g, s') \<Longrightarrow> conn_reach E plan s0 s'"
| exists: "conn_reach E plan s0 s \<Longrightarrow> exists_at E a s = (q, s') \<Longrightarrow> conn_reach E plan s0 s'"
| remove: "conn_reach E plan s0 s \<Longrightarrow> remove_one E a s = (Inr q, s') \<Longrightarrow> conn_reach E plan s0 s'"
| memory: "conn_reach E plan s0 s \<Longrightarrow> conn_reach E plan s0 (s\<lparr>w_mem := m\<rparr>)"

definition plan_ok :: "('d, 'o, 'lay, 'm) env \<Rightarrow> ('lay \<Rightarrow> nat) \<Rightarrow> (addr \<Rightarrow> ('lay \<times> bytes) option) \<Rightarrow> bool" where
  "plan_ok E nbytes plan \<longleftrightarrow> (\<forall>a lay x. plan a = Some (lay, x) \<longrightarrow> nbytes lay = length x \<and>
     (\<exists>b. v1_object (e_lm E) lay x = Inr b) \<and> (e_raw E \<longrightarrow> (\<exists>b. v3_record (e_lm E) lay x = Inr b)))"

lemma plan_okD:
  assumes "plan_ok E nbytes plan" and "plan a = Some (lay, x)"
  obtains b where "nbytes lay = length x" and "v1_object (e_lm E) lay x = Inr b"
  using assms unfolding plan_ok_def by blast

lemma plan_okD3:
  assumes "plan_ok E nbytes plan" and "plan a = Some (lay, x)" and "e_raw E"
  obtains b where "v3_record (e_lm E) lay x = Inr b"
  using assms unfolding plan_ok_def by blast

section \<open>The contract of a backend\<close>

text \<open>Every live object of \<open>s\<close> is still live in \<open>s'\<close>, with the same contents.\<close>

definition grown :: "('d, 'o, 'lay, 'm) env \<Rightarrow> ('m \<Rightarrow> nat \<Rightarrow> nat) \<Rightarrow> ('d, 'o, 'm) world \<Rightarrow> ('d, 'o, 'm) world \<Rightarrow> bool" where
  "grown E refs s s' \<longleftrightarrow> (\<forall>ob. 0 < refs (w_mem s) ob \<longrightarrow> 0 < refs (w_mem s') ob \<and> mo_value E s' ob = mo_value E s ob)"

lemma grown_refl [simp]: "grown E refs s s"
  by (simp add: grown_def)

lemma grown_trans: "grown E refs s s' \<Longrightarrow> grown E refs s' s'' \<Longrightarrow> grown E refs s s''"
  by (simp add: grown_def)

text \<open>The outcome of one load of an object with value \<open>v\<close>.\<close>

definition loaded :: "('d, 'o, 'lay, 'm) env \<Rightarrow> ('m \<Rightarrow> nat \<Rightarrow> nat) \<Rightarrow> 'lay \<times> bytes \<Rightarrow> ('d, 'o, 'm) world \<Rightarrow>
    exn + nat option \<Rightarrow> ('d, 'o, 'm) world \<Rightarrow> bool" where
  "loaded E refs v s r s' \<longleftrightarrow> grown E refs s s' \<and> r \<noteq> Inl MemoryFault \<and>
     (\<forall>ob. r = Inr (Some ob) \<longrightarrow> refs (w_mem s) ob = 0 \<and> 0 < refs (w_mem s') ob \<and> mo_value E s' ob = v)"

context lm_conn
begin

lemma load_post_loaded:
  "load_post lay x whole (w_mem s) r (w_mem s') \<Longrightarrow> loaded E refs (lay, x) s r s'"
  by (fastforce simp: load_post_def loaded_def grown_def keeps_def mo_value_def split: sum.splits option.splits if_splits
      dest: order_less_le_trans)

end

locale cache_backend =
  fixes E :: "('d, 'o, 'lay, 'm) env"
    and refs :: "'m \<Rightarrow> nat \<Rightarrow> nat"
    and plan :: "addr \<Rightarrow> ('lay \<times> bytes) option"
    and Inv :: "('d, 'o, 'm) world \<Rightarrow> bool"
  assumes put_law: "Inv s \<Longrightarrow> plan a = Some (mo_value E s ob) \<Longrightarrow> wp (put_op E a ob) (\<lambda>r s'. Inv s') s"
    and get_law: "Inv s \<Longrightarrow> plan a = Some v \<Longrightarrow>
      wp (get_sync E a) (\<lambda>r s'. Inv s' \<and> loaded E refs v s r s') s"
    and exists_law: "Inv s \<Longrightarrow> wp (exists_at E a) (\<lambda>r s'. Inv s') s"
    and remove_law: "Inv s \<Longrightarrow> wp (remove_one E a) (\<lambda>r s'. isl r \<or> Inv s') s"
    and memory_law: "Inv s \<Longrightarrow> Inv (s\<lparr>w_mem := m\<rparr>)"
begin

lemma reach_inv:
  assumes "Inv s0" and "conn_reach E plan s0 s"
  shows "Inv s"
  using assms(2)
proof induction
  case start
  show ?case by (rule assms(1))
next
  case put
  then show ?case using put_law by (blast dest: wpD)
next
  case get
  then show ?case using get_law by (blast dest: wpD)
next
  case exists
  then show ?case using exists_law by (blast dest: wpD)
next
  case (remove s a q s')
  then show ?case using wpD [OF remove_law [OF remove.IH] remove.hyps(2)] by simp
next
  case memory
  show ?case by (rule memory_law [OF memory.IH])
qed

lemma hit_is_plan:
  assumes "Inv s0" and "conn_reach E plan s0 s" and "get_sync E a s = (Inr (Some ob), s')" and "plan a = Some v"
  shows "mo_value E s' ob = v"
  using wpD [OF get_law [OF reach_inv [OF assms(1,2)] assms(4)] assms(3)] by (simp add: loaded_def)

end

section \<open>The DFS backend keeps it\<close>

definition dfs_inv ::
  "('d, 'o, 'lay, 'm) env \<Rightarrow> ('d \<Rightarrow> string \<Rightarrow> bytes option) \<Rightarrow> (addr \<Rightarrow> ('lay \<times> bytes) option) \<Rightarrow> ('d, 'o, 'm) world \<Rightarrow> bool" where
  "dfs_inv E fs plan s \<longleftrightarrow> (\<forall>p lay x b c. plan (Path p) = Some (lay, x) \<longrightarrow> v1_object (e_lm E) lay x = Inr b \<longrightarrow>
     fs (w_dfs s) p = Some c \<longrightarrow> (\<exists>k. c = take k b))"

lemma dfs_invD:
  assumes "dfs_inv E fs plan s" and "plan (Path p) = Some (lay, x)" and "v1_object (e_lm E) lay x = Inr b"
    and "fs (w_dfs s) p = Some c"
  shows "\<exists>k. c = take k b"
  using assms unfolding dfs_inv_def by blast

lemma dfs_inv_cong: "fs (w_dfs s') = fs (w_dfs s) \<Longrightarrow> dfs_inv E fs plan s \<Longrightarrow> dfs_inv E fs plan s'"
  by (simp add: dfs_inv_def)

locale dfs_cache = dfs_conn E fs hs refs nbytes
  for E :: "('d, 'o, 'lay, 'm) env" and fs hs refs nbytes +
  fixes plan
  assumes copies: "\<not> e_alias_store E" and planned: "plan_ok E nbytes plan"
begin

lemma put_op_rule:
  assumes inv: "dfs_inv E fs plan s" and pl: "plan (Path p) = Some (mo_value E s ob)"
    and b: "v1_object (e_lm E) (mo_layout (e_lm E) (w_mem s) ob) (mo_bytes (e_lm E) (w_mem s) ob) = Inr b"
  shows "wp (put_op E (Path p) ob) (put_post p b s) s"
  unfolding put_op_def
proof (rule wp_bindI [OF prep_write_rule], goal_cases)
  case (1 e s')
  then show ?case using b by simp
next
  case (2 a s')
  obtain header src n where a: "a = (header, src, n)" by (cases a)
  with 2 copies b have n: "n = length (mo_bytes (e_lm E) (w_mem s) ob)"
    and src: "src = Copied (mo_bytes (e_lm E) (w_mem s) ob)"
    and hd: "b = header @ mo_bytes (e_lm E) (w_mem s) ob" and s': "s' = s" by auto
  have "files s p = None \<or> (\<exists>k. files s p = Some (take k b))"
    using dfs_invD [OF inv pl [unfolded mo_value_def] b] by (cases "files s p") auto
  from put_sync_rule [OF this [unfolded hd]] show ?case
    by (simp add: a n src s' hd)
qed

lemma put_post_inv:
  assumes inv: "dfs_inv E fs plan s" and pl: "plan (Path p) = Some (lay, x)" and b: "v1_object (e_lm E) lay x = Inr b"
    and post: "put_post p b s r s'"
  shows "dfs_inv E fs plan s'"
  unfolding dfs_inv_def
proof (intro allI impI)
  fix q lay' x' b' c
  assume q: "plan (Path q) = Some (lay', x')" "v1_object (e_lm E) lay' x' = Inr b'" "files s' q = Some c"
  show "\<exists>k. c = take k b'"
  proof (cases "q = p")
    case True
    with q pl b post show ?thesis by (simp add: put_post_def)
  next
    case False
    with post have "files s' q = files s q" by (simp add: put_post_def)
    with inv q show ?thesis by (simp add: dfs_inv_def)
  qed
qed

lemma dfs_put_law:
  assumes inv: "dfs_inv E fs plan s" and pl: "plan a = Some (mo_value E s ob)"
  shows "wp (put_op E a ob) (\<lambda>r s'. dfs_inv E fs plan s') s"
proof (cases a)
  case (Path p)
  from planned pl obtain b where b:
    "v1_object (e_lm E) (mo_layout (e_lm E) (w_mem s) ob) (mo_bytes (e_lm E) (w_mem s) ob) = Inr b"
    unfolding mo_value_def by (rule plan_okD)
  show ?thesis unfolding Path
    by (rule wp_mono [OF put_op_rule [OF inv pl [unfolded Path] b]])
      (rule put_post_inv [OF inv pl [unfolded Path mo_value_def] b])
next
  case (Cell dk l)
  have "wp (put_op E a ob) (\<lambda>r s'. s' = s) s"
    unfolding put_op_def
    by (rule wp_bindI [OF prep_write_rule]) (use posix in \<open>auto simp: Cell put_sync_def wp_simps\<close>)
  then show ?thesis by (rule wp_mono) (simp add: inv)
qed

lemma dfs_get_law:
  assumes inv: "dfs_inv E fs plan s" and pl: "plan a = Some v"
  shows "wp (get_sync E a) (\<lambda>r s'. dfs_inv E fs plan s' \<and> loaded E refs v s r s') s"
proof (cases a)
  case (Path p)
  obtain lay x where v: "v = (lay, x)" by (cases v)
  from planned pl [unfolded v] obtain b where b: "nbytes lay = length x" "v1_object (e_lm E) lay x = Inr b"
    by (rule plan_okD)
  have "files s p = None \<or> (\<exists>c. files s p = Some c \<and> cut_or_whole b c)"
    using dfs_invD [OF inv pl [unfolded v Path] b(2)] by (cases "files s p") auto
  from get_sync_rule [OF b(2,1) this] show ?thesis unfolding Path
  proof (rule wp_mono)
    fix r s'
    assume "got_post lay x (\<exists>c. files s p = Some c \<and> length b \<le> length c) s r s'"
    then have "files s' = files s" and l: "load_post lay x (\<exists>c. files s p = Some c \<and> length b \<le> length c) (w_mem s) r (w_mem s')"
      by (simp_all add: got_post_def)
    with inv have "dfs_inv E fs plan s'" by (blast intro: dfs_inv_cong)
    with l show "dfs_inv E fs plan s' \<and> loaded E refs v s r s'"
      unfolding v by (auto intro: load_post_loaded)
  qed
next
  case (Cell dk l)
  then show ?thesis using inv posix by (simp add: get_sync_def wp_simps loaded_def)
qed

lemma dfs_exists_law:
  assumes inv: "dfs_inv E fs plan s"
  shows "wp (exists_at E a) (\<lambda>r s'. dfs_inv E fs plan s') s"
proof (cases a)
  case (Path p)
  have "wp (dfs_exists (e_dfs E) p) (\<lambda>r d'. dfs_inv E fs plan (s\<lparr>w_dfs := d'\<rparr>)) (w_dfs s)"
    by (rule wp_dfs_exists) (use inv in \<open>simp_all add: dfs_inv_def\<close>)
  then show ?thesis using posix by (simp add: exists_at_def Path wp_on_dfs)
qed (use posix inv in \<open>simp add: exists_at_def wp_raise\<close>)

lemma dfs_remove_law:
  assumes inv: "dfs_inv E fs plan s"
  shows "wp (remove_one E a) (\<lambda>r s'. isl r \<or> dfs_inv E fs plan s') s"
proof (cases a)
  case (Path p)
  have "wp (dfs_remove (e_dfs E) p) (\<lambda>r d'. isl r \<or> dfs_inv E fs plan (s\<lparr>w_dfs := d'\<rparr>)) (w_dfs s)"
    by (rule wp_dfs_remove) (use inv in \<open>simp_all add: dfs_inv_def\<close>)
  then show ?thesis using posix by (simp add: remove_one_def Path wp_on_dfs)
next
  case (Cell dk l)
  then show ?thesis using posix by (cases l) (simp_all add: remove_one_def wp_raise)
qed

sublocale cache: cache_backend E refs plan "dfs_inv E fs plan"
  by (unfold_locales, fact dfs_put_law, fact dfs_get_law, fact dfs_exists_law, fact dfs_remove_law)
    (simp add: dfs_inv_def)

lemmas dfs_hit_is_plan = cache.hit_is_plan

end

section \<open>The object-API backend keeps it\<close>

definition raw_inv ::
  "('d, 'o, 'lay, 'm) env \<Rightarrow> ('o \<Rightarrow> bytes \<Rightarrow> bytes \<Rightarrow> bytes option) \<Rightarrow> ('o \<Rightarrow> bytes \<Rightarrow> bytes \<Rightarrow> bytes option) \<Rightarrow>
    (addr \<Rightarrow> ('lay \<times> bytes) option) \<Rightarrow> ('d, 'o, 'm) world \<Rightarrow> bool" where
  "raw_inv E sv av plan s \<longleftrightarrow> (\<forall>dk l lay x hdr pak mak. plan (Cell dk l) = Some (lay, x) \<longrightarrow>
     v3_record (e_lm E) lay x = Inr hdr \<longrightarrow> akeys_for l = Inr (pak, mak) \<longrightarrow>
     cell_ok hdr x (av (w_obj s) dk pak) (sv (w_obj s) dk mak))"

lemma raw_invD:
  assumes "raw_inv E sv av plan s" and "plan (Cell dk l) = Some (lay, x)" and "v3_record (e_lm E) lay x = Inr hdr"
    and "akeys_for l = Inr (pak, mak)"
  shows "cell_ok hdr x (av (w_obj s) dk pak) (sv (w_obj s) dk mak)"
  using assms unfolding raw_inv_def by blast

lemma raw_inv_cong:
  "sv (w_obj s') = sv (w_obj s) \<Longrightarrow> av (w_obj s') = av (w_obj s) \<Longrightarrow> raw_inv E sv av plan s \<Longrightarrow> raw_inv E sv av plan s'"
  by (simp add: raw_inv_def)

text \<open>Two layers of a chunk, or a layer and the whole chunk, share no akey.\<close>

lemma akeys_for_disjoint:
  assumes "akeys_for l = Inr (p, m)" and "akeys_for l' = Inr (p', m')" and "l \<noteq> l'"
  shows "p \<noteq> p'" and "m \<noteq> m'"
proof -
  have "p \<noteq> p' \<and> m \<noteq> m'"
  proof (cases l; cases l')
    fix i j
    assume "l = Some i" "l' = Some j"
    with assms show ?thesis
      by (auto simp: akeys_for_Inr akey_layer_Inr_iff akey_meta_layer_Inr_iff dest: dec3_nat_inj)
  qed (use assms in \<open>auto simp: akeys_for_Inr akey_layer_Inr_iff akey_meta_layer_Inr_iff AKEY_PAYLOAD_def
      AKEY_META_def dec3_def\<close>)
  then show "p \<noteq> p'" and "m \<noteq> m'" by auto
qed

lemma akeys_for_no_fault: "akeys_for l \<noteq> Inl MemoryFault"
  by (auto simp: akeys_for_def akey_layer_def akey_meta_layer_def split: option.splits)

text \<open>If a payload akey is among the akeys of some layer, so is the metadata akey beside it.\<close>

lemma akeys_payload_in:
  assumes "akeys_for l = Inr (p, m)" and "akeys_for l' = Inr (p', m')" and "p' \<in> {p, m}"
  shows "m' \<in> {p, m}"
proof (cases "l' = l")
  case True
  with assms show ?thesis by simp
next
  case False
  with akeys_for_disjoint [OF assms(2,1)] assms have "p' = m" by auto
  with assms have False
    by (auto simp: akeys_for_Inr akey_layer_Inr_iff akey_meta_layer_Inr_iff AKEY_PAYLOAD_def AKEY_META_def
        split: option.splits)
  then show ?thesis ..
qed

locale raw_cache = raw_conn E sv av refs nbytes
  for E :: "('d, 'o, 'lay, 'm) env" and sv av refs nbytes +
  fixes plan
  assumes copies: "\<not> e_alias_store E" and planned: "plan_ok E nbytes plan"
begin

lemma raw_put_op_rule:
  assumes ak: "akeys_for l = Inr (pak, mak)"
    and rec: "v3_record (e_lm E) (mo_layout (e_lm E) (w_mem s) ob) (mo_bytes (e_lm E) (w_mem s) ob) = Inr hdr"
    and v1: "v1_object (e_lm E) (mo_layout (e_lm E) (w_mem s) ob) (mo_bytes (e_lm E) (w_mem s) ob) = Inr b"
    and ok: "cell_ok hdr (mo_bytes (e_lm E) (w_mem s) ob) (arrays s dk pak) (singles s dk mak)"
  shows "wp (put_op E (Cell dk l) ob) (cell_post dk pak mak hdr (mo_bytes (e_lm E) (w_mem s) ob) s) s"
  unfolding put_op_def
proof (rule wp_bindI [OF prep_write_rule], goal_cases)
  case (1 e s')
  then show ?case using v1 by simp
next
  case (2 a s')
  obtain header src n where a: "a = (header, src, n)" by (cases a)
  with 2 copies have n: "n = length (mo_bytes (e_lm E) (w_mem s) ob)"
    and src: "src = Copied (mo_bytes (e_lm E) (w_mem s) ob)"
    and hd: "v1_object (e_lm E) (mo_layout (e_lm E) (w_mem s) ob) (mo_bytes (e_lm E) (w_mem s) ob) =
      Inr (header @ mo_bytes (e_lm E) (w_mem s) ob)" and s': "s' = s" by auto
  show ?case using put_raw_rule [OF ak hd rec ok] raw by (simp add: a n src s' put_sync_def)
qed

lemma cell_post_inv:
  assumes inv: "raw_inv E sv av plan s" and pl: "plan (Cell dk l) = Some (lay, x)"
    and rec: "v3_record (e_lm E) lay x = Inr hdr" and ak: "akeys_for l = Inr (pak, mak)"
    and post: "cell_post dk pak mak hdr x s r s'"
  shows "raw_inv E sv av plan s'"
  unfolding raw_inv_def
proof (intro allI impI)
  fix dk' l' lay' x' hdr' pak' mak'
  assume q: "plan (Cell dk' l') = Some (lay', x')" "v3_record (e_lm E) lay' x' = Inr hdr'"
    "akeys_for l' = Inr (pak', mak')"
  show "cell_ok hdr' x' (arrays s' dk' pak') (singles s' dk' mak')"
  proof (cases "dk' = dk \<and> l' = l")
    case True
    with q pl rec ak post show ?thesis by (simp add: cell_post_def)
  next
    case False
    then have "dk' \<noteq> dk \<or> pak' \<noteq> pak" "dk' \<noteq> dk \<or> mak' \<noteq> mak"
      using akeys_for_disjoint [OF q(3) ak] by auto
    with post have "arrays s' dk' pak' = arrays s dk' pak'" "singles s' dk' mak' = singles s dk' mak'"
      unfolding cell_post_def by blast+
    with raw_invD [OF inv q] show ?thesis by simp
  qed
qed

lemma raw_put_law:
  assumes inv: "raw_inv E sv av plan s" and pl: "plan a = Some (mo_value E s ob)"
  shows "wp (put_op E a ob) (\<lambda>r s'. raw_inv E sv av plan s') s"
proof (cases "\<exists>dk l pak mak. a = Cell dk l \<and> akeys_for l = Inr (pak, mak)")
  case True
  then obtain dk l pak mak where a: "a = Cell dk l" and ak: "akeys_for l = Inr (pak, mak)" by blast
  note pl = pl [unfolded a mo_value_def]
  from planned pl obtain b where v1:
    "v1_object (e_lm E) (mo_layout (e_lm E) (w_mem s) ob) (mo_bytes (e_lm E) (w_mem s) ob) = Inr b"
    by (rule plan_okD)
  from planned pl raw obtain hdr where rec:
    "v3_record (e_lm E) (mo_layout (e_lm E) (w_mem s) ob) (mo_bytes (e_lm E) (w_mem s) ob) = Inr hdr"
    by (rule plan_okD3)
  show ?thesis unfolding a
    by (rule wp_mono [OF raw_put_op_rule [OF ak rec v1 raw_invD [OF inv pl rec ak]]])
      (rule cell_post_inv [OF inv pl rec ak])
next
  case False
  have "wp (put_op E a ob) (\<lambda>r s'. s' = s) s"
    unfolding put_op_def
  proof (rule wp_bindI [OF prep_write_rule], goal_cases)
    case (2 t s')
    with False raw show ?case
      by (cases a; cases t)
        (auto simp: put_sync_def put_raw_def wp_bind [of "of_sum _"] wp_of_sum wp_raise split: sum.splits)
  qed auto
  then show ?thesis by (rule wp_mono) (simp add: inv)
qed

lemma raw_get_law:
  assumes inv: "raw_inv E sv av plan s" and pl: "plan a = Some v"
  shows "wp (get_sync E a) (\<lambda>r s'. raw_inv E sv av plan s' \<and> loaded E refs v s r s') s"
proof (cases "\<exists>dk l pak mak. a = Cell dk l \<and> akeys_for l = Inr (pak, mak)")
  case True
  then obtain dk l pak mak where a: "a = Cell dk l" and ak: "akeys_for l = Inr (pak, mak)" by blast
  obtain lay x where v: "v = (lay, x)" by (cases v)
  note pl = pl [unfolded a v]
  from planned pl obtain b where n: "nbytes lay = length x" by (rule plan_okD)
  from planned pl raw obtain hdr where rec: "v3_record (e_lm E) lay x = Inr hdr" by (rule plan_okD3)
  have "wp (get_raw E dk l) (cell_got lay x (singles s dk mak = Some hdr) s) s"
    by (rule get_raw_rule [OF ak rec n raw_invD [OF inv pl rec ak]])
  then have "wp (get_raw E dk l) (\<lambda>r s'. raw_inv E sv av plan s' \<and> loaded E refs v s r s') s"
  proof (rule wp_mono)
    fix r s'
    assume g: "cell_got lay x (singles s dk mak = Some hdr) s r s'"
    then have "raw_inv E sv av plan s'" using inv by (auto simp: cell_got_def intro: raw_inv_cong)
    with g show "raw_inv E sv av plan s' \<and> loaded E refs v s r s'"
      unfolding v by (auto simp: cell_got_def intro: load_post_loaded)
  qed
  then show ?thesis using raw by (simp add: a get_sync_def)
next
  case False
  then show ?thesis using raw inv
    by (cases a) (auto simp: get_sync_def get_raw_def wp_bind [of "of_sum _"] wp_of_sum wp_raise loaded_def
        akeys_for_no_fault split: sum.splits)
qed

lemma raw_exists_law:
  assumes inv: "raw_inv E sv av plan s"
  shows "wp (exists_at E a) (\<lambda>r s'. raw_inv E sv av plan s') s"
proof (cases a)
  case (Cell dk l)
  have "wp (bind_io (on_daos (obj_fetch (e_obj E) (e_oh E) dk [(mak, replicate META_CAP 0, META_CAP)] True)) (\<lambda>res.
       bind_io (of_sum (the_one res)) (\<lambda>(got, _). ret (0 < got)))) (\<lambda>r s'. raw_inv E sv av plan s') s" for mak
    unfolding wp_bind [of "on_daos _"] wp_on_daos
  proof (rule wp_fetch_single, goal_cases)
    case (2 res d')
    then show ?case using inv
      by (auto simp: wp_simps the_one_def raw_inv_def split: sum.splits list.splits)
  qed (use inv in \<open>auto simp: buffers_fit_def raw_inv_def\<close>)
  then show ?thesis using raw inv
    by (auto simp: exists_at_def Cell wp_bind [of "of_sum _"] wp_of_sum split: sum.splits option.splits)
qed (use raw inv in \<open>simp add: exists_at_def wp_raise\<close>)

text \<open>
  A removal that succeeds keeps every commit record behind a complete payload: a cell either lost
  its record or kept both values.
\<close>

lemma raw_inv_cells:
  assumes inv: "raw_inv E sv av plan s"
    and cells: "\<And>dk l pak mak. akeys_for l = Inr (pak, mak) \<Longrightarrow>
      sv d' dk mak = None \<or> sv d' dk mak = singles s dk mak \<and> av d' dk pak = arrays s dk pak"
  shows "raw_inv E sv av plan (s\<lparr>w_obj := d'\<rparr>)"
  unfolding raw_inv_def
proof (intro allI impI)
  fix dk l lay x hdr pak mak
  assume q: "plan (Cell dk l) = Some (lay, x)" "v3_record (e_lm E) lay x = Inr hdr" "akeys_for l = Inr (pak, mak)"
  show "cell_ok hdr x (arrays (s\<lparr>w_obj := d'\<rparr>) dk pak) (singles (s\<lparr>w_obj := d'\<rparr>) dk mak)"
    using cells [OF q(3), of dk] raw_invD [OF inv q] by auto
qed

lemma punch_keeps_inv:
  assumes inv: "raw_inv E sv av plan s"
  shows "wp (obj_punch (e_obj E) (e_oh E) dk) (\<lambda>r d'. isl r \<or> raw_inv E sv av plan (s\<lparr>w_obj := d'\<rparr>)) (w_obj s)"
proof (rule wp_punch, goal_cases)
  case (1 r d')
  have "raw_inv E sv av plan (s\<lparr>w_obj := d'\<rparr>)" if r: "\<not> isl r"
  proof (rule raw_inv_cells [OF inv])
    fix dk' l pak mak
    show "sv d' dk' mak = None \<or> sv d' dk' mak = singles s dk' mak \<and> av d' dk' pak = arrays s dk' pak"
      using 1(1) [of dk'] 1(2) [of mak] 1(4) r by (cases "dk' = dk") auto
  qed
  then show ?case by blast
qed

lemma punch_akeys_keeps_inv:
  assumes inv: "raw_inv E sv av plan s" and ak: "akeys_for (Some i) = Inr (pk, mk)"
  shows "wp (obj_punch_akeys (e_obj E) (e_oh E) dk [pk, mk])
      (\<lambda>r d'. isl r \<or> raw_inv E sv av plan (s\<lparr>w_obj := d'\<rparr>)) (w_obj s)"
proof (rule wp_punch_akeys, goal_cases)
  case (1 r d')
  have "raw_inv E sv av plan (s\<lparr>w_obj := d'\<rparr>)" if r: "\<not> isl r"
  proof (rule raw_inv_cells [OF inv])
    fix dk' l pak mak
    assume l: "akeys_for l = Inr (pak, mak)"
    show "sv d' dk' mak = None \<or> sv d' dk' mak = singles s dk' mak \<and> av d' dk' pak = arrays s dk' pak"
    proof (cases "dk' = dk \<and> mak \<in> {pk, mk}")
      case True
      with 1(2) [of mak] 1(3) r show ?thesis by auto
    next
      case False
      then have "dk' \<noteq> dk \<or> pak \<notin> {pk, mk}" using akeys_payload_in [OF ak l] by auto
      with 1(1) [of dk' pak] 1(1) [of dk' mak] False show ?thesis by auto
    qed
  qed
  then show ?case by blast
qed

lemma raw_remove_law:
  assumes inv: "raw_inv E sv av plan s"
  shows "wp (remove_one E a) (\<lambda>r s'. isl r \<or> raw_inv E sv av plan s') s"
proof (cases a)
  case (Cell dk l)
  show ?thesis
  proof (cases l)
    case None
    then show ?thesis using raw punch_keeps_inv [OF inv, of dk]
      by (auto simp: remove_one_def Cell wp_bind wp_on_daos wp_ret elim!: wp_mono split: sum.splits)
  next
    case (Some i)
    then show ?thesis using raw punch_akeys_keeps_inv [OF inv, of i _ _ dk]
      by (auto simp: remove_one_def Cell wp_bind wp_on_daos wp_ret wp_of_sum elim!: wp_mono split: sum.splits)
  qed
next
  case (Path p)
  then show ?thesis using raw by (simp add: remove_one_def wp_raise)
qed

sublocale cache: cache_backend E refs plan "raw_inv E sv av plan"
  by (unfold_locales, fact raw_put_law, fact raw_get_law, fact raw_exists_law, fact raw_remove_law)
    (simp add: raw_inv_def)

lemmas raw_hit_is_plan = cache.hit_is_plan

end

section \<open>A store and a load, with the servers up\<close>

context live_conn
begin

lemma put_op_up:
  assumes up: "up (w_dfs s)" and copies: "\<not> e_alias_store E" and val: "mo_value E s ob = (lay, x)"
    and b: "v1_object (e_lm E) lay x = Inr b"
  shows "wp (put_op E (Path p) ob) (\<lambda>r s'. r = Inr () \<and> up (w_dfs s') \<and> w_mem s' = w_mem s \<and>
      (\<exists>rest. files s' p = Some (b @ rest))) s"
  unfolding put_op_def
proof (rule wp_bindI [OF prep_write_rule], goal_cases)
  case (2 a s')
  obtain header src k where a: "a = (header, src, k)" by (cases a)
  with 2 val b copies have "k = length x" "src = Copied x" "b = header @ x" "s' = s"
    by (auto simp: mo_value_def)
  with put_sync_up [OF up, of p header x] show ?case
    by (auto simp: a elim!: wp_mono)
qed (use val b in \<open>auto simp: mo_value_def\<close>)

lemma put_get_hit:
  assumes up: "up (w_dfs s)" and copies: "\<not> e_alias_store E" and val: "mo_value E s ob = (lay, x)"
    and n: "nbytes lay = length x" and b: "v1_object (e_lm E) lay x = Inr b"
    and room: "\<exists>ob'. fst (lm_allocate (e_lm E) lay (w_mem s)) = Inr (Some ob')"
  shows "\<exists>s1 ob' s2. put_op E (Path p) ob s = (Inr (), s1) \<and> get_sync E (Path p) s1 = (Inr (Some ob'), s2) \<and>
    mo_value E s2 ob' = (lay, x)"
proof -
  from put_op_up [OF up copies val b, of p] obtain s1 rest where
    s1: "put_op E (Path p) ob s = (Inr (), s1)" "up (w_dfs s1)" "w_mem s1 = w_mem s" "files s1 p = Some (b @ rest)"
    by (auto simp: wp_def split: prod.splits)
  have "wp (get_sync E (Path p)) (\<lambda>r s2. \<exists>ob'. r = Inr (Some ob')) s1"
    by (rule get_sync_up [OF s1(2,4) _ b n]) (use s1 room in simp_all)
  then obtain ob' s2 where g: "get_sync E (Path p) s1 = (Inr (Some ob'), s2)"
    by (auto simp: wp_def split: prod.splits)
  have "wp (get_sync E (Path p)) (got_post lay x (\<exists>c. files s1 p = Some c \<and> length b \<le> length c) s1) s1"
    by (rule get_sync_rule [OF b n]) (use s1 in simp)
  from wpD [OF this g] have "mo_value E s2 ob' = (lay, x)"
    by (simp add: got_post_def load_post_def mo_value_def)
  with s1 g show ?thesis by blast
qed

end

context raw_live
begin

lemma raw_put_op_up:
  assumes up: "up (w_obj s)" and copies: "\<not> e_alias_store E" and val: "mo_value E s ob = (lay, x)"
    and b: "v1_object (e_lm E) lay x = Inr b" and rec: "v3_record (e_lm E) lay x = Inr hdr"
    and ak: "akeys_for l = Inr (pak, mak)"
  shows "wp (put_op E (Cell dk l) ob) (\<lambda>r s'. r = Inr () \<and> up (w_obj s') \<and> w_mem s' = w_mem s \<and>
      singles s' dk mak = Some hdr \<and> (\<exists>c. arrays s' dk pak = Some c \<and> take (length x) c = x)) s"
  unfolding put_op_def
proof (rule wp_bindI [OF prep_write_rule], goal_cases)
  case (2 a s')
  obtain header src k where a: "a = (header, src, k)" by (cases a)
  with 2 val copies have k: "k = length x" "src = Copied x" "s' = s"
    and v1: "v1_object (e_lm E) lay x = Inr (header @ x)"
    by (auto simp: mo_value_def)
  from v1 obtain mt pre where mt: "rm_serialize (e_lm E) (length x) lay = Inr mt"
    and pre: "prefix_pack (length mt) (length x) = Inr pre" and h: "header = pre @ mt"
    by (auto elim: v1_objectE)
  from rec mt have "repack_header header = Inr hdr" by (simp add: h repack_prefix [OF pre] v3_record_def)
  with put_cell_up [OF up, of dk pak x mak hdr] raw ak k show ?case
    by (simp add: a put_sync_def put_raw_def src_bytes_def wp_bind [of "of_sum _"] wp_of_sum)
qed (use val b in \<open>auto simp: mo_value_def\<close>)

lemma raw_put_get_hit:
  assumes up: "up (w_obj s)" and copies: "\<not> e_alias_store E" and val: "mo_value E s ob = (lay, x)"
    and n: "nbytes lay = length x" and b: "v1_object (e_lm E) lay x = Inr b"
    and rec: "v3_record (e_lm E) lay x = Inr hdr" and ak: "akeys_for l = Inr (pak, mak)" and fits: "length hdr \<le> META_CAP"
    and room: "\<exists>ob'. fst (lm_allocate (e_lm E) lay (w_mem s)) = Inr (Some ob')"
  shows "\<exists>s1 ob' s2. put_op E (Cell dk l) ob s = (Inr (), s1) \<and> get_sync E (Cell dk l) s1 = (Inr (Some ob'), s2) \<and>
    mo_value E s2 ob' = (lay, x)"
proof -
  from raw_put_op_up [OF up copies val b rec ak, of dk] obtain s1 c where
    s1: "put_op E (Cell dk l) ob s = (Inr (), s1)" "up (w_obj s1)" "w_mem s1 = w_mem s" "singles s1 dk mak = Some hdr"
    and c: "arrays s1 dk pak = Some c" "take (length x) c = x"
    by (auto simp: wp_def split: prod.splits)
  have "wp (get_raw E dk l) (\<lambda>r s2. \<exists>ob'. r = Inr (Some ob')) s1"
    by (rule get_raw_up [OF s1(2) ak rec n s1(4) fits c]) (use s1 room in simp)
  then obtain ob' s2 where g: "get_raw E dk l s1 = (Inr (Some ob'), s2)"
    by (auto simp: wp_def split: prod.splits)
  have "cell_ok hdr x (arrays s1 dk pak) (singles s1 dk mak)" using s1(4) c by (simp add: cell_ok_def)
  from wpD [OF get_raw_rule [OF ak rec n this] g] have "mo_value E s2 ob' = (lay, x)"
    by (simp add: cell_got_def load_post_def mo_value_def)
  with s1 g raw show ?thesis by (auto simp: get_sync_def)
qed

end

section \<open>The promises\<close>

lemma dfs_cacheI:
  "dfs_full (e_dfs E) fs hs \<Longrightarrow> lm_env (e_lm E) refs nbytes \<Longrightarrow> \<not> e_raw E \<Longrightarrow> \<not> e_alias_store E \<Longrightarrow>
   plan_ok E nbytes plan \<Longrightarrow> dfs_cache E fs hs refs nbytes plan"
  by (simp add: dfs_cache_def dfs_cache_axioms_def dfs_conn_def dfs_conn_axioms_def lm_conn_def)

lemma raw_cacheI:
  "obj_lib (e_obj E) (e_oh E) sv av \<Longrightarrow> lm_env (e_lm E) refs nbytes \<Longrightarrow> e_raw E \<Longrightarrow> \<not> e_alias_store E \<Longrightarrow>
   plan_ok E nbytes plan \<Longrightarrow> raw_cache E sv av refs nbytes plan"
  by (simp add: raw_cache_def raw_cache_axioms_def raw_conn_def raw_conn_axioms_def lm_conn_def)

lemma live_connI:
  "dfs_live (e_dfs E) fs hs up \<Longrightarrow> lm_env (e_lm E) refs nbytes \<Longrightarrow> \<not> e_raw E \<Longrightarrow>
   live_conn E fs hs refs nbytes up"
  by (simp add: live_conn_def dfs_conn_def dfs_conn_axioms_def lm_conn_def dfs_live_def)

lemma raw_liveI:
  "obj_live (e_obj E) (e_oh E) sv av up \<Longrightarrow> lm_env (e_lm E) refs nbytes \<Longrightarrow> e_raw E \<Longrightarrow>
   raw_live E sv av refs nbytes up"
  by (simp add: raw_live_def raw_conn_def raw_conn_axioms_def lm_conn_def obj_live_def)

text \<open>The environment the witnesses run on: the reference libraries, with one live object.\<close>

definition wit_env :: "bool \<Rightarrow> (memfs, memobj, nat, memmo) env" where
  "wit_env raw = \<lparr>e_dfs = mem_dfs, e_obj = mem_obj, e_oh = 7, e_lm = mem_lm, e_raw = raw,
     e_alias_store = False, e_via_bytearray = False\<rparr>"

definition wit_world :: "(memfs, memobj, memmo) world" where
  "wit_world = \<lparr>w_dfs = mem_init, w_obj = memo_init,
     w_mem = \<lparr>mm_bytes = (\<lambda>_. [])(0 := [5, 6]), mm_refs = (\<lambda>_. 0)(0 := 1), mm_next = 1, mm_limit = 4\<rparr>\<rparr>"

definition wit_addr :: "bool \<Rightarrow> addr" where
  "wit_addr raw = (if raw then Cell [1, 2] (Some 3) else Path ''/k'')"

definition wit_plan :: "bool \<Rightarrow> addr \<Rightarrow> (nat \<times> bytes) option" where
  "wit_plan raw = (\<lambda>_. None)(wit_addr raw := Some (2, [5, 6]))"

lemma wit_fields [simp]:
  "e_dfs (wit_env raw) = mem_dfs" "e_obj (wit_env raw) = mem_obj" "e_oh (wit_env raw) = 7"
  "e_lm (wit_env raw) = mem_lm" "e_raw (wit_env raw) = raw" "\<not> e_alias_store (wit_env raw)"
  "w_dfs wit_world = mem_init" "w_obj wit_world = memo_init"
  by (simp_all add: wit_env_def wit_world_def)

lemma wit_value: "mo_value (wit_env raw) wit_world 0 = (2, [5, 6])"
  by (simp add: mo_value_def wit_world_def mem_lm_def)

lemma wit_meta: "mm_serialize (Suc (Suc 0)) 2 = Inr [2, 0, 0, 0, 2, 0, 0, 0]"
  by (simp add: mm_serialize_def pack_field_def le_eval)

lemma wit_v1: "v1_object mem_lm 2 [5, 6] = Inr ([8, 0, 0, 0, 2, 0, 0, 0, 2, 0, 0, 0, 2, 0, 0, 0] @ [5, 6])"
  by (simp add: v1_object_def mem_lm_def wit_meta pack_def prefix_pack_def pack_field_def le_eval)

lemma wit_v3: "\<exists>b. v3_record mem_lm 2 [5, 6] = Inr b \<and> length b = 44"
proof -
  have "header_args [2, 0, 0, 0, 2, 0, 0, 0] 2 STATE_COMMITTED"
    by (simp add: header_args_def v2_sizes)
  then obtain b where "pack_meta [2, 0, 0, 0, 2, 0, 0, 0] 2 STATE_COMMITTED = Inr b"
    using v3.pack_args by blast
  with length_pack_meta [OF this] show ?thesis
    by (simp add: v3_record_def mem_lm_def wit_meta meta_len_for_def FIXED_SIZE_def)
qed

lemma wit_plan_ok: "plan_ok (wit_env raw) id (wit_plan raw)"
  using wit_v1 wit_v3 by (auto simp: plan_ok_def wit_plan_def)



text \<open>
  C12: on a POSIX container with the servers up, an object that was stored is found, whatever the file
  held before: the store succeeds and the load after it returns an object with the same layout and
  bytes.
\<close>

theorem dfs_put_then_get:
  assumes "dfs_live (e_dfs E) fs hs up" and "lm_env (e_lm E) refs nbytes"
    and "\<not> e_raw E" and "\<not> e_alias_store E" and "up (w_dfs s)"
    and "mo_value E s ob = (lay, x)" and "nbytes lay = length x"
    and "v1_object (e_lm E) lay x = Inr b"
    and "\<exists>ob'. fst (lm_allocate (e_lm E) lay (w_mem s)) = Inr (Some ob')"
  shows "\<exists>s1 ob' s2. put_op E (Path p) ob s = (Inr (), s1) \<and> get_sync E (Path p) s1 = (Inr (Some ob'), s2) \<and>
    mo_value E s2 ob' = (lay, x)"
  by (rule live_conn.put_get_hit [OF live_connI [OF assms(1-3)] assms(5,4,6-9)])

text \<open>
  on a container for the object API with the servers up, an object that was stored is found,
  provided its header record fits the \<open>META_CAP\<close> bytes every reader offers for it.
\<close>

theorem raw_put_then_get:
  assumes "obj_live (e_obj E) (e_oh E) sv av up" and "lm_env (e_lm E) refs nbytes"
    and "e_raw E" and "\<not> e_alias_store E" and "up (w_obj s)"
    and "mo_value E s ob = (lay, x)" and "nbytes lay = length x"
    and "v1_object (e_lm E) lay x = Inr b" and "v3_record (e_lm E) lay x = Inr hdr"
    and "akeys_for l = Inr (pak, mak)" and "length hdr \<le> META_CAP"
    and "\<exists>ob'. fst (lm_allocate (e_lm E) lay (w_mem s)) = Inr (Some ob')"
  shows "\<exists>s1 ob' s2. put_op E (Cell dk l) ob s = (Inr (), s1) \<and> get_sync E (Cell dk l) s1 = (Inr (Some ob'), s2) \<and>
    mo_value E s2 ob' = (lay, x)"
  by (rule raw_live.raw_put_get_hit [OF raw_liveI [OF assms(1-3)] assms(5,4,6-12)])

section \<open>Witnesses\<close>

lemma wit_room: "\<exists>ob'. fst (lm_allocate (e_lm (wit_env raw)) 2 (w_mem wit_world)) = Inr (Some ob')"
  by (simp add: wit_world_def mem_lm_def mm_allocate_def)

lemma wit_akeys: "\<exists>pak mak. akeys_for (Some 3) = Inr (pak, mak)"
  by (simp add: akeys_for_def akey_layer_def akey_meta_layer_def MAX_LAYER_def)

lemma wit_hit:
  "\<exists>s1 ob s2. put_op (wit_env raw) (wit_addr raw) 0 wit_world = (Inr (), s1) \<and>
     get_sync (wit_env raw) (wit_addr raw) s1 = (Inr (Some ob), s2)"
proof (cases raw)
  case False
  have "live_conn (wit_env False) mfiles mhandles mm_refs id mem_up"
    by (rule live_connI) (simp_all add: memlive.dfs_live_axioms memlm.lm_env_axioms)
  from live_conn.put_get_hit [OF this _ _ wit_value _ _ wit_room, of _ "''/k''"] False wit_v1 show ?thesis
    by (auto simp: wit_addr_def)
next
  case True
  obtain hdr where hdr: "v3_record mem_lm 2 [5, 6] = Inr hdr" "length hdr = 44" using wit_v3 by blast
  obtain pak mak where ak: "akeys_for (Some 3) = Inr (pak, mak)" using wit_akeys by blast
  have "raw_live (wit_env True) msv mav mm_refs id memo_up"
    by (rule raw_liveI) (simp_all add: memo_live.obj_live_axioms memlm.lm_env_axioms)
  from raw_live.raw_put_get_hit [OF this _ _ wit_value _ _ _ ak _ wit_room, of _ hdr "[1, 2]"] True wit_v1 hdr
  show ?thesis
    by (auto simp: wit_addr_def META_CAP_def HDR_CAP_def FIXED_SIZE_def)
qed

lemma wit_reach:
  assumes "put_op (wit_env raw) (wit_addr raw) 0 wit_world = (r, s1)"
  shows "conn_reach (wit_env raw) (wit_plan raw) wit_world s1"
  by (rule conn_reach.put [OF conn_reach.start _ assms]) (simp add: wit_plan_def wit_value)



theorem dfs_put_then_get_witness:
  "\<exists>s1 ob' s2. put_op (wit_env False) (Path ''/k'') 0 wit_world = (Inr (), s1) \<and>
     get_sync (wit_env False) (Path ''/k'') s1 = (Inr (Some ob'), s2) \<and> mo_value (wit_env False) s2 ob' = (2, [5, 6])"
  by (rule dfs_put_then_get [where fs = mfiles and hs = mhandles and refs = mm_refs and nbytes = id and up = mem_up,
        OF _ _ _ _ _ wit_value _ _ wit_room])
    (use wit_v1 in \<open>simp_all add: memlive.dfs_live_axioms memlm.lm_env_axioms\<close>)

theorem raw_put_then_get_witness:
  "\<exists>s1 ob' s2. put_op (wit_env True) (Cell [1, 2] (Some 3)) 0 wit_world = (Inr (), s1) \<and>
     get_sync (wit_env True) (Cell [1, 2] (Some 3)) s1 = (Inr (Some ob'), s2) \<and> mo_value (wit_env True) s2 ob' = (2, [5, 6])"
proof -
  obtain hdr where hdr: "v3_record mem_lm 2 [5, 6] = Inr hdr" "length hdr = 44" using wit_v3 by blast
  obtain pak mak where ak: "akeys_for (Some 3) = Inr (pak, mak)" using wit_akeys by blast
  show ?thesis
    by (rule raw_put_then_get [where sv = msv and av = mav and refs = mm_refs and nbytes = id and up = memo_up
          and hdr = hdr, OF _ _ _ _ _ wit_value _ _ _ ak _ wit_room])
      (use wit_v1 hdr in \<open>simp_all add: memo_live.obj_live_axioms memlm.lm_env_axioms META_CAP_def HDR_CAP_def FIXED_SIZE_def\<close>)
qed

end
