(* ===== verification/Conn_Pool.thy ===== *)
theory Conn_Pool
  imports Conn_Cache
begin

text \<open>
  \<^verbatim>\<open>lmcache_daos/connector.py\<close>, the asynchronous face of \<^verbatim>\<open>DaosConnector\<close>: the gate in front of the
  thread pool with its wedge detection, the batched operations, the health probe, start-up and
  shutdown. Times are real numbers, as \<^verbatim>\<open>time.monotonic()\<close> gives them.

  A task on the pool runs as one step; the order in which the submitted tasks finish is not under
  the program's control and is an argument, together with the times at which they are submitted and
  finish. The loop thread submits the tasks of a batch one after the other, and tasks may finish
  while it does.
\<close>

section \<open>The gate\<close>

record pool =
  inflight :: int
  last_done :: real

text \<open>\<^verbatim>\<open>_run\<close> up to the hand-over to the executor.\<close>

definition run_gate :: "int \<Rightarrow> real \<Rightarrow> real \<Rightarrow> pool \<Rightarrow> exn + pool" where
  "run_gate workers stall now p =
     (let stalled = now - last_done p in
      if workers \<le> inflight p \<and> stall < stalled then Inl (DaosPoolWedged (nat workers) stalled)
      else Inr (p\<lparr>inflight := inflight p + 1\<rparr>))"

text \<open>The \<^verbatim>\<open>finally\<close> of \<^verbatim>\<open>_tracked\<close>.\<close>

definition tracked_done :: "real \<Rightarrow> pool \<Rightarrow> pool" where
  "tracked_done now p = p\<lparr>inflight := inflight p - 1, last_done := now\<rparr>"

definition wedged_for :: "int \<Rightarrow> real \<Rightarrow> real \<Rightarrow> pool \<Rightarrow> real" where
  "wedged_for workers stall now p =
     (let stalled = now - last_done p in if workers \<le> inflight p \<and> stall < stalled then stalled else 0)"

section \<open>A gather over the pool\<close>

datatype pool_event = Submit real | Finish nat real

record gather =
  g_pool :: pool
  g_submitted :: nat
  g_finished :: "nat list"
  g_abort :: "exn option"

text \<open>
  \<^verbatim>\<open>asyncio.gather(*(self._run(...) for ...))\<close>: the generator submits task after task; an exception
  of the gate leaves the generator, so the rest is not submitted while the tasks already handed over
  go on. Events that cannot happen are ignored.
\<close>

definition gather_step :: "int \<Rightarrow> real \<Rightarrow> nat \<Rightarrow> pool_event \<Rightarrow> gather \<Rightarrow> gather" where
  "gather_step workers stall n ev g = (case ev of
     Submit t \<Rightarrow>
       if g_abort g \<noteq> None \<or> n \<le> g_submitted g then g
       else (case run_gate workers stall t (g_pool g) of
               Inl e \<Rightarrow> g\<lparr>g_abort := Some e\<rparr>
             | Inr p \<Rightarrow> g\<lparr>g_pool := p, g_submitted := g_submitted g + 1\<rparr>)
   | Finish i t \<Rightarrow>
       if i < g_submitted g \<and> i \<notin> set (g_finished g)
       then g\<lparr>g_pool := tracked_done t (g_pool g), g_finished := g_finished g @ [i]\<rparr>
       else g)"

definition gather_start :: "pool \<Rightarrow> gather" where
  "gather_start p = \<lparr>g_pool = p, g_submitted = 0, g_finished = [], g_abort = None\<rparr>"

definition gather_run :: "int \<Rightarrow> real \<Rightarrow> nat \<Rightarrow> pool_event list \<Rightarrow> pool \<Rightarrow> gather" where
  "gather_run workers stall n evs p = fold (gather_step workers stall n) evs (gather_start p)"

text \<open>Everything that was submitted has finished, and nothing is left to submit.\<close>

definition gather_over :: "nat \<Rightarrow> gather \<Rightarrow> bool" where
  "gather_over n g \<longleftrightarrow> length (g_finished g) = g_submitted g \<and> (g_abort g \<noteq> None \<or> g_submitted g = n)"

text \<open>
  The outcome, with the state when the last task has finished. With \<open>return_exceptions\<close> the results
  come by position; without, the first exception to happen is raised. A memory fault in a task is
  the end of the process, not a result.
\<close>

definition first_failure :: "nat list \<Rightarrow> (exn + 'a) list \<Rightarrow> exn option" where
  "first_failure order rs =
     (case filter (\<lambda>i. isl (rs ! i)) order of [] \<Rightarrow> None | i # _ \<Rightarrow> Some (projl (rs ! i)))"

definition gather_tasks ::
  "bool \<Rightarrow> int \<Rightarrow> real \<Rightarrow> pool_event list \<Rightarrow> ('s, 'a) io list \<Rightarrow> ('s \<times> pool, (exn + 'a) list) io" where
  "gather_tasks return_exceptions workers stall evs tasks = (\<lambda>(s, p).
     let g = gather_run workers stall (length tasks) evs p in
     case run_all (g_finished g) (take (g_submitted g) tasks) s of (rs, s') \<Rightarrow>
       ((if Inl MemoryFault \<in> set rs then Inl MemoryFault
         else case g_abort g of
           Some e \<Rightarrow> Inl e
         | None \<Rightarrow> if return_exceptions then Inr rs
                    else (case first_failure (g_finished g) rs of Some e \<Rightarrow> Inl e | None \<Rightarrow> Inr rs)),
        (s', g_pool g)))"

section \<open>Single operations through the gate\<close>

definition gated :: "int \<Rightarrow> real \<Rightarrow> real \<Rightarrow> real \<Rightarrow> ('s, 'a) io \<Rightarrow> ('s \<times> pool, 'a) io" where
  "gated workers stall t t' task =
     bind_io (\<lambda>(s, p). case run_gate workers stall t p of Inl e \<Rightarrow> (Inl e, (s, p)) | Inr p' \<Rightarrow> (Inr (), (s, p'))) (\<lambda>_.
     finally_io (on_fst task) (on_snd (put_s (tracked_done t'))))"

definition put :: "('d, 'o, 'lay, 'm) env \<Rightarrow> int \<Rightarrow> real \<Rightarrow> real \<Rightarrow> real \<Rightarrow> pykey \<Rightarrow> nat \<Rightarrow>
    (('d, 'o, 'm) world \<times> pool, unit) io" where
  "put E workers stall t t' key ob =
     bind_io (on_fst (prep_write E ob)) (\<lambda>(header, src, n).
     gated workers stall t t' (put_sync E (addr_of (e_raw E) key) header src n))"

definition get :: "('d, 'o, 'lay, 'm) env \<Rightarrow> int \<Rightarrow> real \<Rightarrow> real \<Rightarrow> real \<Rightarrow> pykey \<Rightarrow>
    (('d, 'o, 'm) world \<times> pool, nat option) io" where
  "get E workers stall t t' key = gated workers stall t t' (get_sync E (addr_of (e_raw E) key))"

definition exists_async :: "('d, 'o, 'lay, 'm) env \<Rightarrow> int \<Rightarrow> real \<Rightarrow> real \<Rightarrow> real \<Rightarrow> pykey \<Rightarrow>
    (('d, 'o, 'm) world \<times> pool, bool) io" where
  "exists_async E workers stall t t' key = gated workers stall t t' (exists_at E (addr_of (e_raw E) key))"

section \<open>Batches\<close>

fun add_member :: "bytes \<Rightarrow> nat \<times> int \<Rightarrow> (bytes \<times> (nat \<times> int) list) list \<Rightarrow> (bytes \<times> (nat \<times> int) list) list" where
  "add_member dk x [] = [(dk, [x])]"
| "add_member dk x ((dk', xs) # gs) = (if dk' = dk then (dk', xs @ [x]) # gs else (dk', xs) # add_member dk x gs)"

text \<open>\<^verbatim>\<open>_group_layers\<close>: an insertion-ordered dictionary; \<open>None\<close> when some address has no layer.\<close>

fun group_from :: "nat \<Rightarrow> addr list \<Rightarrow> (bytes \<times> (nat \<times> int) list) list \<Rightarrow> (bytes \<times> (nat \<times> int) list) list option" where
  "group_from i [] gs = Some gs"
| "group_from i (Cell dk (Some l) # as) gs = group_from (i + 1) as (add_member dk (i, l) gs)"
| "group_from i (_ # as) gs = None"

definition group_layers :: "addr list \<Rightarrow> (bytes \<times> (nat \<times> int) list) list option" where
  "group_layers addrs = group_from 0 addrs []"

text \<open>The groups to fold, if the batch is foldable and not empty.\<close>

definition fold_groups :: "('d, 'o, 'lay, 'm) env \<Rightarrow> addr list \<Rightarrow> (bytes \<times> (nat \<times> int) list) list option" where
  "fold_groups E addrs =
     (if e_raw E then (case group_layers addrs of Some (g # gs) \<Rightarrow> Some (g # gs) | _ \<Rightarrow> None) else None)"

definition scatter_group :: "(nat \<times> int) list \<times> (exn + nat option list) \<Rightarrow> nat option list \<Rightarrow> nat option list" where
  "scatter_group = (\<lambda>(members, got) res. case got of
     Inl _ \<Rightarrow> res
   | Inr mos \<Rightarrow> fold (\<lambda>((pos, _), mo) res. res[pos := mo]) (zip members mos) res)"

definition batched_get :: "('d, 'o, 'lay, 'm) env \<Rightarrow> int \<Rightarrow> real \<Rightarrow> pool_event list \<Rightarrow> pykey list \<Rightarrow>
    (('d, 'o, 'm) world \<times> pool, nat option list) io" where
  "batched_get E workers stall evs keys =
     (let paths = map (addr_of (e_raw E)) keys in
      case fold_groups E paths of
        Some order \<Rightarrow>
          bind_io (gather_tasks True workers stall evs
             (map (\<lambda>(dkey, members). get_raw_folded E dkey (map snd members)) order)) (\<lambda>gathered.
          ret (fold scatter_group (zip (map snd order) gathered) (replicate (length keys) None)))
      | None \<Rightarrow>
          bind_io (gather_tasks True workers stall evs (map (get_sync E) paths)) (\<lambda>gathered.
          ret (map (\<lambda>r. case r of Inl _ \<Rightarrow> None | Inr mo \<Rightarrow> mo) gathered)))"

definition batched_put :: "('d, 'o, 'lay, 'm) env \<Rightarrow> int \<Rightarrow> real \<Rightarrow> pool_event list \<Rightarrow> pykey list \<Rightarrow> nat list \<Rightarrow>
    (('d, 'o, 'm) world \<times> pool, unit) io" where
  "batched_put E workers stall evs keys obs =
     bind_io (on_fst (seq_io (map (prep_write E) obs))) (\<lambda>prepped.
     let addrs = map (addr_of (e_raw E)) keys in
     case fold_groups E addrs of
       Some groups \<Rightarrow>
         bind_io (gather_tasks False workers stall evs
            (map (\<lambda>(dkey, members). put_raw_folded E dkey (map (\<lambda>(pos, layer). (layer, prepped ! pos)) members)) groups))
           (\<lambda>_. ret ())
     | None \<Rightarrow>
         bind_io (gather_tasks False workers stall evs
            (map (\<lambda>(a, (h, src, n)). put_sync E a h src n) (zip addrs prepped))) (\<lambda>_. ret ()))"

definition batched_get_non_blocking :: "('d, 'o, 'lay, 'm) env \<Rightarrow> int \<Rightarrow> real \<Rightarrow> pool_event list \<Rightarrow> pykey list \<Rightarrow>
    (('d, 'o, 'm) world \<times> pool, nat list) io" where
  "batched_get_non_blocking E workers stall evs keys =
     bind_io (gather_tasks False workers stall evs (map (get_sync E \<circ> addr_of (e_raw E)) keys)) (\<lambda>rs.
     let res = map projr rs; prefix = leading_hits res in
     bind_io (on_fst (release_all E (List.map_filter id (drop (length prefix) res)))) (\<lambda>_.
     ret prefix))"

section \<open>Listing\<close>

definition list_objects :: "('d, 'o, 'lay, 'm) env \<Rightarrow> int \<Rightarrow> real \<Rightarrow> real \<Rightarrow> real \<Rightarrow> nat \<Rightarrow> 'd \<Rightarrow> pool \<Rightarrow>
    ((exn + string list) \<times> 'd \<times> pool) option" where
  "list_objects E workers stall t t' fuel d p =
     (if e_raw E then Some (Inl NotImplementedError, d, p)
      else (case run_gate workers stall t p of
              Inl e \<Rightarrow> Some (Inl e, d, p)
            | Inr p' \<Rightarrow> (case listdir (e_dfs E) fuel ''/'' None d of
                            None \<Rightarrow> None
                          | Some (r, d') \<Rightarrow> Some (r, d', tracked_done t' p'))))"

section \<open>Health\<close>

text \<open>
  \<open>ping_inflight\<close> is the flag of the object; \<open>blocked\<close> counts the threads of the ping pool that are
  still inside the library. The probe either comes back before the timeout, with its result, or not.
\<close>

record ping_state =
  ping_inflight :: bool
  blocked :: nat

definition PING_UNKNOWN_ERROR :: int where "PING_UNKNOWN_ERROR = 1"
definition PING_TIMEOUT_ERROR :: int where "PING_TIMEOUT_ERROR = - 1"

definition ping_code :: "exn + unit \<Rightarrow> int" where
  "ping_code r = (case r of
     Inr _ \<Rightarrow> 0
   | Inl e \<Rightarrow> if is_DaosError e
              then (case exn_rc e of Some rc \<Rightarrow> if rc \<noteq> 0 then rc else PING_UNKNOWN_ERROR | None \<Rightarrow> PING_UNKNOWN_ERROR)
              else PING_UNKNOWN_ERROR)"

text \<open>
  \<open>outcome\<close> is \<open>None\<close> when the timeout strikes first, else what the probe did. A probe that returns
  clears the flag itself; one that timed out leaves it set.
\<close>

definition ping :: "int \<Rightarrow> real \<Rightarrow> real \<Rightarrow> pool \<Rightarrow> (exn + unit) option \<Rightarrow> ping_state \<Rightarrow> int \<times> ping_state" where
  "ping workers stall now p outcome st =
     (if wedged_for workers stall now p \<noteq> 0 then (EBUSY, st)
      else if ping_inflight st then (PING_TIMEOUT_ERROR, st)
      else let st1 = st\<lparr>ping_inflight := True, blocked := blocked st + 1\<rparr> in
           case outcome of
             None \<Rightarrow> (PING_TIMEOUT_ERROR, st1)
           | Some r \<Rightarrow> (ping_code r, st1\<lparr>ping_inflight := False, blocked := blocked st1 - 1\<rparr>))"

text \<open>The \<^verbatim>\<open>finally\<close> of \<^verbatim>\<open>_ping_sync\<close>, when a probe comes back after its timeout.\<close>

definition ping_done :: "ping_state \<Rightarrow> ping_state" where
  "ping_done st = st\<lparr>ping_inflight := False, blocked := blocked st - 1\<rparr>"

inductive ping_reach :: "ping_state \<Rightarrow> bool" where
  start: "ping_reach \<lparr>ping_inflight = False, blocked = 0\<rparr>"
| ping: "ping_reach st \<Longrightarrow> ping_reach (snd (ping workers stall now p outcome st))"
| returns: "ping_reach st \<Longrightarrow> 0 < blocked st \<Longrightarrow> ping_reach (ping_done st)"

section \<open>Start-up and shutdown\<close>

record ('d, 'o) backends =
  b_dfs :: "'d dfssys"
  b_obj :: "'o objsys"

definition on_bdfs :: "('d dfssys, 'a) io \<Rightarrow> (('d, 'o) backends, 'a) io" where
  "on_bdfs m = (\<lambda>s. case m (b_dfs s) of (r, d') \<Rightarrow> (r, s\<lparr>b_dfs := d'\<rparr>))"

definition on_bobj :: "('o objsys, 'a) io \<Rightarrow> (('d, 'o) backends, 'a) io" where
  "on_bobj m = (\<lambda>s. case m (b_obj s) of (r, d') \<Rightarrow> (r, s\<lparr>b_obj := d'\<rparr>))"

text \<open>Where \<^verbatim>\<open>__init__\<close> takes the target from.\<close>

definition pick_url :: "string option \<Rightarrow> string option \<Rightarrow> exn + string" where
  "pick_url url remote_url = (case url of
     Some u \<Rightarrow> Inr u
   | None \<Rightarrow> (case remote_url of None \<Rightarrow> Inl ValueError | Some u \<Rightarrow> if u = [] then Inl ValueError else Inr u))"

text \<open>\<^verbatim>\<open>_warm_up\<close>: \<open>nchunks\<close> is \<^verbatim>\<open>DAOS_PROBE_CHUNKS\<close>, \<open>None\<close> when it does not read as a number.\<close>

definition connector_warm_up ::
  "'d libdfs \<Rightarrow> bool \<Rightarrow> int option \<Rightarrow> string \<Rightarrow> nat list \<Rightarrow> nat list \<Rightarrow> ('d, unit) io" where
  "connector_warm_up L raw nchunks probe_path sched1 sched2 =
     (let n = (case nchunks of None \<Rightarrow> 64 | Some k \<Rightarrow> k) in
      if n \<le> 0 then ret ()
      else swallow (if raw then ret ()
        else bind_io (warm_up_all_targets L probe_path (nat n) (Some sched1) (Some sched2) (4 * 2 ^ 20)) (\<lambda>_. ret ())))"

text \<open>
  \<^verbatim>\<open>__init__\<close>: \<open>url\<close> is the argument, \<open>remote_url\<close> the field of the configuration, \<open>workers\<close> the result
  of reading \<^verbatim>\<open>DAOS_WORKERS\<close>. The result says which backend is in use and how many workers it has;
  a thread pool refuses less than one. The warm-up comes last.
\<close>

definition connector_init ::
  "'d libdfs \<Rightarrow> 'o libobj \<Rightarrow> bool \<Rightarrow> bool \<Rightarrow> string option \<Rightarrow> string option \<Rightarrow> string \<Rightarrow> exn + int \<Rightarrow> int \<Rightarrow> int \<Rightarrow>
    int option \<Rightarrow> string \<Rightarrow> nat list \<Rightarrow> nat list \<Rightarrow> (('d, 'o) backends, bool \<times> int) io" where
  "connector_init L OL has_lmcache has_backend url remote_url forced workers mflags sflags nchunks probe_path sched1 sched2 =
     (if \<not> has_lmcache then raise RuntimeError
      else if \<not> has_backend then raise ValueError
      else
      bind_io (of_sum (pick_url url remote_url)) (\<lambda>u.
      bind_io (of_sum (parse_daos_url u)) (\<lambda>(pool, cont, sysname).
      bind_io (on_bobj (on_obj (choose_backend OL pool cont sysname forced))) (\<lambda>raw.
      bind_io (if raw then bind_io (on_bobj (ObjSys_init OL pool cont sysname 1 0)) (\<lambda>_. ret ())
               else on_bdfs (DfsSys_init L pool cont sysname mflags sflags)) (\<lambda>_.
      bind_io (of_sum workers) (\<lambda>w.
      if w \<le> 0 then raise ValueError
      else bind_io (on_bdfs (on_lib (connector_warm_up L raw nchunks probe_path sched1 sched2))) (\<lambda>_.
           ret (raw, w))))))))"

definition connector_close :: "'d libdfs \<Rightarrow> 'o libobj \<Rightarrow> bool \<Rightarrow> (('d, 'o) backends, unit) io" where
  "connector_close L OL raw = swallow (if raw then on_bobj (ObjSys_close OL) else on_bdfs (DfsSys_close L))"

section \<open>Accounting of the gate\<close>

definition gather_ok :: "pool \<Rightarrow> gather \<Rightarrow> bool" where
  "gather_ok p g \<longleftrightarrow> distinct (g_finished g) \<and> set (g_finished g) \<subseteq> {..<g_submitted g} \<and>
     inflight (g_pool g) = inflight p + int (g_submitted g) - int (length (g_finished g))"

lemma gather_step_ok: "gather_ok p g \<Longrightarrow> gather_ok p (gather_step workers stall n ev g)"
  by (auto simp: gather_ok_def gather_step_def run_gate_def tracked_done_def Let_def less_Suc_eq
      split: pool_event.splits sum.splits if_splits)

lemma gather_fold_ok: "gather_ok p g \<Longrightarrow> gather_ok p (fold (gather_step workers stall n) evs g)"
  by (induction evs arbitrary: g) (auto intro: gather_step_ok)

lemma gather_run_ok: "gather_ok p (gather_run workers stall n evs p)"
  unfolding gather_run_def by (rule gather_fold_ok) (simp add: gather_ok_def gather_start_def)

text \<open>The finish order of a gather that is over is a schedule of the tasks that were submitted.\<close>

lemma gather_schedule:
  assumes "gather_over n (gather_run workers stall n evs p)"
  shows "is_schedule (g_submitted (gather_run workers stall n evs p)) (g_finished (gather_run workers stall n evs p))"
proof -
  let ?g = "gather_run workers stall n evs p"
  from gather_run_ok [of p workers stall n evs] have d: "distinct (g_finished ?g)" and s: "set (g_finished ?g) \<subseteq> {..<g_submitted ?g}"
    by (auto simp: gather_ok_def)
  have "card (set (g_finished ?g)) = card {..<g_submitted ?g}"
    using assms d by (simp add: gather_over_def distinct_card)
  with s have "set (g_finished ?g) = {..<g_submitted ?g}" by (simp add: card_subset_eq)
  with d show ?thesis by (simp add: is_schedule_def)
qed

lemma gather_fold_submitted:
  "g_submitted g \<le> n \<Longrightarrow> g_submitted (fold (gather_step workers stall n) evs g) \<le> n"
  by (induction evs arbitrary: g) (auto simp: gather_step_def split: pool_event.splits sum.splits)

lemma gather_submitted: "g_submitted (gather_run workers stall n evs p) \<le> n"
  unfolding gather_run_def by (rule gather_fold_submitted) (simp add: gather_start_def)

text \<open>
  the count of calls in flight is exact: at any point of a batch it has grown by the calls handed
  to the pool and shrunk by those that came back, also when calls fail and when the gate refuses the
  rest of the batch. Once every call is back, the count is what it was before.
\<close>

theorem gather_accounting:
  "inflight (g_pool (gather_run workers stall n evs p)) =
     inflight p + int (g_submitted (gather_run workers stall n evs p)) - int (length (g_finished (gather_run workers stall n evs p)))"
  using gather_run_ok [of p workers stall n evs] by (simp add: gather_ok_def)

text \<open>
  A batch of submissions with nothing finishing in between: each passes while there is a free worker,
  whatever the time of the last completion.
\<close>

lemma submit_burst:
  assumes "inflight (g_pool g) + int k \<le> workers" and "g_abort g = None" and "g_submitted g + k \<le> n"
  shows "fold (gather_step workers stall n) (replicate k (Submit now)) g =
    g\<lparr>g_pool := (g_pool g)\<lparr>inflight := inflight (g_pool g) + int k\<rparr>, g_submitted := g_submitted g + k\<rparr>"
  using assms
proof (induction k arbitrary: g)
  case (Suc k)
  then have "gather_step workers stall n (Submit now) g =
      g\<lparr>g_pool := (g_pool g)\<lparr>inflight := inflight (g_pool g) + 1\<rparr>, g_submitted := g_submitted g + 1\<rparr>"
    by (simp add: gather_step_def run_gate_def)
  with Suc.IH [of "gather_step workers stall n (Submit now) g"] Suc.prems show ?case
    by (simp add: algebra_simps)
qed simp

text \<open>
  C40: a burst of more calls than workers after an idle period longer than the stall limit is refused
  as a wedged pool, although no call was in flight and none is stuck: the time of the last completion
  is not refreshed when the pool is idle.
\<close>

theorem idle_burst_reported_as_wedge:
  assumes "0 \<le> workers" and "inflight p = 0" and "stall < now - last_done p" and "nat workers < n"
  shows "g_abort (gather_run workers stall n (replicate (nat workers + 1) (Submit now)) p) =
    Some (DaosPoolWedged (nat workers) (now - last_done p))"
proof -
  let ?g = "fold (gather_step workers stall n) (replicate (nat workers) (Submit now)) (gather_start p)"
  have g: "?g = (gather_start p)\<lparr>g_pool := p\<lparr>inflight := workers\<rparr>, g_submitted := nat workers\<rparr>"
    using submit_burst [of "gather_start p" "nat workers" workers n stall now] assms by (simp add: gather_start_def)
  have "replicate (nat workers + 1) (Submit now) = replicate (nat workers) (Submit now) @ [Submit now]"
    by (simp add: replicate_append_same)
  then have "gather_run workers stall n (replicate (nat workers + 1) (Submit now)) p = gather_step workers stall n (Submit now) ?g"
    by (simp add: gather_run_def)
  then show ?thesis
    using assms unfolding g by (simp add: gather_step_def run_gate_def gather_start_def Let_def)
qed

theorem idle_burst_reported_as_wedge_witness:
  "g_abort (gather_run 16 60 17 (replicate 17 (Submit 100)) \<lparr>inflight = 0, last_done = 0\<rparr>) =
    Some (DaosPoolWedged 16 100)"
  using idle_burst_reported_as_wedge [of 16 "\<lparr>inflight = 0, last_done = 0\<rparr>" 60 100 17] by simp

section \<open>Health\<close>

lemma ping_reach_inv: "ping_reach st \<Longrightarrow> blocked st = (if ping_inflight st then 1 else 0)"
proof (induction rule: ping_reach.induct)
  case (ping st workers stall now p outcome)
  then show ?case by (auto simp: ping_def Let_def split: option.splits)
next
  case (returns st)
  then show ?case by (auto simp: ping_done_def split: if_splits)
qed simp

text \<open>
  C30: however many probes are sent and however long the outage lasts, at most one thread is ever
  blocked in the library on behalf of the health check.
\<close>

theorem ping_blocks_one_thread:
  assumes "ping_reach st"
  shows "blocked st \<le> 1"
  using ping_reach_inv [OF assms] by simp

theorem ping_blocks_one_thread_witness:
  "ping_reach (snd (ping 16 60 0 \<lparr>inflight = 0, last_done = 0\<rparr> None \<lparr>ping_inflight = False, blocked = 0\<rparr>)) \<and>
   blocked (snd (ping 16 60 0 \<lparr>inflight = 0, last_done = 0\<rparr> None \<lparr>ping_inflight = False, blocked = 0\<rparr>)) = 1 \<and>
   (1 :: nat) \<le> 1"
proof -
  have r: "ping_reach (snd (ping 16 60 0 \<lparr>inflight = 0, last_done = 0\<rparr> None \<lparr>ping_inflight = False, blocked = 0\<rparr>))"
    by (rule ping_reach.ping [OF ping_reach.start])
  have "blocked (snd (ping 16 60 0 \<lparr>inflight = 0, last_done = 0\<rparr> None \<lparr>ping_inflight = False, blocked = 0\<rparr>)) = 1"
    by (simp add: ping_def wedged_for_def Let_def)
  with r ping_blocks_one_thread [OF r] show ?thesis by simp
qed

text \<open>
  the health check reports success exactly when the probe came back in time without an error, no
  earlier probe is stuck and the pool is not wedged; every other answer is a non-zero code.
\<close>

theorem ping_zero_iff:
  "fst (ping workers stall now p outcome st) = 0 \<longleftrightarrow>
     wedged_for workers stall now p = 0 \<and> \<not> ping_inflight st \<and> outcome = Some (Inr ())"
  by (auto simp: ping_def Let_def ping_code_def PING_TIMEOUT_ERROR_def PING_UNKNOWN_ERROR_def EBUSY_def
      split: option.splits sum.splits if_splits)

end
