(* ===== verification/Conn_Stream.thy ===== *)
theory Conn_Stream
  imports Conn_Pool
begin

text \<open>
  \<^verbatim>\<open>lmcache_daos/streaming.py\<close> and \<^verbatim>\<open>DaosConnector.stream_get\<close>: results in completion order, with a
  bound on the work in flight. The generator is a state machine: a worker finishes some task, the
  event loop wakes the generator with the set of finished futures, and the generator delivers them one
  by one, refilling its window before each delivery. The set that \<^verbatim>\<open>asyncio.wait\<close> returns is
  iterated in an unspecified order, so it is an arbitrary ordering here; a future is named by the
  position of its item. A consumer that stops early is not followed.
\<close>

section \<open>The generator\<close>

record 'a stream =
  st_next :: nat
  st_exhausted :: bool
  st_pending :: "nat list"
  st_results :: "nat \<Rightarrow> (exn + 'a) option"
  st_batch :: "nat list"
  st_out :: "(nat \<times> (exn + 'a)) list"

definition submit_one :: "nat \<Rightarrow> 'a stream \<Rightarrow> 'a stream" where
  "submit_one n st =
     (if st_next st < n then st\<lparr>st_next := st_next st + 1, st_pending := st_pending st @ [st_next st]\<rparr>
      else st\<lparr>st_exhausted := True\<rparr>)"

text \<open>The first loop: fill the window.\<close>

function fill :: "nat \<Rightarrow> int \<Rightarrow> 'a stream \<Rightarrow> 'a stream" where
  "fill n max_inflight st =
     (if int (length (st_pending st)) < max_inflight \<and> \<not> st_exhausted st
      then fill n max_inflight (submit_one n st) else st)"
  by pat_completeness auto
termination
  by (relation "measure (\<lambda>(n, m, st). (n - st_next st) + (if st_exhausted st then 0 else 1))")
    (auto simp: submit_one_def)

declare fill.simps [simp del]

definition stream_init :: "'a stream" where
  "stream_init = \<lparr>st_next = 0, st_exhausted = False, st_pending = [], st_results = (\<lambda>_. None), st_batch = [], st_out = []\<rparr>"

definition stream_start :: "nat \<Rightarrow> int \<Rightarrow> exn + 'a stream" where
  "stream_start n max_inflight =
     (if max_inflight < 1 then Inl ValueError else Inr (fill n max_inflight stream_init))"

text \<open>One turn of the inner loop: take the future out, refill, then yield.\<close>

definition deliver :: "nat \<Rightarrow> int \<Rightarrow> nat \<Rightarrow> exn + 'a \<Rightarrow> 'a stream \<Rightarrow> 'a stream" where
  "deliver n max_inflight i r st =
     (let st1 = st\<lparr>st_pending := remove1 i (st_pending st)\<rparr>;
          st2 = (if \<not> st_exhausted st1 \<and> int (length (st_pending st1)) < max_inflight then submit_one n st1 else st1)
      in st2\<lparr>st_batch := tl (st_batch st2), st_out := st_out st2 @ [(i, r)]\<rparr>)"

text \<open>
  The steps. A task that faults memory ends the process, so it never becomes a result.
\<close>

inductive stream_step :: "('s, 'a) io list \<Rightarrow> int \<Rightarrow> 'a stream \<times> 's \<Rightarrow> 'a stream \<times> 's \<Rightarrow> bool"
  for tasks max_inflight where
  finish: "i \<in> set (st_pending st) \<Longrightarrow> st_results st i = None \<Longrightarrow> (tasks ! i) s = (r, s') \<Longrightarrow> r \<noteq> Inl MemoryFault \<Longrightarrow>
    stream_step tasks max_inflight (st, s) (st\<lparr>st_results := (st_results st)(i \<mapsto> r)\<rparr>, s')"
| wake: "st_batch st = [] \<Longrightarrow> done \<noteq> [] \<Longrightarrow> distinct done \<Longrightarrow>
    set done = {i \<in> set (st_pending st). st_results st i \<noteq> None} \<Longrightarrow>
    stream_step tasks max_inflight (st, s) (st\<lparr>st_batch := done\<rparr>, s)"
| deliver: "st_batch st = i # rest \<Longrightarrow> st_results st i = Some r \<Longrightarrow>
    stream_step tasks max_inflight (st, s) (deliver (length tasks) max_inflight i r st, s)"

inductive stream_steps :: "('s, 'a) io list \<Rightarrow> int \<Rightarrow> nat \<Rightarrow> 'a stream \<times> 's \<Rightarrow> 'a stream \<times> 's \<Rightarrow> bool"
  for tasks max_inflight where
  none: "stream_steps tasks max_inflight 0 c c"
| more: "stream_steps tasks max_inflight k c c' \<Longrightarrow> stream_step tasks max_inflight c' c'' \<Longrightarrow>
    stream_steps tasks max_inflight (Suc k) c c''"

section \<open>Its invariant\<close>

text \<open>
  Every item taken so far is either pending or delivered, once; the window is never over its bound
  and, while there are items left, never under it; what is being delivered is pending and finished.
\<close>

definition stream_inv :: "nat \<Rightarrow> int \<Rightarrow> 'a stream \<Rightarrow> bool" where
  "stream_inv n m st \<longleftrightarrow>
     distinct (map fst (st_out st) @ st_pending st) \<and>
     set (map fst (st_out st) @ st_pending st) = {..<st_next st} \<and> st_next st \<le> n \<and>
     int (length (st_pending st)) \<le> m \<and>
     (int (length (st_pending st)) < m \<longrightarrow> st_next st = n) \<and>
     (st_exhausted st \<longrightarrow> st_next st = n) \<and>
     distinct (st_batch st) \<and> set (st_batch st) \<subseteq> {i \<in> set (st_pending st). st_results st i \<noteq> None}"

lemma fill_inv:
  assumes "distinct (map fst (st_out st) @ st_pending st)"
    and "set (map fst (st_out st) @ st_pending st) = {..<st_next st}" and "st_next st \<le> n"
    and "int (length (st_pending st)) \<le> m" and "st_batch st = []" and "st_exhausted st \<longrightarrow> st_next st = n"
  shows "stream_inv n m (fill n m st)"
  using assms
proof (induction n m st rule: fill.induct)
  case (1 n m st)
  show ?case
  proof (cases "int (length (st_pending st)) < m \<and> \<not> st_exhausted st")
    case True
    have "stream_inv n m (fill n m (submit_one n st))"
      by (rule "1.IH" [OF True]) (use "1.prems" True in \<open>auto simp: submit_one_def\<close>)
    then show ?thesis using True by (subst fill.simps) simp
  next
    case False
    with "1.prems" show ?thesis by (subst fill.simps) (auto simp: stream_inv_def)
  qed
qed

lemma stream_start_inv: "stream_start n m = Inr st \<Longrightarrow> stream_inv n m st"
  by (auto simp: stream_start_def stream_init_def split: if_splits intro!: fill_inv)

lemma stream_inv_pending:
  assumes "stream_inv n m st" and "i \<in> set (st_pending st)"
  shows "i < n"
proof -
  have "i \<in> set (map fst (st_out st) @ st_pending st)" using assms(2) by simp
  with assms(1) have "i < st_next st" unfolding stream_inv_def by blast
  with assms(1) show ?thesis by (simp add: stream_inv_def)
qed

lemma submit_one_fields [simp]:
  "st_out (submit_one n st) = st_out st" "st_batch (submit_one n st) = st_batch st"
  "st_results (submit_one n st) = st_results st"
  by (simp_all add: submit_one_def)

lemma deliver_inv:
  assumes inv: "stream_inv n m st" and b: "st_batch st = i # rest"
  shows "stream_inv n m (deliver n m i r st)"
proof -
  define pend where "pend = remove1 i (st_pending st)"
  have i: "i \<in> set (st_pending st)" and i': "i \<notin> fst ` set (st_out st)" and d: "distinct (st_pending st)"
    using inv b by (auto simp: stream_inv_def)
  then have len: "length (st_pending st) = Suc (length pend)" and pend: "set pend = set (st_pending st) - {i}" "distinct pend"
    using length_pos_if_in_set [of i "st_pending st"] by (auto simp: pend_def length_remove1)
  have le: "int (length pend) < m" and n: "st_next st \<le> n" using inv len by (auto simp: stream_inv_def)
  have all: "insert i (fst ` set (st_out st) \<union> set pend) = {..<st_next st}"
    using inv i pend by (auto simp: stream_inv_def)
  have dist: "distinct (map fst (st_out st @ [(i, r)]) @ pend)"
    using inv i' pend by (auto simp: stream_inv_def)
  have batch: "distinct rest" "set rest \<subseteq> {j \<in> set pend. st_results st j \<noteq> None}"
    using inv b pend by (auto simp: stream_inv_def)
  have shape: "deliver n m i r st =
     (let st1 = st\<lparr>st_pending := pend\<rparr>; st2 = (if \<not> st_exhausted st then submit_one n st1 else st1)
      in st2\<lparr>st_batch := rest, st_out := st_out st @ [(i, r)]\<rparr>)"
    using le [unfolded pend_def] b by (simp add: deliver_def Let_def pend_def)
  have ex: "st_exhausted st \<longrightarrow> st_next st = n" using inv by (simp add: stream_inv_def)
  consider "st_exhausted st" "st_next st = n" | "\<not> st_exhausted st" "st_next st < n" | "\<not> st_exhausted st" "st_next st = n"
    using ex n by (cases "st_exhausted st"; cases "st_next st < n") simp_all
  then show ?thesis
  proof cases
    case 2
    have "st_next st \<notin> insert i (fst ` set (st_out st) \<union> set pend)" using all by simp
    moreover have "insert i (fst ` set (st_out st) \<union> insert (st_next st) (set pend)) = {..<Suc (st_next st)}"
      unfolding lessThan_Suc all [symmetric] by blast
    moreover have "int (length pend) + 1 < m \<longrightarrow> Suc (st_next st) = n"
      using inv len 2 by (auto simp: stream_inv_def)
    ultimately show ?thesis using 2 le dist batch
      unfolding stream_inv_def shape Let_def by (intro conjI) (simp_all add: submit_one_def, auto)
  next
    case 1
    then show ?thesis using all le dist batch
      unfolding stream_inv_def shape Let_def by (intro conjI) (simp_all add: submit_one_def)
  next
    case 3
    then show ?thesis using all le dist batch
      unfolding stream_inv_def shape Let_def by (intro conjI) (simp_all add: submit_one_def)
  qed
qed

lemma stream_step_inv:
  assumes "stream_step tasks m c c'" and "stream_inv (length tasks) m (fst c)"
  shows "stream_inv (length tasks) m (fst c')"
  using assms
proof cases
  case (deliver st i rest r s)
  with assms(2) deliver_inv show ?thesis by (metis fst_conv)
qed (use assms(2) in \<open>auto simp: stream_inv_def\<close>)

lemma stream_steps_inv:
  assumes "stream_steps tasks m k c c'" and "stream_inv (length tasks) m (fst c)"
  shows "stream_inv (length tasks) m (fst c')"
  using assms by induction (auto intro: stream_step_inv)

text \<open>What was delivered for a position is what its task returned.\<close>

lemma stream_steps_out:
  assumes "stream_steps tasks m k c c'" and "\<forall>(i, r) \<in> set (st_out (fst c)). st_results (fst c) i = Some r"
    and "stream_inv (length tasks) m (fst c)"
  shows "\<forall>(i, r) \<in> set (st_out (fst c')). st_results (fst c') i = Some r"
  using assms
proof induction
  case (more k c c' c'')
  have inv: "stream_inv (length tasks) m (fst c')" by (rule stream_steps_inv [OF more.hyps(1) more.prems(2)])
  from more.hyps(2) more.IH [OF more.prems] inv show ?case
  proof cases
    case (finish i st s r s')
    with inv have "i \<notin> fst ` set (st_out st)" by (auto simp: stream_inv_def)
    with finish more.IH [OF more.prems] show ?thesis by (fastforce simp: image_iff)
  qed (auto simp: deliver_def Let_def)
qed simp

lemma stream_start_out: "stream_start n m = Inr st \<Longrightarrow> st_out st = [] \<and> st_results st = (\<lambda>_. None) \<and> 1 \<le> m"
proof -
  have "st_out (fill n m st) = st_out st \<and> st_results (fill n m st) = st_results st" for st :: "'a stream"
    by (induction n m st rule: fill.induct) (subst (1 2) fill.simps, simp)
  then show "stream_start n m = Inr st \<Longrightarrow> st_out st = [] \<and> st_results st = (\<lambda>_. None) \<and> 1 \<le> m"
    by (auto simp: stream_start_def stream_init_def split: if_splits)
qed

section \<open>Delivery\<close>

lemma stream_stuck:
  assumes inv: "stream_inv (length tasks) m st" and m: "1 \<le> m"
    and ok: "\<And>i s. i < length tasks \<Longrightarrow> fst ((tasks ! i) s) \<noteq> Inl MemoryFault"
    and stuck: "\<And>c. \<not> stream_step tasks m (st, s) c"
  shows "st_pending st = [] \<and> st_next st = length tasks"
proof -
  have "st_pending st = []"
  proof (rule ccontr)
    assume ne: "st_pending st \<noteq> []"
    have fin: "st_results st i \<noteq> None" if "i \<in> set (st_pending st)" for i
    proof
      assume "st_results st i = None"
      moreover have "i < length tasks" by (rule stream_inv_pending [OF inv that])
      ultimately show False
        using that ok [of i s] stuck stream_step.finish [of i st tasks s "fst ((tasks ! i) s)" "snd ((tasks ! i) s)" m] by simp
    qed
    show False
    proof (cases "st_batch st")
      case Nil
      with ne fin inv stuck stream_step.wake [of st "st_pending st" tasks m s] show False
        by (auto simp: stream_inv_def)
    next
      case (Cons i rest)
      with inv obtain r where "st_results st i = Some r" by (auto simp: stream_inv_def)
      from stream_step.deliver [OF Cons this, of tasks m s] stuck show False by blast
    qed
  qed
  with inv m show ?thesis by (simp add: stream_inv_def)
qed


text \<open>The steps taken so far are paid for by the tasks finished and the results delivered.\<close>

lemma stream_steps_cost:
  assumes "stream_steps tasks m k c c'" and "stream_inv (length tasks) m (fst c)"
    and "st_results (fst c) = (\<lambda>_. None)" and "st_out (fst c) = []" and "st_batch (fst c) = []"
  shows "finite (dom (st_results (fst c'))) \<and> dom (st_results (fst c')) \<subseteq> {..<length tasks} \<and>
    k \<le> card (dom (st_results (fst c'))) + 2 * length (st_out (fst c')) + (if st_batch (fst c') = [] then 0 else 1)"
  using assms
proof induction
  case (more k c c' c'')
  have inv: "stream_inv (length tasks) m (fst c')" by (rule stream_steps_inv [OF more.hyps(1) more.prems(1)])
  note IH = more.IH [OF more.prems]
  from more.hyps(2) show ?case
  proof cases
    case (finish i st s r s')
    then have "i < length tasks" "i \<notin> dom (st_results st)" using stream_inv_pending [OF inv] by auto
    moreover have "dom (st_results (fst c'')) = insert i (dom (st_results st))" using finish by simp
    moreover have "st_out (fst c'') = st_out st" "st_batch (fst c'') = st_batch st" using finish by simp_all
    ultimately show ?thesis using IH finish(1) by simp
  next
    case (wake st "done" s)
    with IH show ?thesis by simp
  next
    case (deliver st i rest r s)
    have "st_results (deliver (length tasks) m i r st) = st_results st"
      "length (st_out (deliver (length tasks) m i r st)) = Suc (length (st_out st))"
      by (simp_all add: deliver_def Let_def)
    with deliver IH show ?thesis by simp
  qed
qed simp

text \<open>
  C23: the stream ends: over \<open>n\<close> items it takes at most \<open>3 * n\<close> steps.
\<close>

theorem stream_terminates:
  assumes "stream_start (length tasks) m = Inr st0" and "stream_steps tasks m k (st0, s0) (st, s)"
  shows "k \<le> 3 * length tasks"
proof -
  have inv0: "stream_inv (length tasks) m st0" by (rule stream_start_inv [OF assms(1)])
  have inv: "stream_inv (length tasks) m st" using stream_steps_inv [OF assms(2)] inv0 by simp
  have out: "st_out st0 = []" "st_results st0 = (\<lambda>_. None)" using stream_start_out [OF assms(1)] by simp_all
  then have "st_batch st0 = []" using inv0 by (auto simp: stream_inv_def)
  with stream_steps_cost [OF assms(2)] inv0 out
  have k: "k \<le> card (dom (st_results st)) + 2 * length (st_out st) + (if st_batch st = [] then 0 else 1)"
    and sub: "dom (st_results st) \<subseteq> {..<length tasks}" by simp_all
  have "card (dom (st_results st)) \<le> length tasks" using card_mono [OF _ sub] by simp
  moreover have "length (st_out st) + length (st_pending st) = card {..<st_next st}"
    using inv distinct_card [of "map fst (st_out st) @ st_pending st"] by (simp add: stream_inv_def)
  moreover have "st_batch st \<noteq> [] \<longrightarrow> st_pending st \<noteq> []" using inv by (auto simp: stream_inv_def)
  moreover have "st_next st \<le> length tasks" using inv by (simp add: stream_inv_def)
  ultimately show ?thesis using k by (cases "st_pending st") (auto split: if_splits)
qed

text \<open>
  at no time are more than \<open>max_inflight\<close> tasks submitted and not delivered, and as long as items
  are left the window is full: each delivery is preceded by its refill.
\<close>

theorem stream_window:
  assumes "stream_start (length tasks) m = Inr st0" and "stream_steps tasks m k (st0, s0) (st, s)"
  shows "int (length (st_pending st)) \<le> m \<and> (st_next st < length tasks \<longrightarrow> int (length (st_pending st)) = m)"
  using stream_steps_inv [OF assms(2)] stream_start_inv [OF assms(1)] by (auto simp: stream_inv_def)

section \<open>A stream that delivers out of order\<close>

definition wit_tasks :: "(unit, nat) io list" where
  "wit_tasks = [ret 7, ret 8]"

definition wit_state :: "bool \<Rightarrow> nat list \<Rightarrow> (nat \<Rightarrow> (exn + nat) option) \<Rightarrow> nat list \<Rightarrow> (nat \<times> (exn + nat)) list \<Rightarrow> nat stream" where
  "wit_state e p r b out = \<lparr>st_next = 2, st_exhausted = e, st_pending = p, st_results = r, st_batch = b, st_out = out\<rparr>"

lemma wit_state_fields [simp]:
  "st_next (wit_state e p r b out) = 2" "st_exhausted (wit_state e p r b out) = e"
  "st_pending (wit_state e p r b out) = p" "st_results (wit_state e p r b out) = r"
  "st_batch (wit_state e p r b out) = b" "st_out (wit_state e p r b out) = out"
  by (simp_all add: wit_state_def)

lemma wit_finish:
  "i \<in> set p \<Longrightarrow> i < 2 \<Longrightarrow> r i = None \<Longrightarrow>
   stream_step wit_tasks 2 (wit_state e p r b out, ()) (wit_state e p (r(i \<mapsto> Inr (7 + i))) b out, ())"
  using stream_step.finish [of i "wit_state e p r b out" wit_tasks "()" "Inr (7 + i)" "()" 2]
  by (auto simp: wit_tasks_def wit_state_def less_Suc_eq numeral_2_eq_2)

lemma wit_wake:
  "set done = {i \<in> set p. r i \<noteq> None} \<Longrightarrow> done \<noteq> [] \<Longrightarrow> distinct done \<Longrightarrow>
   stream_step wit_tasks 2 (wit_state e p r [] out, ()) (wit_state e p r done out, ())"
  using stream_step.wake [of "wit_state e p r [] out" "done" wit_tasks 2 "()"] by (simp add: wit_state_def)

lemma wit_deliver:
  "r i = Some x \<Longrightarrow> length p \<le> 2 \<Longrightarrow> i \<in> set p \<Longrightarrow>
   stream_step wit_tasks 2 (wit_state e p r (i # b) out, ()) (wit_state True (remove1 i p) r b (out @ [(i, x)]), ())"
  using stream_step.deliver [of "wit_state e p r (i # b) out" i b x wit_tasks 2 "()"] length_pos_if_in_set [of i p]
  by (cases e; cases p) (auto simp: wit_state_def deliver_def submit_one_def wit_tasks_def length_remove1 Let_def)

lemma wit_stream_start: "stream_start (length wit_tasks) 2 = Inr (wit_state False [0, 1] (\<lambda>_. None) [] [])"
  by (simp add: stream_start_def stream_init_def wit_tasks_def wit_state_def fill.simps submit_one_def)

abbreviation "wit_done \<equiv> wit_state True [] [1 \<mapsto> Inr 8, 0 \<mapsto> Inr 7] [] [(1, Inr 8), (0, Inr 7)]"

lemma wit_stream_run:
  "stream_steps wit_tasks 2 6 (wit_state False [0, 1] (\<lambda>_. None) [] [], ()) (wit_done, ())"
proof -
  note wit = wit_finish wit_wake wit_deliver
  have 1: "stream_step wit_tasks 2 (wit_state False [0, 1] (\<lambda>_. None) [] [], ()) (wit_state False [0, 1] [1 \<mapsto> Inr 8] [] [], ())"
    using wit(1) [of 1 "[0, 1]" "\<lambda>_. None" False "[]" "[]"] by simp
  have 2: "stream_step wit_tasks 2 (wit_state False [0, 1] [1 \<mapsto> Inr 8] [] [], ()) (wit_state False [0, 1] [1 \<mapsto> Inr 8] [1] [], ())"
    by (rule wit(2)) auto
  have 3: "stream_step wit_tasks 2 (wit_state False [0, 1] [1 \<mapsto> Inr 8] [1] [], ()) (wit_state True [0] [1 \<mapsto> Inr 8] [] [(1, Inr 8)], ())"
    using wit(3) [of "[1 \<mapsto> Inr 8]" 1 "Inr 8" "[0, 1]" False "[]" "[]"] by simp
  have 4: "stream_step wit_tasks 2 (wit_state True [0] [1 \<mapsto> Inr 8] [] [(1, Inr 8)], ())
      (wit_state True [0] [1 \<mapsto> Inr 8, 0 \<mapsto> Inr 7] [] [(1, Inr 8)], ())"
    using wit(1) [of 0 "[0]" "[1 \<mapsto> Inr 8]" True "[]" "[(1, Inr 8)]"] by simp
  have 5: "stream_step wit_tasks 2 (wit_state True [0] [1 \<mapsto> Inr 8, 0 \<mapsto> Inr 7] [] [(1, Inr 8)], ())
      (wit_state True [0] [1 \<mapsto> Inr 8, 0 \<mapsto> Inr 7] [0] [(1, Inr 8)], ())"
    by (rule wit(2)) auto
  have 6: "stream_step wit_tasks 2 (wit_state True [0] [1 \<mapsto> Inr 8, 0 \<mapsto> Inr 7] [0] [(1, Inr 8)], ()) (wit_done, ())"
    using wit(3) [of "[1 \<mapsto> Inr 8, 0 \<mapsto> Inr 7]" 0 "Inr 7" "[0]" True "[]" "[(1, Inr 8)]"] by simp
  note more = stream_steps.more [of wit_tasks 2]
  from more [OF more [OF more [OF more [OF more [OF more [OF stream_steps.none 1] 2] 3] 4] 5] 6] show ?thesis
    by (simp add: numeral_eq_Suc)
qed

lemma wit_stream_stuck: "\<not> stream_step wit_tasks 2 (wit_done, ()) c"
  by (auto elim!: stream_step.cases)


theorem stream_terminates_witness:
  "\<exists>c. stream_steps wit_tasks 2 6 c (wit_done, ()) \<and> 6 \<le> 3 * length wit_tasks"
  using stream_terminates [OF wit_stream_start wit_stream_run] wit_stream_run by blast

theorem stream_window_witness:
  "\<exists>c. stream_steps wit_tasks 2 6 c (wit_done, ()) \<and> int (length (st_pending wit_done)) \<le> 2"
  using stream_window [OF wit_stream_start wit_stream_run] wit_stream_run by blast

end
