(* ===== verification/Conn_Batch.thy ===== *)
theory Conn_Batch
  imports Conn_Stream
begin

text \<open>
  Batches of loads, for every order in which the pool may finish them: \<^verbatim>\<open>batched_get\<close> and
  \<^verbatim>\<open>stream_get\<close> of \<^verbatim>\<open>connector.py\<close>. The proofs rest on the contract \<open>cache_backend\<close>, so they hold
  for both backends; the promises are stated for a POSIX container.
\<close>

section \<open>The stream of a list of keys\<close>

definition stream_item :: "nat \<times> (exn + nat option) \<Rightarrow> nat \<times> nat option" where
  "stream_item = (\<lambda>(idx, res). (idx, case res of Inl _ \<Rightarrow> None | Inr mo \<Rightarrow> mo))"

text \<open>
  \<^verbatim>\<open>stream_get\<close> runs the generator over the addresses of the keys and hands on what it delivers, an
  exception as a miss. It goes to the executor directly, not through the gate.
\<close>

definition stream_get :: "('d, 'o, 'lay, 'm) env \<Rightarrow> pykey list \<Rightarrow> (('d, 'o, 'm) world, nat option) io list" where
  "stream_get E keys = map (get_sync E \<circ> addr_of (e_raw E)) keys"

section \<open>What a batch of loads leaves behind\<close>

text \<open>
  \<open>R i\<close> is the outcome of load \<open>i\<close>, if it has finished: every hit is a new live object with the value
  that belongs to position \<open>i\<close>, no two positions share one, and what was live at the start is untouched.
\<close>

definition loads_ok :: "('d, 'o, 'lay, 'm) env \<Rightarrow> ('m \<Rightarrow> nat \<Rightarrow> nat) \<Rightarrow> (nat \<Rightarrow> 'lay \<times> bytes) \<Rightarrow> ('d, 'o, 'm) world \<Rightarrow>
    (nat \<Rightarrow> (exn + nat option) option) \<Rightarrow> ('d, 'o, 'm) world \<Rightarrow> bool" where
  "loads_ok E refs vs s0 R s \<longleftrightarrow> grown E refs s0 s \<and>
     (\<forall>i ob. R i = Some (Inr (Some ob)) \<longrightarrow>
        refs (w_mem s0) ob = 0 \<and> 0 < refs (w_mem s) ob \<and> mo_value E s ob = vs i) \<and>
     (\<forall>i j ob. R i = Some (Inr (Some ob)) \<longrightarrow> R j = Some (Inr (Some ob)) \<longrightarrow> i = j)"

lemma loads_ok_start [simp]: "loads_ok E refs vs s (\<lambda>_. None) s"
  by (simp add: loads_ok_def)

lemma loads_ok_sub:
  assumes "loads_ok E refs vs s0 R s"
    and "\<And>i ob. R' i = Some (Inr (Some ob)) \<Longrightarrow> R i = Some (Inr (Some ob))"
  shows "loads_ok E refs vs s0 R' s"
  using assms unfolding loads_ok_def by meson

lemma loads_ok_add:
  assumes ok: "loads_ok E refs vs s0 R s" and R: "R i = None" and l: "loaded E refs (vs i) s r s'"
  shows "loads_ok E refs vs s0 (R(i \<mapsto> r)) s'"
proof -
  have g: "grown E refs s0 s" and g': "grown E refs s s'"
    using ok l by (auto simp: loads_ok_def loaded_def)
  have old: "refs (w_mem s0) ob = 0 \<and> 0 < refs (w_mem s) ob \<and> 0 < refs (w_mem s') ob \<and> mo_value E s' ob = vs j"
    if "R j = Some (Inr (Some ob))" for j ob
    using ok that g' by (auto simp: loads_ok_def grown_def)
  have new: "refs (w_mem s) ob = 0 \<and> 0 < refs (w_mem s') ob \<and> mo_value E s' ob = vs i"
    if "r = Inr (Some ob)" for ob
    using l that by (simp add: loaded_def)
  have fresh: "refs (w_mem s0) ob = 0" if "refs (w_mem s) ob = 0" for ob
    using g that by (metis grown_def gr0I less_nat_zero_code)
  have uniq: "j = k" if "R j = Some (Inr (Some ob))" "R k = Some (Inr (Some ob))" for j ob k
    using ok that unfolding loads_ok_def by blast
  show ?thesis
    unfolding loads_ok_def
  proof (intro conjI allI impI)
    show "grown E refs s0 s'" by (rule grown_trans [OF g g'])
  next
    fix j ob
    assume "(R(i \<mapsto> r)) j = Some (Inr (Some ob))"
    then show "refs (w_mem s0) ob = 0" and "0 < refs (w_mem s') ob" and "mo_value E s' ob = vs j"
      using old [of j ob] new [of ob] fresh [of ob] by (auto split: if_splits)
  next
    fix j k ob
    assume "(R(i \<mapsto> r)) j = Some (Inr (Some ob))" "(R(i \<mapsto> r)) k = Some (Inr (Some ob))"
    then show "j = k"
      using old [of j ob] old [of k ob] new [of ob] uniq [of j ob k] by (cases "j = i"; cases "k = i") auto
  qed
qed

context cache_backend
begin

lemma load_step:
  assumes "Inv s" and "loads_ok E refs vs s0 R s" and "R i = None" and "plan a = Some (vs i)"
  shows "wp (get_sync E a) (\<lambda>r s'. r \<noteq> Inl MemoryFault \<and> Inv s' \<and> loads_ok E refs vs s0 (R(i \<mapsto> r)) s') s"
  by (rule wp_mono [OF get_law [OF assms(1,4)]]) (auto intro: loads_ok_add [OF assms(2,3)] simp: loaded_def)

text \<open>A batch, finished in any order.\<close>

lemma run_all_loads:
  assumes "Inv s" and plans: "\<And>i. i < length paths \<Longrightarrow> plan (paths ! i) = Some (vs i)"
    and sched: "is_schedule (length paths) sched" and run: "run_all sched (map (get_sync E) paths) s = (rs, s')"
  shows "length rs = length paths \<and> Inl MemoryFault \<notin> set rs \<and> Inv s' \<and>
    loads_ok E refs vs s (\<lambda>i. if i < length rs then Some (rs ! i) else None) s'"
proof -
  define I where "I = (\<lambda>D f t. Inv t \<and> (\<forall>i \<in> D. f i \<noteq> Inl MemoryFault) \<and>
      loads_ok E refs vs s (\<lambda>i. if i \<in> D then Some (f i :: exn + nat option) else None) t)"
  have step: "wp (map (get_sync E) paths ! i) (\<lambda>r t'. I (insert i D) (f(i := r)) t') t"
    if i: "i < length (map (get_sync E) paths)" "i \<notin> D" and I: "I D f t" for D f i t
  proof -
    let ?R = "\<lambda>i. if i \<in> D then Some (f i) else None"
    have upd: "?R(i \<mapsto> r) = (\<lambda>j. if j \<in> insert i D then Some ((f(i := r)) j) else None)" for r
      using i(2) by auto
    have "wp (get_sync E (paths ! i)) (\<lambda>r t'. r \<noteq> Inl MemoryFault \<and> Inv t' \<and> loads_ok E refs vs s (?R(i \<mapsto> r)) t') t"
      by (rule load_step) (use i I plans in \<open>auto simp: I_def\<close>)
    then show ?thesis
      using i I unfolding I_def upd by (auto elim!: wp_mono)
  qed
  have "I {} (\<lambda>_. Inl OtherError) s" using assms(1) by (simp add: I_def)
  from run_all_results_rule [OF step _ this run] sched obtain f where
    f: "rs = map f [0..<length paths]" and I: "I {..<length paths} f s'" by auto
  have "(\<lambda>i. if i < length rs then Some (rs ! i) else None) = (\<lambda>i. if i \<in> {..<length paths} then Some (f i) else None)"
    using f by auto
  with f I show ?thesis by (auto simp: I_def)
qed

text \<open>A batch that is over, on the branch that does not fold layers.\<close>

lemma batched_get_loads:
  assumes "Inv s" and flat: "fold_groups E (map (addr_of (e_raw E)) keys) = None"
    and plans: "\<And>i. i < length keys \<Longrightarrow> plan (addr_of (e_raw E) (keys ! i)) = Some (vs i)"
    and over: "gather_over (length keys) (gather_run workers stall (length keys) evs p)"
    and sent: "g_abort (gather_run workers stall (length keys) evs p) = None"
  shows "\<exists>res s'. batched_get E workers stall evs keys (s, p) = (Inr res, (s', g_pool (gather_run workers stall (length keys) evs p))) \<and>
     length res = length keys \<and> Inv s' \<and>
     loads_ok E refs vs s (\<lambda>i. if i < length keys then Some (Inr (res ! i)) else None) s'"
proof -
  let ?g = "gather_run workers stall (length keys) evs p" and ?paths = "map (addr_of (e_raw E)) keys"
  have n: "g_submitted ?g = length keys" using over sent by (simp add: gather_over_def)
  obtain rs s' where run: "run_all (g_finished ?g) (map (get_sync E) ?paths) s = (rs, s')" by (metis surj_pair)
  have sched: "is_schedule (length ?paths) (g_finished ?g)" using gather_schedule [OF over] n by simp
  have "plan (?paths ! i) = Some (vs i)" if "i < length ?paths" for i using plans [of i] that by simp
  from run_all_loads [OF assms(1) this sched run]
  have rs: "length rs = length keys" "Inl MemoryFault \<notin> set rs" "Inv s'"
    and ok: "loads_ok E refs vs s (\<lambda>i. if i < length rs then Some (rs ! i) else None) s'" by auto
  let ?res = "map (\<lambda>r. case r of Inl _ \<Rightarrow> None | Inr mo \<Rightarrow> mo) rs"
  have "batched_get E workers stall evs keys (s, p) = (Inr ?res, (s', g_pool ?g))"
    using run rs sent n flat by (simp add: batched_get_def Let_def gather_tasks_def run_bind comp_def)
  moreover have "loads_ok E refs vs s (\<lambda>i. if i < length keys then Some (Inr (?res ! i)) else None) s'"
    by (rule loads_ok_sub [OF ok]) (use rs(1) in \<open>auto split: if_splits sum.splits\<close>)
  ultimately show ?thesis using rs by auto
qed

text \<open>The stream, at any point of its run.\<close>

lemma stream_loads:
  assumes steps: "stream_steps (map (get_sync E) paths) m k c0 c" and inv: "Inv (snd c0)"
    and start: "stream_inv (length paths) m (fst c0)" "st_results (fst c0) = (\<lambda>_. None)"
    and plans: "\<And>i. i < length paths \<Longrightarrow> plan (paths ! i) = Some (vs i)"
  shows "Inv (snd c) \<and> loads_ok E refs vs (snd c0) (st_results (fst c)) (snd c)"
  using steps inv start
proof induction
  case (none c)
  then show ?case by simp
next
  case (more k c0 c c')
  note IH = more.IH [OF more.prems]
  have si: "stream_inv (length paths) m (fst c)" using stream_steps_inv [OF more.hyps(1)] more.prems(2) by simp
  from more.hyps(2) show ?case
  proof cases
    case (finish i st s r s')
    with stream_inv_pending [OF si] have i: "i < length paths" by simp
    have "wp (get_sync E (paths ! i)) (\<lambda>r s'. r \<noteq> Inl MemoryFault \<and> Inv s' \<and>
        loads_ok E refs vs (snd c0) ((st_results st)(i \<mapsto> r)) s') s"
      by (rule load_step) (use IH finish plans i in auto)
    with finish(5) i have "Inv s' \<and> loads_ok E refs vs (snd c0) ((st_results st)(i \<mapsto> r)) s'" by (auto dest!: wpD simp del: fun_upd_apply)
    with finish(2) show ?thesis by (simp del: fun_upd_apply)
  next
    case (wake st "done" s)
    with IH show ?thesis by simp
  next
    case (deliver st i rest r s)
    then have "st_results (fst c') = st_results st" by (simp add: deliver_def Let_def)
    with IH deliver show ?thesis by simp
  qed
qed

end

section \<open>The promises, on a POSIX container\<close>

context dfs_cache
begin

lemmas dfs_reach_inv = cache.reach_inv
lemmas dfs_batched_get = cache.batched_get_loads
lemmas dfs_stream_loads = cache.stream_loads

end

lemma fold_groups_posix: "\<not> e_raw E \<Longrightarrow> fold_groups E addrs = None"
  by (simp add: fold_groups_def)

text \<open>
  C24: a batched load is positional and never mixes keys up, whatever order the pool finishes the reads
  in and whichever of them fail: unless the gate refuses the batch it returns one entry per key, each
  hit a live object with the value that belongs to the key at its position, no object twice, and
  nothing that was live before is touched. One unreadable object never fails the batch.
\<close>

theorem dfs_batched_get_sound:
  assumes "dfs_full (e_dfs E) fs hs" and "lm_env (e_lm E) refs nbytes"
    and "\<not> e_raw E" and "\<not> e_alias_store E" and "plan_ok E nbytes plan"
    and "dfs_inv E fs plan s0" and "conn_reach E plan s0 s"
    and "\<And>i. i < length keys \<Longrightarrow> plan (addr_of False (keys ! i)) = Some (vs i)"
    and "gather_over (length keys) (gather_run workers stall (length keys) evs p)"
    and "g_abort (gather_run workers stall (length keys) evs p) = None"
  shows "\<exists>res s' p'. batched_get E workers stall evs keys (s, p) = (Inr res, (s', p')) \<and> length res = length keys \<and>
     loads_ok E refs vs s (\<lambda>i. if i < length keys then Some (Inr (res ! i)) else None) s'"
proof -
  note dc = dfs_cacheI [OF assms(1-5)]
  have raw: "e_raw E = False" using assms(3) by simp
  from dfs_cache.dfs_batched_get [OF dc dfs_cache.dfs_reach_inv [OF dc assms(6,7)] fold_groups_posix [OF assms(3)],
      unfolded raw, OF assms(8-10)]
  show ?thesis by blast
qed

text \<open>
  a stream of loads delivers, under each position, the object that belongs to the key there and
  nothing else, at every point of the stream and in every completion order; the object is live and
  keeps its contents while the later reads run.
\<close>

theorem dfs_stream_get_sound:
  assumes "dfs_full (e_dfs E) fs hs" and "lm_env (e_lm E) refs nbytes"
    and "\<not> e_raw E" and "\<not> e_alias_store E" and "plan_ok E nbytes plan"
    and "dfs_inv E fs plan s0" and "conn_reach E plan s0 s"
    and "\<And>i. i < length keys \<Longrightarrow> plan (addr_of False (keys ! i)) = Some (vs i)"
    and "stream_start (length keys) m = Inr st0" and "stream_steps (stream_get E keys) m k (st0, s) (st, s')"
    and "(i, Some ob) \<in> set (map stream_item (st_out st))"
  shows "mo_value E s' ob = vs i \<and> 0 < refs (w_mem s') ob"
proof -
  note dc = dfs_cacheI [OF assms(1-5)]
  let ?paths = "map (addr_of False) keys"
  have tasks: "stream_get E keys = map (get_sync E) ?paths" using assms(3) by (simp add: stream_get_def comp_def)
  note steps = assms(10) [unfolded tasks]
  have si: "stream_inv (length ?paths) m st0" using stream_start_inv [OF assms(9)] by simp
  have out: "st_out st0 = []" "st_results st0 = (\<lambda>_. None)" using stream_start_out [OF assms(9)] by simp_all
  have "plan (?paths ! i) = Some (vs i)" if "i < length ?paths" for i using assms(8) [of i] that by simp
  from dfs_cache.dfs_stream_loads [OF dc steps _ _ _ this] dfs_cache.dfs_reach_inv [OF dc assms(6,7)] si out
  have ok: "loads_ok E refs vs s (st_results st) s'" by simp
  from assms(11) have "(i, Inr (Some ob)) \<in> set (st_out st)"
    by (auto simp: stream_item_def split: sum.splits)
  with stream_steps_out [OF steps] si out have "st_results st i = Some (Inr (Some ob))" by fastforce
  with ok show ?thesis by (simp add: loads_ok_def)
qed

section \<open>Witnesses\<close>

definition wit_key :: pykey where
  "wit_key = \<lparr>to_string = Some ''k'', str_of = ''k'', layer_id = None, base_to_string = None\<rparr>"

definition key_plan :: "addr \<Rightarrow> (nat \<times> bytes) option" where
  "key_plan = (\<lambda>_. None)(addr_of False wit_key := Some (2, [5, 6]))"

lemma key_plan_ok: "plan_ok (wit_env False) id key_plan"
  using wit_v1 wit_v3 by (auto simp: plan_ok_def key_plan_def)

text \<open>A store under the key, and the load after it.\<close>

lemma wit_key_hit:
  "\<exists>s1 ob s2. put_op (wit_env False) (addr_of False wit_key) 0 wit_world = (Inr (), s1) \<and>
     get_sync (wit_env False) (addr_of False wit_key) s1 = (Inr (Some ob), s2)"
proof -
  have "live_conn (wit_env False) mfiles mhandles mm_refs id mem_up"
    by (rule live_connI) (simp_all add: memlive.dfs_live_axioms memlm.lm_env_axioms)
  from live_conn.put_get_hit [OF this _ _ wit_value _ _ wit_room, of _ "key_to_path wit_key"] wit_v1 show ?thesis
    by (auto simp: addr_of_def)
qed

lemma wit_key_reach:
  assumes "put_op (wit_env False) (addr_of False wit_key) 0 wit_world = (r, s1)"
  shows "conn_reach (wit_env False) key_plan wit_world s1"
  by (rule conn_reach.put [OF conn_reach.start _ assms]) (simp add: key_plan_def wit_value)

lemma key_plan_inv: "dfs_inv (wit_env False) mfiles key_plan wit_world"
  by (simp add: dfs_inv_def)

abbreviation "wit_pool \<equiv> \<lparr>inflight = 0, last_done = 0\<rparr>"
abbreviation "wit_evs \<equiv> [Submit 0, Finish 0 1]"

lemma wit_gather:
  "gather_run 16 60 1 wit_evs wit_pool =
     \<lparr>g_pool = \<lparr>inflight = 0, last_done = 1\<rparr>, g_submitted = 1, g_finished = [0], g_abort = None\<rparr>"
  by (simp add: gather_run_def gather_start_def gather_step_def run_gate_def tracked_done_def Let_def)

lemma wit_batched_get:
  assumes "get_sync (wit_env False) (addr_of False wit_key) s1 = (Inr (Some ob), s2)"
  shows "batched_get (wit_env False) 16 60 wit_evs [wit_key] (s1, wit_pool) = (Inr [Some ob], s2, \<lparr>inflight = 0, last_done = 1\<rparr>)"
  using assms wit_gather
  by (simp add: batched_get_def Let_def fold_groups_posix gather_tasks_def run_bind run_all_def run_step_def)

theorem dfs_batched_get_sound_witness:
  "\<exists>s1 ob s2 p'. conn_reach (wit_env False) key_plan wit_world s1 \<and>
     batched_get (wit_env False) 16 60 wit_evs [wit_key] (s1, wit_pool) = (Inr [Some ob], s2, p') \<and>
     mo_value (wit_env False) s2 ob = (2, [5, 6])"
proof -
  obtain s1 ob s2 where put: "put_op (wit_env False) (addr_of False wit_key) 0 wit_world = (Inr (), s1)"
    and get: "get_sync (wit_env False) (addr_of False wit_key) s1 = (Inr (Some ob), s2)"
    using wit_key_hit by blast
  have over: "gather_over (length [wit_key]) (gather_run 16 60 (length [wit_key]) wit_evs wit_pool)"
    and sent: "g_abort (gather_run 16 60 (length [wit_key]) wit_evs wit_pool) = None"
    using wit_gather by (simp_all add: gather_over_def)
  have "\<exists>res s' p'. batched_get (wit_env False) 16 60 wit_evs [wit_key] (s1, wit_pool) = (Inr res, (s', p')) \<and>
      length res = length [wit_key] \<and>
      loads_ok (wit_env False) mm_refs (\<lambda>_. (2, [5, 6])) s1 (\<lambda>i. if i < length [wit_key] then Some (Inr (res ! i)) else None) s'"
    by (rule dfs_batched_get_sound [where fs = mfiles and hs = mhandles and nbytes = id,
          OF _ _ _ _ key_plan_ok key_plan_inv wit_key_reach [OF put] _ over sent])
      (simp_all add: memfull.dfs_full_axioms memlm.lm_env_axioms key_plan_def)
  then obtain res s' p' where r: "batched_get (wit_env False) 16 60 wit_evs [wit_key] (s1, wit_pool) = (Inr res, (s', p'))"
    and ok: "loads_ok (wit_env False) mm_refs (\<lambda>_. (2, [5, 6])) s1 (\<lambda>i. if i < length [wit_key] then Some (Inr (res ! i)) else None) s'"
    by blast
  from r have "res = [Some ob]" "s' = s2" by (simp_all add: wit_batched_get [OF get])
  with ok have "mo_value (wit_env False) s2 ob = (2, [5, 6])"
    unfolding loads_ok_def by (metis One_nat_def length_Cons less_one list.size(3) nth_Cons_0)
  with wit_key_reach [OF put] wit_batched_get [OF get] show ?thesis by blast
qed

text \<open>A stream over the same key.\<close>

lemma wit_stream1:
  assumes "get_sync (wit_env False) (addr_of False wit_key) s1 = (Inr (Some ob), s2)"
  shows "\<exists>st0 st. stream_start (length [wit_key]) 1 = Inr st0 \<and>
    stream_steps (stream_get (wit_env False) [wit_key]) 1 3 (st0, s1) (st, s2) \<and> st_out st = [(0, Inr (Some ob))]"
proof -
  let ?tasks = "stream_get (wit_env False) [wit_key]"
  define st0 :: "nat option stream" where
    "st0 = \<lparr>st_next = 1, st_exhausted = False, st_pending = [0], st_results = (\<lambda>_. None), st_batch = [], st_out = []\<rparr>"
  have start: "stream_start (length [wit_key]) 1 = Inr st0"
    by (simp add: stream_start_def stream_init_def st0_def fill.simps submit_one_def)
  have "stream_step ?tasks 1 (st0, s1) (st0\<lparr>st_results := (st_results st0)(0 \<mapsto> Inr (Some ob))\<rparr>, s2)" (is "stream_step _ _ _ (?st1, _)")
    by (rule stream_step.finish) (use assms in \<open>simp_all add: st0_def stream_get_def\<close>)
  moreover have "stream_step ?tasks 1 (?st1, s2) (?st1\<lparr>st_batch := [0]\<rparr>, s2)" (is "stream_step _ _ _ (?st2, _)")
    by (rule stream_step.wake) (auto simp: st0_def)
  moreover have "stream_step ?tasks 1 (?st2, s2) (deliver (length ?tasks) 1 0 (Inr (Some ob)) ?st2, s2)" (is "stream_step _ _ _ (?st3, _)")
    by (rule stream_step.deliver [where rest = "[]"]) (simp_all add: st0_def)
  ultimately have "stream_steps ?tasks 1 (Suc (Suc (Suc 0))) (st0, s1) (?st3, s2)"
    by (blast intro: stream_steps.intros)
  moreover have "st_out ?st3 = [(0, Inr (Some ob))]" by (simp add: deliver_def Let_def st0_def)
  ultimately show ?thesis using start by (auto simp: numeral_eq_Suc)
qed

theorem dfs_stream_get_sound_witness:
  "\<exists>s1 ob s2 st0 st. stream_start (length [wit_key]) 1 = Inr st0 \<and>
     stream_steps (stream_get (wit_env False) [wit_key]) 1 3 (st0, s1) (st, s2) \<and>
     (0, Some ob) \<in> set (map stream_item (st_out st)) \<and> mo_value (wit_env False) s2 ob = (2, [5, 6])"
proof -
  obtain s1 ob s2 where put: "put_op (wit_env False) (addr_of False wit_key) 0 wit_world = (Inr (), s1)"
    and get: "get_sync (wit_env False) (addr_of False wit_key) s1 = (Inr (Some ob), s2)"
    using wit_key_hit by blast
  from wit_stream1 [OF get] obtain st0 st where start: "stream_start (length [wit_key]) 1 = Inr st0"
    and steps: "stream_steps (stream_get (wit_env False) [wit_key]) 1 3 (st0, s1) (st, s2)"
    and out: "st_out st = [(0, Inr (Some ob))]" by blast
  have o: "(0, Some ob) \<in> set (map stream_item (st_out st))" by (simp add: out stream_item_def)
  have "mo_value (wit_env False) s2 ob = (2, [5, 6]) \<and> 0 < mm_refs (w_mem s2) ob"
    by (rule dfs_stream_get_sound [where fs = mfiles and hs = mhandles and nbytes = id and vs = "\<lambda>_. (2, [5, 6])",
          OF _ _ _ _ key_plan_ok key_plan_inv wit_key_reach [OF put] _ start steps o])
      (simp_all add: memfull.dfs_full_axioms memlm.lm_env_axioms key_plan_def)
  with start steps o show ?thesis by blast
qed

end
