(* ===== verification/L2_Fair.thy ===== *)
theory L2_Fair
  imports Daos_Prelude "HOL-Library.Multiset"
begin

text \<open>
  \<^verbatim>\<open>lmcache_daos/mp/l2_adapter.py\<close>, the class \<^verbatim>\<open>_FairDispatcher\<close>: the keys of concurrent load tasks
  are handed to the I/O pool one by one, round robin over the tasks. The dispatcher's thread, the
  callers and the pool's threads interleave; a step of the relation below is a section under the
  condition variable, or an operation on the semaphore, of one of them.

  An item is a pair of a token, which names the call of \<^verbatim>\<open>run\<close>, and an index; \<open>fn t i\<close> is the outcome of
  the caller's function on it.
\<close>

section \<open>State and steps\<close>

record fair =
  fd_queues :: "nat \<Rightarrow> nat list option"
  fd_order :: "nat list"
  fd_rr :: nat
  fd_next :: nat
  fd_stop :: bool
  fd_slots :: nat
  fd_held :: "(nat \<times> nat) option"
  fd_pool :: "(nat \<times> nat) list"
  fd_leaving :: "(nat \<times> nat) list"
  fd_size :: "nat \<Rightarrow> nat"
  fd_results :: "nat \<Rightarrow> nat \<Rightarrow> bool option"
  fd_left :: "nat \<Rightarrow> nat"
  fd_done :: "nat \<Rightarrow> bool"

definition fair_init :: "nat \<Rightarrow> fair" where
  "fair_init slots = \<lparr>fd_queues = Map.empty, fd_order = [], fd_rr = 0, fd_next = 0, fd_stop = False, fd_slots = slots,
     fd_held = None, fd_pool = [], fd_leaving = [], fd_size = (\<lambda>_. 0), fd_results = (\<lambda>_ _. None), fd_left = (\<lambda>_. 0),
     fd_done = (\<lambda>_. False)\<rparr>"

text \<open>\<^verbatim>\<open>run\<close> with \<open>n\<close> items, up to the wait; for no items it returns at once and changes nothing.\<close>

definition fair_run :: "nat \<Rightarrow> fair \<Rightarrow> fair" where
  "fair_run n s =
     (if n = 0 then s
      else let token = fd_next s in
        s\<lparr>fd_next := fd_next s + 1, fd_queues := (fd_queues s)(token \<mapsto> [0..<n]), fd_order := fd_order s @ [token],
          fd_size := (fd_size s)(token := n), fd_left := (fd_left s)(token := n)\<rparr>)"

text \<open>The body of \<^verbatim>\<open>_loop\<close> under the condition variable, when there is an active task.\<close>

definition fair_pick :: "fair \<Rightarrow> fair" where
  "fair_pick s =
     (let rr = fd_rr s mod length (fd_order s); token = fd_order s ! rr; q = the (fd_queues s token);
          s1 = s\<lparr>fd_held := Some (token, hd q)\<rparr>
      in if tl q \<noteq> []
         then s1\<lparr>fd_queues := (fd_queues s)(token \<mapsto> tl q), fd_rr := rr + 1\<rparr>
         else s1\<lparr>fd_queues := (fd_queues s)(token := None), fd_order := take rr (fd_order s) @ drop (rr + 1) (fd_order s), fd_rr := rr\<rparr>)"

text \<open>An I/O slot, then the pool.\<close>

definition fair_submit :: "fair \<Rightarrow> fair" where
  "fair_submit s = (case fd_held s of
     None \<Rightarrow> s
   | Some x \<Rightarrow> s\<lparr>fd_slots := fd_slots s - 1, fd_held := None, fd_pool := fd_pool s @ [x]\<rparr>)"

text \<open>\<^verbatim>\<open>_one\<close>: the call and the release of the slot, then the count under the condition variable.\<close>

definition outcome :: "exn + bool \<Rightarrow> bool option" where
  "outcome r = (case r of Inl e \<Rightarrow> if is_Exception e then Some False else None | Inr b \<Rightarrow> Some b)"

definition fair_one :: "(nat \<Rightarrow> nat \<Rightarrow> exn + bool) \<Rightarrow> nat \<times> nat \<Rightarrow> fair \<Rightarrow> fair" where
  "fair_one fn x s =
     s\<lparr>fd_results := (fd_results s)(fst x := (fd_results s (fst x))(snd x := outcome (fn (fst x) (snd x)))),
       fd_slots := fd_slots s + 1, fd_pool := remove1 x (fd_pool s), fd_leaving := fd_leaving s @ [x]\<rparr>"

definition fair_count :: "nat \<times> nat \<Rightarrow> fair \<Rightarrow> fair" where
  "fair_count x s =
     (let t = fst x; left = fd_left s t - 1 in
      s\<lparr>fd_left := (fd_left s)(t := left), fd_leaving := remove1 x (fd_leaving s),
        fd_done := (if left = 0 then (fd_done s)(t := True) else fd_done s)\<rparr>)"

definition fair_close :: "fair \<Rightarrow> fair" where
  "fair_close s = s\<lparr>fd_stop := True\<rparr>"

text \<open>The steps of the threads inside the dispatcher, and all steps.\<close>

inductive fair_work :: "(nat \<Rightarrow> nat \<Rightarrow> exn + bool) \<Rightarrow> fair \<Rightarrow> fair \<Rightarrow> bool" for fn where
  pick: "\<not> fd_stop s \<Longrightarrow> fd_held s = None \<Longrightarrow> fd_order s \<noteq> [] \<Longrightarrow> fair_work fn s (fair_pick s)"
| submit: "fd_held s \<noteq> None \<Longrightarrow> 0 < fd_slots s \<Longrightarrow> fair_work fn s (fair_submit s)"
| one: "x \<in> set (fd_pool s) \<Longrightarrow> fair_work fn s (fair_one fn x s)"
| count: "x \<in> set (fd_leaving s) \<Longrightarrow> fair_work fn s (fair_count x s)"

inductive fair_step :: "(nat \<Rightarrow> nat \<Rightarrow> exn + bool) \<Rightarrow> fair \<Rightarrow> fair \<Rightarrow> bool" for fn where
  work: "fair_work fn s s' \<Longrightarrow> fair_step fn s s'"
| run: "fair_step fn s (fair_run n s)"
| close: "fair_step fn s (fair_close s)"

abbreviation "fair_steps fn \<equiv> (fair_step fn)\<^sup>*\<^sup>*"

section \<open>Every item once\<close>

text \<open>The items in the queues; those not finished; those not counted.\<close>

definition queued :: "fair \<Rightarrow> (nat \<times> nat) multiset" where
  "queued s = (\<Sum>t\<leftarrow>fd_order s. mset (map (Pair t) (the (fd_queues s t))))"

definition pending :: "fair \<Rightarrow> (nat \<times> nat) multiset" where
  "pending s = queued s + (case fd_held s of None \<Rightarrow> {#} | Some x \<Rightarrow> {#x#}) + mset (fd_pool s)"

definition uncounted :: "fair \<Rightarrow> (nat \<times> nat) multiset" where
  "uncounted s = pending s + mset (fd_leaving s)"

definition queues_ok :: "fair \<Rightarrow> bool" where
  "queues_ok s \<longleftrightarrow> distinct (fd_order s) \<and> dom (fd_queues s) = set (fd_order s) \<and> (\<forall>t. fd_queues s t \<noteq> Some []) \<and>
     set (fd_order s) \<subseteq> {..<fd_next s}"

definition fair_inv :: "(nat \<Rightarrow> nat \<Rightarrow> exn + bool) \<Rightarrow> nat \<Rightarrow> fair \<Rightarrow> bool" where
  "fair_inv fn slots s \<longleftrightarrow> queues_ok s \<and> fd_slots s + length (fd_pool s) = slots \<and>
     (\<forall>x. count (uncounted s) x \<le> 1) \<and> (\<forall>x \<in># uncounted s. fst x < fd_next s \<and> snd x < fd_size s (fst x)) \<and>
     (\<forall>t. fd_left s t = size (filter_mset (\<lambda>x. fst x = t) (uncounted s))) \<and>
     (\<forall>t < fd_next s. fd_done s t \<longleftrightarrow> fd_left s t = 0) \<and>
     (\<forall>t < fd_next s. \<forall>i < fd_size s t. (t, i) \<notin># pending s \<longrightarrow> fd_results s t i = outcome (fn t i))"

text \<open>What a pick does: the head of the rotation is served one item and goes to the back.\<close>

definition rotation :: "fair \<Rightarrow> nat list" where
  "rotation s = (let r = fd_rr s mod length (fd_order s) in drop r (fd_order s) @ take r (fd_order s))"

lemma pick_split:
  assumes "queues_ok s" and "fd_order s \<noteq> []"
  obtains xs t ys i q where "fd_order s = xs @ t # ys" "fd_rr s mod length (fd_order s) = length xs" "t \<notin> set xs" "t \<notin> set ys"
    "fd_queues s t = Some (i # q)"
    "fair_pick s = (if q \<noteq> [] then s\<lparr>fd_held := Some (t, i), fd_queues := (fd_queues s)(t \<mapsto> q), fd_rr := length xs + 1\<rparr>
       else s\<lparr>fd_held := Some (t, i), fd_queues := (fd_queues s)(t := None), fd_order := xs @ ys, fd_rr := length xs\<rparr>)"
proof -
  let ?r = "fd_rr s mod length (fd_order s)"
  have r: "?r < length (fd_order s)" using assms(2) by simp
  define xs t ys where "xs = take ?r (fd_order s)" and "t = fd_order s ! ?r" and "ys = drop (?r + 1) (fd_order s)"
  have o: "fd_order s = xs @ t # ys" using id_take_nth_drop [OF r] by (simp add: xs_def t_def ys_def)
  have x: "length xs = ?r" using r by (simp add: xs_def)
  have d: "t \<notin> set xs" "t \<notin> set ys" using assms(1) o by (auto simp: queues_ok_def)
  have "t \<in> dom (fd_queues s)" "fd_queues s t \<noteq> Some []" using assms(1) o by (auto simp: queues_ok_def)
  then obtain i q where q: "fd_queues s t = Some (i # q)" by (auto simp: neq_Nil_conv)
  have "fair_pick s = (if q \<noteq> [] then s\<lparr>fd_held := Some (t, i), fd_queues := (fd_queues s)(t \<mapsto> q), fd_rr := length xs + 1\<rparr>
       else s\<lparr>fd_held := Some (t, i), fd_queues := (fd_queues s)(t := None), fd_order := xs @ ys, fd_rr := length xs\<rparr>)"
    using q by (simp add: fair_pick_def Let_def x t_def [symmetric] xs_def [symmetric] ys_def)
  from that [OF o x [symmetric] d q this] show ?thesis .
qed

lemma queued_cong:
  "fd_order s' = fd_order s \<Longrightarrow> (\<And>t. t \<in> set (fd_order s) \<Longrightarrow> fd_queues s' t = fd_queues s t) \<Longrightarrow> queued s' = queued s"
  unfolding queued_def by (metis (mono_tags, lifting) map_eq_conv)

lemma queue_sum_other:
  "t \<notin> set zs \<Longrightarrow> (\<Sum>u\<leftarrow>zs. image_mset (Pair u) (mset (the (if u = t then z else Q u)))) = (\<Sum>u\<leftarrow>zs. image_mset (Pair u) (mset (the (Q u))))"
  by (induction zs) auto

lemma queued_pick:
  assumes "queues_ok s" and "fd_order s \<noteq> []"
  shows "\<exists>x. fd_held (fair_pick s) = Some x \<and> queued s = add_mset x (queued (fair_pick s))"
  using assms
proof (rule pick_split)
  fix xs t ys i q
  assume p: "fd_order s = xs @ t # ys" "t \<notin> set xs" "t \<notin> set ys" "fd_queues s t = Some (i # q)"
    "fair_pick s = (if q \<noteq> [] then s\<lparr>fd_held := Some (t, i), fd_queues := (fd_queues s)(t \<mapsto> q), fd_rr := length xs + 1\<rparr>
       else s\<lparr>fd_held := Some (t, i), fd_queues := (fd_queues s)(t := None), fd_order := xs @ ys, fd_rr := length xs\<rparr>)"
  then show ?thesis by (cases "q = []") (simp_all add: queued_def queue_sum_other)
qed

lemma queues_ok_pick:
  assumes "queues_ok s" and "fd_order s \<noteq> []"
  shows "queues_ok (fair_pick s)"
  using assms
  by (rule pick_split) (use assms(1) in \<open>auto simp: queues_ok_def split: if_splits\<close>)

lemma fair_pick_same [simp]:
  "fd_next (fair_pick s) = fd_next s" "fd_slots (fair_pick s) = fd_slots s" "fd_pool (fair_pick s) = fd_pool s"
  "fd_leaving (fair_pick s) = fd_leaving s" "fd_size (fair_pick s) = fd_size s" "fd_results (fair_pick s) = fd_results s"
  "fd_left (fair_pick s) = fd_left s" "fd_done (fair_pick s) = fd_done s" "fd_stop (fair_pick s) = fd_stop s"
  by (simp_all add: fair_pick_def Let_def)

lemma pending_pick:
  assumes "queues_ok s" and "fd_order s \<noteq> []" and "fd_held s = None"
  shows "pending (fair_pick s) = pending s" "uncounted (fair_pick s) = uncounted s"
proof -
  from queued_pick [OF assms(1,2)] obtain x where "fd_held (fair_pick s) = Some x" "queued s = add_mset x (queued (fair_pick s))" by blast
  with assms(3) show "pending (fair_pick s) = pending s" by (simp add: pending_def)
  then show "uncounted (fair_pick s) = uncounted s" by (simp add: uncounted_def)
qed

lemma pending_submit:
  assumes "fd_held s \<noteq> None"
  shows "pending (fair_submit s) = pending s" "uncounted (fair_submit s) = uncounted s"
  using assms by (auto simp: uncounted_def pending_def fair_submit_def queued_def)

lemma pending_one:
  assumes "x \<in> set (fd_pool s)"
  shows "pending s = add_mset x (pending (fair_one fn x s))" "uncounted (fair_one fn x s) = uncounted s"
proof -
  have "pending (fair_one fn x s) = queued s + (case fd_held s of None \<Rightarrow> {#} | Some x \<Rightarrow> {#x#}) + (mset (fd_pool s) - {#x#})"
    by (simp add: pending_def fair_one_def queued_def)
  then show p: "pending s = add_mset x (pending (fair_one fn x s))" using assms by (simp add: pending_def)
  show "uncounted (fair_one fn x s) = uncounted s" unfolding uncounted_def p by (simp add: fair_one_def)
qed

lemma pending_count:
  assumes "x \<in> set (fd_leaving s)"
  shows "pending (fair_count x s) = pending s" "uncounted s = add_mset x (uncounted (fair_count x s))"
proof -
  show p: "pending (fair_count x s) = pending s" by (simp add: pending_def fair_count_def Let_def queued_def)
  have "fd_leaving (fair_count x s) = remove1 x (fd_leaving s)" by (simp add: fair_count_def Let_def)
  with assms show "uncounted s = add_mset x (uncounted (fair_count x s))" by (simp add: uncounted_def p)
qed

lemma Suc_length_remove1: "x \<in> set xs \<Longrightarrow> Suc (length (remove1 x xs)) = length xs"
  by (induction xs) auto

text \<open>The part of the invariant that depends on the two multisets only.\<close>

lemma fair_inv_same:
  assumes "fair_inv fn slots s" and "queues_ok s'" and "fd_slots s' + length (fd_pool s') = slots"
    and "pending s' = pending s" and "uncounted s' = uncounted s" and "fd_next s' = fd_next s" and "fd_size s' = fd_size s"
    and "fd_left s' = fd_left s" and "fd_done s' = fd_done s" and "fd_results s' = fd_results s"
  shows "fair_inv fn slots s'"
  using assms by (simp add: fair_inv_def)

lemma fair_inv_pick:
  assumes inv: "fair_inv fn slots s" and "fd_order s \<noteq> []" and "fd_held s = None"
  shows "fair_inv fn slots (fair_pick s)"
proof -
  have q: "queues_ok s" using inv by (simp add: fair_inv_def)
  show ?thesis
    by (rule fair_inv_same [OF inv queues_ok_pick [OF q assms(2)]])
      (use inv in \<open>simp_all add: pending_pick [OF q assms(2,3)]\<close>, simp add: fair_inv_def)
qed

lemma fair_inv_submit:
  assumes inv: "fair_inv fn slots s" and "fd_held s \<noteq> None" and "0 < fd_slots s"
  shows "fair_inv fn slots (fair_submit s)"
proof (rule fair_inv_same [OF inv])
  show "queues_ok (fair_submit s)" using inv by (simp add: fair_inv_def queues_ok_def fair_submit_def split: option.splits)
  show "fd_slots (fair_submit s) + length (fd_pool (fair_submit s)) = slots"
    using assms by (auto simp: fair_inv_def fair_submit_def)
qed (use pending_submit [OF assms(2)] in \<open>auto simp: fair_submit_def split: option.splits\<close>)

lemma fair_inv_one:
  assumes inv: "fair_inv fn slots s" and x: "x \<in> set (fd_pool s)"
  shows "fair_inv fn slots (fair_one fn x s)"
proof -
  let ?s' = "fair_one fn x s"
  note p = pending_one [OF x, of fn]
  have sel: "fd_next ?s' = fd_next s" "fd_size ?s' = fd_size s" "fd_left ?s' = fd_left s" "fd_done ?s' = fd_done s"
    by (simp_all add: fair_one_def)
  have "queues_ok ?s'" using inv by (simp add: fair_inv_def queues_ok_def fair_one_def)
  moreover have "fd_slots ?s' + length (fd_pool ?s') = slots"
  proof -
    have "fd_slots s + length (fd_pool s) = slots" using inv by (simp add: fair_inv_def)
    then show ?thesis using Suc_length_remove1 [OF x] by (simp add: fair_one_def)
  qed
  moreover have "fd_results ?s' t i = outcome (fn t i)"
    if "t < fd_next s" "i < fd_size s t" "(t, i) \<notin># pending ?s'" for t i
  proof (cases "(t, i) = x")
    case True
    then show ?thesis by (auto simp: fair_one_def)
  next
    case False
    with that p(1) have "(t, i) \<notin># pending s" by simp
    with inv that have "fd_results s t i = outcome (fn t i)" by (simp add: fair_inv_def)
    with False show ?thesis by (cases x) (auto simp: fair_one_def)
  qed
  ultimately show ?thesis using inv unfolding fair_inv_def p(2) sel by simp
qed

lemma fair_inv_count:
  assumes inv: "fair_inv fn slots s" and x: "x \<in> set (fd_leaving s)"
  shows "fair_inv fn slots (fair_count x s)"
proof -
  let ?s' = "fair_count x s"
  note p = pending_count [OF x]
  have sel: "fd_next ?s' = fd_next s" "fd_size ?s' = fd_size s" "fd_results ?s' = fd_results s" "fd_slots ?s' = fd_slots s"
    "fd_pool ?s' = fd_pool s" "fd_left ?s' = (fd_left s)(fst x := fd_left s (fst x) - 1)"
    by (simp_all add: fair_count_def Let_def)
  have left: "fd_left s t = size (filter_mset (\<lambda>x. fst x = t) (uncounted s))" for t using inv by (simp add: fair_inv_def)
  have left': "fd_left ?s' t = size (filter_mset (\<lambda>x. fst x = t) (uncounted ?s'))" for t
    by (auto simp: sel left p(2))
  have done': "fd_done ?s' t \<longleftrightarrow> fd_left ?s' t = 0" if "t < fd_next s" for t
  proof -
    have "fd_done s t \<longleftrightarrow> fd_left s t = 0" using inv that by (simp add: fair_inv_def)
    moreover have "0 < fd_left s (fst x)" by (simp add: left p(2))
    ultimately show ?thesis by (auto simp: fair_count_def Let_def)
  qed
  have "count (uncounted ?s') y \<le> 1" for y
    using inv p(2) unfolding fair_inv_def by (metis count_add_mset le_SucI not_less_eq_eq order.trans)
  moreover have "queues_ok ?s'" using inv by (simp add: fair_inv_def queues_ok_def fair_count_def Let_def)
  moreover have "fst y < fd_next s \<and> snd y < fd_size s (fst y)" if "y \<in># uncounted ?s'" for y
    using inv that p(2) by (simp add: fair_inv_def)
  ultimately show ?thesis using inv done' left' unfolding fair_inv_def p(1) sel(1-5) by blast
qed

lemma uncounted_run:
  assumes "queues_ok s" and "0 < n"
  shows "pending (fair_run n s) = pending s + mset (map (Pair (fd_next s)) [0..<n])"
    "uncounted (fair_run n s) = uncounted s + mset (map (Pair (fd_next s)) [0..<n])"
proof -
  have "fd_next s \<notin> set (fd_order s)" using assms(1) by (auto simp: queues_ok_def)
  then have "queued (fair_run n s) = queued s + mset (map (Pair (fd_next s)) [0..<n])"
    using assms(2) by (simp add: queued_def fair_run_def Let_def queue_sum_other)
  moreover have "fd_held (fair_run n s) = fd_held s" "fd_pool (fair_run n s) = fd_pool s" "fd_leaving (fair_run n s) = fd_leaving s"
    by (simp_all add: fair_run_def Let_def)
  ultimately show "pending (fair_run n s) = pending s + mset (map (Pair (fd_next s)) [0..<n])"
    "uncounted (fair_run n s) = uncounted s + mset (map (Pair (fd_next s)) [0..<n])"
    by (simp_all add: uncounted_def pending_def)
qed

lemma queues_ok_run: "queues_ok s \<Longrightarrow> queues_ok (fair_run n s)"
  by (auto simp: queues_ok_def fair_run_def Let_def split: if_splits)

lemma count_items: "count (mset (map (Pair t) [0..<n])) x = of_bool (fst x = t \<and> snd x < n)"
proof -
  have "distinct (map (Pair t) [0..<n])" by (simp add: distinct_map inj_on_def)
  then show ?thesis by (cases x) (auto simp: distinct_count_atmost_1 image_iff)
qed

lemma size_items: "size (filter_mset (\<lambda>x. fst x = u) (mset (map (Pair t) [0..<n]))) = (if u = t then n else 0)"
  unfolding mset_filter [symmetric] size_mset by (simp add: filter_map comp_def)

text \<open>A token that has not been given out owns nothing.\<close>

lemma fair_inv_fresh:
  assumes "fair_inv fn slots s"
  shows "x \<in># uncounted s \<Longrightarrow> fst x \<noteq> fd_next s" and "fd_left s (fd_next s) = 0"
proof -
  show f: "x \<in># uncounted s \<Longrightarrow> fst x \<noteq> fd_next s" for x using assms by (auto simp: fair_inv_def)
  then have "set_mset (filter_mset (\<lambda>x. fst x = fd_next s) (uncounted s)) = {}" by auto
  then have "filter_mset (\<lambda>x. fst x = fd_next s) (uncounted s) = {#}" by (simp only: set_mset_eq_empty_iff)
  with assms show "fd_left s (fd_next s) = 0" by (simp add: fair_inv_def)
qed

lemma fair_inv_run:
  assumes inv: "fair_inv fn slots s" and nd: "\<forall>t. fd_next s \<le> t \<longrightarrow> \<not> fd_done s t"
  shows "fair_inv fn slots (fair_run n s)"
proof (cases "n = 0")
  case False
  let ?s' = "fair_run n s" and ?T = "fd_next s"
  have q: "queues_ok s" using inv by (simp add: fair_inv_def)
  note u = uncounted_run [OF q, of n]
  have sel: "fd_next ?s' = Suc ?T" "fd_size ?s' = (fd_size s)(?T := n)" "fd_left ?s' = (fd_left s)(?T := n)" "fd_done ?s' = fd_done s"
    "fd_results ?s' = fd_results s" "fd_slots ?s' = fd_slots s" "fd_pool ?s' = fd_pool s"
    using False by (simp_all add: fair_run_def Let_def)
  have "count (uncounted ?s') x \<le> 1" for x
  proof (cases "fst x = ?T")
    case True
    then have "x \<notin># uncounted s" using fair_inv_fresh(1) [OF inv] by blast
    then show ?thesis using False u(2) by (simp add: count_items not_in_iff del: mset_map)
  next
    case ne: False
    have "count (uncounted s) x \<le> 1" using inv unfolding fair_inv_def by blast
    with ne False u(2) show ?thesis by (simp add: count_items del: mset_map)
  qed
  moreover have "fst x < Suc ?T \<and> snd x < ((fd_size s)(?T := n)) (fst x)" if "x \<in># uncounted ?s'" for x
    using that inv False u(2) fair_inv_fresh(1) [OF inv, of x] by (auto simp: fair_inv_def less_Suc_eq)
  moreover have "((fd_left s)(?T := n)) t = size (filter_mset (\<lambda>x. fst x = t) (uncounted ?s'))" for t
    using inv False u(2) fair_inv_fresh(2) [OF inv] by (auto simp: fair_inv_def size_items simp del: mset_map)
  moreover have "fd_done s t \<longleftrightarrow> ((fd_left s)(?T := n)) t = 0" if "t < Suc ?T" for t
  proof (cases "t = ?T")
    case True
    with nd False show ?thesis by simp
  next
    case ne: False
    with that have "t < ?T" by simp
    with inv have "fd_done s t \<longleftrightarrow> fd_left s t = 0" unfolding fair_inv_def by blast
    with ne show ?thesis by simp
  qed
  moreover have "fd_results s t i = outcome (fn t i)"
    if "t < Suc ?T" "i < ((fd_size s)(?T := n)) t" "(t, i) \<notin># pending ?s'" for t i
    using that inv False u(1) by (auto simp: fair_inv_def less_Suc_eq split: if_splits)
  moreover have "fd_slots s + length (fd_pool s) = slots" using inv by (simp add: fair_inv_def)
  ultimately show ?thesis using queues_ok_run [OF q] unfolding fair_inv_def sel by blast
qed (simp add: fair_run_def inv)

text \<open>No task is done before it is submitted, so the whole is one invariant.\<close>

definition fair_good :: "(nat \<Rightarrow> nat \<Rightarrow> exn + bool) \<Rightarrow> nat \<Rightarrow> fair \<Rightarrow> bool" where
  "fair_good fn slots s \<longleftrightarrow> fair_inv fn slots s \<and> (\<forall>t. fd_next s \<le> t \<longrightarrow> \<not> fd_done s t)"

lemma fair_good_work:
  assumes "fair_work fn s s'" and "fair_good fn slots s"
  shows "fair_good fn slots s'"
  using assms
proof cases
  case pick
  with assms(2) show ?thesis by (simp add: fair_good_def fair_inv_pick)
next
  case submit
  with assms(2) show ?thesis by (auto simp: fair_good_def fair_inv_submit) (auto simp: fair_submit_def)
next
  case (one x)
  with assms(2) show ?thesis by (simp add: fair_good_def fair_inv_one) (simp add: fair_one_def)
next
  case (count x)
  then have "x \<in># uncounted s" by (simp add: uncounted_def)
  with assms(2) have "fst x < fd_next s" by (auto simp: fair_good_def fair_inv_def)
  with count assms(2) show ?thesis by (auto simp: fair_good_def fair_inv_count) (auto simp: fair_count_def Let_def split: if_splits)
qed

lemma fair_good_step:
  assumes "fair_step fn s s'" and "fair_good fn slots s"
  shows "fair_good fn slots s'"
  using assms
proof cases
  case (run n)
  with assms(2) have "\<not> fd_done s' t" if "fd_next s' \<le> t" for t
    using that by (auto simp: fair_good_def fair_run_def Let_def split: if_splits)
  with run assms(2) show ?thesis by (simp add: fair_good_def fair_inv_run)
next
  case close
  with assms(2) show ?thesis
    by (auto simp: fair_good_def fair_inv_def fair_close_def queues_ok_def uncounted_def pending_def queued_def)
qed (auto intro: fair_good_work)

lemma fair_good_init: "fair_good fn slots (fair_init slots)"
  by (simp add: fair_good_def fair_inv_def fair_init_def queues_ok_def uncounted_def pending_def queued_def)

lemma fair_good_steps: "fair_steps fn s s' \<Longrightarrow> fair_good fn slots s \<Longrightarrow> fair_good fn slots s'"
  by (induction rule: rtranclp_induct) (auto intro: fair_good_step)

section \<open>The promises\<close>

text \<open>
  C20: in every reachable state of the dispatcher, however its threads interleave: no more calls are in
  flight than there are slots, no item is in the dispatcher twice, and a task that is reported done
  has a result for every item, in input order, the one its own call gave (\<open>False\<close> for a call that
  raised).
\<close>

theorem fair_results:
  assumes "fair_steps fn (fair_init slots) s"
  shows "length (fd_pool s) \<le> slots \<and> (\<forall>x. count (uncounted s) x \<le> 1) \<and>
    (\<forall>t < fd_next s. fd_done s t \<longrightarrow> (\<forall>i < fd_size s t. fd_results s t i = outcome (fn t i)))"
proof -
  have inv: "fair_inv fn slots s" using fair_good_steps [OF assms fair_good_init] by (simp add: fair_good_def)
  have "fd_results s t i = outcome (fn t i)" if "t < fd_next s" "fd_done s t" "i < fd_size s t" for t i
  proof -
    have "filter_mset (\<lambda>x. fst x = t) (uncounted s) = {#}" using inv that(1,2) by (auto simp: fair_inv_def)
    then have "set_mset (filter_mset (\<lambda>x. fst x = t) (uncounted s)) = {}" by (simp only: set_mset_empty)
    then have "(t, i) \<notin># uncounted s" by fastforce
    then have "(t, i) \<notin># pending s" by (simp add: uncounted_def)
    with inv that show ?thesis by (simp add: fair_inv_def)
  qed
  with inv show ?thesis unfolding fair_inv_def by (metis le_add2)
qed


text \<open>The work left in the dispatcher, in steps.\<close>

definition effort :: "fair \<Rightarrow> nat" where
  "effort s = 4 * size (queued s) + (if fd_held s = None then 0 else 3) + 2 * length (fd_pool s) + length (fd_leaving s)"

lemma effort_work:
  assumes "fair_work fn s s'" and "queues_ok s"
  shows "effort s' < effort s"
  using assms
proof cases
  case pick
  with queued_pick [OF assms(2)] show ?thesis by (auto simp: effort_def)
next
  case submit
  then show ?thesis by (auto simp: effort_def fair_submit_def queued_def)
next
  case (one x)
  then show ?thesis using Suc_length_remove1 [OF one(2)] by (simp add: effort_def fair_one_def queued_def)
next
  case (count x)
  then show ?thesis using Suc_length_remove1 [OF count(2)] by (simp add: effort_def fair_count_def Let_def queued_def)
qed

lemma effort_bound:
  assumes "(fair_work fn ^^ n) s s'" and "fair_good fn slots s"
  shows "n + effort s' \<le> effort s \<and> fair_good fn slots s'"
  using assms
proof (induction n arbitrary: s')
  case (Suc n)
  then obtain u where u: "(fair_work fn ^^ n) s u" "fair_work fn u s'" by auto
  with Suc.IH Suc.prems(2) have "n + effort u \<le> effort s" "fair_good fn slots u" by blast+
  with effort_work [OF u(2)] fair_good_work [OF u(2)] show ?case by (auto simp: fair_good_def fair_inv_def)
qed simp

lemma fair_idle:
  assumes good: "fair_good fn slots s" and "0 < slots" and "\<not> fd_stop s" and stuck: "\<nexists>s'. fair_work fn s s'" and t: "t < fd_next s"
  shows "fd_done s t"
proof -
  have leaving: "fd_leaving s = []" using stuck by (meson fair_work.count last_in_set)
  have pool: "fd_pool s = []" using stuck by (meson fair_work.one last_in_set)
  with good assms(2) have "0 < fd_slots s" by (simp add: fair_good_def fair_inv_def)
  then have held: "fd_held s = None" using stuck by (meson fair_work.submit)
  then have "fd_order s = []" using stuck assms(3) by (meson fair_work.pick)
  with leaving pool held have "uncounted s = {#}" by (simp add: uncounted_def pending_def queued_def)
  with good t show ?thesis by (simp add: fair_good_def fair_inv_def)
qed

text \<open>
  C19: the dispatcher ends: with at least one slot and until it is closed, its threads can take at most
  \<open>effort s\<close> steps before nothing is left to do, and then every submitted task is done, with a
  result for each of its items. So a call of \<^verbatim>\<open>run\<close> returns.
\<close>

theorem fair_terminates:
  assumes "fair_steps fn (fair_init slots) s" and "0 < slots" and "(fair_work fn ^^ n) s s'"
  shows "n \<le> effort s \<and> ((\<nexists>u. fair_work fn s' u) \<and> \<not> fd_stop s' \<longrightarrow> (\<forall>t < fd_next s'. fd_done s' t))"
  using effort_bound [OF assms(3) fair_good_steps [OF assms(1) fair_good_init]] fair_idle [of fn slots s'] assms(2)
  by auto

section \<open>Two ways to wait for ever\<close>

text \<open>The pointer stands behind the last task: a task of one item that arrives now is served at once.\<close>

definition behind :: "(nat \<Rightarrow> nat \<Rightarrow> exn + bool) \<Rightarrow> nat \<Rightarrow> fair \<Rightarrow> bool" where
  "behind fn slots s \<longleftrightarrow> fair_good fn slots s \<and> \<not> fd_stop s \<and> fd_held s = None \<and> 0 < fd_slots s \<and> fd_rr s = length (fd_order s)"

lemma overtaken:
  assumes "behind fn slots s"
  shows "\<exists>s'. fair_steps fn s s' \<and> behind fn slots s' \<and> fd_next s' = fd_next s + 1 \<and> fd_done s' (fd_next s) \<and>
    fd_queues s' = fd_queues s \<and> fd_order s' = fd_order s \<and> (\<forall>t < fd_next s. fd_done s' t = fd_done s t)"
proof -
  let ?T = "fd_next s" and ?x = "(fd_next s, 0 :: nat)"
  have q: "queues_ok s" using assms by (simp add: behind_def fair_good_def fair_inv_def)
  then have T: "fd_queues s ?T = None" by (auto simp: queues_ok_def dom_def)
  define s1 s2 s3 s4 s5 where "s1 = fair_run 1 s" and "s2 = fair_pick s1" and "s3 = fair_submit s2" and "s4 = fair_one fn ?x s3"
    and "s5 = fair_count ?x s4"
  have s1: "s1 = s\<lparr>fd_next := Suc ?T, fd_queues := (fd_queues s)(?T \<mapsto> [0]), fd_order := fd_order s @ [?T],
      fd_size := (fd_size s)(?T := 1), fd_left := (fd_left s)(?T := 1)\<rparr>" by (simp add: s1_def fair_run_def Let_def)
  have s2: "s2 = s1\<lparr>fd_held := Some ?x, fd_queues := fd_queues s, fd_order := fd_order s, fd_rr := length (fd_order s)\<rparr>"
    using assms T by (simp add: s2_def fair_pick_def Let_def s1 behind_def nth_append fun_upd_idem)
  have s3: "s3 = s2\<lparr>fd_slots := fd_slots s - 1, fd_held := None, fd_pool := fd_pool s @ [?x]\<rparr>"
    by (simp add: s3_def fair_submit_def s2 s1)
  have st: "fair_step fn s s1" unfolding s1_def by (rule fair_step.run)
  have w2: "fair_work fn s1 s2" unfolding s2_def by (rule fair_work.pick) (use assms in \<open>simp_all add: s1 behind_def\<close>)
  have w3: "fair_work fn s2 s3" unfolding s3_def by (rule fair_work.submit) (use assms in \<open>simp_all add: s2 s1 behind_def\<close>)
  have w4: "fair_work fn s3 s4" unfolding s4_def by (rule fair_work.one) (simp add: s3)
  have w5: "fair_work fn s4 s5" unfolding s5_def by (rule fair_work.count) (simp add: s4_def fair_one_def)
  have steps: "fair_steps fn s s5"
    using st w2 w3 w4 w5 by (meson converse_rtranclp_into_rtranclp fair_step.work rtranclp.rtrancl_refl)
  have "fair_good fn slots s5" using fair_good_steps [OF steps] assms by (simp add: behind_def)
  then have "behind fn slots s5" using assms
    by (simp add: behind_def s5_def fair_count_def Let_def s4_def fair_one_def s3 s2 s1)
  with steps show ?thesis
    by (intro exI [of _ s5]) (simp add: s5_def fair_count_def Let_def s4_def fair_one_def s3 s2 s1)
qed

text \<open>
  the rotation is not fair to a waiting task when new tasks keep coming: while the pointer stands
  behind the last task, any number of one-item tasks can arrive and be finished, one after the other,
  and no active task is served in between.
\<close>

theorem fair_newcomers_first:
  assumes "fair_steps fn (fair_init slots) s" and "\<not> fd_stop s" and "fd_held s = None" and "0 < fd_slots s"
    and "fd_rr s = length (fd_order s)"
  shows "\<exists>s'. fair_steps fn s s' \<and> fd_next s' = fd_next s + k \<and> (\<forall>j < k. fd_done s' (fd_next s + j)) \<and> fd_queues s' = fd_queues s"
proof -
  have "behind fn slots s" using assms fair_good_steps [OF assms(1) fair_good_init] by (simp add: behind_def)
  then have "\<exists>s'. fair_steps fn s s' \<and> behind fn slots s' \<and> fd_next s' = fd_next s + k \<and>
      (\<forall>j < k. fd_done s' (fd_next s + j)) \<and> fd_queues s' = fd_queues s"
  proof (induction k)
    case 0
    then show ?case by auto
  next
    case (Suc k)
    then obtain u where u: "fair_steps fn s u" "behind fn slots u" "fd_next u = fd_next s + k"
      "\<forall>j < k. fd_done u (fd_next s + j)" "fd_queues u = fd_queues s" by blast
    from overtaken [OF u(2)] obtain s' where s': "fair_steps fn u s'" "behind fn slots s'" "fd_next s' = fd_next u + 1"
      "fd_done s' (fd_next u)" "fd_queues s' = fd_queues u" "\<forall>t < fd_next u. fd_done s' t = fd_done u t" by blast
    have "fd_done s' (fd_next s + j)" if "j < Suc k" for j
      using that u(3,4) s'(4,6) by (cases "j = k") auto
    moreover have "fair_steps fn s s'" using u(1) s'(1) by simp
    ultimately show ?case using u(3,5) s'(2,3,5) by auto
  qed
  then show ?thesis by blast
qed

lemma stopped_step:
  assumes "fair_step fn s s'" and "fd_stop s" and "t \<in> dom (fd_queues s)" and "fair_good fn slots s"
  shows "fd_stop s' \<and> fd_queues s' t = fd_queues s t"
  using assms(1)
proof cases
  case work
  then show ?thesis
    using assms(2) by cases (auto simp: fair_submit_def fair_one_def fair_count_def Let_def split: option.splits)
next
  case (run n)
  have "t \<noteq> fd_next s" using assms(3,4) by (auto simp: fair_good_def fair_inv_def queues_ok_def)
  with run assms(2) show ?thesis by (simp add: fair_run_def Let_def)
next
  case close
  with assms(2) show ?thesis by (simp add: fair_close_def)
qed

lemma active_not_done:
  assumes "fair_good fn slots s" and "t \<in> dom (fd_queues s)"
  shows "\<not> fd_done s t"
proof -
  have q: "queues_ok s" and t: "t \<in> set (fd_order s)" using assms by (auto simp: fair_good_def fair_inv_def queues_ok_def)
  obtain z where z: "fd_queues s t = Some z" using assms(2) by blast
  with q obtain i q where iq: "fd_queues s t = Some (i # q)" by (cases z) (auto simp: queues_ok_def)
  obtain xs ys where "fd_order s = xs @ t # ys" using split_list [OF t] by blast
  with iq have "(t, i) \<in># queued s" by (simp add: queued_def)
  then have "(t, i) \<in># uncounted s" by (simp add: uncounted_def pending_def)
  then have "(t, i) \<in># filter_mset (\<lambda>x. fst x = t) (uncounted s)" by simp
  then have "filter_mset (\<lambda>x. fst x = t) (uncounted s) \<noteq> {#}" by (metis empty_not_add_mset multi_member_split)
  moreover have "t < fd_next s" using q t by (auto simp: queues_ok_def)
  ultimately show ?thesis using assms(1) by (simp add: fair_good_def fair_inv_def)
qed

text \<open>
  closing the dispatcher while a task still has items queued strands the task: its queue is never
  served again and it is never reported done, so the thread that waits in \<^verbatim>\<open>run\<close> never returns (and
  with it the shutdown of the task pool that follows in the adapter).
\<close>

theorem fair_close_strands:
  assumes "fair_steps fn (fair_init slots) s" and "fd_stop s" and "t \<in> dom (fd_queues s)" and "fair_steps fn s s'"
  shows "fd_queues s' t = fd_queues s t \<and> \<not> fd_done s' t"
proof -
  from assms(4) have "fd_stop s' \<and> fd_queues s' t = fd_queues s t \<and> fair_good fn slots s'"
  proof (induction rule: rtranclp_induct)
    case base
    then show ?case using assms(2) fair_good_steps [OF assms(1) fair_good_init] by simp
  next
    case (step u v)
    then have u: "fd_stop u" "t \<in> dom (fd_queues u)" "fd_queues u t = fd_queues s t" "fair_good fn slots u"
      using assms(3) by (auto simp: dom_def)
    from stopped_step [OF step(2) u(1,2,4)] fair_good_step [OF step(2) u(4)] u(3) show ?case by simp
  qed
  then show ?thesis using active_not_done [of fn slots s' t] assms(3) by (auto simp: dom_def)
qed

section \<open>A run of the dispatcher\<close>

text \<open>One task of two items with one slot; every call answers \<open>True\<close>.\<close>

abbreviation "yes \<equiv> (\<lambda>_ _ :: nat. Inr True :: exn + bool)"

definition fair2 :: fair where "fair2 = fair_run 2 (fair_init 1)"

definition fair_turn :: "nat \<times> nat \<Rightarrow> fair \<Rightarrow> fair" where
  "fair_turn x s = fair_count x (fair_one yes x (fair_submit (fair_pick s)))"

lemmas fair_eval = fair2_def fair_turn_def fair_run_def fair_init_def fair_pick_def fair_submit_def fair_one_def fair_count_def
  Let_def numeral_2_eq_2 fun_upd_idem

lemma fair2_reach: "fair_steps yes (fair_init 1) fair2"
  unfolding fair2_def by (intro r_into_rtranclp fair_step.run)

lemma fair_turn_work:
  assumes "\<not> fd_stop s" and "fd_held s = None" and "fd_order s \<noteq> []" and "0 < fd_slots s" and "fd_held (fair_pick s) = Some x"
  shows "(fair_work yes ^^ 4) s (fair_turn x s)"
proof -
  define s2 s3 s4 where "s2 = fair_pick s" and "s3 = fair_submit s2" and "s4 = fair_one yes x s3"
  have "fair_work yes s s2" unfolding s2_def by (rule fair_work.pick [OF assms(1-3)])
  moreover have "fair_work yes s2 s3" unfolding s3_def by (rule fair_work.submit) (use assms in \<open>simp_all add: s2_def\<close>)
  moreover have "fair_work yes s3 s4" unfolding s4_def
    by (rule fair_work.one) (use assms(5) in \<open>simp add: s3_def fair_submit_def s2_def\<close>)
  moreover have "fair_work yes s4 (fair_count x s4)" by (rule fair_work.count) (simp add: s4_def fair_one_def)
  ultimately have "(fair_work yes OO fair_work yes OO fair_work yes OO fair_work yes) s (fair_count x s4)" by blast
  then show ?thesis by (simp add: numeral_eq_Suc relcompp_assoc eq_OO fair_turn_def s4_def s3_def s2_def)
qed

definition fair3 :: fair where "fair3 = fair_turn (0, 0) fair2"
definition fair4 :: fair where "fair4 = fair_turn (0, 1) fair3"

lemma fair3_sel: "fd_queues fair3 = [0 \<mapsto> [1]]" "fd_order fair3 = [0]" "fd_rr fair3 = 1" "fd_held fair3 = None" "fd_slots fair3 = 1"
  "\<not> fd_stop fair3" "fd_next fair3 = 1" "fd_pool fair3 = []" "fd_leaving fair3 = []"
  by (simp_all add: fair3_def fair_eval)

lemma fair4_sel: "fd_next fair4 = 1" "fd_done fair4 0" "fd_size fair4 0 = 2" "fd_order fair4 = []" "fd_pool fair4 = []" "fd_leaving fair4 = []"
  "fd_held fair4 = None" "\<not> fd_stop fair4"
  by (simp_all add: fair4_def fair3_def fair_eval)

lemma fair3_work: "(fair_work yes ^^ 4) fair2 fair3"
  unfolding fair3_def by (rule fair_turn_work) (simp_all add: fair_eval)

lemma fair4_work: "(fair_work yes ^^ 4) fair3 fair4"
  unfolding fair4_def by (rule fair_turn_work) (simp_all add: fair3_sel fair_pick_def Let_def)

lemma fair_work_steps: "(fair_work fn ^^ n) s s' \<Longrightarrow> fair_steps fn s s'"
  by (induction n arbitrary: s') (auto intro: rtranclp.rtrancl_into_rtrancl fair_step.work)

lemma fair3_reach: "fair_steps yes (fair_init 1) fair3"
  using rtranclp_trans [OF fair2_reach fair_work_steps [OF fair3_work]] .

lemma fair4_reach: "fair_steps yes (fair_init 1) fair4"
  using rtranclp_trans [OF fair3_reach fair_work_steps [OF fair4_work]] .

theorem fair_results_witness:
  "fair_steps yes (fair_init 1) fair4 \<and> fd_done fair4 0 \<and> fd_results fair4 0 0 = Some True \<and> fd_results fair4 0 1 = Some True"
  using fair_results [OF fair4_reach] fair4_reach by (auto simp: fair4_sel outcome_def)


theorem fair_terminates_witness:
  "(fair_work yes ^^ 8) fair2 fair4 \<and> 8 \<le> effort fair2 \<and> fd_done fair4 0"
proof -
  have run: "(fair_work yes ^^ (4 + 4)) fair2 fair4" unfolding relpowp_add using fair3_work fair4_work by blast
  have stuck: "\<nexists>u. fair_work yes fair4 u" by (auto simp: fair4_sel elim!: fair_work.cases)
  from fair_terminates [OF fair2_reach _ run] stuck show ?thesis using run by (simp add: fair4_sel)
qed

theorem fair_newcomers_first_witness:
  "\<exists>s'. fair_steps yes fair3 s' \<and> fd_next s' = 1000 \<and> fd_done s' 500 \<and> fd_queues s' 0 = Some [1]"
proof -
  from fair_newcomers_first [OF fair3_reach, of 999] obtain s' where s': "fair_steps yes fair3 s'" "fd_next s' = 1000"
    "\<forall>j < 999. fd_done s' (1 + j)" "fd_queues s' = [0 \<mapsto> [1]]" by (auto simp: fair3_sel)
  from s'(3) [THEN spec, of 499] have "fd_done s' 500" by simp
  with s' show ?thesis by auto
qed

theorem fair_close_strands_witness:
  "fd_queues (fair_close fair2) 0 = Some [0, 1] \<and> \<not> fd_done (fair_close fair2) 0"
proof -
  have r: "fair_steps yes (fair_init 1) (fair_close fair2)"
    using fair2_reach fair_step.close [of yes fair2] by (rule rtranclp.rtrancl_into_rtrancl)
  have q: "fd_queues (fair_close fair2) 0 = Some [0, 1]" by (simp add: fair_close_def fair_eval)
  have "fd_stop (fair_close fair2)" by (simp add: fair_close_def)
  from fair_close_strands [OF r this _ rtranclp.rtrancl_refl, of 0] q show ?thesis by auto
qed

end
