(* ===== verification/L2_Names.thy ===== *)
theory L2_Names
  imports Py_Key Py_Url
begin

text \<open>
  \<^verbatim>\<open>lmcache_daos/mp/l2_adapter.py\<close>, the object names and sizes: \<^verbatim>\<open>_key_to_name\<close>, \<^verbatim>\<open>_path\<close> and
  \<^verbatim>\<open>_expected_bytes\<close>. An \<^verbatim>\<open>ObjectKey\<close> of LMCache is the record of the fields the program reads.
\<close>

record objkey =
  model_name :: string
  kv_rank :: int
  object_group_id :: int
  chunk_hash :: bytes
  cache_salt :: string

section \<open>Python's hexadecimal format\<close>

fun hex_nat :: "nat \<Rightarrow> string" where
  "hex_nat n = (if n < 16 then [hex_digit n] else hex_nat (n div 16) @ [hex_digit n])"

declare hex_nat.simps [simp del]

text \<open>The format \<^verbatim>\<open>{v:0<w>x}\<close>: the sign counts towards the width.\<close>

definition format_hex :: "nat \<Rightarrow> int \<Rightarrow> string" where
  "format_hex w v =
     (let sgn = (if v < 0 then ''-'' else ''''); digits = hex_nat (nat \<bar>v\<bar>)
      in sgn @ replicate (w - length sgn - length digits) CHR ''0'' @ digits)"

section \<open>Names\<close>

definition SEP :: char where "SEP = CHR ''@''"

definition fold_slash :: "string \<Rightarrow> string" where
  "fold_slash s = map (\<lambda>c. if c = CHR ''/'' then CHR ''_'' else c) s"

definition key_to_name :: "objkey \<Rightarrow> string" where
  "key_to_name key =
     (let model = fold_slash (model_name key);
          base = model @ [SEP] @ format_hex 8 (kv_rank key) @ [SEP] @ format_hex 0 (object_group_id key) @
                 [SEP] @ hex_of_bytes (chunk_hash key)
      in if cache_salt key \<noteq> [] then base @ [SEP] @ fold_slash (cache_salt key) else base)"

definition l2_path :: "string \<Rightarrow> objkey \<Rightarrow> string" where
  "l2_path rootdir key = rootdir @ ''/'' @ key_to_name key"

section \<open>Sizes\<close>

text \<open>
  \<^verbatim>\<open>_expected_bytes\<close>: \<open>elsize\<close> is the element size \<^verbatim>\<open>torch\<close> gives for a dtype, or the exception it
  raises; any exception makes the size unknown.
\<close>

fun sum_sizes :: "('dt \<Rightarrow> exn + int) \<Rightarrow> int \<Rightarrow> (int list \<times> 'dt) list \<Rightarrow> exn + int" where
  "sum_sizes elsize acc [] = Inr acc"
| "sum_sizes elsize acc ((shape, dtype) # rest) =
     bind_sum (elsize dtype) (\<lambda>k. sum_sizes elsize (acc + prod_list shape * k) rest)"

definition expected_bytes :: "('dt \<Rightarrow> exn + int) \<Rightarrow> (int list list \<times> 'dt list) option \<Rightarrow> int option" where
  "expected_bytes elsize layout = (case layout of
     None \<Rightarrow> None
   | Some (shapes, dtypes) \<Rightarrow>
       (case sum_sizes elsize 0 (zip shapes dtypes) of Inl _ \<Rightarrow> None | Inr acc \<Rightarrow> Some acc))"

section \<open>Reading the format back\<close>

definition hex_value :: "string \<Rightarrow> nat" where
  "hex_value s = foldl (\<lambda>a c. 16 * a + (case hex_val c of Some d \<Rightarrow> d | None \<Rightarrow> 0)) 0 s"

definition parse_hex :: "string \<Rightarrow> int" where
  "parse_hex s = (case s of [] \<Rightarrow> 0 | c # ds \<Rightarrow> if c = CHR ''-'' then - int (hex_value ds) else int (hex_value s))"

lemma hex_val_digit [simp]: "hex_val (hex_digit n) = Some (n mod 16)"
proof -
  have "n mod 16 \<in> set [0..<16]" by simp
  then show ?thesis
    unfolding hex_digit_def by (auto simp: hex_val_def upt_rec)
qed

lemma hex_value_nat: "hex_value (hex_nat n) = n"
proof (induction n rule: hex_nat.induct)
  case (1 n)
  then show ?case by (subst hex_nat.simps) (auto simp: hex_value_def)
qed

lemma hex_value_zeros: "hex_value (replicate k CHR ''0'' @ s) = hex_value s"
  by (induction k) (simp_all add: hex_value_def hex_val_def)

lemma set_hex_nat: "set (hex_nat n) \<subseteq> hex_alphabet"
  by (induction n rule: hex_nat.induct) (subst hex_nat.simps, simp add: hex_digit_alphabet)

lemma hex_alphabet_chars [simp]: "CHR ''0'' \<in> hex_alphabet" "SEP \<notin> hex_alphabet"
  by (auto simp: hex_alphabet_def SEP_def)

lemma parse_format: "parse_hex (format_hex w v) = v"
proof (cases "v < 0")
  case True
  then show ?thesis by (simp add: parse_hex_def format_hex_def Let_def hex_value_zeros hex_value_nat)
next
  case False
  let ?s = "replicate (w - length (hex_nat (nat v))) CHR ''0'' @ hex_nat (nat v)"
  have "set ?s \<subseteq> hex_alphabet" using set_hex_nat by auto
  then have "parse_hex ?s = int (hex_value ?s)"
    by (cases ?s) (auto simp: parse_hex_def hex_value_def)
  with False show ?thesis by (simp add: format_hex_def Let_def hex_value_zeros hex_value_nat)
qed

lemma format_hex_inj: "format_hex w v = format_hex w v' \<Longrightarrow> v = v'"
  by (metis parse_format)

lemma set_format_hex: "SEP \<notin> set (format_hex w v)" "CHR ''/'' \<notin> set (format_hex w v)"
  using set_hex_nat [of "nat \<bar>v\<bar>"] by (auto simp: format_hex_def Let_def SEP_def hex_alphabet_def)

section \<open>Which keys share a name\<close>

text \<open>\<^verbatim>\<open>ObjectKey\<close> forbids the separator in its text fields.\<close>

definition objkey_ok :: "objkey \<Rightarrow> bool" where
  "objkey_ok key \<longleftrightarrow> SEP \<notin> set (model_name key) \<and> SEP \<notin> set (cache_salt key)"

lemma fold_slash_sep [simp]: "SEP \<in> set (fold_slash s) \<longleftrightarrow> SEP \<in> set s"
  by (auto simp: fold_slash_def SEP_def image_iff split: if_splits)

lemma fold_slash_no_slash [simp]: "CHR ''/'' \<notin> set (fold_slash s)"
  by (auto simp: fold_slash_def split: if_splits)

lemma fold_slash_Nil [simp]: "fold_slash s = [] \<longleftrightarrow> s = []"
  by (simp add: fold_slash_def)

lemma hash_no_sep: "SEP \<notin> set (hex_of_bytes b)"
  using set_hex_of_bytes [of b] hex_alphabet_chars by blast

lemma split_name:
  assumes "objkey_ok key"
  shows "split_on SEP (key_to_name key) =
    [fold_slash (model_name key), format_hex 8 (kv_rank key), format_hex 0 (object_group_id key), hex_of_bytes (chunk_hash key)] @
    (if cache_salt key = [] then [] else [fold_slash (cache_salt key)])"
  using assms
  by (simp add: key_to_name_def Let_def objkey_ok_def split_on_append split_on_none set_format_hex hash_no_sep)

text \<open>
  C33: two keys have the same object name exactly when they agree on the rank, the group and the hash,
  and on the model name and the salt with every slash read as an underscore. So names are unique
  among keys without slashes, and only the folding of slashes can make two keys collide.
\<close>

theorem key_to_name_eq_iff:
  assumes "objkey_ok key" and "objkey_ok key'"
  shows "key_to_name key = key_to_name key' \<longleftrightarrow>
    fold_slash (model_name key) = fold_slash (model_name key') \<and> kv_rank key = kv_rank key' \<and>
    object_group_id key = object_group_id key' \<and> chunk_hash key = chunk_hash key' \<and>
    fold_slash (cache_salt key) = fold_slash (cache_salt key')" (is "?l \<longleftrightarrow> ?r")
proof
  assume ?l
  then have "split_on SEP (key_to_name key) = split_on SEP (key_to_name key')" by simp
  then show ?r unfolding split_name [OF assms(1)] split_name [OF assms(2)]
    by (auto dest: format_hex_inj hex_of_bytes_inj split: if_splits)
next
  assume ?r
  moreover from this have "cache_salt key = [] \<longleftrightarrow> cache_salt key' = []" by (metis fold_slash_Nil)
  ultimately show ?l by (simp add: key_to_name_def Let_def)
qed

theorem key_to_name_eq_iff_witness:
  "key_to_name \<lparr>model_name = ''org/m'', kv_rank = 1, object_group_id = 0, chunk_hash = [171], cache_salt = []\<rparr> =
   key_to_name \<lparr>model_name = ''org_m'', kv_rank = 1, object_group_id = 0, chunk_hash = [171], cache_salt = []\<rparr>"
  using key_to_name_eq_iff
    [of "\<lparr>model_name = ''org/m'', kv_rank = 1, object_group_id = 0, chunk_hash = [171], cache_salt = []\<rparr>"
        "\<lparr>model_name = ''org_m'', kv_rank = 1, object_group_id = 0, chunk_hash = [171], cache_salt = []\<rparr>"]
  by (simp add: objkey_ok_def SEP_def fold_slash_def)

text \<open>
  an object name has no slash, so every object lies directly in the root directory of the adapter,
  and it is never the name of the warm-up probe, which has no separator.
\<close>

theorem key_to_name_flat:
  "CHR ''/'' \<notin> set (key_to_name key) \<and> SEP \<in> set (key_to_name key)"
proof -
  have "CHR ''/'' \<notin> set (hex_of_bytes b)" for b using set_hex_of_bytes [of b] by auto
  moreover have "CHR ''/'' \<noteq> SEP" by (simp add: SEP_def)
  ultimately show ?thesis by (simp add: key_to_name_def Let_def set_format_hex)
qed

lemma l2_path_eq_iff: "l2_path r key = l2_path r key' \<longleftrightarrow> key_to_name key = key_to_name key'"
  by (simp add: l2_path_def)

end
