(* ===== verification/L2_Config.thy ===== *)
theory L2_Config
  imports L2_Names
begin

text \<open>
  \<^verbatim>\<open>lmcache_daos/mp/l2_adapter.py\<close>, the configuration: \<^verbatim>\<open>DaosL2AdapterConfig\<close> and its \<^verbatim>\<open>from_dict\<close>.
  The dictionary is decoded JSON. In Python a \<^verbatim>\<open>bool\<close> is an \<^verbatim>\<open>int\<close>, so \<open>JBool\<close> passes the integer
  tests with the value 0 or 1; numbers are exact, the rounding of \<^verbatim>\<open>float()\<close> and the special floats are
  left out. The parsers of the common sub-configurations belong to LMCache's base class and are
  arguments.
\<close>

datatype json = JNull | JBool bool | JInt int | JFloat real | JStr string | JOther

type_synonym pydict = "string \<Rightarrow> json option"

text \<open>\<^verbatim>\<open>d.get(k, default)\<close>\<close>

definition dget :: "pydict \<Rightarrow> string \<Rightarrow> json \<Rightarrow> json" where
  "dget d k dflt = (case d k of None \<Rightarrow> dflt | Some v \<Rightarrow> v)"

text \<open>\<^verbatim>\<open>isinstance(v, int)\<close> and \<^verbatim>\<open>isinstance(v, (int, float))\<close>, with the number.\<close>

fun as_int :: "json \<Rightarrow> int option" where
  "as_int (JInt i) = Some i"
| "as_int (JBool b) = Some (of_bool b)"
| "as_int _ = None"

fun as_number :: "json \<Rightarrow> real option" where
  "as_number (JFloat r) = Some r"
| "as_number v = map_option of_int (as_int v)"

fun as_str :: "json \<Rightarrow> string option" where
  "as_str (JStr s) = Some s"
| "as_str _ = None"

fun as_bool :: "json \<Rightarrow> bool option" where
  "as_bool (JBool b) = Some b"
| "as_bool _ = None"

section \<open>The configuration object\<close>

record ('ev, 'pe, 'se) l2config =
  cfg_pool :: string
  cfg_container :: string
  cfg_sys :: "string option"
  cfg_root :: string
  cfg_workers :: int
  cfg_max_capacity_gb :: real
  cfg_verify_size :: bool
  cfg_status_interval :: real
  cfg_task_workers :: int
  cfg_load_schedule :: string
  cfg_probe_chunks :: int
  cfg_eviction :: "'ev option"
  cfg_persist :: "'pe option"
  cfg_serde :: "'se option"

text \<open>\<^verbatim>\<open>root.rstrip("/") or "/"\<close>\<close>

definition strip_root :: "string \<Rightarrow> string" where
  "strip_root r = (let s = rev (dropWhile (\<lambda>c. c = CHR ''/'') (rev r)) in if s = [] then ''/'' else s)"

text \<open>\<^verbatim>\<open>__init__\<close>; the three sub-configurations are attributes set afterwards.\<close>

definition l2config_init :: "string \<Rightarrow> string \<Rightarrow> string option \<Rightarrow> string \<Rightarrow> int \<Rightarrow> real \<Rightarrow> bool \<Rightarrow> real \<Rightarrow> int \<Rightarrow> string \<Rightarrow> int \<Rightarrow>
    ('ev, 'pe, 'se) l2config" where
  "l2config_init pool container sysname rootdir workers cap verify interval task_workers schedule probe_chunks =
     \<lparr>cfg_pool = pool, cfg_container = container, cfg_sys = sysname, cfg_root = strip_root rootdir,
      cfg_workers = workers, cfg_max_capacity_gb = cap, cfg_verify_size = verify, cfg_status_interval = interval,
      cfg_task_workers = task_workers, cfg_load_schedule = schedule, cfg_probe_chunks = probe_chunks,
      cfg_eviction = None, cfg_persist = None, cfg_serde = None\<rparr>"

text \<open>The defaults of the keyword arguments.\<close>

definition l2config_defaults :: "string \<Rightarrow> string \<Rightarrow> ('ev, 'pe, 'se) l2config" where
  "l2config_defaults pool container = l2config_init pool container None ''/mp'' 8 0 True 60 32 ''fifo'' 64"

definition need :: "'a option \<Rightarrow> ('a \<Rightarrow> bool) \<Rightarrow> exn + 'a" where
  "need v ok = (case v of None \<Rightarrow> Inl ValueError | Some x \<Rightarrow> if ok x then Inr x else Inl ValueError)"

definition from_dict :: "(pydict \<Rightarrow> exn + 'ev) \<Rightarrow> (pydict \<Rightarrow> exn + 'pe) \<Rightarrow> (pydict \<Rightarrow> exn + 'se) \<Rightarrow> pydict \<Rightarrow>
    exn + ('ev, 'pe, 'se) l2config" where
  "from_dict parse_eviction parse_persist parse_serde d =
     bind_sum (need (as_str (dget d ''pool'' JNull)) (\<lambda>s. s \<noteq> [])) (\<lambda>pool.
     bind_sum (need (as_str (dget d ''container'' JNull)) (\<lambda>s. s \<noteq> [])) (\<lambda>container.
     bind_sum (case dget d ''sys'' JNull of JNull \<Rightarrow> Inr None | v \<Rightarrow> bind_sum (need (as_str v) (\<lambda>_. True)) (\<lambda>s. Inr (Some s))) (\<lambda>sysname.
     bind_sum (need (as_str (dget d ''root'' (JStr ''/mp''))) (\<lambda>s. take 1 s = ''/'')) (\<lambda>rootdir.
     bind_sum (need (as_int (dget d ''workers'' (JInt 8))) (\<lambda>n. 0 < n)) (\<lambda>workers.
     bind_sum (need (as_number (dget d ''max_capacity_gb'' (JInt 0))) (\<lambda>x. 0 \<le> x)) (\<lambda>cap.
     bind_sum (need (as_bool (dget d ''verify_size'' (JBool True))) (\<lambda>_. True)) (\<lambda>verify.
     bind_sum (need (as_number (dget d ''status_interval_s'' (JInt 0))) (\<lambda>x. 0 \<le> x)) (\<lambda>interval.
     bind_sum (need (as_int (dget d ''task_workers'' (JInt 32))) (\<lambda>n. 0 < n)) (\<lambda>task_workers.
     bind_sum (need (as_str (dget d ''load_schedule'' (JStr ''fifo''))) (\<lambda>s. s \<in> {''fifo'', ''fair''})) (\<lambda>schedule.
     bind_sum (need (as_int (dget d ''probe_chunks'' (JInt 64))) (\<lambda>n. 0 \<le> n)) (\<lambda>probe_chunks.
     let cfg = l2config_init pool container sysname rootdir workers cap verify interval task_workers schedule probe_chunks in
     bind_sum (parse_eviction d) (\<lambda>ev.
     bind_sum (parse_persist d) (\<lambda>pe.
     bind_sum (parse_serde d) (\<lambda>se.
     Inr (cfg\<lparr>cfg_eviction := Some ev, cfg_persist := Some pe, cfg_serde := Some se\<rparr>)))))))))))))))"

section \<open>What a configuration from a dictionary satisfies\<close>

definition l2config_ok :: "('ev, 'pe, 'se) l2config \<Rightarrow> bool" where
  "l2config_ok c \<longleftrightarrow> cfg_pool c \<noteq> [] \<and> cfg_container c \<noteq> [] \<and> take 1 (cfg_root c) = ''/'' \<and>
     (cfg_root c = ''/'' \<or> last (cfg_root c) \<noteq> CHR ''/'') \<and> 0 < cfg_workers c \<and> 0 < cfg_task_workers c \<and>
     0 \<le> cfg_max_capacity_gb c \<and> 0 \<le> cfg_status_interval c \<and> 0 \<le> cfg_probe_chunks c \<and>
     cfg_load_schedule c \<in> {''fifo'', ''fair''}"

lemma strip_root_ok:
  assumes "take 1 r = ''/''"
  shows "take 1 (strip_root r) = ''/'' \<and> (strip_root r = ''/'' \<or> last (strip_root r) \<noteq> CHR ''/'')"
proof -
  let ?s = "rev (dropWhile (\<lambda>c. c = CHR ''/'') (rev r))"
  define s u where "s = ?s" and "u = rev (takeWhile (\<lambda>c. c = CHR ''/'') (rev r))"
  have "r = s @ u"
    using arg_cong [OF takeWhile_dropWhile_id [of "\<lambda>c. c = CHR ''/''" "rev r"], of rev]
    by (simp only: s_def u_def rev_append rev_rev_ident)
  then have "take 1 ?s = take 1 r" if "?s \<noteq> []"
    using that unfolding s_def [symmetric] by (cases s) simp_all
  moreover have "?s \<noteq> [] \<Longrightarrow> last ?s \<noteq> CHR ''/''"
    using hd_dropWhile [of "\<lambda>c. c = CHR ''/''" "rev r"] by (simp add: last_rev)
  ultimately show ?thesis using assms by (auto simp: strip_root_def Let_def)
qed

lemma need_Inr_iff [simp]: "need v ok = Inr x \<longleftrightarrow> v = Some x \<and> ok x"
  by (auto simp: need_def split: option.splits if_splits)

lemma need_Inl [simp]: "need v ok = Inl e \<Longrightarrow> e = ValueError"
  by (auto simp: need_def split: option.splits if_splits)



text \<open>
  with only the required fields given, \<open>from_dict\<close> yields the documented defaults of the
  constructor except for the status interval: the constructor defaults to a report every 60 seconds,
  a configuration from a dictionary has reporting off.
\<close>

theorem from_dict_defaults:
  assumes "p \<noteq> []" and "c \<noteq> []" and "pe d = Inr ev" and "pp d = Inr per" and "ps d = Inr se"
    and "d = [''pool'' \<mapsto> JStr p, ''container'' \<mapsto> JStr c]"
  shows "from_dict pe pp ps d =
    Inr ((l2config_defaults p c)\<lparr>cfg_status_interval := 0, cfg_eviction := Some ev, cfg_persist := Some per, cfg_serde := Some se\<rparr>)"
  using assms by (simp add: from_dict_def dget_def need_def l2config_defaults_def l2config_init_def Let_def)

theorem from_dict_defaults_witness:
  "\<exists>cfg. from_dict (\<lambda>_. Inr ()) (\<lambda>_. Inr ()) (\<lambda>_. Inr ()) [''pool'' \<mapsto> JStr ''p'', ''container'' \<mapsto> JStr ''c''] = Inr cfg \<and>
     cfg_status_interval cfg = 0 \<and> cfg_status_interval (l2config_defaults ''p'' ''c'' :: (unit, unit, unit) l2config) = 60"
  using from_dict_defaults [of "''p''" "''c''" "\<lambda>_. Inr ()" _ "()" "\<lambda>_. Inr ()" "()" "\<lambda>_. Inr ()" "()", OF _ _ _ _ _ refl]
  by (simp add: l2config_defaults_def l2config_init_def)

text \<open>
  a dictionary is refused with a \<open>ValueError\<close>, or with whatever a parser of a common
  sub-configuration raises; nothing else escapes.
\<close>

theorem from_dict_errors:
  assumes "from_dict pe pp ps d = Inl e"
  shows "e = ValueError \<or> pe d = Inl e \<or> pp d = Inl e \<or> ps d = Inl e"
  using assms unfolding from_dict_def bind_sum_def Let_def
  by (auto split: sum.splits json.splits dest: need_Inl)

theorem from_dict_errors_witness:
  "from_dict (\<lambda>_. Inr ()) (\<lambda>_. Inr ()) (\<lambda>_. Inr ()) [''pool'' \<mapsto> JStr ''p'', ''container'' \<mapsto> JNull] = Inl ValueError"
proof -
  have "\<exists>e. from_dict (\<lambda>_. Inr ()) (\<lambda>_. Inr ()) (\<lambda>_. Inr ()) [''pool'' \<mapsto> JStr ''p'', ''container'' \<mapsto> JNull] = Inl e"
    by (simp add: from_dict_def dget_def need_def)
  with from_dict_errors [of "\<lambda>_. Inr ()" "\<lambda>_. Inr ()" "\<lambda>_. Inr ()"] show ?thesis by fastforce
qed

end
