(* ===== verification/L2_Adapter.thy ===== *)
theory L2_Adapter
  imports L2_Config Mem_Dfs
begin

text \<open>
  \<^verbatim>\<open>lmcache_daos/mp/l2_adapter.py\<close>: the class \<^verbatim>\<open>DaosL2Adapter\<close>, the second-level cache of the
  multiprocess server. The state is the name space behind \<^verbatim>\<open>libdfs\<close>, the caller's buffers, and the
  attributes of the adapter. A clock is read through a counter, so that two readings may differ.
  The calls of the base class's hooks and of the event notifiers are recorded in \<open>l_notes\<close>.

  A call on one key runs as one step; the order in which the pool finishes the keys of a task is an
  argument. Counters are updated as the source writes it; the updates it makes outside the lock are
  not interleaved.
\<close>

section \<open>State\<close>

text \<open>The caller's \<^verbatim>\<open>MemoryObj\<close> buffers: \<open>l_view\<close> is \<^verbatim>\<open>obj.byte_array\<close> as \<^verbatim>\<open>_cbuf\<close> aliases it.\<close>

record 'm l2mem =
  l_view :: "'m \<Rightarrow> nat \<Rightarrow> exn + bytes"
  l_put :: "nat \<Rightarrow> bytes \<Rightarrow> 'm \<Rightarrow> 'm"

datatype l2op = OpStore | OpLookup | OpLoad | OpDelete

record l2stats =
  n_store_tasks :: nat
  n_store_keys :: nat
  n_store_skipped :: nat
  n_store_failed_keys :: nat
  n_lookup_tasks :: nat
  n_lookup_hits :: nat
  n_lookup_misses :: nat
  n_load_tasks :: nat
  n_load_ok :: nat
  n_load_failed :: nat
  n_deleted :: nat
  n_errors :: nat
  n_load_bytes :: nat
  load_seconds :: real
  lookup_seconds :: real
  n_store_bytes :: nat
  store_seconds :: real
  errors_by_op :: "l2op \<Rightarrow> nat"
  last_ok :: real
  last_error :: "exn option"
  last_error_at :: real

definition stats_init :: l2stats where
  "stats_init = \<lparr>n_store_tasks = 0, n_store_keys = 0, n_store_skipped = 0, n_store_failed_keys = 0,
     n_lookup_tasks = 0, n_lookup_hits = 0, n_lookup_misses = 0, n_load_tasks = 0, n_load_ok = 0,
     n_load_failed = 0, n_deleted = 0, n_errors = 0, n_load_bytes = 0, load_seconds = 0, lookup_seconds = 0,
     n_store_bytes = 0, store_seconds = 0, errors_by_op = (\<lambda>_. 0), last_ok = 0, last_error = None, last_error_at = 0\<rparr>"

datatype l2task =
    TStore nat "objkey list" "nat list"
  | TLookup nat "objkey list" "int option"
  | TLoad nat "objkey list" "nat list"

datatype l2note =
    KeysStored "objkey list" "nat list"
  | KeysAccessed "objkey list"
  | KeysDeleted "objkey list" "nat list"
  | StoreEvent
  | LookupEvent
  | LoadEvent

record ('d, 'm) l2world =
  l_dfs :: 'd
  l_mem :: 'm
  l_tick :: nat
  l_next_task_id :: nat
  l_tasks :: "l2task list"
  l_completed_store :: "nat \<Rightarrow> (bool \<times> nat) option"
  l_completed_lookup :: "nat \<Rightarrow> bool list option"
  l_completed_load :: "nat \<Rightarrow> bool list option"
  l_locks :: "objkey \<Rightarrow> nat option"
  l_inflight :: int
  l_stats :: l2stats
  l_notes :: "l2note list"

text \<open>The library, the buffers, the two clocks by reading, and the settings.\<close>

record ('d, 'm) l2env =
  v_dfs :: "'d libdfs"
  v_mem :: "'m l2mem"
  v_time :: "nat \<Rightarrow> real"
  v_mono :: "nat \<Rightarrow> real"
  v_root :: string
  v_verify :: bool
  v_fair :: bool

definition on_ldfs :: "('d, 'a) io \<Rightarrow> (('d, 'm) l2world, 'a) io" where
  "on_ldfs m = (\<lambda>s. case m (l_dfs s) of (r, d') \<Rightarrow> (r, s\<lparr>l_dfs := d'\<rparr>))"

definition read_clock :: "(nat \<Rightarrow> real) \<Rightarrow> (('d, 'm) l2world, real) io" where
  "read_clock c = (\<lambda>s. (Inr (c (l_tick s)), s\<lparr>l_tick := l_tick s + 1\<rparr>))"

definition upd_stats :: "(l2stats \<Rightarrow> l2stats) \<Rightarrow> (('d, 'm) l2world, unit) io" where
  "upd_stats f = put_s (\<lambda>s. s\<lparr>l_stats := f (l_stats s)\<rparr>)"

definition add_note :: "l2note \<Rightarrow> (('d, 'm) l2world, unit) io" where
  "add_note x = put_s (\<lambda>s. s\<lparr>l_notes := l_notes s @ [x]\<rparr>)"

lemma wp_on_ldfs [wp_simps]: "wp (on_ldfs m) Q s = wp m (\<lambda>r d'. Q r (s\<lparr>l_dfs := d'\<rparr>)) (l_dfs s)"
  by (auto simp: wp_def on_ldfs_def split: prod.splits)

lemma wp_read_clock [wp_simps]: "wp (read_clock c) Q s = Q (Inr (c (l_tick s))) (s\<lparr>l_tick := l_tick s + 1\<rparr>)"
  by (simp add: wp_def read_clock_def)

lemma wp_upd_stats [wp_simps]: "wp (upd_stats f) Q s = Q (Inr ()) (s\<lparr>l_stats := f (l_stats s)\<rparr>)"
  by (simp add: upd_stats_def wp_put_s)

lemma wp_add_note [wp_simps]: "wp (add_note x) Q s = Q (Inr ()) (s\<lparr>l_notes := l_notes s @ [x]\<rparr>)"
  by (simp add: add_note_def wp_put_s)

section \<open>Helpers of the class\<close>

definition new_task_id :: "(('d, 'm) l2world, nat) io" where
  "new_task_id =
     bind_io (get_s l_next_task_id) (\<lambda>tid.
     bind_io (put_s (\<lambda>s. s\<lparr>l_next_task_id := tid + 1, l_inflight := l_inflight s + 1\<rparr>)) (\<lambda>_. ret tid))"

definition note_ok :: "('d, 'm) l2env \<Rightarrow> (('d, 'm) l2world, unit) io" where
  "note_ok E = bind_io (read_clock (v_time E)) (\<lambda>t. upd_stats (\<lambda>st. st\<lparr>last_ok := t\<rparr>))"

definition note_error :: "('d, 'm) l2env \<Rightarrow> l2op \<Rightarrow> exn \<Rightarrow> (('d, 'm) l2world, unit) io" where
  "note_error E op err =
     bind_io (upd_stats (\<lambda>st. st\<lparr>n_errors := n_errors st + 1,
        errors_by_op := (errors_by_op st)(op := errors_by_op st op + 1), last_error := Some err\<rparr>)) (\<lambda>_.
     bind_io (read_clock (v_time E)) (\<lambda>t. upd_stats (\<lambda>st. st\<lparr>last_error_at := t\<rparr>)))"

definition finish :: "(('d, 'm) l2world, unit) io" where
  "finish = put_s (\<lambda>s. s\<lparr>l_inflight := l_inflight s - 1\<rparr>)"

definition cbuf :: "('d, 'm) l2env \<Rightarrow> nat \<Rightarrow> (('d, 'm) l2world, bytes) io" where
  "cbuf E ob = (\<lambda>s. (l_view (v_mem E) (l_mem s) ob, s))"

lemma wp_cbuf [wp_simps]: "wp (cbuf E ob) Q s = Q (l_view (v_mem E) (l_mem s) ob) s"
  by (simp add: wp_def cbuf_def)

text \<open>\<^verbatim>\<open>except (DaosError, OSError, ValueError)\<close>\<close>

definition io_error :: "exn \<Rightarrow> bool" where
  "io_error e \<longleftrightarrow> is_OSError e \<or> is_ValueError e"

section \<open>One key\<close>

definition store_one :: "('d, 'm) l2env \<Rightarrow> objkey \<times> nat \<Rightarrow> (('d, 'm) l2world, int) io" where
  "store_one E = (\<lambda>(key, ob).
     let path = l2_path (v_root E) key in
     catch_io io_error
       (bind_io (cbuf E ob) (\<lambda>src.
        let n = length src in
        bind_io (on_ldfs (stat_size (v_dfs E) path)) (\<lambda>have.
        if have = Some n then ret 0
        else
        bind_io (on_ldfs (open_rdwr_create (v_dfs E) path 0)) (\<lambda>h.
        bind_io (finally_io (on_ldfs (write_obj_from (v_dfs E) h 0 n src)) (on_ldfs (close_obj (v_dfs E) h))) (\<lambda>wrote.
        if wrote \<noteq> n then bind_io (on_ldfs (dfs_remove (v_dfs E) path)) (\<lambda>_. ret (- 1))
        else ret (int n))))))
       (\<lambda>e. bind_io (note_error E OpStore e) (\<lambda>_. ret (- 1))))"

definition lookup_one :: "('d, 'm) l2env \<Rightarrow> objkey \<times> int option \<Rightarrow> (('d, 'm) l2world, bool) io" where
  "lookup_one E = (\<lambda>(key, expected).
     bind_io (catch_io is_OSError
         (bind_io (on_ldfs (stat_size (v_dfs E) (l2_path (v_root E) key))) (\<lambda>sz. ret (Some sz)))
         (\<lambda>e. bind_io (note_error E OpLookup e) (\<lambda>_. ret None))) (\<lambda>r.
     ret (case r of
       None \<Rightarrow> False
     | Some None \<Rightarrow> False
     | Some (Some sz) \<Rightarrow> (case expected of None \<Rightarrow> True | Some x \<Rightarrow> int sz = x))))"

definition load_one :: "('d, 'm) l2env \<Rightarrow> objkey \<times> nat \<Rightarrow> (('d, 'm) l2world, bool) io" where
  "load_one E = (\<lambda>(key, ob).
     let path = l2_path (v_root E) key in
     catch_io io_error
       (bind_io (cbuf E ob) (\<lambda>dst.
        let n = length dst in
        bind_io (on_ldfs (open_rdonly (v_dfs E) path)) (\<lambda>h.
        bind_io (finally_io
            (bind_io (on_ldfs (read_obj_into (v_dfs E) h 0 n dst)) (\<lambda>(got, buf).
             bind_io (put_s (\<lambda>s. s\<lparr>l_mem := l_put (v_mem E) ob buf (l_mem s)\<rparr>)) (\<lambda>_. ret got)))
            (on_ldfs (close_obj (v_dfs E) h))) (\<lambda>got.
        ret (got = n)))))
       (\<lambda>e. bind_io (note_error E OpLoad e) (\<lambda>_. ret False)))"

text \<open>One turn of the loop of \<^verbatim>\<open>delete\<close>: the size of the object, if it was there and is gone.\<close>

definition delete_one :: "('d, 'm) l2env \<Rightarrow> objkey \<Rightarrow> (('d, 'm) l2world, nat option) io" where
  "delete_one E key =
     (let path = l2_path (v_root E) key in
      catch_io is_OSError
        (bind_io (on_ldfs (stat_size (v_dfs E) path)) (\<lambda>sz. case sz of
           None \<Rightarrow> ret None
         | Some n \<Rightarrow> bind_io (on_ldfs (dfs_remove (v_dfs E) path)) (\<lambda>ok. ret (if ok then Some n else None))))
        (\<lambda>e. bind_io (note_error E OpDelete e) (\<lambda>_. ret None)))"

section \<open>Tasks\<close>

definition submit_store_task :: "objkey list \<Rightarrow> nat list \<Rightarrow> (('d, 'm) l2world, nat) io" where
  "submit_store_task keys objs =
     bind_io new_task_id (\<lambda>tid.
     bind_io (put_s (\<lambda>s. s\<lparr>l_tasks := l_tasks s @ [TStore tid keys objs]\<rparr>)) (\<lambda>_. ret tid))"

definition submit_lookup_and_lock_task :: "('d, 'm) l2env \<Rightarrow> ('dt \<Rightarrow> exn + int) \<Rightarrow> objkey list \<Rightarrow>
    (int list list \<times> 'dt list) option \<Rightarrow> (('d, 'm) l2world, nat) io" where
  "submit_lookup_and_lock_task E elsize keys layout_desc =
     bind_io new_task_id (\<lambda>tid.
     let expected = (if v_verify E then expected_bytes elsize layout_desc else None) in
     bind_io (put_s (\<lambda>s. s\<lparr>l_tasks := l_tasks s @ [TLookup tid keys expected]\<rparr>)) (\<lambda>_. ret tid))"

definition submit_load_task :: "objkey list \<Rightarrow> nat list \<Rightarrow> (('d, 'm) l2world, nat) io" where
  "submit_load_task keys objs =
     bind_io new_task_id (\<lambda>tid.
     bind_io (put_s (\<lambda>s. s\<lparr>l_tasks := l_tasks s @ [TLoad tid keys objs]\<rparr>)) (\<lambda>_. ret tid))"

text \<open>
  The result of the pool, or \<open>None\<close> after an exception, which the task records and swallows. A memory
  fault is the end of the process.
\<close>

definition guarded :: "('d, 'm) l2env \<Rightarrow> l2op \<Rightarrow> (('d, 'm) l2world, 'a) io \<Rightarrow> (('d, 'm) l2world, 'a option) io" where
  "guarded E op m =
     catch_io is_Exception (bind_io m (\<lambda>x. ret (Some x))) (\<lambda>e. bind_io (note_error E op e) (\<lambda>_. ret None))"

text \<open>The loop over the results of a store: the keys written, with their sizes.\<close>

fun tally_store :: "(objkey \<times> int) list \<Rightarrow> bool \<times> (objkey \<times> nat) list \<times> l2stats \<Rightarrow> bool \<times> (objkey \<times> nat) list \<times> l2stats" where
  "tally_store [] acc = acc"
| "tally_store ((key, r) # rest) (success, stored, st) =
     (if r < 0 then tally_store rest (False, stored, st\<lparr>n_store_failed_keys := n_store_failed_keys st + 1\<rparr>)
      else if r = 0 then tally_store rest (success, stored, st\<lparr>n_store_skipped := n_store_skipped st + 1\<rparr>)
      else tally_store rest (success, stored @ [(key, nat r)], st))"

text \<open>What follows the store loop: the result, the counters, the hooks, the notifier.\<close>

definition store_done :: "('d, 'm) l2env \<Rightarrow> objkey list \<Rightarrow> nat \<Rightarrow> real \<Rightarrow> bool \<times> (objkey \<times> nat) list \<Rightarrow> (('d, 'm) l2world, unit) io" where
  "store_done E keys tid t0 = (\<lambda>(success, stored).
     let total_bytes = sum_list (map snd stored) in
     bind_io (read_clock (v_mono E)) (\<lambda>t1.
     bind_io (put_s (\<lambda>s. s\<lparr>l_completed_store := (l_completed_store s)(tid \<mapsto> (success, total_bytes))\<rparr>)) (\<lambda>_.
     bind_io (upd_stats (\<lambda>st. st\<lparr>n_store_tasks := n_store_tasks st + 1, n_store_keys := n_store_keys st + length keys,
        n_store_bytes := n_store_bytes st + total_bytes, store_seconds := store_seconds st + (t1 - t0)\<rparr>)) (\<lambda>_.
     bind_io (if stored \<noteq> []
              then bind_io (note_ok E) (\<lambda>_. add_note (KeysStored (map fst stored) (map snd stored)))
              else ret ()) (\<lambda>_.
     bind_io finish (\<lambda>_. add_note StoreEvent))))))"

definition execute_store :: "('d, 'm) l2env \<Rightarrow> nat list \<Rightarrow> objkey list \<Rightarrow> nat list \<Rightarrow> nat \<Rightarrow> (('d, 'm) l2world, unit) io" where
  "execute_store E sched keys objs tid =
     bind_io (read_clock (v_mono E)) (\<lambda>t0.
     bind_io (guarded E OpStore (pool_map sched (map (store_one E) (zip keys objs)))) (\<lambda>res.
     bind_io (case res of
         None \<Rightarrow> ret (False, [])
       | Some results \<Rightarrow>
           bind_io (get_s (\<lambda>s. tally_store (zip keys results) (True, [], l_stats s))) (\<lambda>(success, stored, st).
           bind_io (upd_stats (\<lambda>_. st)) (\<lambda>_. ret (success, stored))))
       (store_done E keys tid t0)))"

text \<open>The loop of a lookup under the lock: the bitmap, the lock counts, the counters.\<close>

definition lock_count :: "(objkey \<Rightarrow> nat option) \<Rightarrow> objkey \<Rightarrow> nat" where
  "lock_count locks key = (case locks key of None \<Rightarrow> 0 | Some n \<Rightarrow> n)"

fun lock_hits :: "nat \<Rightarrow> (objkey \<times> bool) list \<Rightarrow> bool list \<Rightarrow> ('d, 'm) l2world \<Rightarrow> bool list \<times> ('d, 'm) l2world" where
  "lock_hits i [] bitmap s = (bitmap, s)"
| "lock_hits i ((key, hit) # rest) bitmap s =
     (if hit
      then lock_hits (i + 1) rest (bitmap[i := True])
             (s\<lparr>l_locks := (l_locks s)(key \<mapsto> lock_count (l_locks s) key + 1),
                l_stats := (l_stats s)\<lparr>n_lookup_hits := n_lookup_hits (l_stats s) + 1\<rparr>\<rparr>)
      else lock_hits (i + 1) rest bitmap
             (s\<lparr>l_stats := (l_stats s)\<lparr>n_lookup_misses := n_lookup_misses (l_stats s) + 1\<rparr>\<rparr>))"

definition lookup_done :: "('d, 'm) l2env \<Rightarrow> nat \<Rightarrow> real \<Rightarrow> bool list \<Rightarrow> (('d, 'm) l2world, unit) io" where
  "lookup_done E tid t0 bitmap =
     bind_io (read_clock (v_mono E)) (\<lambda>t1.
     bind_io (put_s (\<lambda>s. s\<lparr>l_completed_lookup := (l_completed_lookup s)(tid \<mapsto> bitmap)\<rparr>)) (\<lambda>_.
     bind_io (upd_stats (\<lambda>st. st\<lparr>n_lookup_tasks := n_lookup_tasks st + 1, lookup_seconds := lookup_seconds st + (t1 - t0)\<rparr>)) (\<lambda>_.
     bind_io (get_s (\<lambda>s. n_lookup_hits (l_stats s))) (\<lambda>hits.
     bind_io (if hits \<noteq> 0 then note_ok E else ret ()) (\<lambda>_.
     bind_io finish (\<lambda>_. add_note LookupEvent))))))"

definition execute_lookup :: "('d, 'm) l2env \<Rightarrow> nat list \<Rightarrow> objkey list \<Rightarrow> int option \<Rightarrow> nat \<Rightarrow> (('d, 'm) l2world, unit) io" where
  "execute_lookup E sched keys expected tid =
     bind_io (read_clock (v_mono E)) (\<lambda>t0.
     let bitmap = replicate (length keys) False in
     bind_io (guarded E OpLookup (pool_map sched (map (\<lambda>k. lookup_one E (k, expected)) keys))) (\<lambda>res.
     bind_io (case res of
         None \<Rightarrow> ret bitmap
       | Some hits \<Rightarrow> (\<lambda>s. case lock_hits 0 (zip keys hits) bitmap s of (bm, s') \<Rightarrow> (Inr bm, s')))
       (lookup_done E tid t0)))"

text \<open>
  The loop over the results of a load: bitmap, keys that hit, bytes, counters. An exception of
  \<^verbatim>\<open>byte_array\<close> ends the loop and keeps what it has done so far.
\<close>

fun tally_load :: "('d, 'm) l2env \<Rightarrow> nat \<Rightarrow> (objkey \<times> bool) list \<Rightarrow> nat list \<Rightarrow> bool list \<times> objkey list \<times> nat \<Rightarrow>
    (('d, 'm) l2world, (bool list \<times> objkey list \<times> nat) \<times> exn option) io" where
  "tally_load E i [] objs acc = ret (acc, None)"
| "tally_load E i ((key, ok) # rest) objs (bitmap, hit_keys, nbytes) =
     (if ok
      then bind_io (upd_stats (\<lambda>st. st\<lparr>n_load_ok := n_load_ok st + 1\<rparr>)) (\<lambda>_.
           bind_io (get_s (\<lambda>s. l_view (v_mem E) (l_mem s) (objs ! i))) (\<lambda>view. case view of
             Inl e \<Rightarrow> ret ((bitmap[i := True], hit_keys @ [key], nbytes), Some e)
           | Inr b \<Rightarrow> tally_load E (i + 1) rest objs (bitmap[i := True], hit_keys @ [key], nbytes + length b)))
      else bind_io (upd_stats (\<lambda>st. st\<lparr>n_load_failed := n_load_failed st + 1\<rparr>)) (\<lambda>_.
           tally_load E (i + 1) rest objs (bitmap, hit_keys, nbytes)))"

text \<open>
  \<open>sched\<close> is the order in which the pool finishes the keys. The fair dispatcher reports an exception of
  one key as \<open>False\<close>; with \<^verbatim>\<open>pool.map\<close> it fails the whole task.
\<close>

definition load_task :: "('d, 'm) l2env \<Rightarrow> objkey \<times> nat \<Rightarrow> (('d, 'm) l2world, bool) io" where
  "load_task E item = (if v_fair E then catch_io is_Exception (load_one E item) (\<lambda>_. ret False) else load_one E item)"

definition load_done :: "('d, 'm) l2env \<Rightarrow> nat \<Rightarrow> real \<Rightarrow> bool list \<times> objkey list \<times> nat \<Rightarrow> (('d, 'm) l2world, unit) io" where
  "load_done E tid t0 = (\<lambda>(bitmap, hit_keys, nbytes).
     bind_io (read_clock (v_mono E)) (\<lambda>t1.
     bind_io (put_s (\<lambda>s. s\<lparr>l_completed_load := (l_completed_load s)(tid \<mapsto> bitmap)\<rparr>)) (\<lambda>_.
     bind_io (upd_stats (\<lambda>st. st\<lparr>n_load_tasks := n_load_tasks st + 1, n_load_bytes := n_load_bytes st + nbytes,
        load_seconds := load_seconds st + (t1 - t0)\<rparr>)) (\<lambda>_.
     bind_io (if nbytes \<noteq> 0 then note_ok E else ret ()) (\<lambda>_.
     bind_io (if hit_keys \<noteq> [] then add_note (KeysAccessed hit_keys) else ret ()) (\<lambda>_.
     bind_io finish (\<lambda>_. add_note LoadEvent)))))))"

definition execute_load :: "('d, 'm) l2env \<Rightarrow> nat list \<Rightarrow> objkey list \<Rightarrow> nat list \<Rightarrow> nat \<Rightarrow> (('d, 'm) l2world, unit) io" where
  "execute_load E sched keys objs tid =
     bind_io (read_clock (v_mono E)) (\<lambda>t0.
     let start = (replicate (length keys) False, [], 0) in
     bind_io (guarded E OpLoad (pool_map sched (map (load_task E) (zip keys objs)))) (\<lambda>res.
     bind_io (case res of
         None \<Rightarrow> ret start
       | Some oks \<Rightarrow>
           bind_io (tally_load E 0 (zip keys oks) objs start) (\<lambda>(acc, err). case err of
             None \<Rightarrow> ret acc
           | Some e \<Rightarrow> if is_Exception e then bind_io (note_error E OpLoad e) (\<lambda>_. ret acc) else raise e))
       (load_done E tid t0)))"

definition run_task :: "('d, 'm) l2env \<Rightarrow> nat list \<Rightarrow> l2task \<Rightarrow> (('d, 'm) l2world, unit) io" where
  "run_task E sched t = (case t of
     TStore tid keys objs \<Rightarrow> execute_store E sched keys objs tid
   | TLookup tid keys expected \<Rightarrow> execute_lookup E sched keys expected tid
   | TLoad tid keys objs \<Rightarrow> execute_load E sched keys objs tid)"

section \<open>Results, locks, deletion\<close>

definition pop_completed_store_tasks :: "(('d, 'm) l2world, nat \<Rightarrow> (bool \<times> nat) option) io" where
  "pop_completed_store_tasks =
     bind_io (get_s l_completed_store) (\<lambda>done.
     bind_io (put_s (\<lambda>s. s\<lparr>l_completed_store := Map.empty\<rparr>)) (\<lambda>_. ret done))"

definition query_lookup_and_lock_result :: "nat \<Rightarrow> (('d, 'm) l2world, bool list option) io" where
  "query_lookup_and_lock_result tid =
     bind_io (get_s (\<lambda>s. l_completed_lookup s tid)) (\<lambda>r.
     bind_io (put_s (\<lambda>s. s\<lparr>l_completed_lookup := (l_completed_lookup s)(tid := None)\<rparr>)) (\<lambda>_. ret r))"

definition query_load_result :: "nat \<Rightarrow> (('d, 'm) l2world, bool list option) io" where
  "query_load_result tid =
     bind_io (get_s (\<lambda>s. l_completed_load s tid)) (\<lambda>r.
     bind_io (put_s (\<lambda>s. s\<lparr>l_completed_load := (l_completed_load s)(tid := None)\<rparr>)) (\<lambda>_. ret r))"

fun unlock_keys :: "objkey list \<Rightarrow> (objkey \<Rightarrow> nat option) \<Rightarrow> (objkey \<Rightarrow> nat option)" where
  "unlock_keys [] locks = locks"
| "unlock_keys (key # keys) locks =
     (let n = int (lock_count locks key) - 1
      in unlock_keys keys (if n \<le> 0 then locks(key := None) else locks(key \<mapsto> nat n)))"

definition submit_unlock :: "objkey list \<Rightarrow> (('d, 'm) l2world, unit) io" where
  "submit_unlock keys = put_s (\<lambda>s. s\<lparr>l_locks := unlock_keys keys (l_locks s)\<rparr>)"

fun delete_loop :: "('d, 'm) l2env \<Rightarrow> objkey list \<Rightarrow> (objkey \<times> nat) list \<Rightarrow> (('d, 'm) l2world, (objkey \<times> nat) list) io" where
  "delete_loop E [] deleted = ret deleted"
| "delete_loop E (key # keys) deleted =
     bind_io (delete_one E key) (\<lambda>r.
     delete_loop E keys (case r of None \<Rightarrow> deleted | Some n \<Rightarrow> deleted @ [(key, n)]))"

definition delete :: "('d, 'm) l2env \<Rightarrow> objkey list \<Rightarrow> (('d, 'm) l2world, unit) io" where
  "delete E keys =
     bind_io (get_s (\<lambda>s. filter (\<lambda>k. lock_count (l_locks s) k = 0) keys)) (\<lambda>todo.
     bind_io (delete_loop E todo []) (\<lambda>deleted.
     if deleted \<noteq> []
     then bind_io (upd_stats (\<lambda>st. st\<lparr>n_deleted := n_deleted st + length deleted\<rparr>)) (\<lambda>_.
          bind_io (note_ok E) (\<lambda>_. add_note (KeysDeleted (map fst deleted) (map snd deleted))))
     else ret ()))"

section \<open>Status\<close>

definition healthy :: "l2stats \<Rightarrow> bool option" where
  "healthy st =
     (if last_ok st = 0 \<and> last_error_at st = 0 then None
      else if last_error_at st = 0 then Some True
      else Some (last_error_at st < last_ok st))"

record l2status =
  rs_stats :: l2stats
  rs_inflight :: int
  rs_locked :: nat
  rs_healthy :: "bool option"
  rs_since_ok :: "real option"

text \<open>
  \<^verbatim>\<open>report_status\<close>, less the constant fields; the time since the last success is not rounded here.
  \<open>keys\<close> is the domain of the lock table.
\<close>

definition report_status :: "('d, 'm) l2env \<Rightarrow> objkey list \<Rightarrow> (('d, 'm) l2world, l2status) io" where
  "report_status E keys =
     bind_io (get_s (\<lambda>s. s)) (\<lambda>s.
     let mk = (\<lambda>since. \<lparr>rs_stats = l_stats s, rs_inflight = l_inflight s, rs_locked = length keys,
                 rs_healthy = healthy (l_stats s), rs_since_ok = since\<rparr>) in
     if 0 < last_ok (l_stats s)
     then bind_io (read_clock (v_time E)) (\<lambda>t. ret (mk (Some (t - last_ok (l_stats s)))))
     else ret (mk None))"

text \<open>One turn of \<^verbatim>\<open>_status_loop\<close>: what it logs, with its two local variables.\<close>

datatype l2log = LogUnhealthy | LogRecovered | LogStatusUnhealthy | LogStatus

record status_vars =
  sv_last :: "(nat \<times> nat \<times> nat \<times> nat) option"
  sv_was_healthy :: "bool option"

definition status_turn :: "l2status \<Rightarrow> status_vars \<Rightarrow> l2log list \<times> status_vars" where
  "status_turn st v =
     (let x = rs_stats st; sig = (n_store_tasks x, n_lookup_tasks x, n_load_tasks x, n_deleted x); h = rs_healthy st;
          edge = (if h = Some False \<and> sv_was_healthy v \<noteq> Some False then [LogUnhealthy]
                  else if h = Some True \<and> sv_was_healthy v = Some False then [LogRecovered] else []);
          v1 = v\<lparr>sv_was_healthy := h\<rparr>
      in if h = Some False then (edge @ [LogStatusUnhealthy], v1)
         else if Some sig \<noteq> sv_last v then (edge @ [LogStatus], v1\<lparr>sv_last := Some sig\<rparr>)
         else (edge, v1))"

section \<open>Start-up and shutdown\<close>

definition l2_warm_up :: "'d libdfs \<Rightarrow> string \<Rightarrow> string \<Rightarrow> int \<Rightarrow> nat list \<Rightarrow> nat list \<Rightarrow> ('d, unit) io" where
  "l2_warm_up L rootdir pid nchunks sched1 sched2 =
     (if nchunks \<le> 0 then ret ()
      else swallow (bind_io (warm_up_all_targets L (rootdir @ ''/.daos-l2-probe.'' @ pid) (nat nchunks)
             (Some sched1) (Some sched2) (4 * 2 ^ 20)) (\<lambda>_. ret ())))"

text \<open>
  \<^verbatim>\<open>__init__\<close>: mount, root directory, thread pools (which refuse less than one thread), warm-up; then
  the attributes. The result is the capacity handed to the base class.
\<close>

definition adapter_init :: "'d libdfs \<Rightarrow> ('ev, 'pe, 'se) l2config \<Rightarrow> int \<Rightarrow> int \<Rightarrow> string \<Rightarrow> nat list \<Rightarrow> nat list \<Rightarrow>
    ('d dfssys, int) io" where
  "adapter_init L cfg mflags sflags pid sched1 sched2 =
     bind_io (DfsSys_init L (cfg_pool cfg) (cfg_container cfg) (cfg_sys cfg) mflags sflags) (\<lambda>_.
     bind_io (if cfg_root cfg \<noteq> ''/'' then on_lib (mkdir_p L (cfg_root cfg)) else ret ()) (\<lambda>_.
     if cfg_task_workers cfg \<le> 0 \<or> cfg_workers cfg \<le> 0 then raise ValueError
     else
     bind_io (on_lib (l2_warm_up L (cfg_root cfg) pid (cfg_probe_chunks cfg) sched1 sched2)) (\<lambda>_.
     ret \<lfloor>cfg_max_capacity_gb cfg * 2 ^ 30\<rfloor>)))"

definition world_init :: "'d \<Rightarrow> 'm \<Rightarrow> ('d, 'm) l2world" where
  "world_init d m = \<lparr>l_dfs = d, l_mem = m, l_tick = 0, l_next_task_id = 0, l_tasks = [], l_completed_store = Map.empty,
     l_completed_lookup = Map.empty, l_completed_load = Map.empty, l_locks = Map.empty, l_inflight = 0,
     l_stats = stats_init, l_notes = []\<rparr>"

definition env_of :: "'d libdfs \<Rightarrow> 'm l2mem \<Rightarrow> (nat \<Rightarrow> real) \<Rightarrow> (nat \<Rightarrow> real) \<Rightarrow> ('ev, 'pe, 'se) l2config \<Rightarrow> ('d, 'm) l2env" where
  "env_of L M clock1 clock2 cfg = \<lparr>v_dfs = L, v_mem = M, v_time = clock1, v_mono = clock2, v_root = cfg_root cfg,
     v_verify = cfg_verify_size cfg, v_fair = (cfg_load_schedule cfg = ''fair'')\<rparr>"

text \<open>The last act of \<^verbatim>\<open>close\<close>, after the drain and the shutdown of the pools: unmount, best effort.\<close>

definition adapter_close :: "'d libdfs \<Rightarrow> ('d dfssys, unit) io" where
  "adapter_close L = swallow (DfsSys_close L)"

end
