(* ===== verification/L2_Sound.thy ===== *)
theory L2_Sound
  imports L2_Adapter
begin

text \<open>
  What the adapter promises about the bytes: a store that reports success left the complete object, a
  lookup that hits saw one, a load that reports a hit filled the buffer with it. A key is only ever
  stored with one content, as the design of the cache has it; calls may fail and writers may be cut
  off anywhere.
\<close>

section \<open>What one call leaves alone\<close>

definition ctl :: "('d, 'm) l2world \<Rightarrow> nat \<times> l2task list \<times> (nat \<Rightarrow> (bool \<times> nat) option) \<times> (nat \<Rightarrow> bool list option) \<times>
    (nat \<Rightarrow> bool list option) \<times> (objkey \<Rightarrow> nat option) \<times> int \<times> l2note list" where
  "ctl s = (l_next_task_id s, l_tasks s, l_completed_store s, l_completed_lookup s, l_completed_load s, l_locks s,
     l_inflight s, l_notes s)"

lemma ctl_upd [simp]:
  "ctl (s\<lparr>l_dfs := d\<rparr>) = ctl s" "ctl (s\<lparr>l_mem := m\<rparr>) = ctl s" "ctl (s\<lparr>l_tick := t\<rparr>) = ctl s" "ctl (s\<lparr>l_stats := st\<rparr>) = ctl s"
  by (simp_all add: ctl_def)

lemma wp_note_error:
  assumes "\<And>s'. l_dfs s' = l_dfs s \<Longrightarrow> l_mem s' = l_mem s \<Longrightarrow> ctl s' = ctl s \<Longrightarrow> Q (Inr ()) s'"
  shows "wp (note_error E op e) Q s"
  unfolding note_error_def by (simp add: wp_simps, rule assms) simp_all

text \<open>A caught exception becomes the result \<open>x\<close>.\<close>

lemma wp_noted:
  assumes "wp m (\<lambda>r s'. case r of
      Inl e \<Rightarrow> if caught e then (\<forall>s''. l_dfs s'' = l_dfs s' \<longrightarrow> l_mem s'' = l_mem s' \<longrightarrow> ctl s'' = ctl s' \<longrightarrow> Q (Inr x) s'') else Q (Inl e) s'
    | Inr y \<Rightarrow> Q (Inr y) s') s"
  shows "wp (catch_io caught m (\<lambda>e. bind_io (note_error E op e) (\<lambda>_. ret x))) Q s"
  unfolding wp_catch
  by (rule wp_mono [OF assms]) (auto simp: wp_bind wp_ret intro!: wp_note_error split: sum.splits if_splits)

section \<open>One key\<close>

text \<open>The contract of the buffers: writing one replaces its bytes and no other's.\<close>

locale l2_bufs =
  fixes M :: "'m l2mem"
  assumes put_view: "l_view M m ob = Inr b \<Longrightarrow> length x = length b \<Longrightarrow> l_view M (l_put M ob x m) = (l_view M m)(ob := Inr x)"

locale l2_conn = dfs_lib "v_dfs E" fs hs + l2_bufs "v_mem E"
  for E :: "('d, 'm) l2env" and fs hs
begin

abbreviation "lfiles s \<equiv> fs (l_dfs s)"
abbreviation "lpath key \<equiv> l2_path (v_root E) key"

text \<open>A store of \<open>c\<close> in progress: the object is absent or a prefix of \<open>c\<close>, and once complete it stays so.\<close>

definition held :: "string \<Rightarrow> bytes \<Rightarrow> ('d, 'm) l2world \<Rightarrow> ('d, 'm) l2world \<Rightarrow> bool" where
  "held p c s s' \<longleftrightarrow> l_mem s' = l_mem s \<and> ctl s' = ctl s \<and> hs (l_dfs s') = hs (l_dfs s) \<and>
     (\<forall>q. q \<noteq> p \<longrightarrow> lfiles s' q = lfiles s q) \<and> (lfiles s' p = None \<or> (\<exists>k. lfiles s' p = Some (take k c))) \<and>
     (lfiles s p = Some c \<longrightarrow> lfiles s' p = Some c)"

text \<open>Its result: bytes written, or 0 for an object found complete, or -1.\<close>

definition store_post :: "string \<Rightarrow> bytes \<Rightarrow> ('d, 'm) l2world \<Rightarrow> exn + int \<Rightarrow> ('d, 'm) l2world \<Rightarrow> bool" where
  "store_post p c s r s' \<longleftrightarrow> held p c s s' \<and>
     (case r of Inl _ \<Rightarrow> False | Inr i \<Rightarrow> i \<in> {- 1, 0, int (length c)} \<and> (0 \<le> i \<longrightarrow> lfiles s' p = Some c))"

definition store_mid :: "string \<Rightarrow> bytes \<Rightarrow> ('d, 'm) l2world \<Rightarrow> exn + int \<Rightarrow> ('d, 'm) l2world \<Rightarrow> bool" where
  "store_mid p c s r s' \<longleftrightarrow> (case r of Inl e \<Rightarrow> io_error e \<and> held p c s s' | Inr i \<Rightarrow> store_post p c s (Inr i) s')"

lemma io_error_Daos [simp]: "io_error (DaosError c)"
  by (simp add: io_error_def is_OSError_def)

lemma held_refl: "lfiles s p = None \<or> (\<exists>k. lfiles s p = Some (take k c)) \<Longrightarrow> held p c s s"
  by (simp add: held_def)

lemma held_cong:
  "held p c s s' \<Longrightarrow> l_dfs s'' = l_dfs s' \<Longrightarrow> l_mem s'' = l_mem s' \<Longrightarrow> ctl s'' = ctl s' \<Longrightarrow> held p c s s''"
  by (simp add: held_def)

lemma store_write_rule:
  assumes h: "hs d h = Some p" and f: "fs d p = Some (take k c)"
    and Q: "\<And>r d'. hs d' = (hs d)(h := None) \<Longrightarrow> (\<forall>q. q \<noteq> p \<longrightarrow> fs d' q = fs d q) \<Longrightarrow> (\<exists>k. fs d' p = Some (take k c)) \<Longrightarrow>
       (take k c = c \<longrightarrow> fs d' p = Some c) \<Longrightarrow>
       (\<exists>e. r = Inl (DaosError e)) \<or> (\<exists>j. r = Inr j \<and> (j = length c \<longrightarrow> fs d' p = Some c)) \<Longrightarrow> Q r d'"
  shows "wp (finally_io (write_obj_from (v_dfs E) h 0 (length c) c) (close_obj (v_dfs E) h)) Q d"
  unfolding wp_finally
proof (rule wp_write_obj_from [OF h f order.refl])
  fix j r d'
  assume j: "j \<le> length c" "hs d' = hs d" "fs d' = (fs d)(p \<mapsto> overlay (take k c) 0 (take j c))"
    "r = Inr j \<or> (\<exists>e. e \<noteq> 0 \<and> r = Inl (DaosError e))"
  have "overlay (take (min k (length c)) c) 0 (take j c) = take (max (min k (length c)) (0 + length (take j c))) c"
    by (rule overlay_prefix) simp_all
  moreover have "take (min k (length c)) c = take k c" by (simp add: min_def)
  ultimately have o: "overlay (take k c) 0 (take j c) = take (max (min k (length c)) j) c" using j(1) by (simp add: min_absorb2)
  have "take k c = c \<Longrightarrow> length c \<le> k" by (metis length_take min.cobounded2 min.commute)
  then have full: "take k c = c \<longrightarrow> overlay (take k c) 0 (take j c) = c" "j = length c \<longrightarrow> overlay (take k c) 0 (take j c) = c"
    unfolding o by (simp_all add: min_absorb2)
  show "wp (close_obj (v_dfs E) h) (\<lambda>u d''. case u of Inl e \<Rightarrow> Q (Inl e) d'' | Inr _ \<Rightarrow> Q r d'') d'"
  proof (rule wp_close_obj)
    fix d''
    assume d'': "fs d'' = fs d'" "hs d'' = (hs d')(h := None)"
    have "Q r d''" by (rule Q) (use j d'' o full in auto)
    then show "case Inr () of Inl e \<Rightarrow> Q (Inl e) d'' | Inr _ \<Rightarrow> Q r d''" by simp
  qed
qed

lemma finally_on_ldfs:
  fixes a :: "('x, 'r) io"
  shows "finally_io (on_ldfs a) (on_ldfs b) = (on_ldfs (finally_io a b) :: (('x, 'y) l2world, 'r) io)"
proof (rule ext)
  fix s :: "('x, 'y) l2world"
  obtain r d where a: "a (l_dfs s) = (r, d)" by (cases "a (l_dfs s)")
  obtain u d' where b: "b d = (u, d')" by (cases "b d")
  show "finally_io (on_ldfs a) (on_ldfs b) s = on_ldfs (finally_io a b) s"
    by (cases u) (simp_all add: finally_io_def on_ldfs_def a b)
qed

lemma store_write_held:
  assumes "held p c s s" and d1: "hs (l_dfs s) h = None" "hs d1 = (hs (l_dfs s))(h \<mapsto> p)"
      "fs d1 = (lfiles s)(p \<mapsto> (case lfiles s p of None \<Rightarrow> [] | Some b \<Rightarrow> b))"
  shows "wp (finally_io (write_obj_from (v_dfs E) h 0 (length c) c) (close_obj (v_dfs E) h))
      (\<lambda>r d. held p c s (s\<lparr>l_dfs := d\<rparr>) \<and>
         ((\<exists>e. r = Inl (DaosError e)) \<or> (\<exists>j. r = Inr j \<and> (j = length c \<longrightarrow> fs d p = Some c)))) d1"
proof -
  have h: "hs d1 h = Some p" using d1 by simp
  obtain k where f: "fs d1 p = Some (take k c)" and k: "lfiles s p = Some c \<longrightarrow> take k c = c"
  proof (cases "lfiles s p")
    case None
    with d1 have "fs d1 p = Some (take 0 c)" by simp
    with None show ?thesis by (intro that [of 0]) simp_all
  next
    case (Some b)
    with assms(1) obtain k where "b = take k c" by (auto simp: held_def)
    with Some d1 show ?thesis by (intro that [of k]) simp_all
  qed
  show ?thesis
    by (rule store_write_rule [OF h f]) (use d1 k in \<open>auto simp: held_def fun_upd_idem\<close>)
qed

lemma store_short:
  assumes "held p c s (s\<lparr>l_dfs := d\<rparr>)" and "lfiles s p \<noteq> Some c"
  shows "wp (bind_io (on_ldfs (dfs_remove (v_dfs E) p)) (\<lambda>_. ret (- 1))) (store_mid p c s) (s\<lparr>l_dfs := d\<rparr>)"
  unfolding wp_bind wp_on_ldfs
  by (rule wp_dfs_remove) (use assms in \<open>auto simp: wp_ret store_mid_def store_post_def held_def\<close>)

text \<open>From the open to the end, for an object that is not there in full.\<close>

lemma store_new:
  assumes held: "held p c s s" and d: "fs d = lfiles s" "hs d = hs (l_dfs s)" and ne: "lfiles s p \<noteq> Some c"
  shows "wp (bind_io (on_ldfs (open_rdwr_create (v_dfs E) p 0)) (\<lambda>h.
        bind_io (on_ldfs (finally_io (write_obj_from (v_dfs E) h 0 (length c) c) (close_obj (v_dfs E) h))) (\<lambda>wrote.
        if wrote \<noteq> length c then bind_io (on_ldfs (dfs_remove (v_dfs E) p)) (\<lambda>_. ret (- 1))
        else ret (int (length c))))) (store_mid p c s) (s\<lparr>l_dfs := d\<rparr>)"
  unfolding wp_bind [of "on_ldfs (open_rdwr_create _ _ _)"] wp_on_ldfs
proof (rule wp_open_rdwr_create, goal_cases)
  case (1 h d1)
  show ?case
    unfolding sum.case wp_bind [of "on_ldfs (finally_io _ _)"] wp_on_ldfs
  proof (simp, rule wp_mono [OF store_write_held [OF held, of h d1]], goal_cases)
    case (4 r d2)
    then consider e where "r = Inl (DaosError e)" | j where "r = Inr j" "j = length c" "fs d2 p = Some c" | j where "r = Inr j" "j \<noteq> length c"
      by blast
    then show ?case
    proof cases
      case 3
      then show ?thesis using store_short [of p c s d2] 4 ne by simp
    qed (use 4 in \<open>simp_all add: wp_ret store_mid_def store_post_def\<close>)
  qed (use 1 d in simp_all)
next
  case (2 rc d1)
  then show ?case using d held by (auto simp: store_mid_def held_def)
qed

lemma store_one_rule:
  assumes view: "l_view (v_mem E) (l_mem s) ob = Inr c"
    and fil: "lfiles s (lpath key) = None \<or> (\<exists>k. lfiles s (lpath key) = Some (take k c))"
  shows "wp (store_one E (key, ob)) (store_post (lpath key) c s) s"
proof -
  let ?p = "lpath key"
  note held = held_refl [OF fil]
  have "wp (bind_io (cbuf E ob) (\<lambda>src.
        bind_io (on_ldfs (stat_size (v_dfs E) ?p)) (\<lambda>have.
        if have = Some (length src) then ret 0
        else
        bind_io (on_ldfs (open_rdwr_create (v_dfs E) ?p 0)) (\<lambda>h.
        bind_io (on_ldfs (finally_io (write_obj_from (v_dfs E) h 0 (length src) src) (close_obj (v_dfs E) h))) (\<lambda>wrote.
        if wrote \<noteq> length src then bind_io (on_ldfs (dfs_remove (v_dfs E) ?p)) (\<lambda>_. ret (- 1))
        else ret (int (length src))))))) (store_mid ?p c s) s"
    unfolding wp_bind [of "cbuf _ _"] wp_cbuf view sum.case wp_bind [of "on_ldfs (stat_size _ _)"] wp_on_ldfs
  proof (rule wp_stat_size, goal_cases)
    case (1 d)
    show ?case
    proof (cases "lfiles s ?p = Some c")
      case True
      with held 1 show ?thesis by (simp add: wp_ret store_mid_def store_post_def held_def)
    next
      case False
      with fil have "map_option length (lfiles s ?p) \<noteq> Some (length c)"
        by (auto simp: min_def)
      with store_new [OF held 1 False] show ?thesis by auto
    qed
  next
    case (2 rc d)
    with held show ?case by (simp add: store_mid_def held_def)
  qed
  then show ?thesis
    unfolding store_one_def prod.case Let_def finally_on_ldfs
    by (intro wp_noted, elim wp_mono) (auto simp: store_mid_def store_post_def split: sum.splits intro: held_cong)
qed

definition load_post :: "nat \<Rightarrow> bytes \<Rightarrow> ('d, 'm) l2world \<Rightarrow> exn + bool \<Rightarrow> ('d, 'm) l2world \<Rightarrow> bool" where
  "load_post ob c s r s' \<longleftrightarrow> ctl s' = ctl s \<and> lfiles s' = lfiles s \<and> hs (l_dfs s') = hs (l_dfs s) \<and>
     (\<forall>ob'. ob' \<noteq> ob \<longrightarrow> l_view (v_mem E) (l_mem s') ob' = l_view (v_mem E) (l_mem s) ob') \<and>
     (\<exists>b. l_view (v_mem E) (l_mem s') ob = Inr b \<and> length b = length c) \<and>
     (case r of Inl _ \<Rightarrow> False | Inr ok \<Rightarrow> ok \<longrightarrow> l_view (v_mem E) (l_mem s') ob = Inr c)"

lemma load_one_rule:
  assumes view: "l_view (v_mem E) (l_mem s) ob = Inr b" and len: "length b = length c"
    and fil: "lfiles s (lpath key) = None \<or> (\<exists>k. lfiles s (lpath key) = Some (take k c))"
  shows "wp (load_one E (key, ob)) (load_post ob c s) s"
proof -
  let ?p = "lpath key"
  define R where "R r s' \<longleftrightarrow> (case r of Inl e \<Rightarrow> io_error e \<and> load_post ob c s (Inr False) s' | Inr ok \<Rightarrow> load_post ob c s (Inr ok) s')" for r s'
  have rd: "wp (bind_io (finally_io (bind_io (on_ldfs (read_obj_into (v_dfs E) h 0 (length b) b)) (\<lambda>(got, buf).
             bind_io (put_s (\<lambda>s. s\<lparr>l_mem := l_put (v_mem E) ob buf (l_mem s)\<rparr>)) (\<lambda>_. ret got)))
            (on_ldfs (close_obj (v_dfs E) h))) (\<lambda>got. ret (got = length b))) R (s\<lparr>l_dfs := d\<rparr>)"
    if d: "hs (l_dfs s) h = None" "hs d = (hs (l_dfs s))(h \<mapsto> ?p)" "fs d = lfiles s" "lfiles s ?p = Some (take k c)" for h d k
    unfolding wp_bind [of "finally_io _ _"] wp_finally wp_bind [of "on_ldfs (read_obj_into _ _ _ _ _)"] wp_on_ldfs
  proof (rule wp_read_obj_into [where p = ?p and b = "take k c"], goal_cases)
    case (4 x d')
    then have "x = take (length c) (take k c)" using len by simp
    then have x: "length x = length c \<longrightarrow> x = c" "length x \<le> length b" using len by auto
    note pv = put_view [OF view, of "x @ drop (length x) b"]
    show ?case
      by (simp add: wp_simps, rule wp_close_obj)
        (use 4 d x pv len in \<open>auto simp: wp_ret R_def load_post_def fun_upd_idem ctl_def\<close>)
  next
    case (5 rc d')
    show ?case
      by (simp add: wp_simps, rule wp_close_obj)
        (use 5 d view len in \<open>auto simp: wp_raise wp_ret R_def load_post_def fun_upd_idem ctl_def\<close>)
  qed (use d len in auto)
  have "wp (bind_io (cbuf E ob) (\<lambda>dst. bind_io (on_ldfs (open_rdonly (v_dfs E) ?p)) (\<lambda>h.
        bind_io (finally_io
            (bind_io (on_ldfs (read_obj_into (v_dfs E) h 0 (length dst) dst)) (\<lambda>(got, buf).
             bind_io (put_s (\<lambda>s. s\<lparr>l_mem := l_put (v_mem E) ob buf (l_mem s)\<rparr>)) (\<lambda>_. ret got)))
            (on_ldfs (close_obj (v_dfs E) h))) (\<lambda>got. ret (got = length dst))))) R s"
    unfolding wp_bind [of "cbuf _ _"] wp_cbuf view sum.case wp_bind [of "on_ldfs (open_rdonly _ _)"] wp_on_ldfs
    by (rule wp_open_rdonly) (use fil rd view len in \<open>auto simp: R_def load_post_def\<close>)
  then show ?thesis
    unfolding load_one_def prod.case Let_def
    by (intro wp_noted, elim wp_mono) (auto simp: R_def load_post_def split: sum.splits)
qed

text \<open>A lookup changes nothing but counters; a hit saw an object of the expected size.\<close>

lemma lookup_one_rule:
  "wp (lookup_one E (key, expected)) (\<lambda>r s'. l_mem s' = l_mem s \<and> ctl s' = ctl s \<and> lfiles s' = lfiles s \<and>
     hs (l_dfs s') = hs (l_dfs s) \<and> (case r of Inl _ \<Rightarrow> False | Inr hit \<Rightarrow> hit \<longrightarrow>
       (\<exists>b. lfiles s (lpath key) = Some b \<and> (\<forall>x. expected = Some x \<longrightarrow> int (length b) = x)))) s"
  unfolding lookup_one_def prod.case wp_bind [of "catch_io _ _ _"]
  by (rule wp_noted, simp only: wp_bind wp_on_ldfs, rule wp_stat_size)
    (auto simp: wp_simps is_OSError_def split: option.splits)

text \<open>A deletion removes at most its own object.\<close>

lemma delete_one_rule:
  "wp (delete_one E key) (\<lambda>r s'. l_mem s' = l_mem s \<and> ctl s' = ctl s \<and> hs (l_dfs s') = hs (l_dfs s) \<and>
     (lfiles s' = lfiles s \<or> lfiles s' = (lfiles s)(lpath key := None)) \<and>
     (case r of Inl _ \<Rightarrow> False | Inr z \<Rightarrow> (\<forall>n. z = Some n \<longrightarrow> lfiles s' (lpath key) = None \<and>
        (\<exists>b. lfiles s (lpath key) = Some b \<and> n = length b)))) s"
proof -
  have "wp (bind_io (on_ldfs (stat_size (v_dfs E) (lpath key))) (\<lambda>sz. case sz of
           None \<Rightarrow> ret None
         | Some n \<Rightarrow> bind_io (on_ldfs (dfs_remove (v_dfs E) (lpath key))) (\<lambda>ok. ret (if ok then Some n else None))))
     (\<lambda>r s'. l_mem s' = l_mem s \<and> ctl s' = ctl s \<and> hs (l_dfs s') = hs (l_dfs s) \<and>
       (lfiles s' = lfiles s \<or> lfiles s' = (lfiles s)(lpath key := None)) \<and>
       (case r of Inl e \<Rightarrow> is_OSError e | Inr z \<Rightarrow> (\<forall>n. z = Some n \<longrightarrow> lfiles s' (lpath key) = None \<and>
        (\<exists>b. lfiles s (lpath key) = Some b \<and> n = length b)))) s"
    unfolding wp_bind [of "on_ldfs (stat_size _ _)"] wp_on_ldfs
    by (rule wp_stat_size)
      (auto simp: wp_simps is_OSError_def split: option.splits intro!: wp_dfs_remove)
  then show ?thesis
    unfolding delete_one_def Let_def
    by (intro wp_noted, elim wp_mono) (auto split: sum.splits)
qed

end

section \<open>Batches of keys\<close>

text \<open>The hits a batch counts for one key.\<close>

definition hits_for :: "objkey \<Rightarrow> (objkey \<times> bool) list \<Rightarrow> nat" where
  "hits_for k xs = length (filter (\<lambda>(k', hit). k' = k \<and> hit) xs)"

text \<open>\<open>plan p\<close> is the content that belongs to path \<open>p\<close>; an object holds it, or a prefix of it.\<close>

definition l2_inv :: "('d \<Rightarrow> string \<Rightarrow> bytes option) \<Rightarrow> (string \<Rightarrow> bytes option) \<Rightarrow> ('d, 'm) l2world \<Rightarrow> bool" where
  "l2_inv fs plan s \<longleftrightarrow> (\<forall>p c b. plan p = Some c \<longrightarrow> fs (l_dfs s) p = Some b \<longrightarrow> (\<exists>k. b = take k c))"

lemma l2_inv_cong: "fs (l_dfs s') = fs (l_dfs s) \<Longrightarrow> l2_inv fs plan s' = l2_inv fs plan s"
  by (simp add: l2_inv_def)

lemma l2_inv_remove:
  "l2_inv fs plan s \<Longrightarrow> fs (l_dfs s') = fs (l_dfs s) \<or> fs (l_dfs s') = (fs (l_dfs s))(p := None) \<Longrightarrow> l2_inv fs plan s'"
  by (auto simp: l2_inv_def split: if_splits)

lemma l2_inv_at:
  assumes "l2_inv fs plan s" and "plan p = Some c"
  shows "fs (l_dfs s) p = None \<or> (\<exists>k. fs (l_dfs s) p = Some (take k c))"
  using assms by (cases "fs (l_dfs s) p") (auto simp: l2_inv_def)

context l2_conn
begin

lemma l2_inv_held:
  assumes "l2_inv fs plan s" and "plan p = Some c" and "held p c s s'"
  shows "l2_inv fs plan s'"
  unfolding l2_inv_def
proof (intro allI impI)
  fix q c' b
  assume "plan q = Some c'" "lfiles s' q = Some b"
  with assms show "\<exists>k. b = take k c'" by (cases "q = p") (auto simp: held_def l2_inv_def)
qed

lemma stores_rule:
  assumes inv: "l2_inv fs plan s" and len: "length objs = length keys"
    and src: "\<And>i. i < length keys \<Longrightarrow> l_view (v_mem E) (l_mem s) (objs ! i) = Inr (c i) \<and> plan (lpath (keys ! i)) = Some (c i)"
    and sched: "is_schedule (length keys) sched"
  shows "wp (pool_map sched (map (store_one E) (zip keys objs)))
    (\<lambda>r s'. \<exists>z. r = Inr (map z [0..<length keys]) \<and> l2_inv fs plan s' \<and> l_mem s' = l_mem s \<and> ctl s' = ctl s \<and>
       (\<forall>i < length keys. 0 \<le> z i \<longrightarrow> lfiles s' (lpath (keys ! i)) = Some (c i))) s"
proof -
  define J where "J = (\<lambda>D (z :: nat \<Rightarrow> int) t. l2_inv fs plan t \<and> l_mem t = l_mem s \<and> ctl t = ctl s \<and>
     (\<forall>i \<in> D. 0 \<le> z i \<longrightarrow> lfiles t (lpath (keys ! i)) = Some (c i)))"
  let ?tasks = "map (store_one E) (zip keys objs)"
  have n: "length ?tasks = length keys" using len by simp
  have "wp (pool_map sched ?tasks) (\<lambda>r s'. \<exists>z. r = Inr (map z [0..<length ?tasks]) \<and> J {..<length ?tasks} z s') s"
  proof (rule pool_map_values_rule)
    fix D z i t
    assume i: "i < length ?tasks" "i \<notin> D" and sub: "D \<subseteq> {..<length ?tasks}" and J: "J D z t"
    have i': "i < length keys" using i n by simp
    have it: "l2_inv fs plan t" "l_mem t = l_mem s" "ctl t = ctl s" using J by (auto simp: J_def)
    have "wp (store_one E (keys ! i, objs ! i)) (store_post (lpath (keys ! i)) (c i) t) t"
      by (rule store_one_rule) (use src [OF i'] it l2_inv_at [OF it(1)] in auto)
    then have "wp (store_one E (keys ! i, objs ! i)) (\<lambda>r t'. \<exists>v. r = Inr v \<and> J (insert i D) (z(i := v)) t') t"
    proof (rule wp_mono)
      fix r t'
      assume post: "store_post (lpath (keys ! i)) (c i) t r t'"
      then obtain v where v: "r = Inr v" "0 \<le> v \<longrightarrow> lfiles t' (lpath (keys ! i)) = Some (c i)"
        and h: "held (lpath (keys ! i)) (c i) t t'" by (auto simp: store_post_def split: sum.splits)
      have old: "lfiles t' (lpath (keys ! j)) = Some (c j)" if "j \<in> D" "0 \<le> z j" for j
      proof -
        have "lfiles t (lpath (keys ! j)) = Some (c j)" using J that by (simp add: J_def)
        moreover have "lpath (keys ! j) = lpath (keys ! i) \<Longrightarrow> c j = c i"
          using src [OF i'] src [of j] sub that n by (metis lessThan_iff option.inject subsetD)
        ultimately show ?thesis using h by (cases "lpath (keys ! j) = lpath (keys ! i)") (auto simp: held_def)
      qed
      have "J (insert i D) (z(i := v)) t'"
        using old v(2) i(2) l2_inv_held [OF it(1) _ h] src [OF i'] h it by (auto simp: J_def held_def)
      with v(1) show "\<exists>v. r = Inr v \<and> J (insert i D) (z(i := v)) t'" by blast
    qed
    then show "wp (?tasks ! i) (\<lambda>r t'. \<exists>v. r = Inr v \<and> J (insert i D) (z(i := v)) t') t" using i' len by simp
  next
    show "J {} (\<lambda>_. 0) s" using inv by (simp add: J_def)
  qed (use sched n in simp)
  then show ?thesis by (rule wp_mono) (use n in \<open>auto simp: J_def\<close>)
qed

text \<open>The caller's buffers: what a batch of loads does to them.\<close>

definition bufs_ok :: "nat list \<Rightarrow> (nat \<Rightarrow> bytes) \<Rightarrow> ('d, 'm) l2world \<Rightarrow> bool" where
  "bufs_ok objs c s \<longleftrightarrow> distinct objs \<and>
     (\<forall>i < length objs. \<exists>b. l_view (v_mem E) (l_mem s) (objs ! i) = Inr b \<and> length b = length (c i))"

definition loads_post :: "nat list \<Rightarrow> (nat \<Rightarrow> bytes) \<Rightarrow> (nat \<Rightarrow> bool) \<Rightarrow> nat set \<Rightarrow> ('d, 'm) l2world \<Rightarrow> ('d, 'm) l2world \<Rightarrow> bool" where
  "loads_post objs c ok D s t \<longleftrightarrow> ctl t = ctl s \<and> lfiles t = lfiles s \<and> bufs_ok objs c t \<and>
     (\<forall>i \<in> D. ok i \<longrightarrow> l_view (v_mem E) (l_mem t) (objs ! i) = Inr (c i)) \<and>
     (\<forall>ob. ob \<notin> set objs \<longrightarrow> l_view (v_mem E) (l_mem t) ob = l_view (v_mem E) (l_mem s) ob)"

lemma load_task_rule:
  assumes "l_view (v_mem E) (l_mem s) ob = Inr b" and "length b = length c"
    and "lfiles s (lpath key) = None \<or> (\<exists>k. lfiles s (lpath key) = Some (take k c))"
  shows "wp (load_task E (key, ob)) (load_post ob c s) s"
proof (cases "v_fair E")
  case True
  then show ?thesis unfolding load_task_def
    by (simp add: wp_catch, intro wp_mono [OF load_one_rule [OF assms]]) (auto simp: load_post_def split: sum.splits)
next
  case False
  then show ?thesis using load_one_rule [OF assms] by (simp add: load_task_def)
qed

lemma loads_post_step:
  assumes J: "loads_post objs c ok D s t" and i: "i < length objs" "i \<notin> D" and D: "D \<subseteq> {..<length objs}"
    and post: "load_post (objs ! i) (c i) t (Inr v) t'"
  shows "loads_post objs c (ok(i := v)) (insert i D) s t'"
proof -
  let ?V = "\<lambda>t ob. l_view (v_mem E) (l_mem t) ob"
  from J have b: "distinct objs" "\<forall>j < length objs. \<exists>b. ?V t (objs ! j) = Inr b \<and> length b = length (c j)"
    and D': "\<forall>j \<in> D. ok j \<longrightarrow> ?V t (objs ! j) = Inr (c j)" by (auto simp: loads_post_def bufs_ok_def)
  have other: "?V t' (objs ! j) = ?V t (objs ! j)" if "j < length objs" "j \<noteq> i" for j
    using post that i b(1) by (auto simp: load_post_def nth_eq_iff_index_eq)
  have own: "\<exists>b. ?V t' (objs ! i) = Inr b \<and> length b = length (c i)" "v \<longrightarrow> ?V t' (objs ! i) = Inr (c i)"
    using post by (auto simp: load_post_def)
  have "\<exists>b. ?V t' (objs ! j) = Inr b \<and> length b = length (c j)" if "j < length objs" for j
    using other [OF that] own b that by (cases "j = i") auto
  then have "bufs_ok objs c t'" using b(1) by (simp add: bufs_ok_def)
  moreover have "\<forall>j \<in> insert i D. (ok(i := v)) j \<longrightarrow> ?V t' (objs ! j) = Inr (c j)"
    using D' own(2) other i(2) D by auto
  moreover have "\<forall>ob. ob \<notin> set objs \<longrightarrow> ?V t' ob = ?V t ob"
    using post nth_mem [OF i(1)] unfolding load_post_def by metis
  ultimately show ?thesis using J post by (auto simp: loads_post_def load_post_def)
qed

lemma loads_rule:
  assumes inv: "l2_inv fs plan s" and len: "length objs = length keys" and bufs: "bufs_ok objs c s"
    and pl: "\<And>i. i < length keys \<Longrightarrow> plan (lpath (keys ! i)) = Some (c i)"
    and sched: "is_schedule (length keys) sched"
  shows "wp (pool_map sched (map (load_task E) (zip keys objs)))
    (\<lambda>r s'. \<exists>ok. r = Inr (map ok [0..<length keys]) \<and> loads_post objs c ok {..<length keys} s s') s"
proof -
  let ?tasks = "map (load_task E) (zip keys objs)"
  have n: "length ?tasks = length keys" using len by simp
  have "wp (pool_map sched ?tasks) (\<lambda>r s'. \<exists>ok. r = Inr (map ok [0..<length ?tasks]) \<and> loads_post objs c ok {..<length ?tasks} s s') s"
  proof (rule pool_map_values_rule [where J = "\<lambda>D ok t. loads_post objs c ok D s t"])
    fix D ok i t
    assume i: "i < length ?tasks" "i \<notin> D" "D \<subseteq> {..<length ?tasks}" and J: "loads_post objs c ok D s t"
    have i': "i < length keys" using i n by simp
    obtain b where b: "l_view (v_mem E) (l_mem t) (objs ! i) = Inr b" "length b = length (c i)"
      using J i' len by (auto simp: loads_post_def bufs_ok_def)
    have "l2_inv fs plan t" using inv J l2_inv_cong [of fs t s] by (simp add: loads_post_def)
    from load_task_rule [OF b l2_inv_at [OF this pl [OF i']]]
    have "wp (load_task E (keys ! i, objs ! i)) (\<lambda>r t'. \<exists>v. r = Inr v \<and> loads_post objs c (ok(i := v)) (insert i D) s t') t"
    proof (rule wp_mono)
      fix r t'
      assume post: "load_post (objs ! i) (c i) t r t'"
      then obtain v where v: "r = Inr v" by (auto simp: load_post_def split: sum.splits)
      have "loads_post objs c (ok(i := v)) (insert i D) s t'"
        by (rule loads_post_step [OF J _ i(2)]) (use i i' len n post v in auto)
      with v show "\<exists>v. r = Inr v \<and> loads_post objs c (ok(i := v)) (insert i D) s t'" by blast
    qed
    then show "wp (?tasks ! i) (\<lambda>r t'. \<exists>v. r = Inr v \<and> loads_post objs c (ok(i := v)) (insert i D) s t') t" using i' len by simp
  next
    show "loads_post objs c (\<lambda>_. False) {} s s" using bufs by (simp add: loads_post_def)
  qed (use sched n in simp)
  then show ?thesis by (simp only: n)
qed

lemma lookups_rule:
  assumes sched: "is_schedule (length keys) sched"
  shows "wp (pool_map sched (map (\<lambda>k. lookup_one E (k, expected)) keys))
    (\<lambda>r s'. \<exists>hit. r = Inr (map hit [0..<length keys]) \<and> l_mem s' = l_mem s \<and> ctl s' = ctl s \<and> lfiles s' = lfiles s \<and>
       (\<forall>i < length keys. hit i \<longrightarrow>
         (\<exists>b. lfiles s (lpath (keys ! i)) = Some b \<and> (\<forall>x. expected = Some x \<longrightarrow> int (length b) = x)))) s"
proof -
  let ?tasks = "map (\<lambda>k. lookup_one E (k, expected)) keys"
  let ?seen = "\<lambda>i. \<exists>b. lfiles s (lpath (keys ! i)) = Some b \<and> (\<forall>x. expected = Some x \<longrightarrow> int (length b) = x)"
  define J where "J = (\<lambda>D hit t. l_mem t = l_mem s \<and> ctl t = ctl s \<and> lfiles t = lfiles s \<and> (\<forall>i \<in> D. hit i \<longrightarrow> ?seen i))"
  have "wp (pool_map sched ?tasks) (\<lambda>r s'. \<exists>hit. r = Inr (map hit [0..<length ?tasks]) \<and> J {..<length ?tasks} hit s') s"
  proof (rule pool_map_values_rule)
    fix D hit i t
    assume i: "i < length ?tasks" "i \<notin> D" and J: "J D hit t"
    have "wp (lookup_one E (keys ! i, expected)) (\<lambda>r t'. \<exists>v. r = Inr v \<and> J (insert i D) (hit(i := v)) t') t"
      by (rule wp_mono [OF lookup_one_rule]) (use J i in \<open>auto simp: J_def split: sum.splits\<close>)
    then show "wp (?tasks ! i) (\<lambda>r t'. \<exists>v. r = Inr v \<and> J (insert i D) (hit(i := v)) t') t" using i by simp
  next
    show "J {} (\<lambda>_. False) s" by (simp add: J_def)
  qed (use sched in simp)
  then show ?thesis by (rule wp_mono) (auto simp: J_def)
qed

section \<open>Whole tasks\<close>

lemma guarded_rule:
  assumes "wp m (\<lambda>r s'. \<exists>x. r = Inr x \<and> P x s') s"
  shows "wp (guarded E op m) (\<lambda>r s'. \<exists>x. r = Inr (Some x) \<and> P x s') s"
  unfolding guarded_def wp_catch wp_bind
  by (rule wp_mono [OF assms]) (auto simp: wp_ret)

lemma tally_store_success:
  "fst (tally_store xs (b, stored, st)) \<longleftrightarrow> b \<and> (\<forall>(k, r) \<in> set xs. 0 \<le> r)"
  by (induction xs "(b, stored, st)" arbitrary: b stored st rule: tally_store.induct) auto

lemma store_done_rule:
  "wp (store_done E keys tid t0 (success, stored)) (\<lambda>r s'. r = Inr () \<and> l_dfs s' = l_dfs s \<and> l_mem s' = l_mem s \<and>
     l_locks s' = l_locks s \<and> l_tasks s' = l_tasks s \<and> l_inflight s' = l_inflight s - 1 \<and>
     l_completed_store s' = (l_completed_store s)(tid \<mapsto> (success, sum_list (map snd stored)))) s"
  by (cases "stored = []") (simp_all add: store_done_def wp_simps Let_def note_ok_def finish_def)

text \<open>A store task that reports success left every object complete.\<close>

definition stored_post :: "objkey list \<Rightarrow> (nat \<Rightarrow> bytes) \<Rightarrow> nat \<Rightarrow> ('d, 'm) l2world \<Rightarrow> exn + unit \<Rightarrow> ('d, 'm) l2world \<Rightarrow> bool" where
  "stored_post keys c tid s r s' \<longleftrightarrow> r = Inr () \<and> l_mem s' = l_mem s \<and> l_locks s' = l_locks s \<and> l_tasks s' = l_tasks s \<and>
     l_inflight s' = l_inflight s - 1 \<and>
     (\<exists>success n. l_completed_store s' = (l_completed_store s)(tid \<mapsto> (success, n)) \<and>
        (success \<longrightarrow> (\<forall>i < length keys. lfiles s' (lpath (keys ! i)) = Some (c i))))"

lemma execute_store_rule:
  assumes inv: "l2_inv fs plan s" and len: "length objs = length keys"
    and src: "\<And>i. i < length keys \<Longrightarrow> l_view (v_mem E) (l_mem s) (objs ! i) = Inr (c i) \<and> plan (lpath (keys ! i)) = Some (c i)"
    and sched: "is_schedule (length keys) sched"
  shows "wp (execute_store E sched keys objs tid) (\<lambda>r s'. l2_inv fs plan s' \<and> stored_post keys c tid s r s') s"
proof -
  let ?s = "s\<lparr>l_tick := l_tick s + 1\<rparr>"
  have inv': "l2_inv fs plan ?s" using inv by (simp add: l2_inv_def)
  have ran: "wp (guarded E OpStore (pool_map sched (map (store_one E) (zip keys objs))))
     (\<lambda>r s'. \<exists>zs. r = Inr (Some zs) \<and> (\<exists>z :: nat \<Rightarrow> int. zs = map z [0..<length keys] \<and> l2_inv fs plan s' \<and> l_mem s' = l_mem s \<and> ctl s' = ctl s \<and>
       (\<forall>i < length keys. 0 \<le> z i \<longrightarrow> lfiles s' (lpath (keys ! i)) = Some (c i)))) ?s"
    by (rule guarded_rule, rule wp_mono [OF stores_rule [OF inv' len _ sched]]) (use src in auto)
  show ?thesis
    unfolding execute_store_def wp_bind [of "read_clock _"] wp_read_clock sum.case
  proof (rule wp_bindI [OF ran], goal_cases)
    case (2 zs s1)
    then obtain z :: "nat \<Rightarrow> int" where zs: "zs = Some (map z [0..<length keys])"
      and s1: "l2_inv fs plan s1" "l_mem s1 = l_mem s" "ctl s1 = ctl s"
      and z: "\<forall>i < length keys. 0 \<le> z i \<longrightarrow> lfiles s1 (lpath (keys ! i)) = Some (c i)" by blast
    obtain success stored st where t: "tally_store (zip keys (map z [0..<length keys])) (True, [], l_stats s1) = (success, stored, st)"
      by (metis prod_cases3)
    have "(keys ! i, z i) \<in> set (zip keys (map z [0..<length keys]))" if "i < length keys" for i
      using that by (auto simp: set_zip)
    with tally_store_success [of "zip keys (map z [0..<length keys])" True "[]" "l_stats s1"] t
    have "success \<longrightarrow> (\<forall>i < length keys. 0 \<le> z i)" by fastforce
    with z have full: "success \<longrightarrow> (\<forall>i < length keys. lfiles s1 (lpath (keys ! i)) = Some (c i))" by blast
    show ?case
      unfolding zs option.case
      by (simp add: wp_bind [of "bind_io _ _"] wp_bind [of "get_s _"] wp_bind [of "upd_stats _"] wp_get_s wp_upd_stats wp_ret t,
          rule wp_mono [OF store_done_rule])
        (use s1 full in \<open>auto simp: stored_post_def ctl_def l2_inv_def\<close>)
  qed auto
qed

lemma tally_load_rule:
  assumes "\<And>j. i \<le> j \<Longrightarrow> j < i + length xs \<Longrightarrow> \<exists>b. l_view (v_mem E) (l_mem s) (objs ! j) = Inr b" and "length pre = i"
  shows "wp (tally_load E i xs objs (pre @ replicate (length xs) False, hk, nb))
    (\<lambda>r s'. (\<exists>hk' nb'. r = Inr ((pre @ map snd xs, hk', nb'), None)) \<and> l_dfs s' = l_dfs s \<and> l_mem s' = l_mem s \<and> ctl s' = ctl s) s"
  using assms
proof (induction xs arbitrary: i pre hk nb s)
  case Nil
  then show ?case by (simp only: tally_load.simps wp_ret) simp
next
  case (Cons x xs)
  obtain key ok where x: "x = (key, ok)" by (cases x)
  from Cons.prems(1) [of i] obtain b where b: "l_view (v_mem E) (l_mem s) (objs ! i) = Inr b" by auto
  have upd: "(pre @ False # replicate (length xs) False)[i := True] = (pre @ [True]) @ replicate (length xs) False"
    using Cons.prems(2) by (auto simp: list_update_append)
  have fin: "wp (tally_load E (Suc i) xs objs ((pre @ [ok]) @ replicate (length xs) False, hk', nb'))
    (\<lambda>r s'. (\<exists>hk' nb'. r = Inr ((pre @ map snd (x # xs), hk', nb'), None)) \<and> l_dfs s' = l_dfs s \<and> l_mem s' = l_mem s \<and> ctl s' = ctl s) t"
    if t: "l_dfs t = l_dfs s" "l_mem t = l_mem s" "ctl t = ctl s" for hk' nb' t
    by (rule wp_mono [OF Cons.IH [of "Suc i" t "pre @ [ok]"]]) (use Cons.prems t x in auto)
  show ?case
    unfolding x tally_load.simps length_Cons replicate_Suc wp_if
    using fin [unfolded x] b
    by (cases ok) (simp_all add: wp_bind [of "upd_stats _"] wp_bind [of "get_s _"] wp_upd_stats wp_get_s upd)
qed

lemma load_done_rule:
  "wp (load_done E tid t0 (bitmap, hit_keys, nbytes)) (\<lambda>r s'. r = Inr () \<and> l_dfs s' = l_dfs s \<and> l_mem s' = l_mem s \<and>
     l_locks s' = l_locks s \<and> l_tasks s' = l_tasks s \<and> l_inflight s' = l_inflight s - 1 \<and>
     l_completed_load s' = (l_completed_load s)(tid \<mapsto> bitmap)) s"
  by (cases "nbytes = 0"; cases "hit_keys = []") (simp_all add: load_done_def wp_simps note_ok_def finish_def)

text \<open>A load task: a set bit means the buffer at that position holds the content of its key.\<close>

definition loaded_post :: "nat list \<Rightarrow> (nat \<Rightarrow> bytes) \<Rightarrow> nat \<Rightarrow> ('d, 'm) l2world \<Rightarrow> exn + unit \<Rightarrow> ('d, 'm) l2world \<Rightarrow> bool" where
  "loaded_post objs c tid s r s' \<longleftrightarrow> r = Inr () \<and> lfiles s' = lfiles s \<and> l_locks s' = l_locks s \<and> l_tasks s' = l_tasks s \<and>
     l_inflight s' = l_inflight s - 1 \<and>
     (\<forall>ob. ob \<notin> set objs \<longrightarrow> l_view (v_mem E) (l_mem s') ob = l_view (v_mem E) (l_mem s) ob) \<and>
     (\<exists>bm. l_completed_load s' = (l_completed_load s)(tid \<mapsto> bm) \<and> length bm = length objs \<and>
        (\<forall>i < length objs. bm ! i \<longrightarrow> l_view (v_mem E) (l_mem s') (objs ! i) = Inr (c i)))"

lemma execute_load_rule:
  assumes inv: "l2_inv fs plan s" and len: "length objs = length keys" and bufs: "bufs_ok objs c s"
    and pl: "\<And>i. i < length keys \<Longrightarrow> plan (lpath (keys ! i)) = Some (c i)"
    and sched: "is_schedule (length keys) sched"
  shows "wp (execute_load E sched keys objs tid) (loaded_post objs c tid s) s"
proof -
  let ?s = "s\<lparr>l_tick := l_tick s + 1\<rparr>"
  have s: "l2_inv fs plan ?s" "bufs_ok objs c ?s" using inv bufs by (simp_all add: l2_inv_def bufs_ok_def)
  have ran: "wp (guarded E OpLoad (pool_map sched (map (load_task E) (zip keys objs))))
     (\<lambda>r s'. \<exists>oks. r = Inr (Some oks) \<and> (\<exists>ok. oks = map ok [0..<length keys] \<and> loads_post objs c ok {..<length keys} ?s s')) ?s"
    by (rule guarded_rule, rule wp_mono [OF loads_rule [OF s(1) len s(2) pl sched]]) auto
  show ?thesis
    unfolding execute_load_def Let_def wp_bind [of "read_clock _"] wp_read_clock sum.case
  proof (rule wp_bindI [OF ran], goal_cases)
    case (2 oks s1)
    then obtain ok where oks: "oks = Some (map ok [0..<length keys])" and s1: "loads_post objs c ok {..<length keys} ?s s1" by blast
    let ?xs = "zip keys (map ok [0..<length keys])"
    have snd: "map snd ?xs = map ok [0..<length keys]" by simp
    have "wp (tally_load E 0 ?xs objs ([] @ replicate (length ?xs) False, [], 0))
       (\<lambda>r s'. (\<exists>hk' nb'. r = Inr (([] @ map snd ?xs, hk', nb'), None)) \<and> l_dfs s' = l_dfs s1 \<and> l_mem s' = l_mem s1 \<and> ctl s' = ctl s1) s1"
      by (rule tally_load_rule) (use s1 len in \<open>auto simp: loads_post_def bufs_ok_def\<close>)
    then have t: "wp (tally_load E 0 ?xs objs (replicate (length keys) False, [], 0))
       (\<lambda>r s'. (\<exists>hk' nb'. r = Inr ((map ok [0..<length keys], hk', nb'), None)) \<and> l_dfs s' = l_dfs s1 \<and> l_mem s' = l_mem s1 \<and> ctl s' = ctl s1) s1"
      unfolding snd by simp
    show ?case
      unfolding oks option.case bind_assoc
    proof (rule wp_bindI [OF t], goal_cases)
      case (2 a s2)
      then obtain hk nb where a: "a = ((map ok [0..<length keys], hk, nb), None)"
        and s2: "l_dfs s2 = l_dfs s1" "l_mem s2 = l_mem s1" "ctl s2 = ctl s1" by auto
      show ?case
        by (simp add: a, rule wp_mono [OF load_done_rule])
          (use s1 s2 len in \<open>auto simp: loaded_post_def loads_post_def ctl_def\<close>)
    qed auto
  qed auto
qed

lemma lock_hits_result:
  assumes "lock_hits i xs (pre @ replicate (length xs) False) s = (bm, s')" and "length pre = i"
  shows "bm = pre @ map snd xs \<and> l_dfs s' = l_dfs s \<and> l_mem s' = l_mem s \<and> l_tasks s' = l_tasks s \<and>
    l_inflight s' = l_inflight s \<and> l_completed_lookup s' = l_completed_lookup s \<and>
    (\<forall>k. lock_count (l_locks s') k = lock_count (l_locks s) k + hits_for k xs)"
  using assms
proof (induction xs arbitrary: i pre s)
  case Nil
  then show ?case by (simp add: hits_for_def)
next
  case (Cons x xs)
  obtain key hit where x: "x = (key, hit)" by (cases x)
  have upd: "(pre @ False # replicate (length xs) False)[i := True] = (pre @ [True]) @ replicate (length xs) False"
    using Cons.prems(2) by (auto simp: list_update_append)
  show ?case
  proof (cases hit)
    case True
    with Cons.IH [of "Suc i" "pre @ [True]"] Cons.prems x show ?thesis
      by (auto simp: upd hits_for_def lock_count_def)
  next
    case False
    with Cons.IH [of "Suc i" "pre @ [False]"] Cons.prems x show ?thesis
      by (auto simp: hits_for_def)
  qed
qed

lemma lookup_done_rule:
  "wp (lookup_done E tid t0 bm) (\<lambda>r s'. r = Inr () \<and> l_dfs s' = l_dfs s \<and> l_mem s' = l_mem s \<and> l_locks s' = l_locks s \<and>
     l_tasks s' = l_tasks s \<and> l_inflight s' = l_inflight s - 1 \<and>
     l_completed_lookup s' = (l_completed_lookup s)(tid \<mapsto> bm)) s"
  by (cases "n_lookup_hits (l_stats s) = 0") (simp_all add: lookup_done_def wp_simps note_ok_def finish_def)

text \<open>A lookup task: a set bit means an object of the expected size was there, and one more lock on its key.\<close>

definition looked_post :: "objkey list \<Rightarrow> int option \<Rightarrow> nat \<Rightarrow> ('d, 'm) l2world \<Rightarrow> exn + unit \<Rightarrow> ('d, 'm) l2world \<Rightarrow> bool" where
  "looked_post keys expected tid s r s' \<longleftrightarrow> r = Inr () \<and> l_mem s' = l_mem s \<and> lfiles s' = lfiles s \<and> l_tasks s' = l_tasks s \<and>
     l_inflight s' = l_inflight s - 1 \<and>
     (\<exists>bm. l_completed_lookup s' = (l_completed_lookup s)(tid \<mapsto> bm) \<and> length bm = length keys \<and>
        (\<forall>i < length keys. bm ! i \<longrightarrow>
           (\<exists>b. lfiles s (lpath (keys ! i)) = Some b \<and> (\<forall>x. expected = Some x \<longrightarrow> int (length b) = x))) \<and>
        (\<forall>k. lock_count (l_locks s') k = lock_count (l_locks s) k + hits_for k (zip keys bm)))"

lemma execute_lookup_rule:
  assumes sched: "is_schedule (length keys) sched"
  shows "wp (execute_lookup E sched keys expected tid) (looked_post keys expected tid s) s"
proof -
  let ?s = "s\<lparr>l_tick := l_tick s + 1\<rparr>"
  let ?seen = "\<lambda>i. \<exists>b. lfiles s (lpath (keys ! i)) = Some b \<and> (\<forall>x. expected = Some x \<longrightarrow> int (length b) = x)"
  have ran: "wp (guarded E OpLookup (pool_map sched (map (\<lambda>k. lookup_one E (k, expected)) keys)))
     (\<lambda>r s'. \<exists>hits. r = Inr (Some hits) \<and> (\<exists>hit. hits = map hit [0..<length keys] \<and> l_mem s' = l_mem s \<and> ctl s' = ctl s \<and>
        lfiles s' = lfiles s \<and> (\<forall>i < length keys. hit i \<longrightarrow> ?seen i))) ?s"
    by (rule guarded_rule, rule wp_mono [OF lookups_rule [OF sched]]) auto
  show ?thesis
    unfolding execute_lookup_def Let_def wp_bind [of "read_clock _"] wp_read_clock sum.case
  proof (rule wp_bindI [OF ran], goal_cases)
    case (2 hits s1)
    then obtain hit where hits: "hits = Some (map hit [0..<length keys])" and s1: "l_mem s1 = l_mem s" "ctl s1 = ctl s" "lfiles s1 = lfiles s"
      and seen: "\<forall>i < length keys. hit i \<longrightarrow> ?seen i" by blast
    let ?xs = "zip keys (map hit [0..<length keys])"
    obtain bm s2 where l: "lock_hits 0 ?xs (replicate (length keys) False) s1 = (bm, s2)" by (metis surj_pair)
    from lock_hits_result [of 0 ?xs "[]" s1 bm s2] l
    have bm: "bm = map hit [0..<length keys]" and s2: "l_dfs s2 = l_dfs s1" "l_mem s2 = l_mem s1" "l_tasks s2 = l_tasks s1"
      "l_inflight s2 = l_inflight s1" "l_completed_lookup s2 = l_completed_lookup s1"
      and lc: "\<forall>k. lock_count (l_locks s2) k = lock_count (l_locks s1) k + hits_for k ?xs" by simp_all
    have "wp (lookup_done E tid t0 bm) (looked_post keys expected tid s) s2" for t0
      by (rule wp_mono [OF lookup_done_rule])
        (use s1 s2 lc seen bm in \<open>auto simp: looked_post_def ctl_def\<close>)
    then show ?case unfolding hits option.case wp_bind by (simp add: wp_def l)
  qed auto
qed

end

section \<open>Every interleaving\<close>

text \<open>
  The states the adapter can reach: calls on single keys in any order and from any task, with whatever
  outcome, and between them anything that leaves the name space alone, that is, the adapter's own
  bookkeeping and the caller's use of its buffers. A store of a key writes the content that belongs
  to it; a load offers a buffer of that size.
\<close>

inductive l2_reach :: "('d, 'm) l2env \<Rightarrow> (string \<Rightarrow> bytes option) \<Rightarrow> ('d, 'm) l2world \<Rightarrow> ('d, 'm) l2world \<Rightarrow> bool"
  for E plan s0 where
  start: "l2_reach E plan s0 s0"
| store: "l2_reach E plan s0 s \<Longrightarrow> plan (l2_path (v_root E) key) = Some c \<Longrightarrow> l_view (v_mem E) (l_mem s) ob = Inr c \<Longrightarrow>
    store_one E (key, ob) s = (r, s') \<Longrightarrow> l2_reach E plan s0 s'"
| load: "l2_reach E plan s0 s \<Longrightarrow> plan (l2_path (v_root E) key) = Some c \<Longrightarrow> l_view (v_mem E) (l_mem s) ob = Inr b \<Longrightarrow>
    length b = length c \<Longrightarrow> load_one E (key, ob) s = (r', s') \<Longrightarrow> l2_reach E plan s0 s'"
| lookup: "l2_reach E plan s0 s \<Longrightarrow> lookup_one E (key, expected) s = (r', s') \<Longrightarrow> l2_reach E plan s0 s'"
| delete: "l2_reach E plan s0 s \<Longrightarrow> delete_one E key s = (r'', s') \<Longrightarrow> l2_reach E plan s0 s'"
| own: "l2_reach E plan s0 s \<Longrightarrow> l_dfs s' = l_dfs s \<Longrightarrow> l2_reach E plan s0 s'"

context l2_conn
begin

lemma reach_inv:
  assumes "l2_reach E plan s0 s" and "l2_inv fs plan s0"
  shows "l2_inv fs plan s"
  using assms
proof induction
  case (store s key c ob r s')
  have "store_post (lpath key) c s r s'"
    by (rule wpD [OF store_one_rule [OF store.hyps(3) l2_inv_at [OF store.IH [OF store.prems] store.hyps(2)]] store.hyps(4)])
  with l2_inv_held [OF store.IH [OF store.prems] store.hyps(2)] show ?case by (simp add: store_post_def)
next
  case (load s key c ob b r' s')
  have "load_post ob c s r' s'"
    by (rule wpD [OF load_one_rule [OF load.hyps(3,4) l2_inv_at [OF load.IH [OF load.prems] load.hyps(2)]] load.hyps(5)])
  with load.IH [OF load.prems] l2_inv_cong [of fs s' s plan] show ?case by (simp add: load_post_def)
next
  case (lookup s key expected r' s')
  from wpD [OF lookup_one_rule lookup.hyps(2)] lookup.IH [OF lookup.prems] l2_inv_cong [of fs s' s plan] show ?case by simp
next
  case (delete s key r'' s')
  from wpD [OF delete_one_rule delete.hyps(2)] l2_inv_remove [OF delete.IH [OF delete.prems]] show ?case by blast
qed (auto simp: l2_inv_def)

text \<open>A hit of the right size is the whole content.\<close>

lemma seen_complete:
  assumes "l2_inv fs plan s" and "plan p = Some c" and "lfiles s p = Some b" and "length b = length c"
  shows "b = c"
proof -
  from assms(1-3) obtain k where "b = take k c" unfolding l2_inv_def by blast
  with assms(4) show ?thesis by simp
qed

end

section \<open>The promises\<close>

lemma l2_connI: "dfs_lib (v_dfs E) fs hs \<Longrightarrow> l2_bufs (v_mem E) \<Longrightarrow> l2_conn E fs hs"
  by (simp add: l2_conn_def)

text \<open>
  a load that reports a hit filled the caller's buffer with exactly the content of its key, in
  every reachable state, whatever calls failed and wherever a writer was cut off; no other buffer is
  touched, and no object.
\<close>

theorem l2_load_sound:
  assumes "dfs_lib (v_dfs E) fs hs" and "l2_bufs (v_mem E)"
    and "l2_inv fs plan s0" and "l2_reach E plan s0 s"
    and "plan (l2_path (v_root E) key) = Some c" and "l_view (v_mem E) (l_mem s) ob = Inr b" and "length b = length c"
    and "load_one E (key, ob) s = (r, s')"
  shows "\<exists>ok. r = Inr ok \<and> (ok \<longrightarrow> l_view (v_mem E) (l_mem s') ob = Inr c) \<and> fs (l_dfs s') = fs (l_dfs s) \<and>
    (\<forall>ob'. ob' \<noteq> ob \<longrightarrow> l_view (v_mem E) (l_mem s') ob' = l_view (v_mem E) (l_mem s) ob')"
proof -
  note lc = l2_connI [OF assms(1,2)]
  from wpD [OF l2_conn.load_one_rule [OF lc assms(6,7) l2_inv_at [OF l2_conn.reach_inv [OF lc assms(4,3)] assms(5)]] assms(8)]
  show ?thesis by (auto simp: l2_conn.load_post_def [OF lc] split: sum.splits)
qed

text \<open>
  C13: a whole load task, with the keys finished in any order: the result has one bit per key, and where
  the bit is set the buffer at that position holds the content of the key at that position.
\<close>

theorem l2_load_task:
  assumes "dfs_lib (v_dfs E) fs hs" and "l2_bufs (v_mem E)" and "l2_inv fs plan s0" and "l2_reach E plan s0 s"
    and "length objs = length keys" and "distinct objs"
    and "\<And>i. i < length keys \<Longrightarrow> plan (l2_path (v_root E) (keys ! i)) = Some (c i)"
    and "\<And>i. i < length keys \<Longrightarrow> \<exists>b. l_view (v_mem E) (l_mem s) (objs ! i) = Inr b \<and> length b = length (c i)"
    and "is_schedule (length keys) sched" and "execute_load E sched keys objs tid s = (r, s')"
  shows "r = Inr () \<and> (\<exists>bm. l_completed_load s' tid = Some bm \<and> length bm = length keys \<and>
    (\<forall>i < length keys. bm ! i \<longrightarrow> l_view (v_mem E) (l_mem s') (objs ! i) = Inr (c i)))"
proof -
  note lc = l2_connI [OF assms(1,2)]
  have "l2_conn.bufs_ok E objs c s" using assms(5,6,8) by (simp add: l2_conn.bufs_ok_def [OF lc])
  from wpD [OF l2_conn.execute_load_rule [OF lc l2_conn.reach_inv [OF lc assms(4,3)] assms(5) this assms(7,9)] assms(10)] assms(5)
  show ?thesis by (auto simp: l2_conn.loaded_post_def [OF lc])
qed

text \<open>
  C14: a store task that reports success left the complete object of every key behind, although a
  write may fail or come back short at any point.
\<close>

theorem l2_store_success:
  assumes "dfs_lib (v_dfs E) fs hs" and "l2_bufs (v_mem E)" and "l2_inv fs plan s0" and "l2_reach E plan s0 s"
    and "length objs = length keys"
    and "\<And>i. i < length keys \<Longrightarrow> l_view (v_mem E) (l_mem s) (objs ! i) = Inr (c i) \<and> plan (l2_path (v_root E) (keys ! i)) = Some (c i)"
    and "is_schedule (length keys) sched" and "execute_store E sched keys objs tid s = (r, s')"
  shows "r = Inr () \<and> (\<exists>success n. l_completed_store s' tid = Some (success, n) \<and>
    (success \<longrightarrow> (\<forall>i < length keys. fs (l_dfs s') (l2_path (v_root E) (keys ! i)) = Some (c i))))"
proof -
  note lc = l2_connI [OF assms(1,2)]
  from wpD [OF l2_conn.execute_store_rule [OF lc l2_conn.reach_inv [OF lc assms(4,3)] assms(5,6,7)] assms(8)]
  show ?thesis by (auto simp: l2_conn.stored_post_def [OF lc])
qed

text \<open>
  C15: a lookup task with the size check advertises only complete objects: where the bit is set, the
  object is there with its whole content. It takes one lock per hit, and no other lock changes.
\<close>

theorem l2_lookup_task:
  assumes "dfs_lib (v_dfs E) fs hs" and "l2_bufs (v_mem E)" and "l2_inv fs plan s0" and "l2_reach E plan s0 s"
    and "\<And>i. i < length keys \<Longrightarrow> \<exists>c. plan (l2_path (v_root E) (keys ! i)) = Some c \<and> int (length c) = x"
    and "is_schedule (length keys) sched" and "execute_lookup E sched keys (Some x) tid s = (r, s')"
  shows "r = Inr () \<and> (\<exists>bm. l_completed_lookup s' tid = Some bm \<and> length bm = length keys \<and>
    (\<forall>i < length keys. bm ! i \<longrightarrow> fs (l_dfs s') (l2_path (v_root E) (keys ! i)) = plan (l2_path (v_root E) (keys ! i))) \<and>
    (\<forall>k. lock_count (l_locks s') k = lock_count (l_locks s) k + hits_for k (zip keys bm)))"
proof -
  note lc = l2_connI [OF assms(1,2)]
  note inv = l2_conn.reach_inv [OF lc assms(4,3)]
  have full: "fs (l_dfs s) (l2_path (v_root E) (keys ! i)) = plan (l2_path (v_root E) (keys ! i))"
    if i: "i < length keys" and b: "fs (l_dfs s) (l2_path (v_root E) (keys ! i)) = Some b" "int (length b) = x" for i b
  proof -
    from assms(5) [OF i] obtain c where c: "plan (l2_path (v_root E) (keys ! i)) = Some c" "int (length c) = x" by blast
    with b have "length b = length c" by simp
    from l2_conn.seen_complete [OF lc inv c(1) b(1) this] b c show ?thesis by simp
  qed
  from wpD [OF l2_conn.execute_lookup_rule [OF lc assms(6)] assms(7)] obtain bm
    where r: "r = Inr ()" and fs': "fs (l_dfs s') = fs (l_dfs s)" and bm: "l_completed_lookup s' = (l_completed_lookup s)(tid \<mapsto> bm)" "length bm = length keys"
      and seen: "\<forall>i < length keys. bm ! i \<longrightarrow> (\<exists>b. fs (l_dfs s) (l2_path (v_root E) (keys ! i)) = Some b \<and> (\<forall>y. Some x = Some y \<longrightarrow> int (length b) = y))"
      and locks: "\<forall>k. lock_count (l_locks s') k = lock_count (l_locks s) k + hits_for k (zip keys bm)"
    unfolding l2_conn.looked_post_def [OF lc] by blast
  have "fs (l_dfs s') (l2_path (v_root E) (keys ! i)) = plan (l2_path (v_root E) (keys ! i))" if "i < length keys" "bm ! i" for i
    using seen that full [of i] by (auto simp: fs')
  moreover have "l_completed_lookup s' tid = Some bm" using bm(1) by simp
  ultimately show ?thesis using r bm(2) locks by blast
qed

section \<open>With the servers up\<close>

locale l2_live = dfs_live "v_dfs E" fs hs up + l2_bufs "v_mem E"
  for E :: "('d, 'm) l2env" and fs hs up

sublocale l2_live \<subseteq> l2_conn E fs hs
  by unfold_locales

context l2_live
begin

lemma wp_stat_up:
  assumes "up d" and "\<And>d'. up d' \<Longrightarrow> fs d' = fs d \<Longrightarrow> hs d' = hs d \<Longrightarrow> Q (Inr (map_option length (fs d p))) d'"
  shows "wp (stat_size (v_dfs E) p) Q d"
proof (rule wp_use)
  from stat_live [OF assms(1), of p]
  show "wp (stat_size (v_dfs E) p) (\<lambda>r d'. up d' \<and> (\<exists>x. r = Inr x)) d"
    by (auto simp: wp_def stat_size_def ENOENT_def split: if_splits)
  show "wp (stat_size (v_dfs E) p) (\<lambda>r d'. up d' \<and> (\<exists>x. r = Inr x) \<longrightarrow> Q r d') d"
    by (rule wp_stat_size) (auto intro: assms(2))
qed

lemma lookup_one_up:
  assumes "up (l_dfs s)" and "lfiles s (lpath key) = Some c"
  shows "wp (lookup_one E (key, Some (int (length c)))) (\<lambda>r s'. r = Inr True \<and> up (l_dfs s') \<and> lfiles s' = lfiles s \<and> l_mem s' = l_mem s) s"
  unfolding lookup_one_def prod.case wp_bind [of "catch_io _ _ _"] wp_catch wp_bind [of "on_ldfs _"] wp_on_ldfs
  by (rule wp_stat_up) (use assms in \<open>auto simp: wp_simps\<close>)

lemma store_new_up:
  assumes up: "up d"
  shows "wp (bind_io (on_ldfs (open_rdwr_create (v_dfs E) p 0)) (\<lambda>h.
        bind_io (on_ldfs (finally_io (write_obj_from (v_dfs E) h 0 (length c) c) (close_obj (v_dfs E) h))) (\<lambda>wrote.
        if wrote \<noteq> length c then bind_io (on_ldfs (dfs_remove (v_dfs E) p)) (\<lambda>_. ret (- 1))
        else ret (int (length c)))))
     (\<lambda>r s'. r = Inr (int (length c)) \<and> up (l_dfs s') \<and>
        lfiles s' p = Some (overlay (case fs d p of None \<Rightarrow> [] | Some b \<Rightarrow> b) 0 c) \<and> l_mem s' = l_mem s) (s\<lparr>l_dfs := d\<rparr>)"
  unfolding wp_bind [of "on_ldfs (open_rdwr_create _ _ _)"] wp_on_ldfs
proof (rule wp_open_create_up, goal_cases)
  case (2 h d1)
  define b where "b = (case fs d p of None \<Rightarrow> [] | Some b \<Rightarrow> b)"
  have d1: "hs d1 h = Some p" "fs d1 p = Some b" using 2 by (simp_all add: b_def)
  show ?case
    unfolding sum.case wp_bind [of "on_ldfs (finally_io _ _)"] wp_on_ldfs wp_finally
    by (simp, rule wp_write_up [OF 2(1) d1 order.refl], rule wp_close_up) (use 2 in \<open>auto simp: wp_ret b_def\<close>)
qed (use up in simp)

lemma store_over_up:
  assumes up: "up (l_dfs s)" and view: "l_view (v_mem E) (l_mem s) ob = Inr c"
    and ne: "map_option length (lfiles s (lpath key)) \<noteq> Some (length c)"
  shows "wp (store_one E (key, ob)) (\<lambda>r s'. r = Inr (int (length c)) \<and> up (l_dfs s') \<and>
     lfiles s' (lpath key) = Some (overlay (case lfiles s (lpath key) of None \<Rightarrow> [] | Some b \<Rightarrow> b) 0 c) \<and> l_mem s' = l_mem s) s"
  unfolding store_one_def prod.case Let_def finally_on_ldfs wp_catch wp_bind [of "cbuf _ _"] wp_cbuf view sum.case
    wp_bind [of "on_ldfs (stat_size _ _)"] wp_on_ldfs
proof (rule wp_stat_up [OF up], goal_cases)
  case (1 d)
  with wp_mono [OF store_new_up [of d "lpath key" c s]] ne show ?case by auto
qed

lemma store_one_up:
  assumes up: "up (l_dfs s)" and view: "l_view (v_mem E) (l_mem s) ob = Inr c"
    and fil: "lfiles s (lpath key) = None \<or> (\<exists>k. lfiles s (lpath key) = Some (take k c))"
  shows "wp (store_one E (key, ob)) (\<lambda>r s'. (\<exists>i \<ge> 0. r = Inr i) \<and> up (l_dfs s') \<and> lfiles s' (lpath key) = Some c \<and> l_mem s' = l_mem s) s"
proof (cases "lfiles s (lpath key) = Some c")
  case True
  show ?thesis
    unfolding store_one_def prod.case Let_def finally_on_ldfs wp_catch wp_bind [of "cbuf _ _"] wp_cbuf view sum.case
      wp_bind [of "on_ldfs (stat_size _ _)"] wp_on_ldfs
    by (rule wp_stat_up [OF up]) (use True in \<open>simp add: wp_ret\<close>)
next
  case False
  with fil have ne: "map_option length (lfiles s (lpath key)) \<noteq> Some (length c)" by (auto simp: min_def)
  have "length (case lfiles s (lpath key) of None \<Rightarrow> [] | Some b \<Rightarrow> b) \<le> length c" using fil by auto
  then have "overlay (case lfiles s (lpath key) of None \<Rightarrow> [] | Some b \<Rightarrow> b) 0 c = c" by (simp add: overlay_overwrite)
  with wp_mono [OF store_over_up [OF up view ne]] show ?thesis by auto
qed

lemma load_one_up:
  assumes up: "up (l_dfs s)" and view: "l_view (v_mem E) (l_mem s) ob = Inr b" and len: "length b = length c"
    and fil: "lfiles s (lpath key) = Some c"
  shows "wp (load_one E (key, ob)) (\<lambda>r s'. r = Inr True \<and> up (l_dfs s')) s"
  unfolding load_one_def prod.case Let_def wp_catch wp_bind [of "cbuf _ _"] wp_cbuf view sum.case
    wp_bind [of "on_ldfs (open_rdonly _ _)"] wp_on_ldfs
proof (rule wp_open_rdonly_up [OF up fil], goal_cases)
  case (1 h d)
  have d: "hs d h = Some (lpath key)" "fs d (lpath key) = Some c" using 1 fil by simp_all
  show ?case
    unfolding sum.case wp_bind [of "finally_io _ _"] wp_finally wp_bind [of "on_ldfs (read_obj_into _ _ _ _ _)"] wp_on_ldfs
    by (simp, rule wp_read_into_up [OF 1(1) d]) (use len in \<open>auto simp: wp_simps intro!: wp_close_up\<close>)
qed

end

section \<open>A round trip\<close>

context l2_live
begin

lemma roundtrip:
  assumes "up (l_dfs s)" and "l_view (v_mem E) (l_mem s) ob = Inr c"
    and "lfiles s (lpath key) = None \<or> (\<exists>k. lfiles s (lpath key) = Some (take k c))"
    and "l_view (v_mem E) (l_mem s) ob' = Inr b" and "length b = length c"
  shows "\<exists>i s1 s2 s3. 0 \<le> i \<and> store_one E (key, ob) s = (Inr i, s1) \<and>
    lookup_one E (key, Some (int (length c))) s1 = (Inr True, s2) \<and>
    load_one E (key, ob') s2 = (Inr True, s3) \<and> l_view (v_mem E) (l_mem s3) ob' = Inr c"
proof -
  obtain r1 s1 where run1: "store_one E (key, ob) s = (r1, s1)" by (metis surj_pair)
  from wpD [OF store_one_up [OF assms(1-3)] run1] obtain i where i: "0 \<le> i" "r1 = Inr i"
    and s1: "up (l_dfs s1)" "lfiles s1 (lpath key) = Some c" "l_mem s1 = l_mem s" by blast
  obtain r2 s2 where run2: "lookup_one E (key, Some (int (length c))) s1 = (r2, s2)" by (metis surj_pair)
  from wpD [OF lookup_one_up [OF s1(1,2)] run2] s1 have r2: "r2 = Inr True"
    and s2: "up (l_dfs s2)" "lfiles s2 (lpath key) = Some c" "l_view (v_mem E) (l_mem s2) ob' = Inr b" using assms(4) by simp_all
  obtain r3 s3 where run3: "load_one E (key, ob') s2 = (r3, s3)" by (metis surj_pair)
  from wpD [OF load_one_up [OF s2(1) s2(3) assms(5) s2(2)] run3] have r3: "r3 = Inr True" by blast
  have "lfiles s2 (lpath key) = None \<or> (\<exists>k. lfiles s2 (lpath key) = Some (take k c))"
    using s2(2) by (intro disjI2 exI [of _ "length c"]) simp
  from wpD [OF load_one_rule [OF s2(3) assms(5) this] run3] r3 have "l_view (v_mem E) (l_mem s3) ob' = Inr c"
    by (simp add: load_post_def)
  with run1 run2 run3 i r2 r3 show ?thesis by blast
qed

end

text \<open>
  with the servers up, a store of a key succeeds whatever part of the object was there, a lookup
  that checks the size hits, and a load into another buffer of that size reports a hit and delivers
  the bytes that were stored.
\<close>

theorem l2_roundtrip:
  assumes "dfs_live (v_dfs E) fs hs up" and "l2_bufs (v_mem E)" and "up (l_dfs s)"
    and "l_view (v_mem E) (l_mem s) ob = Inr c"
    and "fs (l_dfs s) (l2_path (v_root E) key) = None \<or> (\<exists>k. fs (l_dfs s) (l2_path (v_root E) key) = Some (take k c))"
    and "l_view (v_mem E) (l_mem s) ob' = Inr b" and "length b = length c"
  shows "\<exists>i s1 s2 s3. 0 \<le> i \<and> store_one E (key, ob) s = (Inr i, s1) \<and>
    lookup_one E (key, Some (int (length c))) s1 = (Inr True, s2) \<and>
    load_one E (key, ob') s2 = (Inr True, s3) \<and> l_view (v_mem E) (l_mem s3) ob' = Inr c"
  by (rule l2_live.roundtrip [OF l2_live.intro [OF assms(1,2)] assms(3-7)])

section \<open>On the reference name space\<close>

text \<open>Buffers as a map, and an adapter at \<open>/mp\<close> over the reference name space.\<close>

definition ref_bufs :: "(nat \<Rightarrow> bytes) l2mem" where
  "ref_bufs = \<lparr>l_view = (\<lambda>m ob. Inr (m ob)), l_put = (\<lambda>ob x m. m(ob := x))\<rparr>"

definition ref_env :: "bool \<Rightarrow> (memfs, nat \<Rightarrow> bytes) l2env" where
  "ref_env fair = \<lparr>v_dfs = mem_dfs, v_mem = ref_bufs, v_time = real, v_mono = real, v_root = ''/mp'', v_verify = True, v_fair = fair\<rparr>"

lemma ref_env_sel [simp]: "v_dfs (ref_env fair) = mem_dfs" "v_mem (ref_env fair) = ref_bufs" "v_root (ref_env fair) = ''/mp''"
  "v_time (ref_env fair) = real" "v_mono (ref_env fair) = real" "v_fair (ref_env fair) = fair" "v_verify (ref_env fair) = True"
  by (simp_all add: ref_env_def)

interpretation refbufs: l2_bufs ref_bufs
  by unfold_locales (auto simp: ref_bufs_def)

interpretation refl2: l2_live "ref_env fair" mfiles mhandles mem_up for fair
  using memlive.dfs_live_axioms refbufs.l2_bufs_axioms by (simp add: l2_live_def)

definition ref_key :: objkey where
  "ref_key = \<lparr>model_name = ''m'', kv_rank = 0, object_group_id = 0, chunk_hash = [1], cache_salt = []\<rparr>"

abbreviation "ref_path \<equiv> l2_path ''/mp'' ref_key"

text \<open>Buffer 0 holds the content, buffer 1 has its size; the object is there or not.\<close>

definition ref_world :: "bool \<Rightarrow> (memfs, nat \<Rightarrow> bytes) l2world" where
  "ref_world full = world_init (if full then mem_init\<lparr>mfiles := [ref_path \<mapsto> [5, 6]]\<rparr> else mem_init) ((\<lambda>_. [0, 0])(0 := [5, 6]))"

definition ref_plan :: "string \<Rightarrow> bytes option" where
  "ref_plan = [ref_path \<mapsto> [5, 6]]"

lemma ref_inv: "l2_inv mfiles ref_plan (ref_world full)"
  by (auto simp: l2_inv_def ref_plan_def ref_world_def world_init_def split: if_splits intro: exI [of _ 2])

lemma ref_plan_key [simp]: "ref_plan ref_path = Some [5, 6]"
  by (simp add: ref_plan_def)

lemma ref_view [simp]: "l_view ref_bufs (l_mem (ref_world full)) ob = Inr (if ob = 0 then [5, 6] else [0, 0])"
  by (simp add: ref_world_def world_init_def ref_bufs_def)

lemma ref_up [simp]: "mem_up (l_dfs (ref_world full))"
  by (simp add: ref_world_def world_init_def mem_up_def mem_init_def)

lemma ref_files [simp]: "mfiles (l_dfs (ref_world full)) = (if full then [ref_path \<mapsto> [5, 6]] else Map.empty)"
  by (simp add: ref_world_def world_init_def)

theorem l2_roundtrip_witness:
  "\<exists>i s1 s2 s3. 0 \<le> i \<and> store_one (ref_env True) (ref_key, 0) (ref_world False) = (Inr i, s1) \<and>
    lookup_one (ref_env True) (ref_key, Some 2) s1 = (Inr True, s2) \<and>
    load_one (ref_env True) (ref_key, 1) s2 = (Inr True, s3) \<and> l_view ref_bufs (l_mem s3) 1 = Inr [5, 6]"
proof -
  have "\<exists>i s1 s2 s3. 0 \<le> i \<and> store_one (ref_env True) (ref_key, 0) (ref_world False) = (Inr i, s1) \<and>
    lookup_one (ref_env True) (ref_key, Some (int (length ([5, 6] :: bytes)))) s1 = (Inr True, s2) \<and>
    load_one (ref_env True) (ref_key, 1) s2 = (Inr True, s3) \<and> l_view (v_mem (ref_env True)) (l_mem s3) 1 = Inr [5, 6]"
    by (rule l2_roundtrip [where fs = mfiles and hs = mhandles and up = mem_up and b = "[0, 0]"])
      (simp_all add: memlive.dfs_live_axioms refbufs.l2_bufs_axioms)
  then show ?thesis by simp
qed

theorem l2_load_sound_witness:
  "\<exists>s'. load_one (ref_env True) (ref_key, 1) (ref_world True) = (Inr True, s') \<and> l_view ref_bufs (l_mem s') 1 = Inr [5, 6]"
proof -
  obtain r s' where run: "load_one (ref_env True) (ref_key, 1) (ref_world True) = (r, s')" by (metis surj_pair)
  have "r = Inr True" by (rule conjunct1, rule wpD [OF refl2.load_one_up [where b = "[0, 0]" and c = "[5, 6]"] run]) simp_all
  moreover have "\<exists>ok. r = Inr ok \<and> (ok \<longrightarrow> l_view ref_bufs (l_mem s') 1 = Inr [5, 6])"
    using l2_load_sound [of "ref_env True" mfiles mhandles ref_plan "ref_world True" "ref_world True" ref_key "[5, 6]" 1 "[0, 0]" r s'] run
    by (auto simp: memlib.dfs_lib_axioms refbufs.l2_bufs_axioms ref_inv intro: l2_reach.start)
  ultimately show ?thesis using run by auto
qed

lemmas ref_run = ref_world_def world_init_def ref_bufs_def mem_dfs_def mem_dfs_defs mem_init_def
  bind_io_def ret_def put_s_def get_s_def catch_io_def finally_io_def read_clock_def on_ldfs_def cbuf_def
  upd_stats_def add_note_def note_ok_def finish_def guarded_def pool_map_def run_all_def run_step_def stats_init_def
  Let_def chk_rc2_def chk_rc_def ignore_rc_def store_into_def stat_size_def open_rdonly_def open_rdwr_create_def open_obj_def read_obj_into_def write_obj_from_def close_obj_def

lemma ref_load_run:
  "\<exists>s'. execute_load (ref_env True) [0] [ref_key] [1] 0 (ref_world True) = (Inr (), s') \<and> l_completed_load s' 0 = Some [True]"
  by (simp add: execute_load_def load_task_def load_one_def load_done_def ref_run)

lemma ref_lookup_run:
  "\<exists>s'. execute_lookup (ref_env True) [0] [ref_key] (Some 2) 0 (ref_world True) = (Inr (), s') \<and> l_completed_lookup s' 0 = Some [True]"
  by (simp add: execute_lookup_def lookup_one_def lookup_done_def ref_run)

lemma ref_store_run:
  "\<exists>s'. execute_store (ref_env True) [0] [ref_key] [0] 0 (ref_world False) = (Inr (), s') \<and> l_completed_store s' 0 = Some (True, 2)"
  by (simp add: execute_store_def store_one_def store_done_def ref_run)

theorem l2_load_task_witness:
  "\<exists>s'. execute_load (ref_env True) [0] [ref_key] [1] 0 (ref_world True) = (Inr (), s') \<and>
     l_completed_load s' 0 = Some [True] \<and> l_view ref_bufs (l_mem s') 1 = Inr [5, 6]"
proof -
  obtain s' where run: "execute_load (ref_env True) [0] [ref_key] [1] 0 (ref_world True) = (Inr (), s')"
    and bm: "l_completed_load s' 0 = Some [True]" using ref_load_run by blast
  have "(Inr () :: exn + unit) = Inr () \<and> (\<exists>bm. l_completed_load s' 0 = Some bm \<and> length bm = length [ref_key] \<and>
    (\<forall>i < length [ref_key]. bm ! i \<longrightarrow> l_view (v_mem (ref_env True)) (l_mem s') ([1] ! i) = Inr [5, 6]))"
    by (rule l2_load_task [OF _ _ ref_inv l2_reach.start _ _ _ _ _ run, where hs = mhandles])
      (simp_all add: memlib.dfs_lib_axioms refbufs.l2_bufs_axioms is_schedule_def lessThan_Suc)
  with run bm show ?thesis by auto
qed

theorem l2_lookup_task_witness:
  "\<exists>s'. execute_lookup (ref_env True) [0] [ref_key] (Some 2) 0 (ref_world True) = (Inr (), s') \<and>
     l_completed_lookup s' 0 = Some [True] \<and> mfiles (l_dfs s') ref_path = Some [5, 6] \<and> lock_count (l_locks s') ref_key = 1"
proof -
  obtain s' where run: "execute_lookup (ref_env True) [0] [ref_key] (Some 2) 0 (ref_world True) = (Inr (), s')"
    and bm: "l_completed_lookup s' 0 = Some [True]" using ref_lookup_run by blast
  have "(Inr () :: exn + unit) = Inr () \<and> (\<exists>bm. l_completed_lookup s' 0 = Some bm \<and> length bm = length [ref_key] \<and>
    (\<forall>i < length [ref_key]. bm ! i \<longrightarrow> mfiles (l_dfs s') (l2_path (v_root (ref_env True)) ([ref_key] ! i)) = ref_plan (l2_path (v_root (ref_env True)) ([ref_key] ! i))) \<and>
    (\<forall>k. lock_count (l_locks s') k = lock_count (l_locks (ref_world True)) k + hits_for k (zip [ref_key] bm)))"
    by (rule l2_lookup_task [OF _ _ ref_inv l2_reach.start _ _ run, where hs = mhandles])
      (simp_all add: memlib.dfs_lib_axioms refbufs.l2_bufs_axioms is_schedule_def lessThan_Suc)
  with run bm show ?thesis by (auto simp: hits_for_def lock_count_def ref_world_def world_init_def)
qed

theorem l2_store_success_witness:
  "\<exists>s'. execute_store (ref_env True) [0] [ref_key] [0] 0 (ref_world False) = (Inr (), s') \<and>
     l_completed_store s' 0 = Some (True, 2) \<and> mfiles (l_dfs s') ref_path = Some [5, 6]"
proof -
  obtain s' where run: "execute_store (ref_env True) [0] [ref_key] [0] 0 (ref_world False) = (Inr (), s')"
    and ok: "l_completed_store s' 0 = Some (True, 2)" using ref_store_run by blast
  have "(Inr () :: exn + unit) = Inr () \<and> (\<exists>success n. l_completed_store s' 0 = Some (success, n) \<and>
    (success \<longrightarrow> (\<forall>i < length [ref_key]. mfiles (l_dfs s') (l2_path (v_root (ref_env True)) ([ref_key] ! i)) = Some [5, 6])))"
    by (rule l2_store_success [OF _ _ ref_inv l2_reach.start _ _ _ run, where hs = mhandles])
      (simp_all add: memlib.dfs_lib_axioms refbufs.l2_bufs_axioms is_schedule_def lessThan_Suc)
  with run ok show ?thesis by auto
qed

end
