(* ===== verification/L2_Tasks.thy ===== *)
theory L2_Tasks
  imports L2_Sound
begin

text \<open>
  The adapter's bookkeeping, whatever the library does: task ids and results, the count of tasks in
  flight, the lock table, the health record and the status log. Nothing here depends on a contract
  of \<^verbatim>\<open>libdfs\<close>, except the last section, on objects that are larger than their content.
\<close>

section \<open>Task ids and results\<close>

text \<open>Calls on single keys leave the control state alone.\<close>

interpretation still: step_order "\<lambda>s s'. ctl s' = ctl s"
  by unfold_locales auto

abbreviation "stills m \<equiv> keeps (\<lambda>s s'. ctl s' = ctl s) m"

lemma still_prims:
  "stills (on_ldfs m)" "stills (read_clock c)" "stills (upd_stats f)" "stills (cbuf E ob)"
  by (auto simp: keeps_def on_ldfs_def read_clock_def upd_stats_def put_s_def cbuf_def split: prod.splits)

lemma still_note_error: "stills (note_error E op e)"
  unfolding note_error_def by (intro still.keeps_rules still_prims)

lemma still_mem: "stills (put_s (\<lambda>s. s\<lparr>l_mem := f s\<rparr>))"
  by (rule still.keeps_put) simp

lemmas still_rules = still.keeps_rules still_prims still_note_error still_mem

lemma still_store_one: "stills (store_one E x)"
  unfolding store_one_def Let_def by (cases x) (auto intro!: still_rules)

lemma still_lookup_one: "stills (lookup_one E x)"
  unfolding lookup_one_def by (cases x) (auto intro!: still_rules)

lemma still_load_one: "stills (load_one E x)"
  unfolding load_one_def Let_def by (cases x) (auto intro!: still_rules)

lemma still_load_task: "stills (load_task E x)"
  unfolding load_task_def by (auto intro!: still_rules still_load_one)

lemma still_guarded: "stills m \<Longrightarrow> stills (guarded E op m)"
  unfolding guarded_def by (auto intro!: still_rules)

lemma still_tally_load: "stills (tally_load E i xs objs acc)"
  by (induction E i xs objs acc rule: tally_load.induct) (auto intro!: still_rules split: sum.splits)

text \<open>The bookkeeping of a task's end: its result appears, one task less is in flight.\<close>

fun task_id :: "l2task \<Rightarrow> nat" where
  "task_id (TStore tid _ _) = tid"
| "task_id (TLookup tid _ _) = tid"
| "task_id (TLoad tid _ _) = tid"

fun task_keys :: "l2task \<Rightarrow> objkey list" where
  "task_keys (TStore _ keys _) = keys"
| "task_keys (TLookup _ keys _) = keys"
| "task_keys (TLoad _ keys _) = keys"

text \<open>The number of calls a task hands to the pool.\<close>

fun task_width :: "l2task \<Rightarrow> nat" where
  "task_width (TStore _ keys objs) = min (length keys) (length objs)"
| "task_width (TLookup _ keys _) = length keys"
| "task_width (TLoad _ keys objs) = min (length keys) (length objs)"

definition ended :: "l2task \<Rightarrow> ('d, 'm) l2world \<Rightarrow> ('d, 'm) l2world \<Rightarrow> bool" where
  "ended t s s' \<longleftrightarrow> l_next_task_id s' = l_next_task_id s \<and> l_tasks s' = l_tasks s \<and> l_inflight s' = l_inflight s - 1 \<and>
     (case t of
        TStore tid _ _ \<Rightarrow> (\<exists>x. l_completed_store s' = (l_completed_store s)(tid \<mapsto> x)) \<and>
          l_completed_lookup s' = l_completed_lookup s \<and> l_completed_load s' = l_completed_load s \<and> l_locks s' = l_locks s
      | TLookup tid keys _ \<Rightarrow> (\<exists>bm. length bm = length keys \<and> l_completed_lookup s' = (l_completed_lookup s)(tid \<mapsto> bm)) \<and>
          l_completed_store s' = l_completed_store s \<and> l_completed_load s' = l_completed_load s
      | TLoad tid keys _ \<Rightarrow> (\<exists>bm. length bm = length keys \<and> l_completed_load s' = (l_completed_load s)(tid \<mapsto> bm)) \<and>
          l_completed_store s' = l_completed_store s \<and> l_completed_lookup s' = l_completed_lookup s \<and> l_locks s' = l_locks s)"

lemma still_wp:
  assumes "stills m" and "\<And>r s'. ctl s' = ctl s \<Longrightarrow> Q r s'"
  shows "wp m Q s"
  using assms by (auto simp: wp_def keeps_def split: prod.splits) (metis snd_conv)

lemma store_done_ended:
  assumes "ctl s1 = ctl s"
  shows "wp (store_done E keys tid t0 acc) (\<lambda>r s'. r = Inr () \<longrightarrow> ended (TStore tid keys objs) s s') s1"
  using assms by (cases acc) (auto simp: store_done_def Let_def note_ok_def finish_def wp_simps ended_def ctl_def)

lemma execute_store_ended:
  assumes "may_run (min (length keys) (length objs)) sched"
  shows "wp (execute_store E sched keys objs tid) (\<lambda>r s'. r = Inr () \<longrightarrow> ended (TStore tid keys objs) s s') s"
proof -
  have "stills (guarded E OpStore (pool_map sched (map (store_one E) (zip keys objs))))"
    by (intro still_guarded still.keeps_pool) (use assms still_store_one in auto)
  then show ?thesis
    unfolding execute_store_def wp_bind [of "read_clock _"] wp_read_clock sum.case wp_bind [of "guarded _ _ _"]
    by (elim still_wp)
      (auto simp: wp_simps intro!: store_done_ended split: sum.splits option.splits prod.splits)
qed

lemma lock_hits_length: "lock_hits i xs bitmap s = (bm, s') \<Longrightarrow> length bm = length bitmap"
  by (induction i xs bitmap s arbitrary: bm s' rule: lock_hits.induct) (auto split: if_splits)

text \<open>The locks and counters are all that the loop of a lookup changes.\<close>

lemma lock_hits_frame:
  "lock_hits i xs bitmap s = (bm, s') \<Longrightarrow> \<exists>lk st. s' = s\<lparr>l_locks := lk, l_stats := st\<rparr>"
proof (induction i xs bitmap s arbitrary: bm s' rule: lock_hits.induct)
  case (1 i bitmap s)
  then have "s' = s\<lparr>l_locks := l_locks s, l_stats := l_stats s\<rparr>" by simp
  then show ?case by blast
next
  case (2 i key hit rest bitmap s)
  then show ?case by (fastforce split: if_splits)
qed

lemma wp_lock_hits:
  "wp (\<lambda>s. case lock_hits i xs b s of (bm, s') \<Rightarrow> (Inr bm, s')) Q s = (case lock_hits i xs b s of (bm, s') \<Rightarrow> Q (Inr bm) s')"
  by (simp add: wp_def split: prod.splits)

lemma lookup_done_ended:
  assumes "ctl s1 = ctl s" and "length bm = length keys" and "s2 = s1\<lparr>l_locks := lk, l_stats := st\<rparr>"
  shows "wp (lookup_done E tid t0 bm) (\<lambda>r s'. r = Inr () \<longrightarrow> ended (TLookup tid keys expected) s s') s2"
  using assms by (auto simp: lookup_done_def note_ok_def finish_def wp_simps ended_def ctl_def)

lemma execute_lookup_ended:
  assumes "may_run (length keys) sched"
  shows "wp (execute_lookup E sched keys expected tid) (\<lambda>r s'. r = Inr () \<longrightarrow> ended (TLookup tid keys expected) s s') s"
proof -
  have "stills (guarded E OpLookup (pool_map sched (map (\<lambda>k. lookup_one E (k, expected)) keys)))"
    by (intro still_guarded still.keeps_pool) (use assms still_lookup_one in auto)
  then show ?thesis
    unfolding execute_lookup_def Let_def wp_bind [of "read_clock _"] wp_read_clock sum.case wp_bind [of "guarded _ _ _"]
  proof (elim still_wp, goal_cases)
    case (1 r s1)
    then have s1: "ctl s1 = ctl s" by simp
    have none: "wp (lookup_done E tid t0 (replicate (length keys) False)) (\<lambda>r s'. r = Inr () \<longrightarrow> ended (TLookup tid keys expected) s s') s1" for t0
      by (rule lookup_done_ended [where lk = "l_locks s1" and st = "l_stats s1", OF s1]) simp_all
    have "wp (lookup_done E tid t0 bm) (\<lambda>r s'. r = Inr () \<longrightarrow> ended (TLookup tid keys expected) s s') s2"
      if l: "lock_hits 0 (zip keys hits) (replicate (length keys) False) s1 = (bm, s2)" for t0 hits bm s2
      using lock_hits_frame [OF l] lock_hits_length [OF l] by (auto intro: lookup_done_ended [OF s1])
    with none show ?case
      by (cases r) (auto simp: wp_bind wp_ret wp_lock_hits split: option.splits prod.splits)
  qed
qed

lemma tally_load_length:
  "wp (tally_load E i xs objs acc) (\<lambda>r s'. \<forall>acc' e. r = Inr (acc', e) \<longrightarrow> length (fst acc') = length (fst acc)) s"
proof (induction E i xs objs acc arbitrary: s rule: tally_load.induct)
  case (2 E i key ok rest objs bitmap hit_keys nbytes)
  then show ?case by (auto simp: wp_simps split: sum.splits if_splits)
qed (simp only: tally_load.simps wp_ret, simp)

lemma load_done_ended:
  assumes "ctl s1 = ctl s" and "length (fst acc) = length keys"
  shows "wp (load_done E tid t0 acc) (\<lambda>r s'. r = Inr () \<longrightarrow> ended (TLoad tid keys objs) s s') s1"
  using assms by (cases acc) (auto simp: load_done_def note_ok_def finish_def wp_simps ended_def ctl_def)

lemma execute_load_ended:
  assumes "may_run (min (length keys) (length objs)) sched"
  shows "wp (execute_load E sched keys objs tid) (\<lambda>r s'. r = Inr () \<longrightarrow> ended (TLoad tid keys objs) s s') s"
proof -
  have g: "stills (guarded E OpLoad (pool_map sched (map (load_task E) (zip keys objs))))"
    by (intro still_guarded still.keeps_pool) (use assms still_load_task in auto)
  show ?thesis
    unfolding execute_load_def Let_def wp_bind [of "read_clock _"] wp_read_clock sum.case wp_bind [of "guarded _ _ _"]
  proof (rule still_wp [OF g], goal_cases)
    case (1 r s1)
    then have s1: "ctl s1 = ctl s" by simp
    have tally: "wp (tally_load E 0 xs objs (replicate (length keys) False, [], 0)) (\<lambda>r s'. ctl s' = ctl s \<and>
        (\<forall>acc' e. r = Inr (acc', e) \<longrightarrow> length (fst acc') = length keys)) s1" for xs
      by (rule wp_use [OF tally_load_length], rule still_wp [OF still_tally_load]) (simp add: s1)
    show ?case
      by (cases r) (auto simp: wp_bind [of _ "load_done _ _ _"] wp_bind [of "tally_load _ _ _ _ _"]
          wp_bind [of "note_error _ _ _"] wp_ret wp_raise
          split: sum.splits option.splits prod.splits
          intro!: load_done_ended s1 wp_mono [OF tally] still_wp [OF still_note_error])
  qed
qed

lemma run_task_ended:
  assumes "may_run (task_width t) sched"
  shows "wp (run_task E sched t) (\<lambda>r s'. r = Inr () \<longrightarrow> ended t s s') s"
  using assms execute_store_ended execute_lookup_ended execute_load_ended by (cases t) (auto simp: run_task_def)

section \<open>The life of a task\<close>

text \<open>
  The caller's interface as a step relation. The pool picks any waiting task; the second component
  counts how often a task's result was handed to the caller.
\<close>

inductive l2_step :: "('d, 'm) l2env \<Rightarrow> ('dt \<Rightarrow> exn + int) \<Rightarrow> ('d, 'm) l2world \<times> (nat \<Rightarrow> nat) \<Rightarrow> ('d, 'm) l2world \<times> (nat \<Rightarrow> nat) \<Rightarrow> bool"
  for E elsize where
  submit_store: "submit_store_task keys objs s = (Inr tid, s') \<Longrightarrow> l2_step E elsize (s, dl) (s', dl)"
| submit_lookup: "submit_lookup_and_lock_task E elsize keys layout s = (Inr tid, s') \<Longrightarrow> l2_step E elsize (s, dl) (s', dl)"
| submit_load: "submit_load_task keys objs s = (Inr tid, s') \<Longrightarrow> l2_step E elsize (s, dl) (s', dl)"
| run: "t \<in> set (l_tasks s) \<Longrightarrow> may_run (task_width t) sched \<Longrightarrow>
    run_task E sched t (s\<lparr>l_tasks := remove1 t (l_tasks s)\<rparr>) = (Inr (), s') \<Longrightarrow> l2_step E elsize (s, dl) (s', dl)"
| pop_store: "pop_completed_store_tasks s = (Inr m, s') \<Longrightarrow>
    l2_step E elsize (s, dl) (s', \<lambda>tid. dl tid + of_bool (m tid \<noteq> None))"
| query_lookup: "query_lookup_and_lock_result tid s = (Inr r, s') \<Longrightarrow>
    l2_step E elsize (s, dl) (s', dl(tid := dl tid + of_bool (r \<noteq> None)))"
| query_load: "query_load_result tid s = (Inr r, s') \<Longrightarrow>
    l2_step E elsize (s, dl) (s', dl(tid := dl tid + of_bool (r \<noteq> None)))"
| unlock: "submit_unlock keys s = (Inr (), s') \<Longrightarrow> l2_step E elsize (s, dl) (s', dl)"
| delete: "delete E keys s = (Inr (), s') \<Longrightarrow> l2_step E elsize (s, dl) (s', dl)"

abbreviation "l2_steps E elsize \<equiv> (l2_step E elsize)\<^sup>*\<^sup>*"

text \<open>Where a task is: waiting, or finished with its result not yet collected.\<close>

definition held_at :: "('d, 'm) l2world \<Rightarrow> nat \<Rightarrow> nat" where
  "held_at s tid = of_bool (tid \<in> task_id ` set (l_tasks s)) + of_bool (l_completed_store s tid \<noteq> None) +
     of_bool (l_completed_lookup s tid \<noteq> None) + of_bool (l_completed_load s tid \<noteq> None)"

definition acct :: "('d, 'm) l2world \<times> (nat \<Rightarrow> nat) \<Rightarrow> bool" where
  "acct c \<longleftrightarrow> l_inflight (fst c) = int (length (l_tasks (fst c))) \<and> distinct (map task_id (l_tasks (fst c))) \<and>
     (\<forall>tid. held_at (fst c) tid + snd c tid = of_bool (tid < l_next_task_id (fst c)))"

lemma acct_submit:
  assumes "acct (s, dl)" and "task_id t = l_next_task_id s"
    and "s' = s\<lparr>l_next_task_id := l_next_task_id s + 1, l_inflight := l_inflight s + 1, l_tasks := l_tasks s @ [t]\<rparr>"
  shows "acct (s', dl)"
proof -
  have old: "held_at s tid + dl tid = of_bool (tid < l_next_task_id s)" for tid
    using assms(1) by (simp add: acct_def)
  have "l_next_task_id s \<notin> task_id ` set (l_tasks s)"
    using old [of "l_next_task_id s"] by (auto simp: held_at_def split: if_splits)
  then have "held_at s' tid = held_at s tid + of_bool (tid = l_next_task_id s)" for tid
    using assms(2,3) by (simp add: held_at_def)
  with old [of "l_next_task_id s"] have new: "held_at s' tid + dl tid = of_bool (tid < l_next_task_id s')" for tid
    using old [of tid] assms(3) by (auto simp: less_Suc_eq)
  have "distinct (map task_id (l_tasks s'))"
    using assms \<open>l_next_task_id s \<notin> _\<close> by (simp add: acct_def)
  with new show ?thesis using assms by (simp add: acct_def)
qed

lemma task_ids_remove1:
  assumes "distinct (map task_id ts)" and "t \<in> set ts"
  shows "distinct (map task_id (remove1 t ts))" and "task_id ` set (remove1 t ts) = task_id ` set ts - {task_id t}"
  using assms by (induction ts) auto

lemma acct_run:
  assumes acct: "acct (s, dl)" and t: "t \<in> set (l_tasks s)"
    and ended: "ended t (s\<lparr>l_tasks := remove1 t (l_tasks s)\<rparr>) s'"
  shows "acct (s', dl)"
proof -
  have d: "distinct (map task_id (l_tasks s))" and old: "held_at s tid + dl tid = of_bool (tid < l_next_task_id s)" for tid
    using acct by (simp_all add: acct_def)
  note r = task_ids_remove1 [OF d t]
  have len: "int (length (remove1 t (l_tasks s))) = int (length (l_tasks s)) - 1"
    using t by (auto simp: length_remove1 int_ops(6) Suc_le_eq)
  have here: "task_id t \<in> task_id ` set (l_tasks s)" using t by simp
  have new: "held_at s' tid = held_at s tid" for tid
    using ended r(2) here old [of tid] unfolding held_at_def ended_def
    by (cases t) (auto simp: of_bool_def split: if_splits)
  with ended r(1) acct len t old show ?thesis
    by (simp add: acct_def ended_def)
qed

lemma acct_cong:
  assumes "acct (s, dl)" and "l_tasks s' = l_tasks s" "l_next_task_id s' = l_next_task_id s" "l_inflight s' = l_inflight s"
    and "\<And>tid. held_at s' tid + dl' tid = held_at s tid + dl tid"
  shows "acct (s', dl')"
  using assms by (simp add: acct_def)

lemma still_delete_one: "stills (delete_one E key)"
  unfolding delete_one_def Let_def by (auto intro!: still_rules split: option.splits)

lemma still_delete_loop: "stills (delete_loop E keys acc)"
  by (induction keys arbitrary: acc) (auto intro!: still_rules still_delete_one)

lemma delete_frame:
  "wp (delete E keys) (\<lambda>r s'. l_tasks s' = l_tasks s \<and> l_next_task_id s' = l_next_task_id s \<and> l_inflight s' = l_inflight s \<and>
     held_at s' = held_at s \<and> l_locks s' = l_locks s) s"
  unfolding delete_def wp_bind [of "get_s _"] wp_get_s sum.case wp_bind [of "delete_loop _ _ _"]
  by (rule still_wp [OF still_delete_loop])
    (auto simp: wp_simps note_ok_def ctl_def held_at_def fun_eq_iff split: sum.splits)

text \<open>What the calls of the interface do, as equations.\<close>

definition submitted :: "l2task \<Rightarrow> ('d, 'm) l2world \<Rightarrow> ('d, 'm) l2world" where
  "submitted t s = s\<lparr>l_next_task_id := l_next_task_id s + 1, l_inflight := l_inflight s + 1, l_tasks := l_tasks s @ [t]\<rparr>"

lemma run_submit:
  "submit_store_task keys objs s = (Inr (l_next_task_id s), submitted (TStore (l_next_task_id s) keys objs) s)"
  "submit_load_task keys objs s = (Inr (l_next_task_id s), submitted (TLoad (l_next_task_id s) keys objs) s)"
  "submit_lookup_and_lock_task E elsize keys layout s = (Inr (l_next_task_id s),
     submitted (TLookup (l_next_task_id s) keys (if v_verify E then expected_bytes elsize layout else None)) s)"
  by (simp_all add: submit_store_task_def submit_load_task_def submit_lookup_and_lock_task_def new_task_id_def Let_def
      io_defs get_s_def put_s_def submitted_def)

lemma run_collect:
  "pop_completed_store_tasks s = (Inr (l_completed_store s), s\<lparr>l_completed_store := Map.empty\<rparr>)"
  "query_lookup_and_lock_result tid s = (Inr (l_completed_lookup s tid), s\<lparr>l_completed_lookup := (l_completed_lookup s)(tid := None)\<rparr>)"
  "query_load_result tid s = (Inr (l_completed_load s tid), s\<lparr>l_completed_load := (l_completed_load s)(tid := None)\<rparr>)"
  "submit_unlock keys s = (Inr (), s\<lparr>l_locks := unlock_keys keys (l_locks s)\<rparr>)"
  by (simp_all add: pop_completed_store_tasks_def query_lookup_and_lock_result_def query_load_result_def submit_unlock_def
      io_defs get_s_def put_s_def)

lemma acct_submitted: "acct (s, dl) \<Longrightarrow> task_id t = l_next_task_id s \<Longrightarrow> acct (submitted t s, dl)"
  by (erule acct_submit) (simp_all add: submitted_def)

lemma acct_step:
  assumes "l2_step E elsize c c'" and "acct c"
  shows "acct c'"
  using assms
proof cases
  case (run t s sched s' dl)
  from wpD [OF run_task_ended [OF run(4)] run(5)] have "ended t (s\<lparr>l_tasks := remove1 t (l_tasks s)\<rparr>) s'" by simp
  with run assms(2) show ?thesis by (auto intro: acct_run)
next
  case (pop_store s m s' dl)
  with assms(2) show ?thesis
    by (auto simp: run_collect held_at_def intro!: acct_cong [of s dl])
next
  case (query_lookup tid s r s' dl)
  with assms(2) show ?thesis
    by (auto simp: run_collect held_at_def intro!: acct_cong [of s dl])
next
  case (query_load tid s r s' dl)
  with assms(2) show ?thesis
    by (auto simp: run_collect held_at_def intro!: acct_cong [of s dl])
next
  case (unlock keys s s' dl)
  with assms(2) show ?thesis
    by (auto simp: run_collect held_at_def intro!: acct_cong [of s dl])
next
  case (delete keys s s' dl)
  with assms(2) wpD [OF delete_frame delete(3)] show ?thesis by (auto intro!: acct_cong [of s dl])
qed (use assms(2) in \<open>auto simp: run_submit acct_submitted\<close>)

lemma acct_steps: "l2_steps E elsize c c' \<Longrightarrow> acct c \<Longrightarrow> acct c'"
  by (induction rule: rtranclp_induct) (auto intro: acct_step)

lemma acct_init: "acct (world_init d m, \<lambda>_. 0)"
  by (simp add: acct_def held_at_def world_init_def)



section \<open>Locks and deletion\<close>

text \<open>The lock table counts; taking the last lock away removes the entry.\<close>

lemma unlock_keys_count: "lock_count (unlock_keys keys locks) k = lock_count locks k - count_list keys k"
proof (induction keys arbitrary: locks)
  case (Cons key keys)
  let ?n = "int (lock_count locks key) - 1"
  have "lock_count (if ?n \<le> 0 then locks(key := None) else locks(key \<mapsto> nat ?n)) k = lock_count locks k - of_bool (key = k)"
    by (auto simp: lock_count_def nat_diff_distrib)
  then show ?case by (simp add: Cons.IH Let_def)
qed simp

lemma hits_for_count: "hits_for k xs = count_list (map fst (filter snd xs)) k"
  by (induction xs) (auto simp: hits_for_def)

lemma unlock_keys_positive:
  assumes "\<forall>k. locks k \<noteq> Some 0"
  shows "\<forall>k. unlock_keys keys locks k \<noteq> Some 0"
  using assms by (induction keys arbitrary: locks) (auto simp: Let_def)

text \<open>
  the lock table refines a counter per key: unlocking subtracts one for each occurrence, never
  below zero, a key is in the table exactly while its count is positive (so the number of locked keys
  that the status reports is right), and unlocking the keys a lookup hit restores every count.
\<close>

theorem l2_unlock_refines:
  assumes "\<forall>k. locks k \<noteq> Some 0"
  shows "lock_count (unlock_keys keys locks) k = lock_count locks k - count_list keys k \<and>
    (unlock_keys keys locks k \<noteq> None \<longleftrightarrow> 0 < lock_count locks k - count_list keys k) \<and>
    ((\<forall>k. lock_count locks k = lock_count locks0 k + hits_for k xs) \<longrightarrow>
       lock_count (unlock_keys (map fst (filter snd xs)) locks) k = lock_count locks0 k)"
proof -
  have "unlock_keys keys locks k \<noteq> None \<longleftrightarrow> 0 < lock_count (unlock_keys keys locks) k"
    using unlock_keys_positive [OF assms, of keys] by (auto simp: lock_count_def split: option.splits intro: gr0I)
  then show ?thesis by (simp add: unlock_keys_count hits_for_count)
qed

theorem l2_unlock_refines_witness:
  "unlock_keys [ref_key] [ref_key \<mapsto> 1] ref_key = None \<and> lock_count (unlock_keys [ref_key] [ref_key \<mapsto> 2]) ref_key = 1"
  using l2_unlock_refines [of "[ref_key \<mapsto> 1]" "[ref_key]" ref_key Map.empty "[]"]
    l2_unlock_refines [of "[ref_key \<mapsto> 2]" "[ref_key]" ref_key Map.empty "[]"]
  by (auto simp: lock_count_def)

context l2_conn
begin

definition deleted_ok :: "objkey list \<Rightarrow> (objkey \<times> nat) list \<Rightarrow> ('d, 'm) l2world \<Rightarrow> ('d, 'm) l2world \<Rightarrow> bool" where
  "deleted_ok keys deleted s s' \<longleftrightarrow> l_mem s' = l_mem s \<and> l_notes s' = l_notes s \<and>
     (\<forall>p. lfiles s' p \<noteq> lfiles s p \<longrightarrow> lfiles s' p = None \<and> p \<in> lpath ` set keys) \<and>
     (\<forall>(k, n) \<in> set deleted. lfiles s' (lpath k) = None)"

lemma delete_loop_rule:
  assumes "set todo \<subseteq> set keys" and "deleted_ok keys deleted s0 s"
  shows "wp (delete_loop E todo deleted) (\<lambda>r s'. \<exists>ds. r = Inr ds \<and> deleted_ok keys ds s0 s') s"
  using assms
proof (induction todo arbitrary: deleted s)
  case Nil
  then show ?case by (simp only: delete_loop.simps wp_ret) simp
next
  case (Cons key todo)
  show ?case
    unfolding delete_loop.simps
  proof (rule wp_bindI [OF delete_one_rule], goal_cases)
    case (2 z s1)
    then have s1: "l_mem s1 = l_mem s" "ctl s1 = ctl s" "lfiles s1 = lfiles s \<or> lfiles s1 = (lfiles s)(lpath key := None)"
      and z: "\<And>n. z = Some n \<Longrightarrow> lfiles s1 (lpath key) = None" by auto
    have "deleted_ok keys deleted s0 s1"
      using Cons.prems s1 unfolding deleted_ok_def ctl_def by (auto split: if_splits)
    with z have "deleted_ok keys (case z of None \<Rightarrow> deleted | Some n \<Rightarrow> deleted @ [(key, n)]) s0 s1"
      by (auto simp: deleted_ok_def split: option.splits)
    with Cons show ?case by simp
  qed simp
qed

lemma delete_rule:
  "wp (delete E keys) (\<lambda>r s'. r = Inr () \<and>
     (\<forall>p. lfiles s' p \<noteq> lfiles s p \<longrightarrow> lfiles s' p = None \<and> (\<exists>k \<in> set keys. lock_count (l_locks s) k = 0 \<and> p = lpath k)) \<and>
     (l_notes s' = l_notes s \<or> (\<exists>ks ns. l_notes s' = l_notes s @ [KeysDeleted ks ns] \<and> (\<forall>k \<in> set ks. lfiles s' (lpath k) = None)))) s"
proof -
  let ?todo = "filter (\<lambda>k. lock_count (l_locks s) k = 0) keys"
  have loop: "wp (delete_loop E ?todo []) (\<lambda>r s'. \<exists>ds. r = Inr ds \<and> deleted_ok ?todo ds s s') s"
    by (rule delete_loop_rule) (simp_all add: deleted_ok_def)
  show ?thesis
    unfolding delete_def wp_bind [of "get_s _"] wp_get_s sum.case
  proof (rule wp_bindI [OF loop], goal_cases)
    case (2 ds s1)
  then have d: "deleted_ok (filter (\<lambda>k. lock_count (l_locks s) k = 0) keys) ds s s1" by simp
  have "l_notes s1 = l_notes s" using d by (simp add: deleted_ok_def)
  moreover have "lfiles s1 p \<noteq> lfiles s p \<Longrightarrow> lfiles s1 p = None \<and> (\<exists>k \<in> set keys. lock_count (l_locks s) k = 0 \<and> p = lpath k)" for p
    using d by (auto simp: deleted_ok_def)
  moreover have "\<forall>k \<in> set (map fst ds). lfiles s1 (lpath k) = None"
    using d by (auto simp: deleted_ok_def)
  ultimately show ?case by (auto simp: wp_simps note_ok_def)
  qed simp
qed

end

text \<open>
  C32: a deletion never raises, removes only objects of keys that were asked for and not locked when it
  began, and reports only keys whose object is gone afterwards. An object that only locked keys name
  survives.
\<close>

theorem l2_delete_spares_locked:
  assumes "dfs_lib (v_dfs E) fs hs" and "l2_bufs (v_mem E)" and "delete E keys s = (r, s')"
  shows "r = Inr () \<and>
    (\<forall>p. (\<forall>k \<in> set keys. l2_path (v_root E) k = p \<longrightarrow> 0 < lock_count (l_locks s) k) \<longrightarrow> fs (l_dfs s') p = fs (l_dfs s) p) \<and>
    (\<forall>p. fs (l_dfs s') p \<noteq> fs (l_dfs s) p \<longrightarrow> fs (l_dfs s') p = None) \<and>
    (l_notes s' = l_notes s \<or> (\<exists>ks ns. l_notes s' = l_notes s @ [KeysDeleted ks ns] \<and>
       (\<forall>k \<in> set ks. fs (l_dfs s') (l2_path (v_root E) k) = None)))"
proof -
  from wpD [OF l2_conn.delete_rule [OF l2_connI [OF assms(1,2)]] assms(3)] show ?thesis by (metis less_numeral_extra(3))
qed

text \<open>The same call with the key free and with the key locked.\<close>

theorem l2_delete_spares_locked_witness:
  "\<exists>s1 s2. delete (ref_env True) [ref_key] (ref_world True) = (Inr (), s1) \<and> mfiles (l_dfs s1) ref_path = None \<and>
     l_notes s1 = [KeysDeleted [ref_key] [2]] \<and>
     delete (ref_env True) [ref_key] ((ref_world True)\<lparr>l_locks := [ref_key \<mapsto> 1]\<rparr>) = (Inr (), s2) \<and> mfiles (l_dfs s2) ref_path = Some [5, 6]"
proof -
  have "\<exists>s1. delete (ref_env True) [ref_key] (ref_world True) = (Inr (), s1) \<and> mfiles (l_dfs s1) ref_path = None \<and>
     l_notes s1 = [KeysDeleted [ref_key] [2]]"
    by (simp add: delete_def delete_one_def dfs_remove_def ref_run lock_count_def is_OSError_def)
  moreover obtain r s2 where run: "delete (ref_env True) [ref_key] ((ref_world True)\<lparr>l_locks := [ref_key \<mapsto> 1]\<rparr>) = (r, s2)"
    by (metis surj_pair)
  moreover have "r = Inr () \<and> mfiles (l_dfs s2) ref_path = Some [5, 6]"
    using l2_delete_spares_locked [OF _ _ run, of mfiles mhandles]
    by (auto simp: memlib.dfs_lib_axioms refbufs.l2_bufs_axioms lock_count_def)
  ultimately show ?thesis by blast
qed

section \<open>Health\<close>

text \<open>
  What every call does to the record behind \<^verbatim>\<open>_healthy_locked\<close>: the clock advances, hits are only
  added, and the time of the last error is kept or read off the clock on the way.
\<close>

definition moved :: "('d, 'm) l2env \<Rightarrow> ('d, 'm) l2world \<Rightarrow> ('d, 'm) l2world \<Rightarrow> bool" where
  "moved E s s' \<longleftrightarrow> l_tick s \<le> l_tick s' \<and> n_lookup_hits (l_stats s) \<le> n_lookup_hits (l_stats s') \<and>
     (last_error_at (l_stats s') = last_error_at (l_stats s) \<or>
      (\<exists>t. l_tick s \<le> t \<and> t < l_tick s' \<and> last_error_at (l_stats s') = v_time E t))"

lemma moved_trans:
  assumes "moved E s t" and "moved E t u"
  shows "moved E s u"
proof -
  have le: "l_tick s \<le> l_tick t" "l_tick t \<le> l_tick u" using assms by (simp_all add: moved_def)
  have "last_error_at (l_stats u) = last_error_at (l_stats s) \<or>
      (\<exists>i. l_tick s \<le> i \<and> i < l_tick u \<and> last_error_at (l_stats u) = v_time E i)"
  proof (cases "last_error_at (l_stats u) = last_error_at (l_stats t)")
    case True
    with assms(1) le show ?thesis unfolding moved_def by (metis order.strict_trans2)
  next
    case False
    with assms(2) le show ?thesis unfolding moved_def by (metis order.trans)
  qed
  with assms show ?thesis by (auto simp: moved_def)
qed

interpretation mov: step_order "moved E" for E
  by unfold_locales (simp add: moved_def, erule (1) moved_trans)

text \<open>The time of the last error has been read off the clock.\<close>

definition stamped :: "('d, 'm) l2env \<Rightarrow> ('d, 'm) l2world \<Rightarrow> bool" where
  "stamped E s \<longleftrightarrow> last_error_at (l_stats s) = 0 \<or> (\<exists>t < l_tick s. last_error_at (l_stats s) = v_time E t)"

lemma moved_stamped: "moved E s s' \<Longrightarrow> stamped E s \<Longrightarrow> stamped E s'"
  by (auto simp: moved_def stamped_def intro: order.strict_trans2)

lemma mov_prims: "keeps (moved E) (on_ldfs m)" "keeps (moved E) (read_clock c)" "keeps (moved E) (cbuf E ob)"
  by (auto simp: keeps_def moved_def on_ldfs_def read_clock_def cbuf_def split: prod.splits)

lemma mov_note_error: "keeps (moved E) (note_error E op e)"
  by (auto simp: keeps_def moved_def note_error_def io_defs read_clock_def upd_stats_def put_s_def)

lemma mov_lookup_one: "keeps (moved E) (lookup_one E x)"
  unfolding lookup_one_def by (cases x) (auto intro!: mov.keeps_rules mov_prims mov_note_error)

lemma mov_guarded: "keeps (moved E) m \<Longrightarrow> keeps (moved E) (guarded E op m)"
  unfolding guarded_def by (auto intro!: mov.keeps_rules mov_note_error)

lemma mov_lock_hits: "lock_hits i xs bm s = (bm', s') \<Longrightarrow> moved E s s'"
proof (induction i xs bm s arbitrary: bm' s' rule: lock_hits.induct)
  case (2 i key hit rest bitmap s)
  have "moved E (s\<lparr>l_locks := lk, l_stats := (l_stats s)\<lparr>n_lookup_hits := n_lookup_hits (l_stats s) + 1\<rparr>\<rparr>) s' \<Longrightarrow> moved E s s'" for lk
    by (auto simp: moved_def)
  moreover have "moved E (s\<lparr>l_stats := (l_stats s)\<lparr>n_lookup_misses := n_lookup_misses (l_stats s) + 1\<rparr>\<rparr>) s' \<Longrightarrow> moved E s s'"
    by (auto simp: moved_def)
  ultimately show ?case using 2 by (auto split: if_splits)
qed (simp add: mov.R_refl)

lemma lookup_done_healthy:
  assumes "\<And>t t'. t < t' \<Longrightarrow> v_time E t < v_time E t'" and "\<And>t. 0 < v_time E t"
    and "stamped E s" and "0 < n_lookup_hits (l_stats s)"
  shows "wp (lookup_done E tid t0 bm) (\<lambda>r s'. healthy (l_stats s') = Some True) s"
proof -
  have "last_error_at (l_stats s) < v_time E (Suc (l_tick s))"
    using assms(3) assms(1) [of _ "Suc (l_tick s)"] assms(2) by (auto simp: stamped_def)
  with assms(2) [of "Suc (l_tick s)"] assms(4) show ?thesis
    by (auto simp: lookup_done_def note_ok_def finish_def wp_simps healthy_def)
qed

lemma execute_lookup_moves:
  assumes "may_run (length keys) sched"
    and "\<And>t0 bm s1. moved E s s1 \<Longrightarrow> wp (lookup_done E tid t0 bm) Q s1"
    and "\<And>e s1. Q (Inl e) s1"
  shows "wp (execute_lookup E sched keys expected tid) Q s"
proof -
  let ?pool = "guarded E OpLookup (pool_map sched (map (\<lambda>k. lookup_one E (k, expected)) keys))"
  have p: "keeps (moved E) ?pool"
    by (intro mov_guarded mov.keeps_pool) (use assms(1) mov_lookup_one in auto)
  have t: "moved E s (s\<lparr>l_tick := l_tick s + 1\<rparr>)" by (simp add: moved_def)
  have "wp ?pool (\<lambda>r s'. moved E s s') (s\<lparr>l_tick := l_tick s + 1\<rparr>)"
    using mov.R_trans [OF t keepsD [OF p]] by (auto intro: wpI)
  then show ?thesis
    unfolding execute_lookup_def Let_def wp_bind [of "read_clock _"] wp_read_clock sum.case wp_bind [of ?pool]
    by (elim wp_mono) (auto simp: wp_bind [of _ "lookup_done _ _ _"] wp_ret wp_lock_hits split: sum.splits option.splits prod.splits
        intro!: assms(2,3) intro: mov.R_trans mov_lock_hits)
qed

text \<open>
  C35: once any lookup has hit, every later lookup task reports the backend as healthy, whatever the
  library answered: the success stamp is guarded by the running total of hits and not by the hits of
  the task, so an outage in which every presence check fails is not seen.
\<close>

theorem l2_outage_reads_healthy:
  assumes "\<And>t t'. t < t' \<Longrightarrow> v_time E t < v_time E t'" and "\<And>t. 0 < v_time E t"
    and "stamped E s" and "0 < n_lookup_hits (l_stats s)" and "may_run (length keys) sched"
    and "execute_lookup E sched keys expected tid s = (Inr (), s')"
  shows "healthy (l_stats s') = Some True"
proof -
  have "wp (execute_lookup E sched keys expected tid) (\<lambda>r s'. r = Inr () \<longrightarrow> healthy (l_stats s') = Some True) s"
  proof (rule execute_lookup_moves [OF assms(5)])
    fix t0 bm s1
    assume m: "moved E s s1"
    have "0 < n_lookup_hits (l_stats s1)" using m assms(4) by (simp add: moved_def)
    from wp_mono [OF lookup_done_healthy [OF assms(1,2) moved_stamped [OF m assms(3)] this]]
    show "wp (lookup_done E tid t0 bm) (\<lambda>r s'. r = Inr () \<longrightarrow> healthy (l_stats s') = Some True) s1" by simp
  qed simp
  from wpD [OF this assms(6)] show ?thesis by simp
qed

text \<open>A library whose \<open>stat\<close> always fails: the lookup misses with one error on record.\<close>

definition dead_env :: "(memfs, nat \<Rightarrow> bytes) l2env" where
  "dead_env = (ref_env True)\<lparr>v_dfs := mem_dfs\<lparr>c_dfs_sys_stat := (\<lambda>_ d. ((EBADF, 0), d))\<rparr>, v_time := (\<lambda>t. real t + 1)\<rparr>"

theorem l2_outage_reads_healthy_witness:
  "\<exists>s'. execute_lookup dead_env [0] [ref_key] (Some 2) 0 ((ref_world True)\<lparr>l_stats := stats_init\<lparr>n_lookup_hits := 1\<rparr>\<rparr>) = (Inr (), s') \<and>
     l_completed_lookup s' 0 = Some [False] \<and> n_errors (l_stats s') = 1 \<and> healthy (l_stats s') = Some True"
proof -
  let ?s = "(ref_world True)\<lparr>l_stats := stats_init\<lparr>n_lookup_hits := 1\<rparr>\<rparr>"
  obtain s' where run: "execute_lookup dead_env [0] [ref_key] (Some 2) 0 ?s = (Inr (), s')"
      and e: "l_completed_lookup s' 0 = Some [False]" "n_errors (l_stats s') = 1"
    by (simp add: execute_lookup_def lookup_one_def lookup_done_def note_error_def dead_env_def ref_env_def is_OSError_def
        is_Exception_def ref_run)
  have "healthy (l_stats s') = Some True"
    by (rule l2_outage_reads_healthy [OF _ _ _ _ _ run])
      (simp_all add: dead_env_def stamped_def stats_init_def may_run_def lessThan_Suc)
  with run e show ?thesis by blast
qed

section \<open>The status log\<close>

text \<open>The loop of \<^verbatim>\<open>_status_loop\<close> on the statuses it reads, one per interval: what each turn logs.\<close>

fun status_loop :: "l2status list \<Rightarrow> status_vars \<Rightarrow> l2log list list" where
  "status_loop [] v = []"
| "status_loop (st # sts) v = (case status_turn st v of (out, v') \<Rightarrow> out # status_loop sts v')"

definition status_start :: status_vars where
  "status_start = \<lparr>sv_last = None, sv_was_healthy = None\<rparr>"

definition health_before :: "bool option \<Rightarrow> l2status list \<Rightarrow> nat \<Rightarrow> bool option" where
  "health_before h sts i = (if i = 0 then h else rs_healthy (sts ! (i - 1)))"

lemma status_turn_health [simp]: "sv_was_healthy (snd (status_turn st v)) = rs_healthy st"
  by (simp add: status_turn_def Let_def)

lemma status_turn_logs:
  "LogStatusUnhealthy \<in> set (fst (status_turn st v)) \<longleftrightarrow> rs_healthy st = Some False"
  "LogUnhealthy \<in> set (fst (status_turn st v)) \<longleftrightarrow> rs_healthy st = Some False \<and> sv_was_healthy v \<noteq> Some False"
  "LogRecovered \<in> set (fst (status_turn st v)) \<longleftrightarrow> rs_healthy st = Some True \<and> sv_was_healthy v = Some False"
  by (auto simp: status_turn_def Let_def)

lemma status_loop_nth:
  "i < length sts \<Longrightarrow> \<exists>v'. status_loop sts v ! i = fst (status_turn (sts ! i) v') \<and> sv_was_healthy v' = health_before (sv_was_healthy v) sts i"
proof (induction sts arbitrary: v i)
  case (Cons st sts)
  obtain out v1 where t: "status_turn st v = (out, v1)" by (metis surj_pair)
  have h: "sv_was_healthy v1 = rs_healthy st" using status_turn_health [of st v] t by simp
  show ?case
  proof (cases i)
    case 0
    with t show ?thesis by (auto simp: health_before_def intro: exI [of _ v])
  next
    case (Suc j)
    with Cons.IH [of j v1] Cons.prems t h show ?thesis by (auto simp: health_before_def split: if_splits)
  qed
qed simp

text \<open>
  an unhealthy backend is logged on every tick, and each change is called out once: the warning
  on the tick where the verdict turns false, the recovery on the tick where it turns from false to
  true.
\<close>

theorem l2_status_log:
  assumes "i < length sts"
  shows "(LogStatusUnhealthy \<in> set (status_loop sts status_start ! i) \<longleftrightarrow> rs_healthy (sts ! i) = Some False) \<and>
    (LogUnhealthy \<in> set (status_loop sts status_start ! i) \<longleftrightarrow>
       rs_healthy (sts ! i) = Some False \<and> (i = 0 \<or> rs_healthy (sts ! (i - 1)) \<noteq> Some False)) \<and>
    (LogRecovered \<in> set (status_loop sts status_start ! i) \<longleftrightarrow>
       rs_healthy (sts ! i) = Some True \<and> 0 < i \<and> rs_healthy (sts ! (i - 1)) = Some False)"
  using status_loop_nth [OF assms, of status_start]
  by (auto simp: status_turn_logs health_before_def status_start_def split: if_splits)

theorem l2_status_log_witness:
  "LogRecovered \<in> set (status_loop
     [\<lparr>rs_stats = stats_init, rs_inflight = 0, rs_locked = 0, rs_healthy = Some False, rs_since_ok = None\<rparr>,
      \<lparr>rs_stats = stats_init, rs_inflight = 0, rs_locked = 0, rs_healthy = Some True, rs_since_ok = None\<rparr>] status_start ! 1)"
  by (subst l2_status_log [THEN conjunct2, THEN conjunct2]) simp_all

section \<open>An object that is too large\<close>

lemma overlay_shorter: "x \<noteq> [] \<Longrightarrow> overlay b 0 x = x @ drop (length x) b"
  by (simp add: overlay_def)

context l2_live
begin

lemma lookup_size_miss:
  assumes "up (l_dfs s)" and "lfiles s (lpath key) = Some b" and "int (length b) \<noteq> x"
  shows "wp (lookup_one E (key, Some x)) (\<lambda>r s'. r = Inr False) s"
  unfolding lookup_one_def prod.case wp_bind [of "catch_io _ _ _"] wp_catch wp_bind [of "on_ldfs _"] wp_on_ldfs
  by (rule wp_stat_up) (use assms in \<open>auto simp: wp_simps\<close>)

lemma larger_sticks:
  assumes up: "up (l_dfs s)" and view: "l_view (v_mem E) (l_mem s) ob = Inr c" and c: "c \<noteq> []"
    and fil: "lfiles s (lpath key) = Some b" and len: "length c < length b"
  shows "\<exists>s1 s2. store_one E (key, ob) s = (Inr (int (length c)), s1) \<and>
    lfiles s1 (lpath key) = Some (c @ drop (length c) b) \<and> lookup_one E (key, Some (int (length c))) s1 = (Inr False, s2)"
proof -
  obtain r1 s1 where run1: "store_one E (key, ob) s = (r1, s1)" by (metis surj_pair)
  from wpD [OF store_over_up [OF up view] run1] fil len c have r1: "r1 = Inr (int (length c))" and s1: "up (l_dfs s1)"
    "lfiles s1 (lpath key) = Some (c @ drop (length c) b)" by (auto simp: overlay_shorter)
  obtain r2 s2 where run2: "lookup_one E (key, Some (int (length c))) s1 = (r2, s2)" by (metis surj_pair)
  have "r2 = Inr False" using wpD [OF lookup_size_miss [OF s1(1,2)] run2] len by simp
  with run1 run2 r1 s1 show ?thesis by blast
qed

end

text \<open>
  C36: a store over an object that is larger than the new content reports success and leaves the old
  tail behind, because nothing truncates the object; a lookup that checks the size then misses.
\<close>

theorem l2_larger_object_sticks:
  assumes "dfs_live (v_dfs E) fs hs up" and "l2_bufs (v_mem E)" and "up (l_dfs s)"
    and "l_view (v_mem E) (l_mem s) ob = Inr c" and "c \<noteq> []"
    and "fs (l_dfs s) (l2_path (v_root E) key) = Some b" and "length c < length b"
  shows "\<exists>s1 s2. store_one E (key, ob) s = (Inr (int (length c)), s1) \<and>
    fs (l_dfs s1) (l2_path (v_root E) key) = Some (c @ drop (length c) b) \<and>
    lookup_one E (key, Some (int (length c))) s1 = (Inr False, s2)"
  by (rule l2_live.larger_sticks [OF l2_live.intro [OF assms(1,2)] assms(3-7)])

lemma l_view_ref: "l_view ref_bufs m ob = Inr (m ob)"
  by (simp add: ref_bufs_def)

theorem l2_larger_object_sticks_witness:
  "\<exists>s1 s2. store_one (ref_env True) (ref_key, 0) ((ref_world True)\<lparr>l_mem := (\<lambda>_. [7])\<rparr>) = (Inr 1, s1) \<and>
    mfiles (l_dfs s1) ref_path = Some [7, 6] \<and> lookup_one (ref_env True) (ref_key, Some 1) s1 = (Inr False, s2)"
  using l2_larger_object_sticks [of "ref_env True" mfiles mhandles mem_up "(ref_world True)\<lparr>l_mem := (\<lambda>_. [7])\<rparr>" 0 "[7]" ref_key "[5, 6]"]
  by (simp add: memlive.dfs_live_axioms refbufs.l2_bufs_axioms l_view_ref)

end
