(* ===== verification/Mp_Stream.thy ===== *)
theory Mp_Stream
  imports L2_Tasks "HOL-Library.Multiset"
begin

text \<open>
  \<^verbatim>\<open>lmcache_daos/mp/streaming_patch.py\<close>: the proxy that splits a load task into sub-batches and publishes
  each as it lands, the finish that skips keys published before, the early prefetch status, and the
  transfer to the device by sub-batches. The classes of LMCache that are patched are parameters; a
  call of the first-level manager's original \<^verbatim>\<open>finish_write_and_reserve_read\<close> is recorded in \<open>px_published\<close>.
\<close>

section \<open>The proxy\<close>

text \<open>The adapter behind the proxy: two of its operations.\<close>

record ('k, 'o, 's) inner =
  in_submit :: "'k list \<Rightarrow> 'o list \<Rightarrow> ('s, nat) io"
  in_query :: "nat \<Rightarrow> ('s, bool list option) io"

record 'k sub =
  sb_tid :: nat
  sb_keys :: "'k list"
  sb_bm :: "bool list option"

record ('k, 's) proxy =
  px_inner :: 's
  px_sub :: nat
  px_next :: nat
  px_outer :: "nat \<Rightarrow> ('k sub list \<times> nat) option"
  px_l1 :: bool
  px_early :: "'k set"
  px_ready :: "'k set"
  px_published :: "'k list"

definition proxy_init :: "'s \<Rightarrow> int \<Rightarrow> bool \<Rightarrow> ('k, 's) proxy" where
  "proxy_init s sub l1 = \<lparr>px_inner = s, px_sub = nat (max 1 sub), px_next = 2 ^ 40, px_outer = Map.empty, px_l1 = l1,
     px_early = {}, px_ready = {}, px_published = []\<rparr>"

definition on_inner :: "('s, 'a) io \<Rightarrow> (('k, 's) proxy, 'a) io" where
  "on_inner m = (\<lambda>s. case m (px_inner s) of (r, t) \<Rightarrow> (r, s\<lparr>px_inner := t\<rparr>))"

lemma wp_on_inner: "wp (on_inner m) Q s = wp m (\<lambda>r t. Q r (s\<lparr>px_inner := t\<rparr>)) (px_inner s)"
  by (auto simp: wp_def on_inner_def split: prod.splits)

text \<open>The slices \<^verbatim>\<open>keys[i:i + sub]\<close> for \<open>i\<close> in \<^verbatim>\<open>range(0, len(keys), sub)\<close>.\<close>

function slices :: "nat \<Rightarrow> 'a list \<Rightarrow> 'b list \<Rightarrow> ('a list \<times> 'b list) list" where
  "slices sub keys objs =
     (if keys = [] \<or> sub = 0 then [] else (take sub keys, take sub objs) # slices sub (drop sub keys) (drop sub objs))"
  by pat_completeness auto
termination
  by (relation "measure (\<lambda>(sub, keys, objs). length keys)") auto

declare slices.simps [simp del]

fun submit_subs :: "('k, 'o, 's) inner \<Rightarrow> ('k list \<times> 'o list) list \<Rightarrow> (('k, 's) proxy, 'k sub list) io" where
  "submit_subs I [] = ret []"
| "submit_subs I ((ks, os) # rest) =
     bind_io (on_inner (in_submit I ks os)) (\<lambda>tid.
     bind_io (submit_subs I rest) (\<lambda>subs. ret (\<lparr>sb_tid = tid, sb_keys = ks, sb_bm = None\<rparr> # subs)))"

definition proxy_submit :: "('k, 'o, 's) inner \<Rightarrow> 'k list \<Rightarrow> 'o list \<Rightarrow> (('k, 's) proxy, nat) io" where
  "proxy_submit I keys objs =
     bind_io (get_s px_sub) (\<lambda>sub.
     bind_io (submit_subs I (slices sub keys objs)) (\<lambda>subs.
     bind_io (get_s px_next) (\<lambda>outer.
     bind_io (put_s (\<lambda>s. s\<lparr>px_next := outer + 1, px_outer := (px_outer s)(outer \<mapsto> (subs, length keys))\<rparr>)) (\<lambda>_.
     ret outer))))"

text \<open>The keys of a sub-batch that landed, and their early transition to the readable state.\<close>

definition landed :: "'k list \<Rightarrow> bool list \<Rightarrow> 'k list" where
  "landed ks bm = map fst (filter snd (zip ks bm))"

definition publish :: "'k list \<Rightarrow> (('k, 's) proxy, unit) io" where
  "publish ok = put_s (\<lambda>s. if ok \<noteq> [] \<and> px_l1 s
     then s\<lparr>px_early := px_early s \<union> set ok, px_published := px_published s @ ok, px_ready := px_ready s \<union> set ok\<rparr> else s)"

definition set_bm :: "nat \<Rightarrow> nat \<Rightarrow> bool list \<Rightarrow> (('k, 's) proxy, unit) io" where
  "set_bm task j bm = put_s (\<lambda>s. s\<lparr>px_outer := (px_outer s)(task := map_option
     (\<lambda>(subs, n). (subs[j := (subs ! j)\<lparr>sb_bm := Some bm\<rparr>], n)) (px_outer s task))\<rparr>)"

fun poll_subs :: "('k, 'o, 's) inner \<Rightarrow> nat \<Rightarrow> nat list \<Rightarrow> (('k, 's) proxy, unit) io" where
  "poll_subs I task [] = ret ()"
| "poll_subs I task (j # js) =
     bind_io (get_s (\<lambda>s. fst (the (px_outer s task)) ! j)) (\<lambda>sb.
     if sb_bm sb \<noteq> None then poll_subs I task js
     else bind_io (on_inner (in_query I (sb_tid sb))) (\<lambda>r. case r of
       None \<Rightarrow> poll_subs I task js
     | Some bm \<Rightarrow>
         bind_io (set_bm task j bm) (\<lambda>_.
         bind_io (publish (landed (sb_keys sb) bm)) (\<lambda>_. poll_subs I task js))))"

text \<open>The bitmap of the whole task: bit \<open>pos + i\<close> is bit \<open>i\<close> of the sub-batch that starts at \<open>pos\<close>.\<close>

fun set_bits :: "nat \<Rightarrow> bool list \<Rightarrow> nat list \<Rightarrow> bool list \<Rightarrow> bool list" where
  "set_bits pos bm [] out = out"
| "set_bits pos bm (i # is) out = set_bits pos bm is (if i < length bm \<and> bm ! i then out[pos + i := True] else out)"

fun merge_bits :: "nat \<Rightarrow> 'k sub list \<Rightarrow> bool list \<Rightarrow> bool list" where
  "merge_bits pos [] out = out"
| "merge_bits pos (sb # subs) out =
     merge_bits (pos + length (sb_keys sb)) subs (set_bits pos (the (sb_bm sb)) [0..<length (sb_keys sb)] out)"

definition proxy_query :: "('k, 'o, 's) inner \<Rightarrow> nat \<Rightarrow> (('k, 's) proxy, bool list option) io" where
  "proxy_query I task =
     bind_io (get_s (\<lambda>s. px_outer s task)) (\<lambda>st. case st of
       None \<Rightarrow> on_inner (in_query I task)
     | Some (subs0, n) \<Rightarrow>
         bind_io (poll_subs I task [0..<length subs0]) (\<lambda>_.
         bind_io (get_s (\<lambda>s. fst (the (px_outer s task)))) (\<lambda>subs.
         if \<exists>sb \<in> set subs. sb_bm sb = None then ret None
         else
         bind_io (put_s (\<lambda>s. s\<lparr>px_outer := (px_outer s)(task := None)\<rparr>)) (\<lambda>_.
         ret (Some (merge_bits 0 subs (replicate n False)))))))"

section \<open>The finish that skips published keys\<close>

definition patched_fwrr :: "'k list \<Rightarrow> (('k, 's) proxy, unit) io" where
  "patched_fwrr keys =
     bind_io (get_s (\<lambda>s. filter (\<lambda>k. k \<in> px_early s) keys)) (\<lambda>skip.
     bind_io (put_s (\<lambda>s. s\<lparr>px_early := px_early s - set skip\<rparr>)) (\<lambda>_.
     let rest = filter (\<lambda>k. k \<notin> set skip) keys in
     put_s (\<lambda>s. if rest \<noteq> [] then s\<lparr>px_published := px_published s @ rest\<rparr> else s)))"

section \<open>Prefetch status\<close>

text \<open>The status once the lookup has decided the number of hits: the first \<open>min hits n\<close> bits.\<close>

definition status_bits :: "int \<Rightarrow> nat \<Rightarrow> bool list" where
  "status_bits hits n = fold (\<lambda>i bm. bm[i := True]) [0..<nat (min hits (int n))] (replicate n False)"

text \<open>
  \<^verbatim>\<open>_query\<close>: \<open>orig\<close> is what the original query answers and \<open>combine\<close> is \<^verbatim>\<open>_combine_found\<close> of the handle. The
  result has the answer and the set of requests whose real result is still to be taken.
\<close>

definition query_status :: "(int \<Rightarrow> int option) \<Rightarrow> 'r \<Rightarrow> (bool list \<Rightarrow> 'r) \<Rightarrow> int \<Rightarrow> nat \<Rightarrow> int set \<Rightarrow> 'r \<times> int set" where
  "query_status decided orig combine rid n_l2 drain =
     (if rid = - 1 then (orig, drain)
      else case decided rid of
        None \<Rightarrow> (orig, drain)
      | Some hits \<Rightarrow> (combine (status_bits hits n_l2), insert rid drain))"

text \<open>
  The loop of \<^verbatim>\<open>_wait\<close> on a sequence of observations: what the two controller queries answer and the time
  after them. \<open>None\<close>: the observations end while it still waits. A handle without a request goes to the
  original.
\<close>

fun wait_loop :: "real \<Rightarrow> (bool \<times> bool \<times> real) list \<Rightarrow> bool option" where
  "wait_loop deadline [] = None"
| "wait_loop deadline ((decided, finished, now) # obs) =
     (if decided then Some True else if finished then Some True
      else if deadline \<le> now then Some False else wait_loop deadline obs)"

definition wait_status :: "bool \<Rightarrow> int \<Rightarrow> real \<Rightarrow> real \<Rightarrow> (bool \<times> bool \<times> real) list \<Rightarrow> bool option" where
  "wait_status orig rid start timeout obs = (if rid = - 1 then Some orig else wait_loop (start + timeout) obs)"

text \<open>
  One round of the janitor: requests whose real result was taken leave the set; a query that raises
  leaves its request in the set, and before the controller is known nothing happens.
\<close>

definition janitor_round :: "(int \<Rightarrow> exn + 'r option) option \<Rightarrow> int set \<Rightarrow> int set" where
  "janitor_round pc drain = (case pc of
     None \<Rightarrow> drain
   | Some answer \<Rightarrow> {rid \<in> drain. case answer rid of Inl e \<Rightarrow> True | Inr res \<Rightarrow> res = None})"

section \<open>Placeholders and the transfer\<close>

datatype ('k, 'o) slot = Here 'o | Pending 'k

definition read_prefetched :: "('k \<Rightarrow> 'o option) \<Rightarrow> 'k list \<Rightarrow> ('k, 'o) slot list" where
  "read_prefetched l1 keys = map (\<lambda>k. case l1 k of Some ob \<Rightarrow> Here ob | None \<Rightarrow> Pending k) keys"

fun pending_keys :: "('k, 'o) slot list \<Rightarrow> 'k list" where
  "pending_keys [] = []"
| "pending_keys (Here _ # xs) = pending_keys xs"
| "pending_keys (Pending k # xs) = k # pending_keys xs"

text \<open>
  \<^verbatim>\<open>_resolve\<close> on a sequence of observations: the contents of the first level and the time of the check
  after it.
\<close>

fun resolve :: "real \<Rightarrow> 'k list \<Rightarrow> (('k \<Rightarrow> 'o option) \<times> real) list \<Rightarrow> (exn + ('k \<Rightarrow> 'o option)) option" where
  "resolve deadline keys [] = None"
| "resolve deadline keys ((l1, now) # obs) =
     (if \<forall>k \<in> set keys. l1 k \<noteq> None then Some (Inr (l1 |` set keys))
      else if deadline - now \<le> 0 then Some (Inl RuntimeError)
      else resolve deadline keys obs)"

text \<open>A call of the original transfer: block ids per group, objects, tokens to skip.\<close>

record ('b, 'o) transfer_call =
  tc_blocks :: "'b list list"
  tc_objs :: "'o list"
  tc_skip :: nat

definition fill_slot :: "('k \<Rightarrow> 'o option) \<Rightarrow> ('k, 'o) slot \<Rightarrow> 'o" where
  "fill_slot got m = (case m of Here ob \<Rightarrow> ob | Pending k \<Rightarrow> the (got k))"

text \<open>
  The loop of \<^verbatim>\<open>_transfer\<close> over \<^verbatim>\<open>range(0, n, sub)\<close>: \<open>await\<close> is \<^verbatim>\<open>_resolve\<close> and \<open>orig\<close> the outcome of the original
  transfer. The result has the calls made, also when one of them raises.
\<close>

function transfer_loop :: "('k list \<Rightarrow> exn + ('k \<Rightarrow> 'o option)) \<Rightarrow> (('b, 'o) transfer_call \<Rightarrow> exn + unit) \<Rightarrow> nat \<Rightarrow> nat list \<Rightarrow>
    'b list list \<Rightarrow> nat \<Rightarrow> ('k, 'o) slot list \<Rightarrow> nat \<Rightarrow> (exn + unit) \<times> ('b, 'o) transfer_call list" where
  "transfer_loop await orig sub bpc blocks skip objs i =
     (if length objs \<le> i \<or> sub = 0 then (Inr (), [])
      else
        let part = take sub (drop i objs); pend = pending_keys part in
        case (if pend \<noteq> [] then await pend else Inr Map.empty) of
          Inl e \<Rightarrow> (Inl e, [])
        | Inr got \<Rightarrow>
            let call = \<lparr>tc_blocks = map (\<lambda>(b, c). take (length part * c) (drop (i * c) b)) (zip blocks bpc),
                  tc_objs = map (fill_slot got) part, tc_skip = (if i = 0 then skip else 0)\<rparr> in
            case orig call of
              Inl e \<Rightarrow> (Inl e, [call])
            | Inr _ \<Rightarrow> (case transfer_loop await orig sub bpc blocks skip objs (i + sub) of (r, calls) \<Rightarrow> (r, call # calls)))"
  by pat_completeness auto
termination
  by (relation "measure (\<lambda>(await, orig, sub, bpc, blocks, skip, objs, i). length objs - i)") auto

declare transfer_loop.simps [simp del]

text \<open>\<^verbatim>\<open>_transfer\<close>; \<open>h2d\<close> says that the direction is host to device.\<close>

definition transfer :: "('k list \<Rightarrow> exn + ('k \<Rightarrow> 'o option)) \<Rightarrow> (('b, 'o) transfer_call \<Rightarrow> exn + unit) \<Rightarrow>
    (('k, 'o) slot list \<Rightarrow> exn + unit) \<Rightarrow> nat \<Rightarrow> bool \<Rightarrow> 'b list list \<Rightarrow> nat \<Rightarrow> ('k, 'o) slot list \<Rightarrow>
    (exn + unit) \<times> ('b, 'o) transfer_call list" where
  "transfer await orig whole sub h2d blocks skip objs =
     (let n = length objs in
      if n = 0 \<or> pending_keys objs = [] \<or> \<not> h2d then (whole objs, [])
      else transfer_loop await orig sub (map (\<lambda>b. length b div n) blocks) blocks skip objs 0)"

section \<open>The contract of the adapter behind the proxy\<close>

text \<open>
  A result waits under its task id until it is queried, and is handed out once; ids are not reused.
\<close>

locale load_service =
  fixes I :: "('k, 'o, 's) inner" and res :: "'s \<Rightarrow> nat \<Rightarrow> bool list option" and ids :: "'s \<Rightarrow> nat set"
  assumes query_law: "\<exists>t. in_query I tid s = (Inr (res s tid), t) \<and> res t = (res s)(tid := None) \<and> ids t = ids s"
    and submit_law: "\<exists>tid t. in_submit I ks os s = (Inr tid, t) \<and> tid \<notin> ids s \<and> ids t = insert tid (ids s) \<and> res t = res s"

text \<open>The L2 adapter is such a service.\<close>

definition l2_inner :: "(objkey, nat, ('d, 'm) l2world) inner" where
  "l2_inner = \<lparr>in_submit = submit_load_task, in_query = query_load_result\<rparr>"

interpretation l2_service: load_service l2_inner l_completed_load "\<lambda>s. {..<l_next_task_id s}"
  by unfold_locales (auto simp: l2_inner_def run_submit run_collect submitted_def)

subsection \<open>What the proxy keeps\<close>

text \<open>
  \<open>ok k\<close> says whether the load of key \<open>k\<close> succeeds. The sub-batches of a task cover its keys in order, and a
  result that has come in, or is waiting, is the one \<open>ok\<close> says.
\<close>

definition subs_ok :: "('k \<Rightarrow> bool) \<Rightarrow> 'k list \<Rightarrow> 'k sub list \<Rightarrow> bool" where
  "subs_ok ok keys subs \<longleftrightarrow> concat (map sb_keys subs) = keys \<and> distinct (map sb_tid subs) \<and>
     (\<forall>sb \<in> set subs. \<forall>b. sb_bm sb = Some b \<longrightarrow> b = map ok (sb_keys sb))"

definition honest :: "('k \<Rightarrow> bool) \<Rightarrow> (nat \<Rightarrow> bool list option) \<Rightarrow> 'k sub list \<Rightarrow> bool" where
  "honest ok r subs \<longleftrightarrow> (\<forall>sb \<in> set subs. \<forall>b. r (sb_tid sb) = Some b \<longrightarrow> b = map ok (sb_keys sb))"

definition out_keys :: "('k \<Rightarrow> bool) \<Rightarrow> 'k sub list \<Rightarrow> 'k multiset" where
  "out_keys ok subs = (\<Sum>sb\<leftarrow>subs. if sb_bm sb = None then {#} else mset (filter ok (sb_keys sb)))"

definition tracked :: "('s \<Rightarrow> nat \<Rightarrow> bool list option) \<Rightarrow> ('k \<Rightarrow> bool) \<Rightarrow> 'k list \<Rightarrow> 'k multiset \<Rightarrow> 'k set \<Rightarrow> nat \<Rightarrow>
    'k sub list \<Rightarrow> ('k, 's) proxy \<Rightarrow> bool" where
  "tracked r ok keys P A task subs s \<longleftrightarrow> px_l1 s \<and> px_outer s task = Some (subs, length keys) \<and> subs_ok ok keys subs \<and>
     honest ok (r (px_inner s)) subs \<and> mset (px_published s) = P + out_keys ok subs \<and> px_early s = A \<union> set_mset (out_keys ok subs)"

lemma landed_map: "landed ks (map ok ks) = filter ok ks"
  by (induction ks) (auto simp: landed_def)

lemma out_keys_update:
  assumes "j < length subs" and "sb_bm (subs ! j) = None"
  shows "out_keys ok (subs[j := (subs ! j)\<lparr>sb_bm := Some b\<rparr>]) = out_keys ok subs + mset (filter ok (sb_keys (subs ! j)))"
proof -
  obtain xs sb ys where "subs = xs @ sb # ys" "length xs = j" using id_take_nth_drop [OF assms(1)] assms(1)
    by (metis length_take min.absorb4)
  with assms(2) show ?thesis by (auto simp: out_keys_def)
qed

lemma subs_ok_update:
  assumes "subs_ok ok keys subs" and "j < length subs" and "b = map ok (sb_keys (subs ! j))"
  shows "subs_ok ok keys (subs[j := (subs ! j)\<lparr>sb_bm := Some b\<rparr>])"
proof -
  let ?x = "(subs ! j)\<lparr>sb_bm := Some b\<rparr>"
  have "map sb_keys (subs[j := ?x]) = map sb_keys subs" "map sb_tid (subs[j := ?x]) = map sb_tid subs"
    using assms(2) by (simp_all add: map_update list_update_same_conv)
  with assms set_update_subset_insert [of subs j ?x] show ?thesis by (auto simp: subs_ok_def)
qed

lemma honest_update:
  assumes "honest ok r subs" and "j < length subs" and "r' = r(sb_tid (subs ! j) := None)"
  shows "honest ok r' (subs[j := (subs ! j)\<lparr>sb_bm := Some b\<rparr>])"
  using assms set_update_subset_insert [of subs j "(subs ! j)\<lparr>sb_bm := Some b\<rparr>"] by (auto simp: honest_def split: if_splits)

context load_service
begin

text \<open>What the loop over the sub-batches still has to look at, when every result is there.\<close>

definition covered :: "nat list \<Rightarrow> 'k sub list \<Rightarrow> ('k, 's) proxy \<Rightarrow> bool" where
  "covered js subs s \<longleftrightarrow> (\<forall>j < length subs. sb_bm (subs ! j) \<noteq> None \<or> (j \<in> set js \<and> res (px_inner s) (sb_tid (subs ! j)) \<noteq> None))"

definition poll_post :: "('k \<Rightarrow> bool) \<Rightarrow> 'k list \<Rightarrow> 'k multiset \<Rightarrow> 'k set \<Rightarrow> nat \<Rightarrow> bool \<Rightarrow> exn + unit \<Rightarrow> ('k, 's) proxy \<Rightarrow> bool" where
  "poll_post ok keys P A task full r s' \<longleftrightarrow> r = Inr () \<and> (\<exists>subs'. tracked res ok keys P A task subs' s' \<and> (full \<longrightarrow> covered [] subs' s'))"

text \<open>The state after a sub-batch has landed.\<close>

definition arrived :: "nat \<Rightarrow> 'k sub list \<Rightarrow> nat \<Rightarrow> nat \<Rightarrow> bool list \<Rightarrow> 's \<Rightarrow> ('k, 's) proxy \<Rightarrow> ('k, 's) proxy" where
  "arrived task subs n j b t s = (let ok = landed (sb_keys (subs ! j)) b in
     s\<lparr>px_inner := t, px_outer := (px_outer s)(task \<mapsto> (subs[j := (subs ! j)\<lparr>sb_bm := Some b\<rparr>], n)),
       px_early := px_early s \<union> set ok, px_published := px_published s @ ok, px_ready := px_ready s \<union> set ok\<rparr>)"

lemma poll_step:
  assumes "px_outer s task = Some (subs, n)" and "px_l1 s"
    and "in_query I (sb_tid (subs ! j)) (px_inner s) = (Inr (res (px_inner s) (sb_tid (subs ! j))), t)"
  shows "wp (poll_subs I task (j # js)) Q s =
    wp (poll_subs I task js) Q
      (if sb_bm (subs ! j) \<noteq> None then s
       else case res (px_inner s) (sb_tid (subs ! j)) of None \<Rightarrow> s\<lparr>px_inner := t\<rparr> | Some b \<Rightarrow> arrived task subs n j b t s)"
proof -
  have "wp (bind_io (set_bm task j b) (\<lambda>_. bind_io (publish (landed (sb_keys (subs ! j)) b)) (\<lambda>_. poll_subs I task js))) Q (s\<lparr>px_inner := t\<rparr>) =
      wp (poll_subs I task js) Q (arrived task subs n j b t s)" for b
    using assms(1,2) by (cases s) (auto simp: wp_bind set_bm_def publish_def wp_put_s arrived_def Let_def)
  with assms show ?thesis
    by (cases "sb_bm (subs ! j)"; cases "res (px_inner s) (sb_tid (subs ! j))")
      (simp_all add: wp_bind [of "get_s _"] wp_get_s wp_bind [of "on_inner _"] wp_on_inner wp_def [of "in_query _ _"])
qed

lemma poll_mono:
  "wp m (poll_post ok keys P A task full) s \<Longrightarrow> full' \<longrightarrow> full \<Longrightarrow> wp m (poll_post ok keys P A task full') s"
  by (erule wp_mono) (auto simp: poll_post_def)

lemma poll_rule:
  assumes "tracked res ok keys P A task subs s" and "\<forall>j \<in> set js. j < length subs"
  shows "wp (poll_subs I task js) (poll_post ok keys P A task (covered js subs s)) s"
  using assms
proof (induction js arbitrary: subs s)
  case Nil
  then show ?case by (simp only: poll_subs.simps wp_ret) (auto simp: poll_post_def)
next
  case (Cons j js)
  let ?sb = "subs ! j"
  have j: "j < length subs" and js: "\<forall>i \<in> set js. i < length subs" and o: "px_outer s task = Some (subs, length keys)" "px_l1 s"
    and d: "distinct (map sb_tid subs)" using Cons.prems by (simp_all add: tracked_def subs_ok_def)
  obtain t where q: "in_query I (sb_tid ?sb) (px_inner s) = (Inr (res (px_inner s) (sb_tid ?sb)), t)"
    and t: "res t = (res (px_inner s))(sb_tid ?sb := None)" using query_law by blast
  note step = poll_step [OF o q]
  consider (old) "sb_bm ?sb \<noteq> None" | (wait) "sb_bm ?sb = None" "res (px_inner s) (sb_tid ?sb) = None"
    | (new) b where "sb_bm ?sb = None" "res (px_inner s) (sb_tid ?sb) = Some b" by fastforce
  then show ?case
  proof cases
    case old
    then have "covered (j # js) subs s \<longrightarrow> covered js subs s" by (auto simp: covered_def)
    with old show ?thesis unfolding step using poll_mono [OF Cons.IH [OF Cons.prems(1) js]] by simp
  next
    case wait
    then have "res t = res (px_inner s)" using t by auto
    then have tr: "tracked res ok keys P A task subs (s\<lparr>px_inner := t\<rparr>)" and "covered (j # js) subs s \<longrightarrow> covered js subs (s\<lparr>px_inner := t\<rparr>)"
      using Cons.prems(1) wait by (auto simp: tracked_def covered_def)
    with wait show ?thesis unfolding step using poll_mono [OF Cons.IH [OF tr js]] by simp
  next
    case new
    let ?s2 = "arrived task subs (length keys) j b t s" and ?subs = "subs[j := ?sb\<lparr>sb_bm := Some b\<rparr>]"
    have b: "b = map ok (sb_keys ?sb)" using Cons.prems(1) new(2) j by (auto simp: tracked_def honest_def)
    have s2: "px_l1 ?s2" "px_outer ?s2 task = Some (?subs, length keys)" "px_inner ?s2 = t"
      "px_published ?s2 = px_published s @ filter ok (sb_keys ?sb)" "px_early ?s2 = px_early s \<union> set (filter ok (sb_keys ?sb))"
      using o(2) by (simp_all add: arrived_def Let_def b landed_map)
    have tr: "tracked res ok keys P A task ?subs ?s2"
      using Cons.prems(1) subs_ok_update [OF _ j b, of keys] honest_update [OF _ j t, of ok b] out_keys_update [OF j new(1), of ok b]
      s2(1) unfolding tracked_def s2(2-5) by (simp add: Un_assoc)
    have "covered (j # js) subs s \<longrightarrow> covered js ?subs ?s2"
      using j d unfolding covered_def s2(3) t by (auto simp: nth_list_update distinct_conv_nth)
    with new js show ?thesis unfolding step using poll_mono [OF Cons.IH [OF tr]] by simp
  qed
qed

end

subsection \<open>The bitmap of the whole\<close>

lemma set_bits_from:
  assumes "i \<le> length bm"
  shows "set_bits (length pre) bm [i..<length bm] (pre @ take i bm @ replicate (length bm - i + r) False) = pre @ bm @ replicate r False"
  using assms
proof (induction "length bm - i" arbitrary: i)
  case 0
  then show ?case by simp
next
  case (Suc d)
  then have i: "i < length bm" by simp
  have "length bm - i + r = Suc (length bm - Suc i + r)" using i by simp
  then have upd: "(if i < length bm \<and> bm ! i then (pre @ take i bm @ replicate (length bm - i + r) False)[length pre + i := True]
      else pre @ take i bm @ replicate (length bm - i + r) False) = pre @ take (Suc i) bm @ replicate (length bm - Suc i + r) False"
    using i by (auto simp: list_update_append take_Suc_conv_app_nth)
  have "d = length bm - Suc i" "Suc i \<le> length bm" using Suc.hyps(2) i by simp_all
  from Suc.hyps(1) [OF this] show ?case unfolding upt_conv_Cons [OF i] set_bits.simps upd .
qed

lemma merge_bits_concat:
  assumes "\<forall>sb \<in> set subs. sb_bm sb = Some (map ok (sb_keys sb))"
  shows "merge_bits (length pre) subs (pre @ replicate (length (concat (map sb_keys subs))) False) = pre @ map ok (concat (map sb_keys subs))"
  using assms
proof (induction subs arbitrary: pre)
  case (Cons sb subs)
  let ?bm = "map ok (sb_keys sb)" and ?r = "length (concat (map sb_keys subs))"
  have "set_bits (length pre) ?bm [0..<length (sb_keys sb)] (pre @ replicate (length (concat (map sb_keys (sb # subs)))) False) =
      (pre @ ?bm) @ replicate ?r False"
    using set_bits_from [of 0 ?bm pre ?r] by simp
  then show ?case using Cons.IH [of "pre @ ?bm"] Cons.prems by simp
qed simp

lemma slices_keys: "0 < sub \<Longrightarrow> concat (map fst (slices sub keys objs)) = keys"
proof (induction sub keys objs rule: slices.induct)
  case (1 sub keys objs)
  then show ?case by (subst slices.simps) auto
qed

context load_service
begin

lemma submit_subs_rule:
  "wp (submit_subs I xs) (\<lambda>r s'. \<exists>subs t. r = Inr subs \<and> s' = s\<lparr>px_inner := t\<rparr> \<and> map sb_keys subs = map fst xs \<and>
     (\<forall>sb \<in> set subs. sb_bm sb = None) \<and> distinct (map sb_tid subs) \<and> sb_tid ` set subs \<inter> ids (px_inner s) = {} \<and>
     ids t = ids (px_inner s) \<union> sb_tid ` set subs \<and> res t = res (px_inner s)) s"
proof (induction xs arbitrary: s)
  case Nil
  show ?case by (simp only: submit_subs.simps wp_ret) (auto intro!: exI [of _ "px_inner s"])
next
  case (Cons x xs)
  obtain ks os where x: "x = (ks, os)" by fastforce
  obtain tid t where sub: "in_submit I ks os (px_inner s) = (Inr tid, t)" "tid \<notin> ids (px_inner s)" "ids t = insert tid (ids (px_inner s))"
    "res t = res (px_inner s)" using submit_law by blast
  have "wp (submit_subs I (x # xs)) Q s = wp (submit_subs I xs) (\<lambda>r s'. case r of Inl e \<Rightarrow> Q (Inl e) s' |
      Inr subs \<Rightarrow> Q (Inr (\<lparr>sb_tid = tid, sb_keys = ks, sb_bm = None\<rparr> # subs)) s') (s\<lparr>px_inner := t\<rparr>)" for Q
    by (simp add: x wp_bind wp_on_inner wp_def [of "in_submit _ _ _"] sub(1) wp_ret cong: sum.case_cong)
  then show ?case
    by (simp only:) (rule wp_mono [OF Cons.IH], use sub x in \<open>auto\<close>)
qed

text \<open>A freshly submitted task is tracked.\<close>

lemma proxy_submit_rule:
  assumes "0 < px_sub s" and "px_l1 s" and "\<And>tid. tid \<notin> ids (px_inner s) \<Longrightarrow> res (px_inner s) tid = None"
  shows "wp (proxy_submit I keys objs) (\<lambda>r s'. \<exists>task subs. r = Inr task \<and>
     tracked res ok keys (mset (px_published s)) (px_early s) task subs s') s"
proof -
  note step = wp_mono [OF submit_subs_rule [of "slices (px_sub s) keys objs" s]]
  show ?thesis
    unfolding proxy_submit_def wp_bind [of "get_s px_sub"] wp_get_s sum.case wp_bind [of "submit_subs _ _"]
  proof (rule step, elim exE conjE, goal_cases)
    case (1 r s' subs t)
    have "subs_ok ok keys subs" using 1 slices_keys [OF assms(1), of keys objs] by (simp add: subs_ok_def)
    moreover have "honest ok (res t) subs" using 1 assms(3) by (force simp: honest_def)
    moreover have "out_keys ok subs = {#}" using 1(4) unfolding out_keys_def by (induction subs) auto
    ultimately show ?case using 1 assms(2) by (auto simp: wp_simps tracked_def intro!: exI [of _ subs])
  qed
qed

end

context load_service
begin

lemma covered_all: "covered [] subs s \<longleftrightarrow> (\<forall>sb \<in> set subs. sb_bm sb \<noteq> None)"
  unfolding covered_def all_set_conv_all_nth by simp

lemma out_keys_all:
  assumes "subs_ok ok keys subs" and "\<forall>sb \<in> set subs. sb_bm sb \<noteq> None"
  shows "out_keys ok subs = mset (filter ok keys)"
proof -
  have "out_keys ok subs = mset (filter ok (concat (map sb_keys subs)))"
    using assms(2) unfolding out_keys_def by (induction subs) auto
  with assms(1) show ?thesis by (simp add: subs_ok_def)
qed

text \<open>A query: a miss keeps the task tracked, an answer is the whole bitmap and ends it.\<close>

definition query_post :: "('k \<Rightarrow> bool) \<Rightarrow> 'k list \<Rightarrow> 'k multiset \<Rightarrow> 'k set \<Rightarrow> nat \<Rightarrow> bool \<Rightarrow> exn + bool list option \<Rightarrow> ('k, 's) proxy \<Rightarrow> bool" where
  "query_post ok keys P A task full r s' \<longleftrightarrow> (case r of
     Inl _ \<Rightarrow> False
   | Inr None \<Rightarrow> \<not> full \<and> (\<exists>subs'. tracked res ok keys P A task subs' s')
   | Inr (Some out) \<Rightarrow> out = map ok keys \<and> px_outer s' task = None \<and> mset (px_published s') = P + mset (filter ok keys) \<and>
       px_early s' = A \<union> {k \<in> set keys. ok k})"

lemma proxy_query_rule:
  assumes "tracked res ok keys P A task subs s"
  shows "wp (proxy_query I task) (query_post ok keys P A task (covered [0..<length subs] subs s)) s"
proof -
  have o: "px_outer s task = Some (subs, length keys)" using assms by (simp add: tracked_def)
  have p: "wp (poll_subs I task [0..<length subs]) (poll_post ok keys P A task (covered [0..<length subs] subs s)) s"
    by (rule poll_rule [OF assms]) simp
  show ?thesis
    unfolding proxy_query_def wp_bind [of "get_s _"] wp_get_s o sum.case option.case prod.case
  proof (rule wp_bindI [OF p], goal_cases)
    case (2 u s1)
    then obtain subs' where tr: "tracked res ok keys P A task subs' s1" and full: "covered [0..<length subs] subs s \<longrightarrow> covered [] subs' s1"
      by (auto simp: poll_post_def)
    have o1: "px_outer s1 task = Some (subs', length keys)" and sk: "subs_ok ok keys subs'" using tr by (simp_all add: tracked_def)
    show ?case
    proof (cases "\<exists>sb \<in> set subs'. sb_bm sb = None")
      case True
      with full have "\<not> covered [0..<length subs] subs s" by (auto simp: covered_all)
      with True tr o1 show ?thesis by (auto simp: wp_bind wp_get_s wp_ret query_post_def)
    next
      case False
      with sk have "\<forall>sb \<in> set subs'. sb_bm sb = Some (map ok (sb_keys sb))" by (auto simp: subs_ok_def)
      from merge_bits_concat [OF this, of "[]"] sk have "merge_bits 0 subs' (replicate (length keys) False) = map ok keys"
        by (simp add: subs_ok_def)
      with False tr o1 out_keys_all [OF sk] show ?thesis
        by (auto simp: wp_bind wp_get_s wp_put_s wp_ret query_post_def tracked_def)
    qed
  qed (simp add: poll_post_def)
qed

end

section \<open>A load through the proxy\<close>

text \<open>
  The life of a task behind the proxy: its caller polls, and between polls the adapter goes on, as
  long as the results it hands over are those that \<open>ok\<close> says.
\<close>

inductive proxy_run :: "('k, 'o, 's) inner \<Rightarrow> ('s \<Rightarrow> nat \<Rightarrow> bool list option) \<Rightarrow> ('k \<Rightarrow> bool) \<Rightarrow> nat \<Rightarrow> ('k, 's) proxy \<Rightarrow> ('k, 's) proxy \<Rightarrow> bool"
  for I res ok task s0 where
  start: "proxy_run I res ok task s0 s0"
| inner: "proxy_run I res ok task s0 s \<Longrightarrow> (\<And>subs n. px_outer s task = Some (subs, n) \<Longrightarrow> honest ok (res t) subs) \<Longrightarrow>
    proxy_run I res ok task s0 (s\<lparr>px_inner := t\<rparr>)"
| query: "proxy_run I res ok task s0 s \<Longrightarrow> proxy_query I task s = (Inr None, s') \<Longrightarrow> proxy_run I res ok task s0 s'"

context load_service
begin

lemma proxy_run_tracked:
  assumes "proxy_run I res ok task s0 s" and "tracked res ok keys P A task subs0 s0"
  shows "\<exists>subs. tracked res ok keys P A task subs s"
  using assms
proof induction
  case (query s s')
  then obtain subs where "tracked res ok keys P A task subs s" by blast
  from wpD [OF proxy_query_rule [OF this] query.hyps(2)] show ?case by (auto simp: query_post_def)
qed (auto simp: tracked_def)

end

text \<open>
  C25: a load that is split into sub-batches gives the same answer as the whole: however the polls and
  the arrival of the sub-batches interleave, the answer is one bit per key in the order of the call;
  each key that landed, and no other, was made readable exactly once by then; and once every result
  is in, the next poll answers.
\<close>

theorem proxy_load:
  assumes "load_service I res ids" and "0 < px_sub s" and "px_l1 s" and "\<And>tid. tid \<notin> ids (px_inner s) \<Longrightarrow> res (px_inner s) tid = None"
    and "proxy_submit I keys objs s = (Inr task, s1)" and "proxy_run I res ok task s1 s2" and "proxy_query I task s2 = (r, s3)"
  shows "(r = Inr None \<or> r = Inr (Some (map ok keys)) \<and> mset (px_published s3) = mset (px_published s) + mset (filter ok keys)) \<and>
    (\<forall>subs n. px_outer s2 task = Some (subs, n) \<longrightarrow> (\<forall>sb \<in> set subs. res (px_inner s2) (sb_tid sb) \<noteq> None) \<longrightarrow> r \<noteq> Inr None)"
proof -
  note ls = assms(1)
  from wpD [OF load_service.proxy_submit_rule [OF ls assms(2-4)] assms(5)] obtain subs1
    where "tracked res ok keys (mset (px_published s)) (px_early s) task subs1 s1" by auto
  from load_service.proxy_run_tracked [OF ls assms(6) this] obtain subs
    where tr: "tracked res ok keys (mset (px_published s)) (px_early s) task subs s2" by blast
  from wpD [OF load_service.proxy_query_rule [OF ls tr] assms(7)] tr show ?thesis
    by (cases r) (auto simp: load_service.query_post_def [OF ls] load_service.covered_def [OF ls] tracked_def split: option.splits)
qed

text \<open>
  with the finish that skips published keys, every key that landed is made readable exactly once
  in total, early or at the end, and the set of early keys is left as it was found.
\<close>

theorem proxy_finish_once:
  assumes "load_service I res ids" and "0 < px_sub s" and "px_l1 s" and "\<And>tid. tid \<notin> ids (px_inner s) \<Longrightarrow> res (px_inner s) tid = None"
    and "proxy_submit I keys objs s = (Inr task, s1)" and "proxy_run I res ok task s1 s2" and "proxy_query I task s2 = (Inr (Some out), s3)"
    and "px_early s \<inter> set keys = {}" and "patched_fwrr (landed keys out) s3 = (r, s4)"
  shows "r = Inr () \<and> mset (px_published s4) = mset (px_published s) + mset (filter ok keys) \<and> px_early s4 = px_early s"
proof -
  note ls = assms(1)
  from wpD [OF load_service.proxy_submit_rule [OF ls assms(2-4)] assms(5)] obtain subs1
    where "tracked res ok keys (mset (px_published s)) (px_early s) task subs1 s1" by auto
  from load_service.proxy_run_tracked [OF ls assms(6) this] obtain subs
    where tr: "tracked res ok keys (mset (px_published s)) (px_early s) task subs s2" by blast
  from wpD [OF load_service.proxy_query_rule [OF ls tr] assms(7)] have out: "out = map ok keys"
    and pub: "mset (px_published s3) = mset (px_published s) + mset (filter ok keys)"
    and early: "px_early s3 = px_early s \<union> {k \<in> set keys. ok k}" by (auto simp: load_service.query_post_def [OF ls])
  have skip: "filter (\<lambda>k. k \<in> px_early s3) (filter ok keys) = filter ok keys"
    by (rule filter_True) (auto simp: early)
  have rest: "filter (\<lambda>k. k \<notin> set (filter ok keys)) (filter ok keys) = []" by (auto simp: filter_empty_conv)
  have "wp (patched_fwrr (filter ok keys)) (\<lambda>r s4. r = Inr () \<and> px_published s4 = px_published s3 \<and>
      px_early s4 = px_early s3 - set (filter ok keys)) s3"
    unfolding patched_fwrr_def wp_bind [of "get_s _"] wp_get_s sum.case skip Let_def rest by (simp add: wp_bind wp_put_s)
  from wpD [OF this assms(9) [unfolded out landed_map]] pub early assms(8) show ?thesis by auto
qed

section \<open>The transfer in sub-batches\<close>

lemma fill_cong:
  assumes "\<And>k. k \<in> set (pending_keys xs) \<Longrightarrow> got k = Some (val k)"
  shows "map (fill_slot got) xs = map (fill_slot (\<lambda>k. Some (val k))) xs"
  using assms by (induction xs rule: pending_keys.induct) (auto simp: fill_slot_def)

lemma slice_append: "take m (drop a b) @ drop (a + m) b = drop a b"
  by (metis add.commute append_take_drop_id drop_drop)

lemma slice_rest:
  assumes "i + m \<le> n"
  shows "take (m * c) (drop (i * c) b) @ drop ((i + m) * c) (take (n * c) b) = drop (i * c) (take (n * c) (b :: 'b list))"
proof -
  have "(i + m) * c \<le> n * c" using assms by (rule mult_le_mono1)
  then have "take (m * c) (drop (i * c) b) = take (m * c) (drop (i * c) (take (n * c) b))"
    by (simp add: drop_take add_mult_distrib min_def)
  then show ?thesis using slice_append [of "m * c" "i * c" "take (n * c) b"] by (simp add: add_mult_distrib)
qed

lemma part_rest:
  fixes b :: "'b list"
  assumes "i < length xs"
  shows "take (length (take m (drop i xs)) * c) (drop (i * c) b) @ drop ((i + m) * c) (take (length xs * c) b) =
    drop (i * c) (take (length xs * c) b)"
proof (cases "i + m \<le> length xs")
  case True
  then show ?thesis using slice_rest [OF True, of c b] by simp
next
  case False
  then have "length xs * c \<le> (i + m) * c" by (intro mult_le_mono1) simp
  then have "drop ((i + m) * c) (take (length xs * c) b) = []"
    by (simp only: drop_eq_Nil length_take min.coboundedI2)
  moreover have "length (take m (drop i xs)) = length xs - i" using False by simp
  ultimately show ?thesis by (simp add: drop_take diff_mult_distrib)
qed

lemma pending_keys_iff: "k \<in> set (pending_keys xs) \<longleftrightarrow> Pending k \<in> set xs"
  by (induction xs rule: pending_keys.induct) auto

lemma pending_keys_part: "set (pending_keys (take m (drop i xs))) \<subseteq> set (pending_keys xs)"
  by (rule subsetI, unfold pending_keys_iff) (metis in_set_takeD in_set_dropD)

lemma transfer_loop_result:
  assumes "\<And>ks. set ks \<subseteq> set (pending_keys objs) \<Longrightarrow> \<exists>got. await ks = Inr got \<and> (\<forall>k \<in> set ks. got k = Some (val k))"
    and "\<And>c. orig c = Inr ()" and "0 < sub" and "length bpc = length blocks"
  shows "\<exists>calls. transfer_loop await orig sub bpc blocks skip objs i = (Inr (), calls) \<and>
    concat (map tc_objs calls) = map (fill_slot (\<lambda>k. Some (val k))) (drop i objs) \<and>
    (\<forall>g < length blocks. concat (map (\<lambda>c. tc_blocks c ! g) calls) = drop (i * bpc ! g) (take (length objs * bpc ! g) (blocks ! g))) \<and>
    (\<forall>c \<in> set (if i = 0 then tl calls else calls). tc_skip c = 0) \<and> (i = 0 \<longrightarrow> objs \<noteq> [] \<longrightarrow> calls \<noteq> [] \<and> tc_skip (hd calls) = skip)"
proof (induction "length objs - i" arbitrary: i rule: less_induct)
  case less
  show ?case
  proof (cases "length objs \<le> i")
    case True
    then have "transfer_loop await orig sub bpc blocks skip objs i = (Inr (), [])" by (subst transfer_loop.simps) simp
    moreover have "length objs * c \<le> i * c" for c using True by (rule mult_le_mono1)
    ultimately show ?thesis using True by (auto simp: min.coboundedI2)
  next
    case False
    define part where "part = take sub (drop i objs)"
    have sub: "set (pending_keys part) \<subseteq> set (pending_keys objs)"
      unfolding part_def by (rule pending_keys_part)
    obtain got where got: "(if pending_keys part \<noteq> [] then await (pending_keys part) else Inr Map.empty) = Inr got"
      and val: "\<And>k. k \<in> set (pending_keys part) \<Longrightarrow> got k = Some (val k)"
      using assms(1) [OF sub] by (cases "pending_keys part = []") auto
    define call where "call = \<lparr>tc_blocks = map (\<lambda>(b, c). take (length part * c) (drop (i * c) b)) (zip blocks bpc),
      tc_objs = map (fill_slot got) part, tc_skip = (if i = 0 then skip else 0)\<rparr>"
    have "length objs - (i + sub) < length objs - i" using False assms(3) by simp
    from less.hyps [OF this] obtain calls where IH: "transfer_loop await orig sub bpc blocks skip objs (i + sub) = (Inr (), calls)"
      "concat (map tc_objs calls) = map (fill_slot (\<lambda>k. Some (val k))) (drop (i + sub) objs)"
      "\<forall>g < length blocks. concat (map (\<lambda>c. tc_blocks c ! g) calls) = drop ((i + sub) * bpc ! g) (take (length objs * bpc ! g) (blocks ! g))"
      "\<forall>c \<in> set calls. tc_skip c = 0" using assms(3) by (auto split: if_splits)
    have run: "transfer_loop await orig sub bpc blocks skip objs i = (Inr (), call # calls)"
      using False assms(2,3) got IH(1) by (subst transfer_loop.simps) (simp add: Let_def part_def [symmetric] call_def)
    have fc: "map (fill_slot got) part = map (fill_slot (\<lambda>k. Some (val k))) part" by (rule fill_cong [OF val])
    have objs: "tc_objs call @ concat (map tc_objs calls) = map (fill_slot (\<lambda>k. Some (val k))) (drop i objs)"
      unfolding call_def transfer_call.select_convs fc IH(2) by (metis map_append part_def slice_append)
    have blk: "tc_blocks call ! g @ drop ((i + sub) * bpc ! g) (take (length objs * bpc ! g) (blocks ! g)) =
        drop (i * bpc ! g) (take (length objs * bpc ! g) (blocks ! g))" if g: "g < length blocks" for g
      using g assms(4) part_rest [of i objs sub "bpc ! g" "blocks ! g"] False by (simp add: call_def part_def)
    show ?thesis using run objs blk IH(3,4) by (auto simp: call_def)
  qed
qed

lemma div_blocks: "n dvd length b \<Longrightarrow> take (n * (length b div n)) b = b"
  by simp



text \<open>Waiting for a placeholder ends: at the latest with the first look after the deadline.\<close>

lemma resolve_ends:
  assumes "(l1, now) \<in> set obs" and "deadline \<le> now"
  shows "\<exists>r. resolve deadline keys obs = Some r"
  using assms by (induction deadline keys obs rule: resolve.induct) auto

lemma resolve_sound:
  "resolve deadline keys obs = Some (Inr got) \<Longrightarrow> k \<in> set keys \<Longrightarrow> \<exists>l1 now. (l1, now) \<in> set obs \<and> got k = l1 k \<and> l1 k \<noteq> None"
  by (induction deadline keys obs rule: resolve.induct) (auto split: if_splits)

lemma status_bits_nth:
  "length (status_bits hits n) = n \<and> (\<forall>i < n. status_bits hits n ! i \<longleftrightarrow> int i < hits)"
proof -
  have "length (fold (\<lambda>i bm. bm[i := True]) [0..<m] (replicate n False)) = n \<and>
      (\<forall>i < n. fold (\<lambda>i bm. bm[i := True]) [0..<m] (replicate n False) ! i \<longleftrightarrow> i < m)" for m
  proof (induction m)
    case (Suc m)
    then show ?case by (cases "m < n") (auto simp: nth_list_update less_Suc_eq)
  qed simp
  from this [of "nat (min hits (int n))"] show ?thesis unfolding status_bits_def by auto
qed

text \<open>Waiting for the status ends in the same way, and a round of the janitor only takes requests out.\<close>

lemma wait_status_ends:
  assumes "(decided, finished, now) \<in> set obs" and "start + timeout \<le> now"
  shows "\<exists>r. wait_status orig rid start timeout obs = Some r"
proof -
  have "\<exists>r. wait_loop (start + timeout) obs = Some r"
    using assms by (induction "start + timeout" obs rule: wait_loop.induct) auto
  then show ?thesis by (simp add: wait_status_def)
qed

lemma janitor_keeps_unanswered:
  "janitor_round pc drain \<subseteq> drain" "rid \<in> drain \<Longrightarrow> answer rid = Inr None \<or> answer rid = Inl e \<Longrightarrow> rid \<in> janitor_round (Some answer) drain"
  "answer rid = Inr (Some r) \<Longrightarrow> rid \<notin> janitor_round (Some answer) drain"
  by (auto simp: janitor_round_def split: option.splits)

section \<open>A load through the proxy on the L2 adapter\<close>

abbreviation "wit_px \<equiv> proxy_init (ref_world True) 1 True :: (objkey, (memfs, nat \<Rightarrow> bytes) l2world) proxy"
abbreviation "wit_task \<equiv> 2 ^ 40 :: nat"

definition wit_px1 :: "(objkey, (memfs, nat \<Rightarrow> bytes) l2world) proxy" where
  "wit_px1 = snd (proxy_submit l2_inner [ref_key] [1] wit_px)"

lemma wit_px1:
  "proxy_submit l2_inner [ref_key] [1] wit_px = (Inr wit_task, wit_px1)"
  "px_inner wit_px1 = submitted (TLoad 0 [ref_key] [1]) (ref_world True)"
  "px_outer wit_px1 = [wit_task \<mapsto> ([\<lparr>sb_tid = 0, sb_keys = [ref_key], sb_bm = None\<rparr>], 1)]"
proof -
  have sl: "slices (Suc 0) [ref_key] [1 :: nat] = [([ref_key], [1])]" by (simp add: slices.simps)
  have n: "l_next_task_id (ref_world True) = 0" by (simp add: ref_world_def world_init_def)
  show "proxy_submit l2_inner [ref_key] [1] wit_px = (Inr wit_task, wit_px1)"
    "px_inner wit_px1 = submitted (TLoad 0 [ref_key] [1]) (ref_world True)"
    "px_outer wit_px1 = [wit_task \<mapsto> ([\<lparr>sb_tid = 0, sb_keys = [ref_key], sb_bm = None\<rparr>], 1)]"
    by (simp_all add: wit_px1_def proxy_submit_def io_defs get_s_def put_s_def proxy_init_def sl [unfolded One_nat_def] on_inner_def l2_inner_def run_submit n)
qed

text \<open>The adapter runs the task it was given.\<close>

lemma wit_px_loaded: "\<exists>t. run_task (ref_env True) [0] (TLoad 0 [ref_key] [1]) ((px_inner wit_px1)\<lparr>l_tasks := []\<rparr>) = (Inr (), t) \<and> l_completed_load t 0 = Some [True]"
  unfolding wit_px1(2) by (simp add: run_task_def submitted_def execute_load_def load_task_def load_one_def load_done_def ref_run)

lemma wit_px_run:
  assumes "l_completed_load t 0 = Some [True]"
  shows "proxy_run l2_inner l_completed_load (\<lambda>_. True) wit_task wit_px1 (wit_px1\<lparr>px_inner := t\<rparr>)"
  by (rule proxy_run.inner [OF proxy_run.start]) (use assms in \<open>auto simp: wit_px1(3) honest_def\<close>)

lemma wit_px_fresh: "tid \<notin> {..<l_next_task_id (px_inner wit_px)} \<Longrightarrow> l_completed_load (px_inner wit_px) tid = None"
  by (simp add: proxy_init_def ref_world_def world_init_def)

theorem proxy_load_witness:
  "\<exists>t s3. run_task (ref_env True) [0] (TLoad 0 [ref_key] [1]) ((px_inner wit_px1)\<lparr>l_tasks := []\<rparr>) = (Inr (), t) \<and>
     proxy_query l2_inner wit_task (wit_px1\<lparr>px_inner := t\<rparr>) = (Inr (Some [True]), s3) \<and> mset (px_published s3) = {#ref_key#}"
proof -
  obtain t where t: "run_task (ref_env True) [0] (TLoad 0 [ref_key] [1]) ((px_inner wit_px1)\<lparr>l_tasks := []\<rparr>) = (Inr (), t)"
    and l: "l_completed_load t 0 = Some [True]" using wit_px_loaded by blast
  obtain r s3 where q: "proxy_query l2_inner wit_task (wit_px1\<lparr>px_inner := t\<rparr>) = (r, s3)" by (metis surj_pair)
  from proxy_load [OF l2_service.load_service_axioms _ _ wit_px_fresh wit_px1(1) wit_px_run [OF l] q] l
  have "r = Inr (Some [True]) \<and> mset (px_published s3) = {#ref_key#}" by (auto simp: wit_px1(3) proxy_init_def)
  with t q show ?thesis by blast
qed

theorem proxy_finish_once_witness:
  "\<exists>t s3 s4. proxy_query l2_inner wit_task (wit_px1\<lparr>px_inner := t\<rparr>) = (Inr (Some [True]), s3) \<and>
     patched_fwrr [ref_key] s3 = (Inr (), s4) \<and> mset (px_published s4) = {#ref_key#} \<and> px_early s4 = {}"
proof -
  obtain t :: "(memfs, nat \<Rightarrow> bytes) l2world" where l: "l_completed_load t 0 = Some [True]" using wit_px_loaded by blast
  obtain r s3 where q: "proxy_query l2_inner wit_task (wit_px1\<lparr>px_inner := t\<rparr>) = (r, s3)" by (metis surj_pair)
  have tr: "tracked l_completed_load (\<lambda>_. True) [ref_key] {#} {} wit_task [\<lparr>sb_tid = 0, sb_keys = [ref_key], sb_bm = None\<rparr>] (wit_px1\<lparr>px_inner := t\<rparr>)"
    using l by (simp add: tracked_def subs_ok_def honest_def out_keys_def wit_px1(3))
      (simp add: wit_px1_def proxy_submit_def io_defs get_s_def put_s_def proxy_init_def slices.simps on_inner_def l2_inner_def run_submit)
  have r: "r = Inr (Some [True])"
    using wpD [OF l2_service.proxy_query_rule [OF tr] q] l
    by (auto simp: l2_service.query_post_def l2_service.covered_def split: sum.splits option.splits)
  obtain u s4 where f: "patched_fwrr [ref_key] s3 = (u, s4)" by (metis surj_pair)
  then have f': "patched_fwrr (landed [ref_key] [True]) s3 = (u, s4)" by (simp add: landed_def)
  from proxy_finish_once [OF l2_service.load_service_axioms _ _ wit_px_fresh wit_px1(1) wit_px_run [OF l] q [unfolded r] _ f']
  have "u = Inr () \<and> mset (px_published s4) = {#ref_key#} \<and> px_early s4 = {}" by (auto simp: proxy_init_def)
  with q r f show ?thesis by blast
qed

end
