(* ===== verification/Daos_Event.thy ===== *)
theory Daos_Event
  imports Mem_Dfs Py_Struct
begin

text \<open>
  \<^verbatim>\<open>lmcache_daos/daos_event.py\<close>: events, the event queue, an asynchronous read and the check of the event
  layout at start-up, with \<^verbatim>\<open>DfsSys.submit_read\<close>. The C side is a parameter: a call may store bytes at the
  event it is given, from its first byte on, and how many is what the module is careful about. The
  state has the memory of one event slot and of one read in flight.

  A store past the end of the allocation is a \<open>MemoryFault\<close>. \<^verbatim>\<open>DaosEventABIError\<close>, a subclass of
  \<^verbatim>\<open>RuntimeError\<close>, is \<open>RuntimeError\<close>; no other error of that class is raised here.
\<close>

section \<open>The library\<close>

text \<open>
  What a poll reports: its return value, the event pointers (\<open>None\<close> for NULL), and what has been stored
  meanwhile at the event, in the size and in the destination.
\<close>

record polled =
  pl_rc :: int
  pl_events :: "nat option list"
  pl_img :: bytes
  pl_size :: "nat option"
  pl_data :: bytes

record 'd evlib =
  c_daos_eq_create :: "'d \<Rightarrow> (int \<times> nat) \<times> 'd"
  c_daos_eq_destroy :: "nat \<Rightarrow> int \<Rightarrow> 'd \<Rightarrow> int \<times> 'd"
  c_daos_event_init :: "nat \<Rightarrow> 'd \<Rightarrow> (int \<times> bytes) \<times> 'd"
  c_daos_event_fini :: "'d \<Rightarrow> (int \<times> bytes) \<times> 'd"
  c_daos_event_abort :: "'d \<Rightarrow> int \<times> 'd"
  c_dfs_read :: "nat \<Rightarrow> nat \<Rightarrow> nat \<Rightarrow> nat \<Rightarrow> nat \<Rightarrow> 'd \<Rightarrow> int \<times> 'd"
  c_daos_eq_poll :: "nat \<Rightarrow> int \<Rightarrow> int \<Rightarrow> nat \<Rightarrow> 'd \<Rightarrow> polled \<times> 'd"

definition DAOS_EQ_DESTROY_FORCE :: int where "DAOS_EQ_DESTROY_FORCE = 1"
definition DAOS_EQ_NOWAIT :: int where "DAOS_EQ_NOWAIT = 0"

section \<open>The event slot\<close>

definition CANARY :: bytes where
  "CANARY = concat (replicate 64 [165, 90, 195, 60])"

text \<open>\<^verbatim>\<open>sizeof(DaosEvent)\<close>: an int padded to eight bytes, twenty words, one word.\<close>

definition sizeof_DaosEvent :: nat where
  "sizeof_DaosEvent = 8 + 20 * 8 + 8"

text \<open>\<^verbatim>\<open>_probe_event_size\<close>: the size to allocate, from the shim's answer if it has a plausible one.\<close>

definition probe_event_size :: "int option \<Rightarrow> nat \<times> bool" where
  "probe_event_size shim = (case shim of
     None \<Rightarrow> (sizeof_DaosEvent, False)
   | Some n \<Rightarrow> if n \<le> 0 \<or> 4096 < n then (sizeof_DaosEvent, False) else (nat n, True))"

record evslot =
  sl_buf :: bytes
  sl_canary_off :: "nat option"

text \<open>\<^verbatim>\<open>EventSlot.__init__\<close>: \<^verbatim>\<open>from_buffer\<close> refuses an allocation smaller than the structure.\<close>

definition slot_init :: "nat \<Rightarrow> bool \<Rightarrow> exn + evslot" where
  "slot_init esize canary =
     (let buf = replicate esize 0 @ (if canary then CANARY else [])
      in if length buf < sizeof_DaosEvent then Inl ValueError
         else Inr \<lparr>sl_buf = buf, sl_canary_off = (if canary then Some esize else None)\<rparr>)"

definition canary_ok :: "evslot \<Rightarrow> bool" where
  "canary_ok sl = (case sl_canary_off sl of
     None \<Rightarrow> True
   | Some off \<Rightarrow> take (length CANARY) (drop off (sl_buf sl)) = CANARY)"

definition repoison :: "evslot \<Rightarrow> evslot" where
  "repoison sl = (case sl_canary_off sl of
     None \<Rightarrow> sl
   | Some off \<Rightarrow> sl\<lparr>sl_buf := take off (sl_buf sl) @ CANARY @ drop (off + length CANARY) (sl_buf sl)\<rparr>)"

text \<open>\<^verbatim>\<open>ev.ev_error\<close>: a signed 32-bit field, little endian.\<close>

definition ev_error :: "evslot \<Rightarrow> int" where
  "ev_error sl = (let v = un_le (take 4 (sl_buf sl)) in if v < 2 ^ 31 then int v else int v - 2 ^ 32)"

section \<open>The event queue\<close>

record 'd evw =
  ew_sys :: "'d dfssys"
  ew_eqh :: nat
  ew_slot :: evslot
  ew_size :: nat
  ew_dest :: bytes

definition on_sys :: "('d dfssys, 'a) io \<Rightarrow> ('d evw, 'a) io" where
  "on_sys m = (\<lambda>s. case m (ew_sys s) of (r, d) \<Rightarrow> (r, s\<lparr>ew_sys := d\<rparr>))"

definition on_c :: "('d \<Rightarrow> 'r \<times> 'd) \<Rightarrow> ('d evw, 'r) io" where
  "on_c f = on_sys (on_lib (\<lambda>d. case f d of (r, d') \<Rightarrow> (Inr r, d')))"

text \<open>A store by the library at the event.\<close>

definition store_event :: "bytes \<Rightarrow> ('d evw, unit) io" where
  "store_event img = (\<lambda>s. if length (sl_buf (ew_slot s)) < length img then (Inl MemoryFault, s)
     else (Inr (), s\<lparr>ew_slot := (ew_slot s)\<lparr>sl_buf := overlay (sl_buf (ew_slot s)) 0 img\<rparr>\<rparr>))"

definition store_dest :: "bytes \<Rightarrow> ('d evw, unit) io" where
  "store_dest x = (\<lambda>s. case store_into (ew_dest s) x of Inl e \<Rightarrow> (Inl e, s) | Inr b \<Rightarrow> (Inr (), s\<lparr>ew_dest := b\<rparr>))"

definition chk :: "int \<Rightarrow> ('d evw, unit) io" where
  "chk rc = (if rc \<noteq> 0 then raise (DaosError rc) else ret ())"

definition eq_init :: "'d evlib \<Rightarrow> ('d evw, unit) io" where
  "eq_init V = bind_io (on_c (c_daos_eq_create V)) (\<lambda>(rc, h).
     bind_io (chk rc) (\<lambda>_. put_s (\<lambda>s. s\<lparr>ew_eqh := h\<rparr>)))"

definition new_event :: "'d evlib \<Rightarrow> nat \<Rightarrow> bool \<Rightarrow> ('d evw, unit) io" where
  "new_event V esize canary =
     bind_io (of_sum (slot_init esize canary)) (\<lambda>sl.
     bind_io (put_s (\<lambda>s. s\<lparr>ew_slot := sl\<rparr>)) (\<lambda>_.
     bind_io (get_s ew_eqh) (\<lambda>h.
     bind_io (on_c (c_daos_event_init V h)) (\<lambda>(rc, img).
     bind_io (store_event img) (\<lambda>_. chk rc)))))"

definition fini_event :: "'d evlib \<Rightarrow> ('d evw, unit) io" where
  "fini_event V = bind_io (on_c (c_daos_event_fini V)) (\<lambda>(rc, img). bind_io (store_event img) (\<lambda>_. chk rc))"

definition reinit_event :: "'d evlib \<Rightarrow> ('d evw, unit) io" where
  "reinit_event V =
     bind_io (fini_event V) (\<lambda>_.
     bind_io (put_s (\<lambda>s. s\<lparr>ew_slot := repoison (ew_slot s)\<rparr>)) (\<lambda>_.
     bind_io (get_s ew_eqh) (\<lambda>h.
     bind_io (on_c (c_daos_event_init V h)) (\<lambda>(rc, img).
     bind_io (store_event img) (\<lambda>_. chk rc)))))"

definition abort_event :: "'d evlib \<Rightarrow> ('d evw, unit) io" where
  "abort_event V = bind_io (on_c (c_daos_event_abort V)) (\<lambda>_. ret ())"

text \<open>\<^verbatim>\<open>arr[i]\<close> for the reported events; the array has \<open>n\<close> entries, all NULL before the call.\<close>

definition harvest :: "nat \<Rightarrow> int \<Rightarrow> nat option list \<Rightarrow> exn + nat list" where
  "harvest n rc evs =
     (let arr = take n (evs @ replicate n None) in
      if int n < rc then Inl OtherError else Inr (List.map_filter id (take (nat rc) arr)))"

definition poll :: "'d evlib \<Rightarrow> int \<Rightarrow> bool \<Rightarrow> int \<Rightarrow> ('d evw, nat list) io" where
  "poll V max_events wait timeout_us =
     (let n = nat (max 1 max_events) in
      bind_io (get_s ew_eqh) (\<lambda>h.
      bind_io (on_c (c_daos_eq_poll V h (if wait then 1 else 0) (if wait then timeout_us else DAOS_EQ_NOWAIT) n)) (\<lambda>p.
      bind_io (store_event (pl_img p)) (\<lambda>_.
      bind_io (store_dest (pl_data p)) (\<lambda>_.
      bind_io (put_s (\<lambda>s. s\<lparr>ew_size := (case pl_size p of None \<Rightarrow> ew_size s | Some k \<Rightarrow> k)\<rparr>)) (\<lambda>_.
      if pl_rc p < 0 then raise (DaosError (pl_rc p)) else of_sum (harvest n (pl_rc p) (pl_events p))))))))"

definition eq_close :: "'d evlib \<Rightarrow> bool \<Rightarrow> ('d evw, unit) io" where
  "eq_close V force =
     bind_io (get_s ew_eqh) (\<lambda>h.
     if h \<noteq> 0 then bind_io (on_c (c_daos_eq_destroy V h (if force then DAOS_EQ_DESTROY_FORCE else 0))) (\<lambda>_. put_s (\<lambda>s. s\<lparr>ew_eqh := 0\<rparr>))
     else ret ())"

section \<open>One asynchronous read\<close>

text \<open>\<^verbatim>\<open>DfsSys.submit_read\<close>; \<open>addr\<close> is the address of the event.\<close>

definition submit_read :: "'d libdfs \<Rightarrow> 'd evlib \<Rightarrow> nat \<Rightarrow> nat \<Rightarrow> nat \<Rightarrow> nat \<Rightarrow> ('d evw, unit) io" where
  "submit_read L V obj off len addr =
     bind_io (on_sys (base L)) (\<lambda>b.
     bind_io (on_c (c_dfs_read V b obj off len addr)) (\<lambda>rc. chk rc))"

text \<open>\<^verbatim>\<open>AsyncRead.__init__\<close>: the size starts as the length asked for.\<close>

definition async_read_init :: "nat \<Rightarrow> bytes \<Rightarrow> ('d evw, unit) io" where
  "async_read_init len dest = put_s (\<lambda>s. s\<lparr>ew_size := len, ew_dest := dest\<rparr>)"

definition check_read :: "nat \<Rightarrow> ('d evw, nat) io" where
  "check_read len =
     bind_io (get_s (\<lambda>s. s)) (\<lambda>s.
     if \<not> canary_ok (ew_slot s) then raise RuntimeError
     else if ev_error (ew_slot s) \<noteq> 0 then raise (DaosError (ev_error (ew_slot s)))
     else if ew_size s \<noteq> len then raise (DaosError 5)
     else ret (ew_size s))"

section \<open>The layout check\<close>

fun poll_loop :: "'d evlib \<Rightarrow> nat \<Rightarrow> ('d evw, nat list) io" where
  "poll_loop V 0 = ret []"
| "poll_loop V (Suc n) = bind_io (poll V 4 True 1000) (\<lambda>fin. if fin \<noteq> [] then ret fin else poll_loop V n)"

record abi_info =
  event_size :: nat
  size_from_shim :: bool
  bytes_read :: nat
  abi_canary_ok :: bool
  poll_identity_ok :: bool

definition verify_read :: "'d libdfs \<Rightarrow> 'd evlib \<Rightarrow> nat \<Rightarrow> nat \<Rightarrow> nat \<Rightarrow> ('d evw, nat) io" where
  "verify_read L V addr obj len =
     bind_io (async_read_init len (replicate len 0)) (\<lambda>_.
     bind_io (submit_read L V obj 0 len addr) (\<lambda>_.
     bind_io (poll_loop V 2000) (\<lambda>fin.
     if fin = [] then raise RuntimeError
     else if addr \<notin> set fin then raise RuntimeError
     else bind_io (get_s ew_slot) (\<lambda>sl.
     if \<not> canary_ok sl then raise RuntimeError else check_read len))))"

definition verify_body :: "'d libdfs \<Rightarrow> 'd evlib \<Rightarrow> nat \<times> bool \<Rightarrow> nat \<Rightarrow> string \<Rightarrow> nat \<Rightarrow> ('d evw, abi_info) io" where
  "verify_body L V esize addr path len =
     bind_io (get_s ew_slot) (\<lambda>sl.
     if \<not> canary_ok sl then raise RuntimeError
     else bind_io (on_sys (on_lib (open_rdonly L path))) (\<lambda>obj.
     bind_io (finally_io (verify_read L V addr obj len) (on_sys (on_lib (close_obj L obj)))) (\<lambda>got.
     ret \<lparr>event_size = fst esize, size_from_shim = snd esize, bytes_read = got, abi_canary_ok = True, poll_identity_ok = True\<rparr>)))"

definition verify_abi :: "'d libdfs \<Rightarrow> 'd evlib \<Rightarrow> nat \<times> bool \<Rightarrow> nat \<Rightarrow> string \<Rightarrow> nat \<Rightarrow> ('d evw, abi_info) io" where
  "verify_abi L V esize addr path len =
     bind_io (eq_init V) (\<lambda>_.
     finally_io
       (bind_io (new_event V (fst esize) True) (\<lambda>_.
        finally_io (verify_body L V esize addr path len) (swallow (fini_event V))))
       (eq_close V True))"

text \<open>\<^verbatim>\<open>verify_abi_or_die\<close>; \<open>None\<close> is the exit of the process.\<close>

definition verify_abi_or_die :: "'d libdfs \<Rightarrow> 'd evlib \<Rightarrow> nat \<times> bool \<Rightarrow> nat \<Rightarrow> string \<Rightarrow> nat \<Rightarrow> ('d evw, abi_info option) io" where
  "verify_abi_or_die L V esize addr path len =
     catch_io (\<lambda>e. e = RuntimeError) (bind_io (verify_abi L V esize addr path len) (\<lambda>info. ret (Some info))) (\<lambda>_. ret None)"

section \<open>What the calls leave alone\<close>

lemma wp_on_c:
  "wp (on_c f) Q s = (case f (lib_state (ew_sys s)) of (r, d) \<Rightarrow> Q (Inr r) (s\<lparr>ew_sys := (ew_sys s)\<lparr>lib_state := d\<rparr>\<rparr>))"
  by (auto simp: wp_def on_c_def on_sys_def on_lib_def split: prod.splits)

lemma wp_on_sys: "wp (on_sys m) Q s = wp m (\<lambda>r d. Q r (s\<lparr>ew_sys := d\<rparr>)) (ew_sys s)"
  by (auto simp: wp_def on_sys_def split: prod.splits)

lemma wp_on_lib: "wp (on_lib m) Q s = wp m (\<lambda>r d. Q r (s\<lparr>lib_state := d\<rparr>)) (lib_state s)"
  by (auto simp: wp_def on_lib_def split: prod.splits)

lemma wp_store_event:
  "wp (store_event img) Q s = (if length (sl_buf (ew_slot s)) < length img then Q (Inl MemoryFault) s
     else Q (Inr ()) (s\<lparr>ew_slot := (ew_slot s)\<lparr>sl_buf := overlay (sl_buf (ew_slot s)) 0 img\<rparr>\<rparr>))"
  by (simp add: wp_def store_event_def)

lemma wp_store_dest:
  "wp (store_dest x) Q s = (case store_into (ew_dest s) x of Inl e \<Rightarrow> Q (Inl e) s | Inr b \<Rightarrow> Q (Inr ()) (s\<lparr>ew_dest := b\<rparr>))"
  by (simp add: wp_def store_dest_def split: sum.splits)

lemma wp_chk: "wp (chk rc) Q s = (if rc \<noteq> 0 then Q (Inl (DaosError rc)) s else Q (Inr ()) s)"
  by (simp add: wp_def chk_def)

text \<open>
  The contract: events and queues are kept apart from the name space and its handles.
\<close>

locale event_lib = dfs_lib L fs hs for L :: "'d libdfs" and fs hs +
  fixes V :: "'d evlib"
  assumes base_frame: "c_dfs_sys2base L d = (x0, d') \<Longrightarrow> fs d' = fs d \<and> hs d' = hs d"
    and create_frame: "c_daos_eq_create V d = (x1, d') \<Longrightarrow> fs d' = fs d \<and> hs d' = hs d"
    and destroy_frame: "c_daos_eq_destroy V h fl d = (x2, d') \<Longrightarrow> fs d' = fs d \<and> hs d' = hs d"
    and init_frame: "c_daos_event_init V h d = (x3, d') \<Longrightarrow> fs d' = fs d \<and> hs d' = hs d"
    and fini_frame: "c_daos_event_fini V d = (x3, d') \<Longrightarrow> fs d' = fs d \<and> hs d' = hs d"
    and read_frame: "c_dfs_read V b h off n a d = (x2, d') \<Longrightarrow> fs d' = fs d \<and> hs d' = hs d"
    and poll_frame: "c_daos_eq_poll V h w tm n d = (x4, d') \<Longrightarrow> fs d' = fs d \<and> hs d' = hs d"
begin

abbreviation "ehs s \<equiv> hs (lib_state (ew_sys s))"
abbreviation "efs s \<equiv> fs (lib_state (ew_sys s))"

text \<open>The name space and the queue stay, and so does the shape of the slot.\<close>

definition calm :: "'d evw \<Rightarrow> 'd evw \<Rightarrow> bool" where
  "calm s s' \<longleftrightarrow> ehs s' = ehs s \<and> efs s' = efs s \<and> ew_eqh s' = ew_eqh s \<and>
     sl_canary_off (ew_slot s') = sl_canary_off (ew_slot s) \<and> length (sl_buf (ew_slot s')) = length (sl_buf (ew_slot s))"

end

sublocale event_lib \<subseteq> cs: step_order calm
  by unfold_locales (auto simp: calm_def)

context event_lib
begin

lemma calm_prims:
  "keeps calm (store_event img)" "keeps calm (store_dest x)" "keeps calm (chk rc)" "keeps calm (async_read_init n b)"
  "keeps calm (put_s (\<lambda>s. s\<lparr>ew_size := f s\<rparr>))"
  by (auto simp: keeps_def calm_def store_event_def store_dest_def chk_def async_read_init_def put_s_def length_overlay split: sum.splits)

lemma calm_c:
  assumes "\<And>r d d'. f d = (r, d') \<Longrightarrow> fs d' = fs d \<and> hs d' = hs d"
  shows "keeps calm (on_c f)"
proof -
  have "calm s (s\<lparr>ew_sys := (ew_sys s)\<lparr>lib_state := snd (f (lib_state (ew_sys s)))\<rparr>\<rparr>)" for s
    using assms [OF surjective_pairing, of "lib_state (ew_sys s)"] by (simp add: calm_def)
  then show ?thesis by (auto simp: keeps_def on_c_def on_sys_def on_lib_def split: prod.splits) (metis snd_conv)
qed

lemma calm_base: "keeps calm (on_sys (base L))"
  by (auto simp: keeps_def calm_def on_sys_def base_def on_lib_def chk_rc2_def io_defs get_s_def put_s_def
      split: prod.splits option.splits sum.splits if_splits dest: base_frame)

lemma calm_submit: "keeps calm (submit_read L V obj off len addr)"
  unfolding submit_read_def by (intro cs.keeps_rules calm_base calm_prims calm_c read_frame)

lemma calm_poll: "keeps calm (poll V m w tm)"
  unfolding poll_def Let_def by (auto intro!: cs.keeps_rules calm_prims calm_c poll_frame)

lemma calm_poll_loop: "keeps calm (poll_loop V n)"
  by (induction n) (auto intro!: cs.keeps_rules calm_poll)

lemma calm_check: "keeps calm (check_read len)"
  unfolding check_read_def by (auto intro!: cs.keeps_rules)

lemma calm_verify_read: "keeps calm (verify_read L V addr obj len)"
  unfolding verify_read_def by (auto intro!: cs.keeps_rules calm_submit calm_poll_loop calm_check calm_prims)

lemma calm_fini: "keeps calm (fini_event V)"
  unfolding fini_event_def by (auto intro!: cs.keeps_rules calm_prims calm_c fini_frame)

lemma calm_wp:
  assumes "keeps calm m" and "\<And>r s'. calm s s' \<Longrightarrow> Q r s'"
  shows "wp m Q s"
  using assms keepsD [OF assms(1)] by (auto intro: wpI)

text \<open>Open and close: the body keeps the handles.\<close>

lemma body_balanced:
  "wp (verify_body L V esize addr path len) (\<lambda>r s'. ehs s' = ehs s \<and> efs s' = efs s \<and> ew_eqh s' = ew_eqh s) s"
proof -
  have opened: "wp (finally_io (verify_read L V addr obj len) (on_sys (on_lib (close_obj L obj))))
      (\<lambda>r s'. ehs s' = (ehs s1)(obj := None) \<and> efs s' = efs s1 \<and> ew_eqh s' = ew_eqh s1) s1" for obj s1
    unfolding wp_finally
  proof (rule calm_wp [OF calm_verify_read])
    fix r s2
    assume c: "calm s1 s2"
    show "wp (on_sys (on_lib (close_obj L obj))) (\<lambda>x s'. case x of
        Inl e \<Rightarrow> ehs s' = (ehs s1)(obj := None) \<and> efs s' = efs s1 \<and> ew_eqh s' = ew_eqh s1
      | Inr _ \<Rightarrow> ehs s' = (ehs s1)(obj := None) \<and> efs s' = efs s1 \<and> ew_eqh s' = ew_eqh s1) s2"
      unfolding wp_on_sys wp_on_lib
      by (rule wp_close_obj) (use c in \<open>auto simp: calm_def\<close>)
  qed
  show ?thesis
    unfolding verify_body_def wp_bind [of "get_s _"] wp_get_s sum.case
  proof (cases "canary_ok (ew_slot s)")
    case True
    show "wp (if \<not> canary_ok (ew_slot s) then raise RuntimeError else bind_io (on_sys (on_lib (open_rdonly L path))) (\<lambda>obj.
        bind_io (finally_io (verify_read L V addr obj len) (on_sys (on_lib (close_obj L obj)))) (\<lambda>got.
        ret \<lparr>event_size = fst esize, size_from_shim = snd esize, bytes_read = got, abi_canary_ok = True, poll_identity_ok = True\<rparr>)))
      (\<lambda>r s'. ehs s' = ehs s \<and> efs s' = efs s \<and> ew_eqh s' = ew_eqh s) s"
      unfolding if_not_P [OF not_not [THEN iffD2, OF True]] wp_bind [of "on_sys (on_lib (open_rdonly _ _))"] wp_on_sys wp_on_lib
    proof (rule wp_open_rdonly, goal_cases)
      case (1 h b d)
      let ?s1 = "s\<lparr>ew_sys := (ew_sys s)\<lparr>lib_state := d\<rparr>\<rparr>"
      show ?case
        unfolding sum.case wp_bind [of "finally_io _ _"]
        by (rule wp_mono [OF opened [of h ?s1]]) (use 1 in \<open>auto simp: wp_ret fun_upd_idem split: sum.splits\<close>)
    qed auto
  qed (simp add: wp_raise)
qed

text \<open>
  A completed event of a structure of \<open>N\<close> bytes has been stored in full, and what lies past the
  allocation is not by accident the guard pattern.
\<close>

definition completes :: "nat \<Rightarrow> nat \<Rightarrow> nat \<Rightarrow> bool" where
  "completes N esize addr \<longleftrightarrow> (\<forall>h w tm n d p d'. c_daos_eq_poll V h w tm n d = (p, d') \<longrightarrow> Some addr \<in> set (pl_events p) \<longrightarrow>
     length (pl_img p) = N \<and> (esize < N \<longrightarrow> drop esize (pl_img p) \<noteq> take (N - esize) CANARY))"

definition stamped_by :: "nat \<Rightarrow> nat \<Rightarrow> evslot \<Rightarrow> bool" where
  "stamped_by N esize sl \<longleftrightarrow> N \<le> length (sl_buf sl) \<and> (esize < N \<longrightarrow> drop esize (take N (sl_buf sl)) \<noteq> take (N - esize) CANARY)"

lemma harvest_mem: "harvest n rc evs = Inr xs \<Longrightarrow> a \<in> set xs \<Longrightarrow> Some a \<in> set evs"
  by (auto simp: harvest_def Let_def map_filter_def split: if_splits dest!: in_set_takeD)

lemma take_overlay: "length x \<le> length b \<Longrightarrow> take (length x) (overlay b 0 x) = x"
  by (auto simp: overlay_def)

lemma poll_stamps:
  assumes "completes N esize addr"
  shows "wp (poll V m w tm) (\<lambda>r s'. \<forall>xs. r = Inr xs \<longrightarrow> addr \<in> set xs \<longrightarrow> stamped_by N esize (ew_slot s')) s"
proof -
  let ?n = "nat (max 1 m)"
  obtain p d where p: "c_daos_eq_poll V (ew_eqh s) (if w then 1 else 0) (if w then tm else DAOS_EQ_NOWAIT) ?n (lib_state (ew_sys s)) = (p, d)"
    by (metis surj_pair)
  have "stamped_by N esize (sl\<lparr>sl_buf := overlay (sl_buf sl) 0 (pl_img p)\<rparr>)"
    if "harvest ?n (pl_rc p) (pl_events p) = Inr xs" "addr \<in> set xs" "\<not> length (sl_buf sl) < length (pl_img p)" for xs sl
  proof -
    have "Some addr \<in> set (pl_events p)" using harvest_mem that(1,2) by blast
    with assms p have "length (pl_img p) = N" "esize < N \<longrightarrow> drop esize (pl_img p) \<noteq> take (N - esize) CANARY"
      unfolding completes_def by blast+
    with that(3) take_overlay [of "pl_img p" "sl_buf sl"] show ?thesis by (auto simp: stamped_by_def length_overlay)
  qed
  with p show ?thesis
    by (auto simp: poll_def Let_def wp_bind wp_get_s wp_on_c wp_store_event wp_put_s wp_raise wp_of_sum wp_store_dest split: sum.splits)
qed

lemma poll_loop_stamps:
  assumes "completes N esize addr"
  shows "wp (poll_loop V n) (\<lambda>r s'. \<forall>xs. r = Inr xs \<longrightarrow> addr \<in> set xs \<longrightarrow> stamped_by N esize (ew_slot s')) s"
proof (induction n arbitrary: s)
  case (Suc n)
  show ?case
    unfolding poll_loop.simps
    by (rule wp_bindI [OF poll_stamps [OF assms]]) (use Suc in \<open>auto simp: wp_ret\<close>)
qed (simp only: poll_loop.simps wp_ret, simp)

lemma guard_catches:
  assumes "stamped_by N esize sl" and "sl_canary_off sl = Some esize" and "length (sl_buf sl) = esize + length CANARY" and "canary_ok sl"
  shows "N \<le> esize"
proof (rule ccontr)
  assume n: "\<not> N \<le> esize"
  have N: "N - esize \<le> length CANARY" using assms(1,3) unfolding stamped_by_def by linarith
  have "drop esize (take N (sl_buf sl)) = take (N - esize) (take (length CANARY) (drop esize (sl_buf sl)))"
    using N by (simp add: drop_take min_def)
  also have "\<dots> = take (N - esize) CANARY" using assms(2,4) by (simp add: canary_ok_def)
  finally show False using assms(1) n by (simp add: stamped_by_def)
qed

lemma verify_read_guards:
  assumes "completes N esize addr" and "sl_canary_off (ew_slot s) = Some esize" and "length (sl_buf (ew_slot s)) = esize + length CANARY"
  shows "wp (verify_read L V addr obj len) (\<lambda>r s'. \<forall>got. r = Inr got \<longrightarrow> N \<le> esize \<and> got = len) s"
proof -
  have pre: "wp (async_read_init len (replicate len 0)) (\<lambda>r s1. calm s s1) s" "\<And>s1. wp (submit_read L V obj 0 len addr) (\<lambda>r s2. calm s1 s2) s1"
    by (auto intro!: calm_wp calm_prims calm_submit)
  show ?thesis
    unfolding verify_read_def
  proof (rule wp_bindI [OF pre(1)], goal_cases)
    case (2 u s1)
    note c1 = 2
    show ?case
    proof (rule wp_bindI [OF pre(2)], goal_cases)
      case (2 v s2)
      have "calm s s2" using c1 2 cs.R_trans by blast
      have loop: "wp (poll_loop V 2000) (\<lambda>r s3. (\<forall>xs. r = Inr xs \<longrightarrow> addr \<in> set xs \<longrightarrow> stamped_by N esize (ew_slot s3)) \<and> calm s s3) s2"
        by (rule wp_use [OF poll_loop_stamps [OF assms(1)]], rule calm_wp [OF calm_poll_loop])
          (use \<open>calm s s2\<close> cs.R_trans in blast)
      show ?case
      proof (rule wp_bindI [OF loop], goal_cases)
        case (2 xs s3)
        then have "sl_canary_off (ew_slot s3) = Some esize" "length (sl_buf (ew_slot s3)) = esize + length CANARY"
          using assms(2,3) by (simp_all add: calm_def)
        with 2 guard_catches [of N esize "ew_slot s3"] show ?case
          by (auto simp: wp_raise wp_bind wp_get_s wp_ret check_read_def)
      qed simp
    qed simp
  qed simp
qed

lemma body_guards:
  assumes "completes N (fst esize) addr" and "sl_canary_off (ew_slot s) = Some (fst esize)"
    and "length (sl_buf (ew_slot s)) = fst esize + length CANARY"
  shows "wp (verify_body L V esize addr path len) (\<lambda>r s'. \<forall>info. r = Inr info \<longrightarrow> N \<le> fst esize \<and> bytes_read info = len) s"
proof -
  have fin: "wp (finally_io (verify_read L V addr obj len) (on_sys (on_lib (close_obj L obj))))
      (\<lambda>r s'. \<forall>got. r = Inr got \<longrightarrow> N \<le> fst esize \<and> got = len) s1" if "ew_slot s1 = ew_slot s" for obj s1
    unfolding wp_finally
    by (rule wp_mono [OF verify_read_guards [OF assms(1)]])
      (use assms(2,3) that in \<open>auto simp: wp_on_sys wp_on_lib intro!: wp_close_obj\<close>)
  show ?thesis
    unfolding verify_body_def wp_bind [of "get_s _"] wp_get_s sum.case
    by (auto simp: wp_raise wp_bind [of "on_sys (on_lib (open_rdonly _ _))"] wp_on_sys wp_on_lib wp_bind [of "finally_io _ _"] wp_ret
        intro!: wp_open_rdonly wp_mono [OF fin] split: sum.splits)
qed

text \<open>The slot of a new event: allocated with its guard; the library may store into it.\<close>

lemma new_event_rule:
  "wp (new_event V esize True) (\<lambda>r s'. ehs s' = ehs s \<and> efs s' = efs s \<and> ew_eqh s' = ew_eqh s \<and>
     (r = Inr () \<longrightarrow> sl_canary_off (ew_slot s') = Some esize \<and> length (sl_buf (ew_slot s')) = esize + length CANARY)) s"
proof (cases "slot_init esize True")
  case (Inl e)
  then show ?thesis by (simp add: new_event_def wp_bind wp_of_sum)
next
  case (Inr sl)
  then have sl: "sl_canary_off sl = Some esize" "length (sl_buf sl) = esize + length CANARY"
    by (auto simp: slot_init_def Let_def split: if_splits)
  obtain rc img d where i: "c_daos_event_init V (ew_eqh s) (lib_state (ew_sys s)) = ((rc, img), d)" by (metis surj_pair)
  with init_frame [OF i] sl Inr show ?thesis
    by (simp add: new_event_def wp_bind wp_of_sum wp_put_s wp_get_s wp_on_c wp_store_event wp_chk length_overlay)
qed

lemma swallow_fini: "keeps calm (swallow (fini_event V))"
  unfolding swallow_def by (auto intro!: cs.keeps_rules calm_fini)

definition abi_post :: "nat \<Rightarrow> nat \<Rightarrow> nat \<Rightarrow> 'd evw \<Rightarrow> exn + abi_info \<Rightarrow> 'd evw \<Rightarrow> bool" where
  "abi_post N esize len s r s' \<longleftrightarrow> ehs s' = ehs s \<and> efs s' = efs s \<and> (\<forall>info. r = Inr info \<longrightarrow> N \<le> esize \<and> bytes_read info = len)"

lemma verify_inner:
  assumes "completes N (fst esize) addr"
  shows "wp (bind_io (new_event V (fst esize) True) (\<lambda>_.
        finally_io (verify_body L V esize addr path len) (swallow (fini_event V)))) (abi_post N (fst esize) len s) s"
proof (rule wp_bindI [OF new_event_rule], goal_cases)
  case (1 e s1)
  then show ?case by (simp add: abi_post_def)
next
  case (2 u s1)
  have "wp (verify_body L V esize addr path len) (\<lambda>r s2. (\<forall>info. r = Inr info \<longrightarrow> N \<le> fst esize \<and> bytes_read info = len) \<and>
      ehs s2 = ehs s \<and> efs s2 = efs s) s1"
    by (rule wp_use [OF body_guards [OF assms]], use 2 in simp, use 2 in simp, rule wp_mono [OF body_balanced]) (use 2 in auto)
  then show ?case
    unfolding wp_finally
  proof (rule wp_mono, goal_cases)
    case (1 r s2)
    show ?case
      by (rule calm_wp [OF swallow_fini]) (use 1 in \<open>auto simp: abi_post_def calm_def split: sum.splits\<close>)
  qed
qed

lemma verify_abi_rule:
  assumes "completes N (fst esize) addr" and "ew_eqh s = 0"
  shows "wp (verify_abi L V esize addr path len) (\<lambda>r s'. abi_post N (fst esize) len s r s' \<and> ew_eqh s' = 0) s"
proof -
  have close: "wp (eq_close V True) (\<lambda>r s'. r = Inr () \<and> ehs s' = ehs s1 \<and> efs s' = efs s1 \<and> ew_eqh s' = 0) s1" for s1
    using destroy_frame [of "ew_eqh s1" DAOS_EQ_DESTROY_FORCE "lib_state (ew_sys s1)"]
    by (auto simp: eq_close_def wp_bind wp_get_s wp_on_c wp_put_s wp_ret split: prod.splits)
  have init: "wp (eq_init V) (\<lambda>r s'. ehs s' = ehs s \<and> efs s' = efs s \<and> (\<forall>e. r = Inl e \<longrightarrow> ew_eqh s' = 0)) s"
    using create_frame [of "lib_state (ew_sys s)"] assms(2)
    by (auto simp: eq_init_def wp_bind wp_on_c wp_chk wp_put_s split: prod.splits)
  show ?thesis
    unfolding verify_abi_def
  proof (rule wp_bindI [OF init], goal_cases)
    case (1 e s1)
    then show ?case by (simp add: abi_post_def)
  next
    case (2 u s1)
    show ?case
      unfolding wp_finally
      by (rule wp_mono [OF verify_inner [OF assms(1)]], rule wp_mono [OF close]) (use 2 in \<open>auto simp: abi_post_def split: sum.splits\<close>)
  qed
qed

end

section \<open>The promise\<close>

text \<open>
  C26: the start-up check is sound: suppose the library stores events of \<open>N\<close> bytes, and the bytes past our
  allocation differ from the guard pattern. If the check lets the process go on, then \<open>N\<close> fits the
  allocation and the probe was read in full. On every path, also after errors, the handle and the
  event queue are closed again; a layout error ends the process and never escapes as an exception.
\<close>

theorem verify_abi_sound:
  assumes "event_lib L fs hs V"
    and "\<And>h w tm n d p d'. c_daos_eq_poll V h w tm n d = (p, d') \<Longrightarrow> Some addr \<in> set (pl_events p) \<Longrightarrow>
      length (pl_img p) = N \<and> (fst esize < N \<longrightarrow> drop (fst esize) (pl_img p) \<noteq> take (N - fst esize) CANARY)"
    and "ew_eqh s = 0" and "verify_abi_or_die L V esize addr path len s = (r, s')"
  shows "(\<forall>info. r = Inr (Some info) \<longrightarrow> N \<le> fst esize \<and> bytes_read info = len) \<and> r \<noteq> Inl RuntimeError \<and>
    ew_eqh s' = 0 \<and> hs (lib_state (ew_sys s')) = hs (lib_state (ew_sys s)) \<and> fs (lib_state (ew_sys s')) = fs (lib_state (ew_sys s))"
proof -
  note el = assms(1)
  have c: "event_lib.completes V N (fst esize) addr" using assms(2) by (simp add: event_lib.completes_def [OF el])
  have "wp (verify_abi_or_die L V esize addr path len) (\<lambda>r s'. (\<forall>info. r = Inr (Some info) \<longrightarrow> N \<le> fst esize \<and> bytes_read info = len) \<and>
      r \<noteq> Inl RuntimeError \<and> ew_eqh s' = 0 \<and> hs (lib_state (ew_sys s')) = hs (lib_state (ew_sys s)) \<and> fs (lib_state (ew_sys s')) = fs (lib_state (ew_sys s))) s"
    unfolding verify_abi_or_die_def wp_catch wp_bind
    by (rule wp_mono [OF event_lib.verify_abi_rule [OF el c assms(3), of path len]])
      (auto simp: event_lib.abi_post_def [OF el] wp_ret split: sum.splits)
  from wpD [OF this assms(4)] show ?thesis .
qed

section \<open>A reference library\<close>

text \<open>Events of \<open>N\<close> bytes, all zero; the first poll reports the read as complete.\<close>

definition ref_ev :: "nat \<Rightarrow> nat \<Rightarrow> memfs evlib" where
  "ref_ev N addr = \<lparr>c_daos_eq_create = (\<lambda>d. ((0, 1), d)), c_daos_eq_destroy = (\<lambda>_ _ d. (0, d)),
     c_daos_event_init = (\<lambda>_ d. ((0, []), d)), c_daos_event_fini = (\<lambda>d. ((0, []), d)), c_daos_event_abort = (\<lambda>d. (0, d)),
     c_dfs_read = (\<lambda>_ _ _ _ _ d. (0, d)),
     c_daos_eq_poll = (\<lambda>_ _ _ _ d. (\<lparr>pl_rc = 1, pl_events = [Some addr], pl_img = replicate N 0, pl_size = None, pl_data = []\<rparr>, d))\<rparr>"

interpretation refev: event_lib mem_dfs mfiles mhandles "ref_ev N addr" for N addr
  by unfold_locales (auto simp: ref_ev_def mem_dfs_def)

definition ev_world :: "memfs evw" where
  "ev_world = \<lparr>ew_sys = \<lparr>lib_state = mem_init\<lparr>mfiles := [''/p'' \<mapsto> [1, 2]]\<rparr>, daos_inited = True, sys_valid = True, base_handle = Some 0\<rparr>,
     ew_eqh = 0, ew_slot = \<lparr>sl_buf = [], sl_canary_off = None\<rparr>, ew_size = 0, ew_dest = []\<rparr>"

lemma ref_slot: "slot_init 176 True = Inr \<lparr>sl_buf = replicate 176 0 @ CANARY, sl_canary_off = Some 176\<rparr>"
  by (simp add: slot_init_def sizeof_DaosEvent_def)

lemma ref_overlay: "overlay (replicate 176 0 @ CANARY) 0 (replicate 176 0) = replicate 176 0 @ CANARY"
  by (simp add: overlay_def)

lemma ref_canary: "canary_ok \<lparr>sl_buf = replicate 176 0 @ CANARY, sl_canary_off = Some 176\<rparr>"
  by (simp add: canary_ok_def)

lemma ref_error: "ev_error \<lparr>sl_buf = replicate 176 0 @ CANARY, sl_canary_off = off\<rparr> = 0"
proof -
  have "un_le (replicate n 0) = 0" for n by (induction n) simp_all
  then show ?thesis by (simp add: ev_error_def Let_def)
qed

lemma poll_loop_first: "poll_loop V 2000 = bind_io (poll V 4 True 1000) (\<lambda>fin. if fin \<noteq> [] then ret fin else poll_loop V 1999)"
proof -
  have e: "(2000 :: nat) = Suc 1999" by simp
  show ?thesis unfolding e by (rule poll_loop.simps(2))
qed

lemma ref_harvest: "harvest 4 1 [Some a] = Inr [a]"
  by (simp add: harvest_def Let_def List.map_filter_simps numeral_eq_Suc)

lemma ref_accepts:
  "\<exists>s'. verify_abi_or_die mem_dfs (ref_ev 176 7) (probe_event_size None) 7 ''/p'' 2 ev_world =
     (Inr (Some \<lparr>event_size = 176, size_from_shim = False, bytes_read = 2, abi_canary_ok = True, poll_identity_ok = True\<rparr>), s')"
proof -
  have e: "probe_event_size None = (176, False)" by (simp add: probe_event_size_def sizeof_DaosEvent_def)
  show ?thesis unfolding e
    by (simp add: verify_abi_or_die_def verify_abi_def verify_body_def verify_read_def eq_init_def new_event_def ref_slot fini_event_def
        eq_close_def submit_read_def async_read_init_def check_read_def poll_loop_first poll_def ref_harvest
        ref_overlay ref_canary ref_error on_c_def on_sys_def on_lib_def store_event_def store_dest_def store_into_def chk_def swallow_def
        base_def open_rdonly_def open_obj_def close_obj_def chk_rc2_def ignore_rc_def mem_dfs_def mem_dfs_defs mem_init_def
        ref_ev_def ev_world_def io_defs get_s_def put_s_def Let_def)
qed

theorem verify_abi_sound_witness:
  "\<exists>s'. verify_abi_or_die mem_dfs (ref_ev 176 7) (probe_event_size None) 7 ''/p'' 2 ev_world =
     (Inr (Some \<lparr>event_size = 176, size_from_shim = False, bytes_read = 2, abi_canary_ok = True, poll_identity_ok = True\<rparr>), s') \<and> ew_eqh s' = 0 \<and>
     mhandles (lib_state (ew_sys s')) = mhandles (lib_state (ew_sys ev_world))"
proof -
  obtain s' where run: "verify_abi_or_die mem_dfs (ref_ev 176 7) (probe_event_size None) 7 ''/p'' 2 ev_world =
     (Inr (Some \<lparr>event_size = 176, size_from_shim = False, bytes_read = 2, abi_canary_ok = True, poll_identity_ok = True\<rparr>), s')" using ref_accepts by blast
  have "ew_eqh s' = 0 \<and> mhandles (lib_state (ew_sys s')) = mhandles (lib_state (ew_sys ev_world))"
    using verify_abi_sound [OF refev.event_lib_axioms _ _ run, of 176]
    by (auto simp: ref_ev_def ev_world_def probe_event_size_def sizeof_DaosEvent_def)
  with run show ?thesis by blast
qed

end
