(* ===== verification/Py_Json.thy ===== *)
theory Py_Json
  imports Sha256
begin

text \<open>
  Python's \<^verbatim>\<open>json.dumps\<close> with the separators \<^verbatim>\<open>(",", ":")\<close> and \<^verbatim>\<open>json.loads\<close>, which write and read the metadata
  of the GPU-direct backend, with the round trip. Strings are ASCII: an escape of a character above
  127 is refused, since no name the program writes has one. A number with a fraction or an exponent
  keeps its text.
\<close>

datatype jval =
    JsNull
  | JsBool bool
  | JsInt int
  | JsFloat string
  | JsStr string
  | JsArr "jval list"
  | JsObj "(string \<times> jval) list"

section \<open>Numbers\<close>

definition digit :: "nat \<Rightarrow> char" where
  "digit n = ''0123456789'' ! (n mod 10)"

definition is_digit :: "char \<Rightarrow> bool" where
  "is_digit c \<longleftrightarrow> 48 \<le> (of_char c :: nat) \<and> (of_char c :: nat) \<le> 57"

fun nat_str :: "nat \<Rightarrow> string" where
  "nat_str n = (if n < 10 then [digit n] else nat_str (n div 10) @ [digit n])"

declare nat_str.simps [simp del]

definition int_str :: "int \<Rightarrow> string" where
  "int_str i = (if i < 0 then CHR ''-'' # nat_str (nat (- i)) else nat_str (nat i))"

definition str_nat :: "string \<Rightarrow> nat" where
  "str_nat ds = foldl (\<lambda>v c. 10 * v + (of_char c - 48)) 0 ds"

section \<open>Strings\<close>

definition quote :: char where "quote = CHR 0x22"

definition backslash :: char where "backslash = CHR 0x5C"

text \<open>The escapes with a letter of their own: the letter and the character it stands for.\<close>

definition letter_escapes :: "(char \<times> char) list" where
  "letter_escapes = [(quote, quote), (backslash, backslash), (CHR ''n'', CHR 0x0A), (CHR ''r'', CHR 0x0D),
     (CHR ''t'', CHR 0x09), (CHR ''f'', CHR 0x0C), (CHR ''b'', CHR 0x08)]"

definition esc_char :: "char \<Rightarrow> string" where
  "esc_char c = (case map_of (map (\<lambda>(l, x). (x, l)) letter_escapes) c of
     Some l \<Rightarrow> [backslash, l]
   | None \<Rightarrow> if 32 \<le> (of_char c :: nat) \<and> (of_char c :: nat) \<le> 126 then [c]
       else [backslash, CHR ''u'', CHR ''0'', CHR ''0'', hex_digit (of_char c div 16), hex_digit (of_char c)])"

definition dump_string :: "string \<Rightarrow> string" where
  "dump_string s = quote # concat (map esc_char s) @ [quote]"

definition hex_val :: "char \<Rightarrow> nat option" where
  "hex_val c = (let n = of_char c in
     if 48 \<le> n \<and> n \<le> 57 then Some (n - 48)
     else if 97 \<le> n \<and> n \<le> 102 then Some (n - 87)
     else if 65 \<le> n \<and> n \<le> 70 then Some (n - 55) else None)"

definition unescape :: "char \<Rightarrow> char option" where
  "unescape l = (if l = CHR ''/'' then Some l else map_of letter_escapes l)"

text \<open>The text after the opening quote: the string and what follows the closing quote.\<close>

fun p_string :: "string \<Rightarrow> (string \<times> string) option" where
  "p_string [] = None"
| "p_string (c # r) =
     (if c = quote then Some ([], r)
      else if c = backslash then
        (case r of
           [] \<Rightarrow> None
         | l # t \<Rightarrow>
             if l = CHR ''u'' then
               (case t of
                  a # b # x # y # u \<Rightarrow>
                    (case (hex_val a, hex_val b, hex_val x, hex_val y) of
                       (Some 0, Some 0, Some m, Some n) \<Rightarrow>
                         if 8 \<le> m then None
                         else map_option (\<lambda>(s, w). (char_of (16 * m + n) # s, w)) (p_string u)
                     | _ \<Rightarrow> None)
                | _ \<Rightarrow> None)
             else (case unescape l of
                 None \<Rightarrow> None
               | Some x \<Rightarrow> map_option (\<lambda>(s, w). (x # s, w)) (p_string t)))
      else if (of_char c :: nat) < 32 then None
      else map_option (\<lambda>(s, w). (c # s, w)) (p_string r))"

section \<open>Writing\<close>

fun join :: "string \<Rightarrow> string list \<Rightarrow> string" where
  "join sep [] = []"
| "join sep [x] = x"
| "join sep (x # y # ys) = x @ sep @ join sep (y # ys)"

fun dumps :: "jval \<Rightarrow> string" where
  "dumps JsNull = ''null''"
| "dumps (JsBool b) = (if b then ''true'' else ''false'')"
| "dumps (JsInt i) = int_str i"
| "dumps (JsFloat t) = t"
| "dumps (JsStr s) = dump_string s"
| "dumps (JsArr vs) = ''['' @ join '','' (map dumps vs) @ '']''"
| "dumps (JsObj kvs) = ''{'' @ join '','' (map (\<lambda>kv. dump_string (fst kv) @ '':'' @ dumps (snd kv)) kvs) @ ''}''"

section \<open>Reading\<close>

definition ws :: "string \<Rightarrow> string" where
  "ws s = dropWhile (\<lambda>c. c \<in> {CHR '' '', CHR 0x09, CHR 0x0A, CHR 0x0D}) s"

text \<open>The number of characters of a fraction and of an exponent, 0 if there is none.\<close>

definition frac_len :: "string \<Rightarrow> nat" where
  "frac_len s = (case s of
     c # r \<Rightarrow> if c = CHR ''.'' \<and> takeWhile is_digit r \<noteq> [] then Suc (length (takeWhile is_digit r)) else 0
   | [] \<Rightarrow> 0)"

definition exp_len :: "string \<Rightarrow> nat" where
  "exp_len s = (case s of
     c # r \<Rightarrow>
       if c = CHR ''e'' \<or> c = CHR ''E'' then
         (let k = (if take 1 r = ''+'' \<or> take 1 r = ''-'' then 1 else 0); ds = takeWhile is_digit (drop k r)
          in if ds \<noteq> [] then Suc k + length ds else 0)
       else 0
   | [] \<Rightarrow> 0)"

text \<open>The digits of a number; a leading zero stands alone.\<close>

definition p_digits :: "string \<Rightarrow> string" where
  "p_digits r = (let ds = takeWhile is_digit r in if take 1 ds = ''0'' then ''0'' else ds)"

definition p_number :: "string \<Rightarrow> (jval \<times> string) option" where
  "p_number s =
     (let neg = (take 1 s = ''-''); r = (if neg then drop 1 s else s); ds = p_digits r; t = drop (length ds) r;
          f = frac_len t; e = exp_len (drop f t)
      in if ds = [] then None
         else if f + e = 0 then Some (JsInt (if neg then - int (str_nat ds) else int (str_nat ds)), t)
         else Some (JsFloat (take (length s - length t + f + e) s), drop (f + e) t))"

definition literals :: "(string \<times> jval) list" where
  "literals = [(''null'', JsNull), (''true'', JsBool True), (''false'', JsBool False), (''NaN'', JsFloat ''NaN''),
     (''Infinity'', JsFloat ''Infinity''), (''-Infinity'', JsFloat ''-Infinity'')]"

definition p_literal :: "string \<Rightarrow> (jval \<times> string) option" where
  "p_literal s = (case filter (\<lambda>(t, v). take (length t) s = t) literals of
     [] \<Rightarrow> None | (t, v) # _ \<Rightarrow> Some (v, drop (length t) s))"

text \<open>The recursive descent. One unit of fuel per nested call; \<open>loads\<close> gives two per character.\<close>

definition expect :: "char \<Rightarrow> string \<Rightarrow> string option" where
  "expect c s = (case ws s of [] \<Rightarrow> None | x # r \<Rightarrow> if x = c then Some r else None)"

fun p_value :: "nat \<Rightarrow> string \<Rightarrow> (jval \<times> string) option"
  and p_elems :: "nat \<Rightarrow> string \<Rightarrow> (jval list \<times> string) option"
  and p_pairs :: "nat \<Rightarrow> string \<Rightarrow> ((string \<times> jval) list \<times> string) option" where
  "p_value 0 s = None"
| "p_value (Suc n) s =
     (case ws s of
        [] \<Rightarrow> None
      | c # r \<Rightarrow>
          if c = quote then map_option (\<lambda>(x, t). (JsStr x, t)) (p_string r)
          else if c = CHR ''['' then
            (case expect (CHR '']'') r of
               Some t \<Rightarrow> Some (JsArr [], t)
             | None \<Rightarrow> map_option (\<lambda>(vs, t). (JsArr vs, t)) (p_elems n r))
          else if c = CHR ''{'' then
            (case expect (CHR ''}'') r of
               Some t \<Rightarrow> Some (JsObj [], t)
             | None \<Rightarrow> map_option (\<lambda>(kvs, t). (JsObj kvs, t)) (p_pairs n r))
          else (case p_literal (c # r) of Some x \<Rightarrow> Some x | None \<Rightarrow> p_number (c # r)))"
| "p_elems 0 s = None"
| "p_elems (Suc n) s =
     (case p_value n s of
        None \<Rightarrow> None
      | Some (v, t) \<Rightarrow>
          (case expect (CHR '','') t of
             Some u \<Rightarrow> map_option (\<lambda>(vs, w). (v # vs, w)) (p_elems n u)
           | None \<Rightarrow> map_option (\<lambda>u. ([v], u)) (expect (CHR '']'') t)))"
| "p_pairs 0 s = None"
| "p_pairs (Suc n) s =
     (case expect quote s of
        None \<Rightarrow> None
      | Some r \<Rightarrow>
          (case p_string r of
             None \<Rightarrow> None
           | Some (k, t) \<Rightarrow>
               (case expect (CHR '':'') t of
                  None \<Rightarrow> None
                | Some u \<Rightarrow>
                    (case p_value n u of
                       None \<Rightarrow> None
                     | Some (v, w) \<Rightarrow>
                         (case expect (CHR '','') w of
                            Some z \<Rightarrow> map_option (\<lambda>(kvs, y). ((k, v) # kvs, y)) (p_pairs n z)
                          | None \<Rightarrow> map_option (\<lambda>z. ([(k, v)], z)) (expect (CHR ''}'') w))))))"

text \<open>A \<^verbatim>\<open>JSONDecodeError\<close> is a \<^verbatim>\<open>ValueError\<close>.\<close>

definition loads :: "string \<Rightarrow> exn + jval" where
  "loads s = (case p_value (Suc (2 * length s)) s of
     Some (v, t) \<Rightarrow> if ws t = [] then Inr v else Inl ValueError
   | None \<Rightarrow> Inl ValueError)"

section \<open>Numbers read back\<close>

lemma of_char_digit: "of_char (digit n) = (48 + n mod 10 :: nat)"
proof -
  have "m < 10 \<Longrightarrow> m \<in> {0, 1, 2, 3, 4, 5, 6, 7, 8, 9}" for m :: nat by (simp only: insert_iff empty_iff) presburger
  from this [of "n mod 10"] have "n mod 10 \<in> {0, 1, 2, 3, 4, 5, 6, 7, 8, 9}" by simp
  then show ?thesis unfolding digit_def by (elim insertE emptyE) simp_all
qed

lemma is_digit_digit [simp]: "is_digit (digit n)"
  by (simp add: is_digit_def of_char_digit)

lemma nat_str_digits: "c \<in> set (nat_str n) \<Longrightarrow> is_digit c"
  by (induction n rule: nat_str.induct) (subst (asm) (2) nat_str.simps, auto split: if_splits)

lemma nat_str_ne [simp]: "nat_str n \<noteq> []"
  by (subst nat_str.simps) simp

lemma str_nat_snoc: "str_nat (ds @ [c]) = 10 * str_nat ds + (of_char c - 48)"
  by (simp add: str_nat_def)

lemma str_nat_nat_str: "str_nat (nat_str n) = n"
proof (induction n rule: nat_str.induct)
  case (1 n)
  show ?case
  proof (cases "n < 10")
    case True
    then show ?thesis by (subst nat_str.simps) (simp add: str_nat_def of_char_digit)
  next
    case False
    have "str_nat (nat_str n) = 10 * (n div 10) + n mod 10"
      using 1 [OF False] False by (subst nat_str.simps) (simp add: str_nat_snoc of_char_digit)
    then show ?thesis by simp
  qed
qed

lemma nat_str_zero: "take 1 (nat_str n) = ''0'' \<Longrightarrow> nat_str n = ''0''"
proof (induction n rule: nat_str.induct)
  case (1 n)
  show ?case
  proof (cases "n < 10")
    case True
    then show ?thesis using 1(2) by (subst (asm) nat_str.simps, subst nat_str.simps) simp
  next
    case False
    have e: "nat_str n = nat_str (n div 10) @ [digit n]" using False by (subst nat_str.simps) simp
    then have "nat_str (n div 10) = ''0''" using 1 False by (cases "nat_str (n div 10)") simp_all
    then have "n div 10 = 0" using str_nat_nat_str [of "n div 10"] by (simp add: str_nat_def)
    with False show ?thesis by simp
  qed
qed

text \<open>What may follow a value in printed text.\<close>

definition delim :: "string \<Rightarrow> bool" where
  "delim s \<longleftrightarrow> s = [] \<or> hd s = CHR '','' \<or> hd s = CHR '']'' \<or> hd s = CHR ''}''"

lemma delim_number: "delim s \<Longrightarrow> takeWhile is_digit s = [] \<and> frac_len s = 0 \<and> exp_len s = 0"
  by (cases s) (auto simp: delim_def is_digit_def frac_len_def exp_len_def)

lemma take1_append: "xs \<noteq> [] \<Longrightarrow> take 1 (xs @ ys) = take 1 xs"
  by (cases xs) simp_all

lemma nat_str_not_minus: "take 1 (nat_str n @ rest) \<noteq> ''-''"
proof
  assume "take 1 (nat_str n @ rest) = ''-''"
  then have "CHR ''-'' \<in> set (nat_str n)" by (cases "nat_str n") auto
  from nat_str_digits [OF this] show False by (simp add: is_digit_def)
qed

lemma p_number_int_str:
  assumes "delim rest"
  shows "p_number (int_str i @ rest) = Some (JsInt i, rest)"
proof -
  have d: "p_digits (nat_str n @ rest) = nat_str n" for n
    using delim_number [OF assms] nat_str_digits nat_str_zero [of n] by (auto simp: p_digits_def Let_def takeWhile_append2)
  show ?thesis
    using delim_number [OF assms] nat_str_not_minus [of "nat i" rest]
    by (cases "i < 0") (simp_all add: p_number_def int_str_def Let_def d str_nat_nat_str)
qed

section \<open>Strings read back\<close>

definition ascii :: "string \<Rightarrow> bool" where
  "ascii s \<longleftrightarrow> (\<forall>c \<in> set s. (of_char c :: nat) < 128)"

lemma hex_val_hex: "hex_val (hex_digit n) = Some (n mod 16)"
proof -
  have "m < 16 \<Longrightarrow> m \<in> {0, 1, 2, 3, 4, 5, 6, 7, 8, 9, 10, 11, 12, 13, 14, 15}" for m :: nat by (simp only: insert_iff empty_iff) presburger
  from this [of "n mod 16"] have "n mod 16 \<in> {0, 1, 2, 3, 4, 5, 6, 7, 8, 9, 10, 11, 12, 13, 14, 15}" by simp
  then show ?thesis unfolding hex_digit_def by (elim insertE emptyE) (simp_all add: hex_val_def)
qed

lemma p_string_esc:
  assumes "(of_char c :: nat) < 128"
  shows "p_string (esc_char c @ rest) = map_option (\<lambda>(s, w). (c # s, w)) (p_string rest)"
proof (cases "map_of (map (\<lambda>(l, x). (x, l)) letter_escapes) c")
  case (Some l)
  then show ?thesis
    by (auto simp: esc_char_def letter_escapes_def unescape_def quote_def backslash_def split: if_splits)
next
  case None
  then have ne: "c \<noteq> quote" "c \<noteq> backslash" by (auto simp: letter_escapes_def quote_def backslash_def)
  show ?thesis
  proof (cases "32 \<le> (of_char c :: nat) \<and> (of_char c :: nat) \<le> 126")
    case True
    then show ?thesis using None ne by (simp add: esc_char_def)
  next
    case False
    have m: "of_char c div 16 mod 16 < (8 :: nat)" using assms by simp
    have v: "hex_val CHR ''0'' = Some 0" by (simp add: hex_val_def)
    have n: "16 * (of_char c div 16 mod 16) + of_char c mod 16 = (of_char c :: nat)" using assms by simp
    have q: "backslash \<noteq> quote" by (simp add: backslash_def quote_def)
    show ?thesis using None False m q ne by (simp add: esc_char_def v hex_val_hex n)
  qed
qed

lemma p_string_dump: "ascii s \<Longrightarrow> p_string (concat (map esc_char s) @ quote # rest) = Some (s, rest)"
  by (induction s) (auto simp: p_string_esc ascii_def)

section \<open>Values read back\<close>

fun wf_json :: "jval \<Rightarrow> bool" where
  "wf_json (JsFloat t) \<longleftrightarrow> False"
| "wf_json (JsStr s) \<longleftrightarrow> ascii s"
| "wf_json (JsArr vs) \<longleftrightarrow> (\<forall>v \<in> set vs. wf_json v)"
| "wf_json (JsObj kvs) \<longleftrightarrow> (\<forall>kv \<in> set kvs. ascii (fst kv) \<and> wf_json (snd kv))"
| "wf_json _ \<longleftrightarrow> True"

text \<open>The first character of printed text decides how it is read.\<close>

lemma nat_str_head: "\<exists>c r. nat_str n = c # r \<and> is_digit c"
  using nat_str_digits [of "hd (nat_str n)" n] by (cases "nat_str n") simp_all

lemma int_str_head: "\<exists>c r. int_str i = c # r \<and> (c = CHR ''-'' \<and> r \<noteq> [] \<and> is_digit (hd r) \<or> is_digit c)"
proof (cases "i < 0")
  case True
  then show ?thesis using nat_str_head [of "nat (- i)"] by (auto simp: int_str_def)
next
  case False
  then show ?thesis using nat_str_head [of "nat i"] by (auto simp: int_str_def)
qed

lemma digit_facts:
  assumes "is_digit c"
  shows "c \<noteq> quote" "c \<noteq> CHR ''[''" "c \<noteq> CHR ''{''" "c \<noteq> CHR '']''" "c \<noteq> CHR ''}''" "c \<noteq> CHR ''n''" "c \<noteq> CHR ''t''" "c \<noteq> CHR ''f''"
    "c \<noteq> CHR ''N''" "c \<noteq> CHR ''I''" "c \<noteq> CHR '' ''" "c \<noteq> CHR 0x09" "c \<noteq> CHR 0x0A" "c \<noteq> CHR 0x0D" "c \<noteq> CHR ''-''"
proof -
  have n: "x \<noteq> c" if "(of_char x :: nat) < 48 \<or> 57 < (of_char x :: nat)" for x using assms that by (auto simp: is_digit_def)
  show "c \<noteq> quote" "c \<noteq> CHR ''[''" "c \<noteq> CHR ''{''" "c \<noteq> CHR '']''" "c \<noteq> CHR ''}''" "c \<noteq> CHR ''n''" "c \<noteq> CHR ''t''" "c \<noteq> CHR ''f''"
    "c \<noteq> CHR ''N''" "c \<noteq> CHR ''I''" "c \<noteq> CHR '' ''" "c \<noteq> CHR 0x09" "c \<noteq> CHR 0x0A" "c \<noteq> CHR 0x0D" "c \<noteq> CHR ''-''"
    by (rule n [symmetric], simp add: quote_def)+
qed

definition starts :: "char \<Rightarrow> bool" where
  "starts c \<longleftrightarrow> c \<noteq> CHR '' '' \<and> c \<noteq> CHR 0x09 \<and> c \<noteq> CHR 0x0A \<and> c \<noteq> CHR 0x0D \<and> c \<noteq> CHR '']'' \<and> c \<noteq> CHR ''}''"

lemma starts_facts: "starts CHR ''n''" "starts CHR ''t''" "starts CHR ''f''" "starts CHR ''-''" "starts CHR ''[''" "starts CHR ''{''" "starts quote"
  by (simp_all add: starts_def quote_def)

lemma starts_digit: "is_digit c \<Longrightarrow> starts c"
  using digit_facts [of c] by (simp add: starts_def)

lemma dumps_head: "wf_json v \<Longrightarrow> \<exists>c r. dumps v = c # r \<and> starts c"
proof (cases v)
  case (JsInt i)
  obtain c r where "int_str i = c # r" "c = CHR ''-'' \<or> is_digit c" using int_str_head by blast
  then show ?thesis using JsInt starts_digit [of c] starts_facts(4) by auto
next
  case (JsBool b)
  then show ?thesis by (cases b) (simp_all add: starts_facts)
qed (simp_all add: starts_facts dump_string_def)

lemma dumps_ws: "wf_json v \<Longrightarrow> ws (dumps v @ rest) = dumps v @ rest"
  by (drule dumps_head) (auto simp: ws_def starts_def)

lemma expect_hit [simp]: "c \<notin> {CHR '' '', CHR 0x09, CHR 0x0A, CHR 0x0D} \<Longrightarrow> expect c (c # r) = Some r"
  by (simp add: expect_def ws_def)

lemma expect_miss [simp]: "x \<noteq> c \<Longrightarrow> x \<notin> {CHR '' '', CHR 0x09, CHR 0x0A, CHR 0x0D} \<Longrightarrow> expect c (x # r) = None"
  by (simp add: expect_def ws_def)

lemma p_literal_other:
  assumes "c \<noteq> CHR ''n''" "c \<noteq> CHR ''t''" "c \<noteq> CHR ''f''" "c \<noteq> CHR ''N''" "c \<noteq> CHR ''I''" "c = CHR ''-'' \<Longrightarrow> take 1 r \<noteq> ''I''"
  shows "p_literal (c # r) = None"
  using assms by (cases "c = CHR ''-''"; cases r) (simp_all add: p_literal_def literals_def)

lemma p_literal_int: "p_literal (int_str i @ rest) = None"
proof -
  obtain c r where i: "int_str i = c # r" and c: "c = CHR ''-'' \<and> r \<noteq> [] \<and> is_digit (hd r) \<or> is_digit c"
    using int_str_head by blast
  have "p_literal (c # r @ rest) = None"
  proof (rule p_literal_other)
    assume "c = CHR ''-''"
    with c digit_facts(15) have "r \<noteq> []" "is_digit (hd r)" by blast+
    then show "take 1 (r @ rest) \<noteq> ''I''" using digit_facts(10) by (cases r) auto
  qed (use c digit_facts [of c] in auto)
  with i show ?thesis by simp
qed

lemma dumps_pos: "wf_json v \<Longrightarrow> 0 < length (dumps v)"
  by (drule dumps_head) auto

lemma p_elems_dumps:
  assumes "vs \<noteq> []" and "\<forall>v \<in> set vs. wf_json v"
    and "\<And>v f rest. v \<in> set vs \<Longrightarrow> delim rest \<Longrightarrow> length (dumps v) < f \<Longrightarrow> p_value f (dumps v @ rest) = Some (v, rest)"
    and "length (join '','' (map dumps vs)) + 1 < f"
  shows "p_elems f (join '','' (map dumps vs) @ CHR '']'' # rest) = Some (vs, rest)"
  using assms
proof (induction vs arbitrary: f)
  case (Cons v vs)
  then obtain n where f: "f = Suc n" by (cases f) simp_all
  show ?case
  proof (cases vs)
    case Nil
    have "p_value n (dumps v @ CHR '']'' # rest) = Some (v, CHR '']'' # rest)"
      using Cons.prems f Nil by (intro Cons.prems(3)) (simp_all add: delim_def)
    then show ?thesis by (simp add: f Nil)
  next
    case (Cons w ws)
    let ?t = "join '','' (map dumps vs) @ CHR '']'' # rest"
    have "p_value n (dumps v @ CHR '','' # ?t) = Some (v, CHR '','' # ?t)"
      using Cons.prems f Cons by (intro Cons.prems(3)) (simp_all add: delim_def)
    moreover have "p_elems n ?t = Some (vs, rest)"
      using Cons.prems f Cons dumps_pos [of v] by (intro Cons.IH) auto
    ultimately show ?thesis by (simp add: f Cons)
  qed
qed simp

lemma p_pairs_dumps:
  assumes "kvs \<noteq> []" and "\<forall>kv \<in> set kvs. ascii (fst kv) \<and> wf_json (snd kv)"
    and "\<And>kv f rest. kv \<in> set kvs \<Longrightarrow> delim rest \<Longrightarrow> length (dumps (snd kv)) < f \<Longrightarrow> p_value f (dumps (snd kv) @ rest) = Some (snd kv, rest)"
    and "length (join '','' (map (\<lambda>kv. dump_string (fst kv) @ '':'' @ dumps (snd kv)) kvs)) + 1 < f"
  shows "p_pairs f (join '','' (map (\<lambda>kv. dump_string (fst kv) @ '':'' @ dumps (snd kv)) kvs) @ CHR ''}'' # rest) = Some (kvs, rest)"
  using assms
proof (induction kvs arbitrary: f)
  case (Cons kv kvs)
  then obtain n where f: "f = Suc n" by (cases f) simp_all
  obtain k v where kv: "kv = (k, v)" by (cases kv)
  have q: "expect quote (quote # r) = Some r" for r by (simp add: quote_def)
  have k: "p_string (concat (map esc_char k) @ quote # r) = Some (k, r)" for r
    using Cons.prems kv by (intro p_string_dump) simp
  show ?case
  proof (cases kvs)
    case Nil
    have "p_value n (dumps v @ CHR ''}'' # rest) = Some (v, CHR ''}'' # rest)"
      using Cons.prems(3) [of kv "CHR ''}'' # rest" n] Cons.prems(4) f Nil kv by (simp add: delim_def)
    then show ?thesis by (simp add: f Nil kv dump_string_def q k)
  next
    case (Cons w ws)
    let ?t = "join '','' (map (\<lambda>kv. dump_string (fst kv) @ '':'' @ dumps (snd kv)) kvs) @ CHR ''}'' # rest"
    have "p_value n (dumps v @ CHR '','' # ?t) = Some (v, CHR '','' # ?t)"
      using Cons.prems(3) [of kv "CHR '','' # ?t" n] Cons.prems(4) f Cons kv by (simp add: delim_def)
    moreover have "p_pairs n ?t = Some (kvs, rest)"
      using Cons.prems f Cons by (intro Cons.IH) (auto simp: dump_string_def)
    ultimately show ?thesis by (simp add: f Cons kv dump_string_def q k)
  qed
qed simp

lemma join_head:
  assumes "xs \<noteq> []" and "\<forall>x \<in> set xs. x \<noteq> []"
  shows "\<exists>r. join sep xs @ t = hd (hd xs) # r"
proof (cases xs)
  case (Cons x ys)
  then show ?thesis using assms by (cases ys; cases x) auto
qed (use assms in simp)

lemma p_value_dumps: "wf_json v \<Longrightarrow> delim rest \<Longrightarrow> length (dumps v) < f \<Longrightarrow> p_value f (dumps v @ rest) = Some (v, rest)"
proof (induction v arbitrary: f rest)
  case JsNull
  then show ?case by (cases f) (simp_all add: ws_def quote_def p_literal_def literals_def)
next
  case (JsBool b)
  then show ?case by (cases f; cases b) (simp_all add: ws_def quote_def p_literal_def literals_def)
next
  case (JsInt i)
  obtain c r where i: "int_str i = c # r" "c = CHR ''-'' \<or> is_digit c" using int_str_head by blast
  then have "c \<noteq> quote" "c \<noteq> CHR ''[''" "c \<noteq> CHR ''{''" using digit_facts by (auto simp: quote_def)
  moreover have "ws (c # r @ rest) = c # r @ rest" using dumps_ws [of "JsInt i" rest] i by simp
  ultimately show ?case using JsInt p_literal_int [of i rest] p_number_int_str [OF JsInt(2), of i] i by (cases f) simp_all
next
  case (JsStr s)
  then show ?case by (cases f) (simp_all add: ws_def dump_string_def p_string_dump, simp add: quote_def)
next
  case (JsArr vs)
  then obtain n where f: "f = Suc n" by (cases f) simp_all
  show ?case
  proof (cases "vs = []")
    case False
    have "p_elems n (join '','' (map dumps vs) @ CHR '']'' # rest) = Some (vs, rest)"
      using JsArr False f by (intro p_elems_dumps) auto
    moreover have "expect (CHR '']'') (join '','' (map dumps vs) @ CHR '']'' # rest) = None"
    proof -
      have "wf_json (hd vs)" using JsArr(2) False by simp
      then obtain c r where c: "dumps (hd vs) = c # r" "starts c" using dumps_head by blast
      have "\<forall>x \<in> set (map dumps vs). x \<noteq> []" using JsArr(2) dumps_pos by fastforce
      with join_head [of "map dumps vs"] False c obtain u where "join '','' (map dumps vs) @ CHR '']'' # rest = c # u"
        by (metis hd_map list.map_disc_iff list.sel(1))
      with c show ?thesis by (simp add: starts_def)
    qed
    ultimately show ?thesis by (simp add: f ws_def quote_def)
  qed (simp add: f ws_def quote_def)
next
  case (JsObj kvs)
  then obtain n where f: "f = Suc n" by (cases f) simp_all
  show ?case
  proof (cases "kvs = []")
    case False
    let ?j = "join '','' (map (\<lambda>kv. dump_string (fst kv) @ '':'' @ dumps (snd kv)) kvs) @ CHR ''}'' # rest"
    have "p_pairs n ?j = Some (kvs, rest)"
      using JsObj False f by (intro p_pairs_dumps) (auto intro!: JsObj.IH simp: snds.simps)
    moreover have "expect (CHR ''}'') ?j = None"
      using False by (cases kvs; cases "tl kvs") (auto simp: dump_string_def quote_def)
    ultimately show ?thesis by (simp add: f ws_def quote_def)
  qed (simp add: f ws_def quote_def)
qed simp

lemma loads_dumps: "wf_json v \<Longrightarrow> loads (dumps v) = Inr v"
  using p_value_dumps [of v "[]" "Suc (2 * length (dumps v))"] by (simp add: loads_def delim_def ws_def)

section \<open>The fuel is enough\<close>

lemma p_string_shorter: "p_string r = Some (s, w) \<Longrightarrow> length w < length r"
proof (induction r arbitrary: s w rule: p_string.induct)
  case (2 c r)
  then show ?case by (auto split: if_splits list.splits option.splits nat.splits) fastforce+
qed simp

lemma ws_length: "length (ws s) \<le> length s"
  by (simp add: ws_def length_dropWhile_le)

lemma expect_shorter: "expect c s = Some r \<Longrightarrow> length r < length s"
  using ws_length [of s] by (auto simp: expect_def split: list.splits if_splits)

lemma p_literal_shorter: "p_literal s = Some (v, t) \<Longrightarrow> length t < length s"
  by (auto simp: p_literal_def literals_def split: if_splits list.splits) (metis length_0_conv length_take less_Suc_eq_0_disj list.distinct(1) take_Nil diff_less list.size(3) neq0_conv zero_less_Suc)+

lemma p_digits_drop: "p_digits r \<noteq> [] \<Longrightarrow> length (drop (length (p_digits r)) r) < length r"
  by (cases r) (auto simp: p_digits_def Let_def)

lemma p_number_shorter: "p_number s = Some (v, t) \<Longrightarrow> length t < length s"
  using p_digits_drop [of "if take 1 s = ''-'' then drop 1 s else s"]
  by (auto simp: p_number_def Let_def split: if_splits)

lemma parse_shorter:
  "p_value n s = Some (v, t) \<Longrightarrow> length t < length s"
  "p_elems n s = Some (vs, t) \<Longrightarrow> length t < length s"
  "p_pairs n s = Some (kvs, t) \<Longrightarrow> length t < length s"
proof (induction n s and n s and n s arbitrary: v t and vs t and kvs t rule: p_value_p_elems_p_pairs.induct)
  case (2 n s)
  from 2(3) obtain c r where w: "ws s = c # r" by (auto split: list.splits)
  then have r: "length r < length s" using ws_length [of s] by simp
  show ?case
    using 2(3) w r "2.IH" [OF w] ws_length [of s]
    by (auto split: if_splits option.splits dest: p_string_shorter expect_shorter p_literal_shorter p_number_shorter)
next
  case (4 n s)
  from 4(3) obtain v u where v: "p_value n s = Some (v, u)" by (auto split: option.splits)
  with "4.IH"(1) have u: "length u < length s" by blast
  show ?case
  proof (cases "expect (CHR '','') u")
    case (Some w)
    with 4(3) v obtain vs' where "p_elems n w = Some (vs', t)" by auto
    with "4.IH"(2) [OF v refl Some] expect_shorter [OF Some] u show ?thesis by fastforce
  next
    case None
    with 4(3) v have "expect (CHR '']'') u = Some t" by auto
    with expect_shorter u show ?thesis by fastforce
  qed
next
  case (6 n s)
  from 6(3) obtain r k u where r: "expect quote s = Some r" and k: "p_string r = Some (k, u)" by (auto split: option.splits)
  from 6(3) r k obtain y v w where y: "expect (CHR '':'') u = Some y" and v: "p_value n y = Some (v, w)" by (auto split: option.splits)
  have w: "length w < length s"
    using "6.IH"(1) [OF r k refl y] v expect_shorter [OF r] p_string_shorter [OF k] expect_shorter [OF y] by fastforce
  show ?case
  proof (cases "expect (CHR '','') w")
    case (Some z)
    with 6(3) r k y v obtain kvs' where "p_pairs n z = Some (kvs', t)" by auto
    with "6.IH"(2) [OF r k refl y v refl Some] expect_shorter [OF Some] w show ?thesis by fastforce
  next
    case None
    with 6(3) r k y v have "expect (CHR ''}'') w = Some t" by auto
    with expect_shorter w show ?thesis by fastforce
  qed
qed simp_all

text \<open>With twice as much fuel as characters, more fuel changes nothing: \<open>loads\<close> never runs out.\<close>

lemma fuel_enough:
  "2 * length s < n \<Longrightarrow> p_value (Suc n) s = p_value n s"
  "2 * length s + 1 < n \<Longrightarrow> p_elems (Suc n) s = p_elems n s"
  "2 * length s + 1 < n \<Longrightarrow> p_pairs (Suc n) s = p_pairs n s"
proof (induction n s and n s and n s rule: p_value_p_elems_p_pairs.induct)
  case (2 n s)
  note unf = p_value.simps(2) [of "Suc n" s] p_value.simps(2) [of n s]
  show ?case
  proof (cases "ws s")
    case (Cons c r)
    then have r: "2 * length r + 1 < n" using ws_length [of s] 2(3) by simp
    have "p_elems (Suc n) r = p_elems n r" if "c \<noteq> quote" "c = CHR ''[''" "expect (CHR '']'') r = None"
      using "2.IH"(1) [OF Cons that r] .
    moreover have "p_pairs (Suc n) r = p_pairs n r" if "c \<noteq> quote" "c \<noteq> CHR ''[''" "c = CHR ''{''" "expect (CHR ''}'') r = None"
      using "2.IH"(2) [OF Cons that r] .
    ultimately show ?thesis unfolding unf Cons list.case
      by (simp del: p_value.simps p_elems.simps p_pairs.simps split: option.split)
  qed (simp only: unf list.case)
next
  case (4 n s)
  note unf = p_elems.simps(2) [of "Suc n" s] p_elems.simps(2) [of n s]
  have e: "p_value (Suc n) s = p_value n s" using "4.IH"(1) 4(3) by simp
  show ?case
  proof (cases "p_value n s")
    case (Some vt)
    obtain v t where vt: "p_value n s = Some (v, t)" using Some by (cases vt) simp
    have "p_elems (Suc n) u = p_elems n u" if u: "expect (CHR '','') t = Some u" for u
      using "4.IH"(2) [OF vt refl u] expect_shorter [OF u] parse_shorter(1) [OF vt] 4(3) by simp
    then show ?thesis unfolding unf e vt option.case prod.case
      by (simp del: p_value.simps p_elems.simps p_pairs.simps split: option.split)
  qed (simp only: unf e option.case)
next
  case (6 n s)
  note unf = p_pairs.simps(2) [of "Suc n" s] p_pairs.simps(2) [of n s]
  show ?case
  proof (cases "expect quote s")
    case None
    then show ?thesis by (simp only: unf option.case)
  next
    case (Some r)
    note r = this
    show ?thesis
    proof (cases "p_string r")
      case None
      then show ?thesis by (simp only: unf r option.case)
    next
      case (Some kt)
      obtain k t where k: "p_string r = Some (k, t)" using Some by (cases kt) simp
      have e: "p_value (Suc n) u = p_value n u" if u: "expect (CHR '':'') t = Some u" for u
        using "6.IH"(1) [OF r k refl u] expect_shorter [OF r] p_string_shorter [OF k] expect_shorter [OF u] 6(3) by simp
      have "p_pairs (Suc n) z = p_pairs n z"
        if u: "expect (CHR '':'') t = Some u" and v: "p_value n u = Some (v, w)" and z: "expect (CHR '','') w = Some z" for u v w z
        using "6.IH"(2) [OF r k refl u v refl z] expect_shorter [OF r] p_string_shorter [OF k] expect_shorter [OF u]
          parse_shorter(1) [OF v] expect_shorter [OF z] 6(3) by simp
      with e show ?thesis unfolding unf r k option.case prod.case
        by (simp del: p_value.simps p_elems.simps p_pairs.simps split: option.split)
    qed
  qed
qed simp_all

end
