(* ===== verification/Gds_Backend.thy ===== *)
theory Gds_Backend
  imports Py_Json Serde_V2 Lmcache Mem_Dfs L2_Config
begin

text \<open>
  \<^verbatim>\<open>lmcache_daos/gds_backend.py\<close>: the storage plugin \<^verbatim>\<open>DaosGdsBackend\<close>, which moves objects between DAOS and GPU
  memory. The CUDA driver, \<^verbatim>\<open>torch\<close>'s names and LMCache's memory objects are parameters. A call runs as
  one step; the thread it runs on, the nonce of a temporary name and the order in which the pool
  finishes the calls of a batch are arguments. The tasks handed to the pool are in the state until
  they run. The millisecond totals of the statistics and the log are left out.
\<close>

section \<open>Object metadata\<close>

text \<open>\<^verbatim>\<open>s.replace(pat, "")\<close>\<close>

function remove_all :: "string \<Rightarrow> string \<Rightarrow> string" where
  "remove_all pat s =
     (if pat = [] \<or> s = [] then s
      else if take (length pat) s = pat then remove_all pat (drop (length pat) s)
      else hd s # remove_all pat (tl s))"
  by pat_completeness auto
termination
  by (relation "measure (\<lambda>(pat, s). length s)") auto

declare remove_all.simps [simp del]

text \<open>\<^verbatim>\<open>str(dtype)\<close>, \<^verbatim>\<open>getattr(torch, name)\<close>, and the enumeration \<^verbatim>\<open>MemoryFormat\<close> with its values.\<close>

record ('dt, 'f) torch =
  t_str :: "'dt \<Rightarrow> string"
  t_attr :: "string \<Rightarrow> 'dt option"
  f_value :: "'f \<Rightarrow> int"
  f_of :: "int \<Rightarrow> 'f option"

type_synonym ('dt, 'f) layout = "int list list \<times> 'dt list \<times> 'f"

definition meta_pack :: "('dt, 'f) torch \<Rightarrow> nat \<Rightarrow> ('dt, 'f) layout \<Rightarrow> bytes" where
  "meta_pack T len lay = (case lay of (shapes, dtypes, fmt) \<Rightarrow>
     encode (dumps (JsObj
       [(''length'', JsInt (int len)),
        (''shapes'', JsArr (map (\<lambda>s. JsArr (map JsInt s)) shapes)),
        (''dtypes'', JsArr (map (\<lambda>d. JsStr (remove_all ''torch.'' (t_str T d))) dtypes)),
        (''fmt'', JsInt (f_value T fmt))])))"

text \<open>\<^verbatim>\<open>bytes.decode()\<close>, for ASCII text.\<close>

definition decode :: "bytes \<Rightarrow> exn + string" where
  "decode b = (if \<forall>x \<in> set b. unat x < 128 then Inr (map (\<lambda>x. char_of (unat x)) b) else Inl ValueError)"

text \<open>\<^verbatim>\<open>d[k]\<close>: the last entry of a repeated key counts; indexing anything but a dictionary raises.\<close>

definition jget :: "jval \<Rightarrow> string \<Rightarrow> exn + jval" where
  "jget v k = (case v of
     JsObj kvs \<Rightarrow> (case map_of (rev kvs) k of None \<Rightarrow> Inl KeyError | Some x \<Rightarrow> Inr x)
   | _ \<Rightarrow> Inl TypeError)"

text \<open>\<^verbatim>\<open>int(v)\<close>; a number given as text or with a fraction, which no writer produces, is refused.\<close>

definition js_int :: "jval \<Rightarrow> exn + int" where
  "js_int v = (case v of JsInt i \<Rightarrow> Inr i | JsBool b \<Rightarrow> Inr (of_bool b) | JsFloat _ \<Rightarrow> Inl ValueError | JsStr _ \<Rightarrow> Inl ValueError | _ \<Rightarrow> Inl TypeError)"

definition js_list :: "jval \<Rightarrow> exn + jval list" where
  "js_list v = (case v of JsArr xs \<Rightarrow> Inr xs | _ \<Rightarrow> Inl TypeError)"

text \<open>An element of \<^verbatim>\<open>torch.Size(s)\<close> is an integer.\<close>

definition size_item :: "jval \<Rightarrow> exn + int" where
  "size_item v = (case v of JsInt i \<Rightarrow> Inr i | _ \<Rightarrow> Inl TypeError)"

definition torch_size :: "jval \<Rightarrow> exn + int list" where
  "torch_size v = bind_sum (js_list v) (\<lambda>xs. seq_sum (map size_item xs))"

definition torch_dtype :: "('dt, 'f) torch \<Rightarrow> jval \<Rightarrow> exn + 'dt" where
  "torch_dtype T v = (case v of
     JsStr n \<Rightarrow> (case t_attr T n of None \<Rightarrow> Inl OtherError | Some d \<Rightarrow> Inr d)
   | _ \<Rightarrow> Inl TypeError)"

definition meta_unpack :: "('dt, 'f) torch \<Rightarrow> bytes \<Rightarrow> exn + int \<times> ('dt, 'f) layout" where
  "meta_unpack T b =
     bind_sum (decode b) (\<lambda>text.
     bind_sum (loads text) (\<lambda>d.
     bind_sum (bind_sum (jget d ''shapes'') (\<lambda>v. bind_sum (js_list v) (\<lambda>xs. seq_sum (map torch_size xs)))) (\<lambda>shapes.
     bind_sum (bind_sum (jget d ''dtypes'') (\<lambda>v. bind_sum (js_list v) (\<lambda>xs. seq_sum (map (torch_dtype T) xs)))) (\<lambda>dtypes.
     bind_sum (bind_sum (jget d ''length'') js_int) (\<lambda>len.
     bind_sum (bind_sum (jget d ''fmt'') js_int) (\<lambda>fv.
     case f_of T fv of None \<Rightarrow> Inl ValueError | Some fmt \<Rightarrow> Inr (len, shapes, dtypes, fmt)))))))"

section \<open>State\<close>

record 'c cudalib =
  cu_load :: "('c, unit) io"
  cu_init :: "'c \<Rightarrow> int \<times> 'c"
  cu_retain :: "'c \<Rightarrow> int \<times> 'c"
  cu_set_current :: "'c \<Rightarrow> int \<times> 'c"
  cu_sync :: "('c, unit) io"

record gds_stats =
  st_put :: nat
  st_put_bytes :: nat
  st_get :: nat
  st_get_bytes :: nat
  st_miss :: nat
  st_alloc_fail :: nat

text \<open>
  \<open>gs_ctx\<close>: the class holds the driver and the context; \<open>gs_bound\<close>: the threads it is current on.
  \<open>gs_queue\<close> has the puts handed to the pool: key, object, and whether a callback was given; \<open>gs_called\<close>
  records the callbacks made.
\<close>

record ('d, 'm, 'c) gds =
  gs_dfs :: "'d dfssys"
  gs_mem :: 'm
  gs_cuda :: 'c
  gs_ctx :: bool
  gs_bound :: "nat set"
  gs_known :: "pykey set"
  gs_put_tasks :: "pykey set"
  gs_queue :: "(pykey \<times> nat \<times> bool) list"
  gs_stats :: gds_stats
  gs_called :: "pykey list"

text \<open>\<open>g_tensor\<close>: whether \<^verbatim>\<open>obj.tensor\<close> is there, and on the GPU.\<close>

record ('d, 'm, 'c, 'dt, 'f) genv =
  g_dfs :: "'d libdfs"
  g_lm :: "(('dt, 'f) layout, 'm) lmcache"
  g_up :: "nat \<Rightarrow> ('m, unit) io"
  g_tensor :: "'m \<Rightarrow> nat \<Rightarrow> bool option"
  g_torch :: "('dt, 'f) torch"
  g_cu :: "'c cudalib"
  g_root :: string
  g_store :: bool

definition on_gs :: "('d dfssys, 'a) io \<Rightarrow> (('d, 'm, 'c) gds, 'a) io" where
  "on_gs m = (\<lambda>s. case m (gs_dfs s) of (r, d) \<Rightarrow> (r, s\<lparr>gs_dfs := d\<rparr>))"

abbreviation "on_gl m \<equiv> on_gs (on_lib m)"

definition on_gm :: "('m, 'a) io \<Rightarrow> (('d, 'm, 'c) gds, 'a) io" where
  "on_gm m = (\<lambda>s. case m (gs_mem s) of (r, x) \<Rightarrow> (r, s\<lparr>gs_mem := x\<rparr>))"

definition on_cu :: "('c, 'a) io \<Rightarrow> (('d, 'm, 'c) gds, 'a) io" where
  "on_cu m = (\<lambda>s. case m (gs_cuda s) of (r, x) \<Rightarrow> (r, s\<lparr>gs_cuda := x\<rparr>))"

text \<open>A driver call with its return code, non-zero codes raised.\<close>

definition cu_call :: "('c \<Rightarrow> int \<times> 'c) \<Rightarrow> (('d, 'm, 'c) gds, unit) io" where
  "cu_call f = bind_io (on_cu (\<lambda>c. case f c of (rc, c') \<Rightarrow> (Inr rc, c'))) (\<lambda>rc. if rc \<noteq> 0 then raise RuntimeError else ret ())"

definition upd_gstats :: "(gds_stats \<Rightarrow> gds_stats) \<Rightarrow> (('d, 'm, 'c) gds, unit) io" where
  "upd_gstats f = put_s (\<lambda>s. s\<lparr>gs_stats := f (gs_stats s)\<rparr>)"

definition ref_down :: "('d, 'm, 'c, 'dt, 'f) genv \<Rightarrow> nat \<Rightarrow> (('d, 'm, 'c) gds, unit) io" where
  "ref_down E ob = (case m_ref_count_down (g_lm E) of None \<Rightarrow> raise OtherError | Some f \<Rightarrow> on_gm (f ob))"

section \<open>Context and paths\<close>

definition ensure_cuda_ctx :: "('d, 'm, 'c, 'dt, 'f) genv \<Rightarrow> nat \<Rightarrow> (('d, 'm, 'c) gds, unit) io" where
  "ensure_cuda_ctx E th =
     bind_io (get_s (\<lambda>s. th \<in> gs_bound s)) (\<lambda>bound.
     if bound then ret ()
     else
     bind_io (get_s gs_ctx) (\<lambda>have_ctx.
     bind_io (if have_ctx then ret () else
        bind_io (on_cu (cu_load (g_cu E))) (\<lambda>_.
        bind_io (cu_call (cu_init (g_cu E))) (\<lambda>_.
        bind_io (cu_call (cu_retain (g_cu E))) (\<lambda>_.
        put_s (\<lambda>s. s\<lparr>gs_ctx := True\<rparr>))))) (\<lambda>_.
     bind_io (cu_call (cu_set_current (g_cu E))) (\<lambda>_.
     put_s (\<lambda>s. s\<lparr>gs_bound := insert th (gs_bound s)\<rparr>)))))"

definition gds_path :: "string \<Rightarrow> pykey \<Rightarrow> string" where
  "gds_path dir key =
     (let p = v2_key_to_path key in if dir \<noteq> V2_PREFIX then dir @ drop (length V2_PREFIX) p else p)"

text \<open>\<^verbatim>\<open>path.rsplit("/", 1)[1]\<close> of a path with a slash.\<close>

definition last_part :: "string \<Rightarrow> string" where
  "last_part p = snd (rpartition CHR ''/'' p)"

section \<open>Lookups\<close>

definition gds_contains :: "('d, 'm, 'c, 'dt, 'f) genv \<Rightarrow> nat \<Rightarrow> pykey \<Rightarrow> (('d, 'm, 'c) gds, bool) io" where
  "gds_contains E th key =
     bind_io (ensure_cuda_ctx E th) (\<lambda>_.
     bind_io (get_s (\<lambda>s. key \<in> gs_known s)) (\<lambda>known.
     if known then ret True
     else
     bind_io (catch_io is_DaosError
        (bind_io (on_gl (stat_size (g_dfs E) (gds_path (g_root E) key))) (\<lambda>sz. ret (sz \<noteq> None)))
        (\<lambda>_. ret False)) (\<lambda>present.
     bind_io (if present then put_s (\<lambda>s. s\<lparr>gs_known := insert key (gs_known s)\<rparr>) else ret ()) (\<lambda>_.
     ret present))))"

definition gds_batched_contains :: "('d, 'm, 'c, 'dt, 'f) genv \<Rightarrow> nat list \<Rightarrow> (nat \<Rightarrow> nat) \<Rightarrow> pykey list \<Rightarrow> (('d, 'm, 'c) gds, nat) io" where
  "gds_batched_contains E sched ths keys =
     bind_io (pool_map sched (map (\<lambda>i. gds_contains E (ths i) (keys ! i)) [0..<length keys])) (\<lambda>hits.
     ret (length (takeWhile id hits)))"

definition exists_in_put_tasks :: "pykey \<Rightarrow> (('d, 'm, 'c) gds, bool) io" where
  "exists_in_put_tasks key = get_s (\<lambda>s. key \<in> gs_put_tasks s)"

section \<open>Store\<close>

fun submit_puts :: "('d, 'm, 'c, 'dt, 'f) genv \<Rightarrow> bool \<Rightarrow> (pykey \<times> nat) list \<Rightarrow> (('d, 'm, 'c) gds, nat) io" where
  "submit_puts E cb [] = ret 0"
| "submit_puts E cb ((key, ob) # rest) =
     bind_io (get_s (\<lambda>s. key \<in> gs_put_tasks s)) (\<lambda>busy.
     if busy then submit_puts E cb rest
     else
     bind_io (put_s (\<lambda>s. s\<lparr>gs_put_tasks := insert key (gs_put_tasks s)\<rparr>)) (\<lambda>_.
     bind_io (on_gm (g_up E ob)) (\<lambda>_.
     bind_io (put_s (\<lambda>s. s\<lparr>gs_queue := gs_queue s @ [(key, ob, cb)]\<rparr>)) (\<lambda>_.
     bind_io (submit_puts E cb rest) (\<lambda>n. ret (Suc n))))))"

text \<open>The number of futures, or \<open>None\<close> when storing is disabled.\<close>

definition batched_submit_put_task :: "('d, 'm, 'c, 'dt, 'f) genv \<Rightarrow> bool \<Rightarrow> pykey list \<Rightarrow> nat list \<Rightarrow> (('d, 'm, 'c) gds, nat option) io" where
  "batched_submit_put_task E cb keys obs =
     (if \<not> g_store E then ret None else bind_io (submit_puts E cb (zip keys obs)) (\<lambda>n. ret (Some n)))"

text \<open>Writing the temporary object: the header page, then the payload from the GPU.\<close>

definition write_temp :: "('d, 'm, 'c, 'dt, 'f) genv \<Rightarrow> string \<Rightarrow> nat \<Rightarrow> nat \<Rightarrow> bytes \<Rightarrow> (('d, 'm, 'c) gds, nat) io" where
  "write_temp E tmp ob n mt =
     bind_io (on_gl (open_rdwr_create (g_dfs E) tmp 0)) (\<lambda>h.
     finally_io
       (bind_io (of_sum (pack_header mt (int n) STATE_COMMITTED)) (\<lambda>page.
        bind_io (on_gl (write_obj_from (g_dfs E) h 0 (length page) page)) (\<lambda>_.
        bind_io (on_cu (cu_sync (g_cu E))) (\<lambda>_.
        bind_io (get_s (\<lambda>s. mo_bytes (g_lm E) (gs_mem s) ob)) (\<lambda>dev.
        on_gs (write_gpu_from (g_dfs E) h payload_offset n dev))))))
       (on_gl (close_obj (g_dfs E) h)))"

text \<open>The commit: the temporary name becomes the final one.\<close>

definition publish_temp :: "('d, 'm, 'c, 'dt, 'f) genv \<Rightarrow> string \<Rightarrow> string \<Rightarrow> (('d, 'm, 'c) gds, unit) io" where
  "publish_temp E tmp final =
     bind_io (on_gs (lookup (g_dfs E) (g_root E) O_RDWR)) (\<lambda>parent.
     finally_io
       (on_gs (move (g_dfs E) parent (last_part tmp) parent (last_part final)))
       (on_gs (release_dir (g_dfs E) parent)))"

definition note_put :: "pykey \<Rightarrow> nat \<Rightarrow> bool \<Rightarrow> (('d, 'm, 'c) gds, unit) io" where
  "note_put key n cb =
     bind_io (put_s (\<lambda>s. s\<lparr>gs_known := insert key (gs_known s)\<rparr>)) (\<lambda>_.
     bind_io (upd_gstats (\<lambda>st. st\<lparr>st_put := st_put st + 1, st_put_bytes := st_put_bytes st + n\<rparr>)) (\<lambda>_.
     if cb then put_s (\<lambda>s. s\<lparr>gs_called := gs_called s @ [key]\<rparr>) else ret ()))"

definition put_new :: "('d, 'm, 'c, 'dt, 'f) genv \<Rightarrow> string \<Rightarrow> pykey \<Rightarrow> nat \<Rightarrow> bool \<Rightarrow> (('d, 'm, 'c) gds, unit) io" where
  "put_new E nonce key ob cb =
     bind_io (get_s (\<lambda>s. (length (mo_bytes (g_lm E) (gs_mem s) ob), mo_layout (g_lm E) (gs_mem s) ob))) (\<lambda>(n, lay).
     let mt = meta_pack (g_torch E) n lay; final = gds_path (g_root E) key; tmp = temp_path final nonce in
     bind_io (write_temp E tmp ob n mt) (\<lambda>wrote.
     if wrote \<noteq> n then raise IOError
     else bind_io (publish_temp E tmp final) (\<lambda>_. note_put key n cb)))"

definition put_body :: "('d, 'm, 'c, 'dt, 'f) genv \<Rightarrow> nat \<Rightarrow> string \<Rightarrow> pykey \<Rightarrow> nat \<Rightarrow> bool \<Rightarrow> (('d, 'm, 'c) gds, unit) io" where
  "put_body E th nonce key ob cb =
     bind_io (ensure_cuda_ctx E th) (\<lambda>_.
     bind_io (gds_contains E th key) (\<lambda>present.
     if present then ret ()
     else
     bind_io (get_s (\<lambda>s. g_tensor E (gs_mem s) ob)) (\<lambda>tensor.
     if tensor \<noteq> Some True then raise AssertionError else put_new E nonce key ob cb)))"

definition put_one :: "('d, 'm, 'c, 'dt, 'f) genv \<Rightarrow> nat \<Rightarrow> string \<Rightarrow> pykey \<Rightarrow> nat \<Rightarrow> bool \<Rightarrow> (('d, 'm, 'c) gds, unit) io" where
  "put_one E th nonce key ob cb =
     finally_io
       (catch_io is_Exception (put_body E th nonce key ob cb) (\<lambda>_. ret ()))
       (bind_io (ref_down E ob) (\<lambda>_. put_s (\<lambda>s. s\<lparr>gs_put_tasks := gs_put_tasks s - {key}\<rparr>)))"

section \<open>Retrieve\<close>

definition count_miss :: "(('d, 'm, 'c) gds, unit) io" where
  "count_miss = upd_gstats (\<lambda>st. st\<lparr>st_miss := st_miss st + 1\<rparr>)"

definition count_alloc_fail :: "(('d, 'm, 'c) gds, unit) io" where
  "count_alloc_fail = upd_gstats (\<lambda>st. st\<lparr>st_alloc_fail := st_alloc_fail st + 1\<rparr>)"

text \<open>
  Up to the allocation: the header and the new object, or \<open>None\<close> when there is nothing to return. The
  handler of the source gives \<^verbatim>\<open>None\<close> here, since \<^verbatim>\<open>obj\<close> is not set yet.
\<close>

definition get_prepare :: "('d, 'm, 'c, 'dt, 'f) genv \<Rightarrow> nat \<Rightarrow> (('d, 'm, 'c) gds, (header \<times> nat) option) io" where
  "get_prepare E h =
     catch_io is_Exception
       (bind_io (catch_io (\<lambda>e. e = BadHeader)
          (bind_io (on_gl (read_obj (g_dfs E) h 0 HEADER_SIZE)) (\<lambda>page.
           bind_io (of_sum (parse_header page True)) (\<lambda>hdr. ret (Some hdr))))
          (\<lambda>_. bind_io count_miss (\<lambda>_. ret None))) (\<lambda>oh. case oh of
        None \<Rightarrow> ret None
      | Some hdr \<Rightarrow>
          bind_io (of_sum (meta_unpack (g_torch E) (meta hdr))) (\<lambda>(len, lay).
          bind_io (on_gm (lm_allocate (g_lm E) lay)) (\<lambda>r. case r of
            None \<Rightarrow> bind_io count_alloc_fail (\<lambda>_. ret None)
          | Some ob \<Rightarrow> ret (Some (hdr, ob))))))
       (\<lambda>_. ret None)"

text \<open>With the object at hand: an exception gives it back.\<close>

definition get_payload :: "('d, 'm, 'c, 'dt, 'f) genv \<Rightarrow> pykey \<Rightarrow> nat \<Rightarrow> header \<Rightarrow> nat \<Rightarrow> (('d, 'm, 'c) gds, nat option) io" where
  "get_payload E key h hdr ob =
     catch_io is_Exception
       (bind_io (get_s (\<lambda>s. (g_tensor E (gs_mem s) ob, mo_bytes (g_lm E) (gs_mem s) ob))) (\<lambda>(tensor, dev).
        if tensor = None then bind_io count_alloc_fail (\<lambda>_. ret None)
        else
        let n = payload_len hdr in
        if n \<noteq> length dev then bind_io (ref_down E ob) (\<lambda>_. ret None)
        else
        bind_io (on_gs (read_gpu_into (g_dfs E) h payload_offset n dev)) (\<lambda>(got, dev').
        bind_io (put_s (\<lambda>s. s\<lparr>gs_mem := mo_store (g_lm E) ob dev' (gs_mem s)\<rparr>)) (\<lambda>_.
        if got \<noteq> n then bind_io (ref_down E ob) (\<lambda>_. ret None)
        else
        bind_io (upd_gstats (\<lambda>st. st\<lparr>st_get := st_get st + 1, st_get_bytes := st_get_bytes st + n\<rparr>)) (\<lambda>_.
        bind_io (put_s (\<lambda>s. s\<lparr>gs_known := insert key (gs_known s)\<rparr>)) (\<lambda>_.
        ret (Some ob)))))))
       (\<lambda>_. bind_io (ref_down E ob) (\<lambda>_. ret None))"

definition get_blocking :: "('d, 'm, 'c, 'dt, 'f) genv \<Rightarrow> nat \<Rightarrow> pykey \<Rightarrow> (('d, 'm, 'c) gds, nat option) io" where
  "get_blocking E th key =
     bind_io (ensure_cuda_ctx E th) (\<lambda>_.
     bind_io (catch_io is_DaosError
        (bind_io (on_gl (open_rdonly (g_dfs E) (gds_path (g_root E) key))) (\<lambda>h. ret (Some h)))
        (\<lambda>e. if exn_rc e = Some 2 then bind_io count_miss (\<lambda>_. ret None) else raise e)) (\<lambda>oh. case oh of
       None \<Rightarrow> ret None
     | Some h \<Rightarrow>
         finally_io
           (bind_io (get_prepare E h) (\<lambda>p. case p of
              None \<Rightarrow> ret None
            | Some (hdr, ob) \<Rightarrow> get_payload E key h hdr ob))
           (on_gl (close_obj (g_dfs E) h))))"

fun release_hits :: "('d, 'm, 'c, 'dt, 'f) genv \<Rightarrow> nat option list \<Rightarrow> (('d, 'm, 'c) gds, unit) io" where
  "release_hits E [] = ret ()"
| "release_hits E (None # os) = release_hits E os"
| "release_hits E (Some ob # os) = bind_io (ref_down E ob) (\<lambda>_. release_hits E os)"

text \<open>The index of the first miss.\<close>

definition first_miss :: "'a option list \<Rightarrow> nat option" where
  "first_miss res = List.find (\<lambda>i. res ! i = None) [0..<length res]"

definition batched_get_blocking :: "('d, 'm, 'c, 'dt, 'f) genv \<Rightarrow> nat list \<Rightarrow> (nat \<Rightarrow> nat) \<Rightarrow> pykey list \<Rightarrow>
    (('d, 'm, 'c) gds, nat option list) io" where
  "batched_get_blocking E sched ths keys =
     bind_io (pool_map sched (map (\<lambda>i. get_blocking E (ths i) (keys ! i)) [0..<length keys])) (\<lambda>res.
     case first_miss res of
       None \<Rightarrow> ret res
     | Some i \<Rightarrow>
         bind_io (release_hits E (drop (i + 1) res)) (\<lambda>_.
         ret (take i res @ replicate (length res - i) None)))"

text \<open>\<^verbatim>\<open>asyncio.gather\<close>: the values, or the exception of the call that failed first in time.\<close>

definition gather_values :: "nat list \<Rightarrow> (exn + 'a) list \<Rightarrow> exn + 'a list" where
  "gather_values sched rs = (case List.find (\<lambda>i. isl (rs ! i)) sched of
     Some i \<Rightarrow> Inl (projl (rs ! i)) | None \<Rightarrow> Inr (map projr rs))"

definition gather_io :: "nat list \<Rightarrow> ('s, 'a) io list \<Rightarrow> ('s, 'a list) io" where
  "gather_io sched tasks = (\<lambda>s. case run_all sched tasks s of (rs, s') \<Rightarrow> (gather_values sched rs, s'))"

text \<open>The loop over the results: hits up to the first miss are kept, later ones are given back.\<close>

fun keep_prefix :: "('d, 'm, 'c, 'dt, 'f) genv \<Rightarrow> bool \<Rightarrow> nat option list \<Rightarrow> (('d, 'm, 'c) gds, nat list) io" where
  "keep_prefix E failed [] = ret []"
| "keep_prefix E failed (None # os) = keep_prefix E True os"
| "keep_prefix E failed (Some ob # os) =
     (if failed then bind_io (ref_down E ob) (\<lambda>_. keep_prefix E True os)
      else bind_io (keep_prefix E False os) (\<lambda>out. ret (ob # out)))"

definition gds_batched_get_non_blocking :: "('d, 'm, 'c, 'dt, 'f) genv \<Rightarrow> nat list \<Rightarrow> (nat \<Rightarrow> nat) \<Rightarrow> pykey list \<Rightarrow>
    (('d, 'm, 'c) gds, nat list) io" where
  "gds_batched_get_non_blocking E sched ths keys =
     bind_io (gather_io sched (map (\<lambda>i. get_blocking E (ths i) (keys ! i)) [0..<length keys])) (\<lambda>res.
     keep_prefix E False res)"

section \<open>Removal, allocation, start-up and close\<close>

definition gds_remove :: "('d, 'm, 'c, 'dt, 'f) genv \<Rightarrow> pykey \<Rightarrow> (('d, 'm, 'c) gds, bool) io" where
  "gds_remove E key =
     bind_io (put_s (\<lambda>s. s\<lparr>gs_known := gs_known s - {key}\<rparr>)) (\<lambda>_.
     catch_io is_DaosError (on_gl (dfs_remove (g_dfs E) (gds_path (g_root E) key))) (\<lambda>_. ret False))"

definition gds_batched_remove :: "('d, 'm, 'c, 'dt, 'f) genv \<Rightarrow> pykey list \<Rightarrow> (('d, 'm, 'c) gds, nat) io" where
  "gds_batched_remove E keys = bind_io (seq_io (map (gds_remove E) keys)) (\<lambda>rs. ret (length (filter id rs)))"

definition gds_allocate :: "('d, 'm, 'c, 'dt, 'f) genv \<Rightarrow> ('dt, 'f) layout \<Rightarrow> (('d, 'm, 'c) gds, nat option) io" where
  "gds_allocate E lay =
     bind_io (on_gm (lm_allocate (g_lm E) lay)) (\<lambda>r.
     bind_io (if r = None then count_alloc_fail else ret ()) (\<lambda>_. ret r))"

text \<open>\<open>alloc\<close> is the allocator's own \<^verbatim>\<open>batched_allocate\<close>.\<close>

definition gds_batched_allocate :: "(('dt, 'f) layout \<Rightarrow> nat \<Rightarrow> ('m, nat list option) io) \<Rightarrow> ('dt, 'f) layout \<Rightarrow> nat \<Rightarrow> (('d, 'm, 'c) gds, nat list option) io" where
  "gds_batched_allocate alloc lay n =
     bind_io (on_gm (alloc lay n)) (\<lambda>r.
     bind_io (if r = None then count_alloc_fail else ret ()) (\<lambda>_. ret r))"

text \<open>
  \<^verbatim>\<open>calculate_chunk_budget\<close>: \<open>md\<close> is the shape and the element size of the metadata, if there is one. A
  division by zero is an exception, caught like the others.
\<close>

definition calculate_chunk_budget :: "int \<Rightarrow> (int list \<times> int) option \<Rightarrow> int" where
  "calculate_chunk_budget gpu_bytes md = (case md of
     None \<Rightarrow> 16
   | Some (kv_shape, element) \<Rightarrow>
       (let chunk = prod_list kv_shape * element in if chunk = 0 then 16 else max 1 (gpu_bytes div chunk)))"

text \<open>A queued put that the pool takes up.\<close>

definition run_queued :: "('d, 'm, 'c, 'dt, 'f) genv \<Rightarrow> nat \<Rightarrow> string \<Rightarrow> pykey \<times> nat \<times> bool \<Rightarrow> (('d, 'm, 'c) gds, unit) io" where
  "run_queued E th nonce job = (case job of (key, ob, cb) \<Rightarrow>
     bind_io (put_s (\<lambda>s. s\<lparr>gs_queue := remove1 job (gs_queue s)\<rparr>)) (\<lambda>_. put_one E th nonce key ob cb))"

text \<open>\<^verbatim>\<open>close\<close> waits for the queued puts, whose exceptions stay in their futures, and unmounts.\<close>

definition gds_close :: "('d, 'm, 'c, 'dt, 'f) genv \<Rightarrow> nat list \<Rightarrow> (nat \<Rightarrow> nat) \<Rightarrow> (nat \<Rightarrow> string) \<Rightarrow> (('d, 'm, 'c) gds, unit) io" where
  "gds_close E sched ths nonces =
     bind_io (get_s gs_queue) (\<lambda>q.
     bind_io (\<lambda>s. (Inr (), snd (run_all sched (map (\<lambda>i. run_queued E (ths i) (nonces i) (q ! i)) [0..<length q]) s))) (\<lambda>_.
     swallow (on_gs (DfsSys_close (g_dfs E)))))"

section \<open>Settings\<close>

text \<open>
  The configuration is decoded JSON; \<open>ec\<close> is \<^verbatim>\<open>config.extra_config\<close>. Numbers given as text and the text of
  values that are no strings are left out: they raise here.
\<close>

definition gcfg :: "pydict option \<Rightarrow> string \<Rightarrow> json \<Rightarrow> json" where
  "gcfg ec key dflt = (case ec of None \<Rightarrow> dflt | Some d \<Rightarrow> dget d (''daosgds.'' @ key) dflt)"

definition truthy :: "json \<Rightarrow> bool" where
  "truthy v = (case v of JNull \<Rightarrow> False | JBool b \<Rightarrow> b | JInt i \<Rightarrow> i \<noteq> 0 | JFloat r \<Rightarrow> r \<noteq> 0 | JStr s \<Rightarrow> s \<noteq> [] | JOther \<Rightarrow> True)"

definition py_int :: "json \<Rightarrow> exn + int" where
  "py_int v = (case v of JInt i \<Rightarrow> Inr i | JBool b \<Rightarrow> Inr (of_bool b) | JFloat r \<Rightarrow> Inr (if r < 0 then - \<lfloor>- r\<rfloor> else \<lfloor>r\<rfloor>)
     | JStr _ \<Rightarrow> Inl ValueError | _ \<Rightarrow> Inl TypeError)"

definition py_text :: "json \<Rightarrow> exn + string" where
  "py_text v = (case v of JStr s \<Rightarrow> Inr s | _ \<Rightarrow> Inl OtherError)"

record gds_settings =
  gd_pool :: string
  gd_cont :: string
  gd_sys :: "string option"
  gd_root :: string
  gd_io_workers :: int
  gd_gpu_bytes :: int
  gd_store :: bool

definition rstrip_slash :: "string \<Rightarrow> string" where
  "rstrip_slash r = rev (dropWhile (\<lambda>c. c = CHR ''/'') (rev r))"

definition gds_settings_of :: "pydict option \<Rightarrow> exn + gds_settings" where
  "gds_settings_of ec =
     (let pool = gcfg ec ''pool'' JNull; cont = gcfg ec ''container'' JNull in
      if \<not> truthy pool \<or> \<not> truthy cont then Inl ValueError
      else
      bind_sum (py_text (gcfg ec ''root'' (JStr V2_PREFIX))) (\<lambda>dir.
      let dir' = (if rstrip_slash dir = [] then V2_PREFIX else rstrip_slash dir) in
      bind_sum (py_int (gcfg ec ''io_workers'' (JInt 16))) (\<lambda>workers.
      bind_sum (case as_number (gcfg ec ''gpu_buffer_gb'' (JInt 6)) of None \<Rightarrow> Inl TypeError | Some x \<Rightarrow> py_int (JFloat (x * 2 ^ 30))) (\<lambda>gpu.
      bind_sum (py_text pool) (\<lambda>p.
      bind_sum (py_text cont) (\<lambda>c.
      bind_sum (case gcfg ec ''sys'' JNull of JNull \<Rightarrow> Inr None | v \<Rightarrow> bind_sum (py_text v) (\<lambda>x. Inr (Some x))) (\<lambda>sy.
      Inr \<lparr>gd_pool = p, gd_cont = c, gd_sys = sy, gd_root = dir', gd_io_workers = workers, gd_gpu_bytes = gpu,
        gd_store = truthy (gcfg ec ''store'' (JBool True))\<rparr>)))))))"

definition gds_blank :: "'d dfssys \<Rightarrow> 'm \<Rightarrow> 'c \<Rightarrow> ('d, 'm, 'c) gds" where
  "gds_blank d m c = \<lparr>gs_dfs = d, gs_mem = m, gs_cuda = c, gs_ctx = False, gs_bound = {}, gs_known = {}, gs_put_tasks = {},
     gs_queue = [], gs_stats = \<lparr>st_put = 0, st_put_bytes = 0, st_get = 0, st_get_bytes = 0, st_miss = 0, st_alloc_fail = 0\<rparr>, gs_called = []\<rparr>"

text \<open>
  \<^verbatim>\<open>__init__\<close>: settings, mount, root directory, thread pool, warm-up with its failures ignored. \<open>cuda_dst\<close>
  says that the device name starts with \<^verbatim>\<open>cuda\<close>, \<open>probe\<close> is the decoded \<^verbatim>\<open>DAOS_PROBE_CHUNKS\<close>, \<open>ex1\<close> and \<open>ex2\<close> are
  the schedules of the warm-up.
\<close>

definition gds_init :: "'d libdfs \<Rightarrow> bool \<Rightarrow> pydict option \<Rightarrow> exn + int \<Rightarrow> string \<Rightarrow> nat list \<Rightarrow> nat list \<Rightarrow> ('d dfssys, gds_settings) io" where
  "gds_init L cuda_dst ec probe pid ex1 ex2 =
     (if \<not> cuda_dst then raise AssertionError
      else
      bind_io (of_sum (gds_settings_of ec)) (\<lambda>cfg.
      bind_io (DfsSys_init L (gd_pool cfg) (gd_cont cfg) (gd_sys cfg) (int O_RDWR) 0) (\<lambda>_.
      bind_io (on_lib (mkdir_p L (gd_root cfg))) (\<lambda>_.
      if gd_io_workers cfg \<le> 0 then raise ValueError
      else
      bind_io (swallow (bind_io (of_sum probe) (\<lambda>n.
         if 0 < n then bind_io (on_lib (warm_up_all_targets L (gd_root cfg @ ''/.daos-probe.'' @ pid) (nat n) (Some ex1) (Some ex2) (4 * 2 ^ 20))) (\<lambda>_. ret ())
         else ret ()))) (\<lambda>_.
      ret cfg)))))"

end
