(* ===== verification/Gds_Sound.thy ===== *)
theory Gds_Sound
  imports Gds_Backend
begin

text \<open>
  What the GPU-direct backend promises: an object is visible under its key only when it is complete, a
  load that hits returns exactly the object of its key, and reference counts, task marks and handles
  are given back on every path.
\<close>

section \<open>Metadata\<close>

text \<open>The contract of the names: a type is found under the name it is printed with.\<close>

locale torch_names =
  fixes T :: "('dt, 'f) torch"
  assumes attr_str: "t_attr T (remove_all ''torch.'' (t_str T d)) = Some d"
    and ascii_str: "ascii (remove_all ''torch.'' (t_str T d))"
    and format_value: "f_of T (f_value T f) = Some f"

lemma decode_encode: "ascii s \<Longrightarrow> decode (encode s) = Inr s"
proof -
  assume a: "ascii s"
  have u: "unat (of_nat (of_char c) :: 8 word) = of_char c" if "(of_char c :: nat) < 128" for c
    using that by (simp add: unat_of_nat)
  have "map (\<lambda>x. char_of (unat (x :: 8 word))) (encode s) = s"
    using a u by (induction s) (auto simp: encode_def ascii_def)
  moreover have "\<forall>x \<in> set (encode s). unat x < 128" using a u by (auto simp: encode_def ascii_def)
  ultimately show ?thesis by (simp add: decode_def)
qed

lemma ascii_append [simp]: "ascii (a @ b) \<longleftrightarrow> ascii a \<and> ascii b"
  by (auto simp: ascii_def)

lemma ascii_Cons [simp]: "ascii (c # s) \<longleftrightarrow> (of_char c :: nat) < 128 \<and> ascii s"
  by (simp add: ascii_def)

lemma ascii_Nil [simp]: "ascii []"
  by (simp add: ascii_def)

lemma ascii_concat: "(\<And>x. x \<in> set xs \<Longrightarrow> ascii x) \<Longrightarrow> ascii (concat xs)"
  by (induction xs) auto

lemma ascii_join: "ascii sep \<Longrightarrow> (\<And>x. x \<in> set xs \<Longrightarrow> ascii x) \<Longrightarrow> ascii (join sep xs)"
  by (induction sep xs rule: join.induct) auto

lemma ascii_int_str: "ascii (int_str i)"
proof -
  have "ascii (nat_str n)" for n using nat_str_digits [of _ n] by (fastforce simp: ascii_def is_digit_def)
  then show ?thesis by (simp add: int_str_def)
qed

lemma ascii_dump_string:
  assumes "ascii s"
  shows "ascii (dump_string s)"
proof -
  have hex: "(of_char (hex_digit n) :: nat) < 128" for n
    using hex_val_hex [of n] by (auto simp: Py_Json.hex_val_def Let_def split: if_splits)
  have "ascii (esc_char c)" if "(of_char c :: nat) < 128" for c
    using that hex by (auto simp: esc_char_def letter_escapes_def quote_def backslash_def split: option.splits if_splits)
  then show ?thesis using assms by (auto simp: dump_string_def quote_def ascii_def intro!: ascii_concat)
qed

lemma ascii_dumps: "wf_json v \<Longrightarrow> ascii (dumps v)"
proof (induction v)
  case (JsObj kvs)
  have "ascii (dump_string (fst kv) @ '':'' @ dumps (snd kv))" if "kv \<in> set kvs" for kv
    using JsObj that by (cases kv) (auto simp: ascii_dump_string)
  then show ?case by (auto intro!: ascii_join)
qed (auto simp: ascii_int_str intro!: ascii_join ascii_dump_string)

context torch_names
begin

lemma meta_roundtrip: "meta_unpack T (meta_pack T n lay) = Inr (int n, lay)"
proof -
  obtain shapes dtypes fmt where lay: "lay = (shapes, dtypes, fmt)" by (cases lay)
  let ?o = "JsObj
       [(''length'', JsInt (int n)),
        (''shapes'', JsArr (map (\<lambda>s. JsArr (map JsInt s)) shapes)),
        (''dtypes'', JsArr (map (\<lambda>d. JsStr (remove_all ''torch.'' (t_str T d))) dtypes)),
        (''fmt'', JsInt (f_value T fmt))]"
  have wf: "wf_json ?o" by (auto simp: ascii_str)
  have s: "seq_sum (map torch_size (map (\<lambda>s. JsArr (map JsInt s)) shapes)) = Inr shapes"
    by (auto simp: seq_sum_Inr_iff torch_size_def js_list_def size_item_def comp_def)
  have d: "seq_sum (map (torch_dtype T) (map (\<lambda>d. JsStr (remove_all ''torch.'' (t_str T d))) dtypes)) = Inr dtypes"
    by (auto simp: seq_sum_Inr_iff torch_dtype_def attr_str)
  show ?thesis
    unfolding meta_pack_def meta_unpack_def lay prod.case decode_encode [OF ascii_dumps [OF wf]] bind_sum_simps loads_dumps [OF wf]
    using s d by (simp add: jget_def js_list_def js_int_def format_value)
qed

end

section \<open>The library calls of this backend\<close>

text \<open>
  The laws of the calls that only this backend makes. \<open>ds\<close> gives the path of an open directory. A GPU
  write that fails has stored some prefix. A move that reports an error has happened or not; it is
  asked for only while nobody has the source or the target open.
\<close>

abbreviation in_dir :: "string \<Rightarrow> string \<Rightarrow> string" where
  "in_dir p n \<equiv> p @ ''/'' @ n"

locale gds_lib = dfs_full L fs hs for L :: "'d libdfs" and fs hs +
  fixes ds :: "'d \<Rightarrow> nat \<Rightarrow> string option"
  assumes base_frame: "c_dfs_sys2base L d = (x0, d') \<Longrightarrow> fs d' = fs d \<and> hs d' = hs d \<and> ds d' = ds d"
    and read_gpu_eff: "c_dfs_read_gpu L = Some f \<Longrightarrow> hs d h = Some p \<Longrightarrow> fs d p = Some b \<Longrightarrow>
       f bh h off n d = ((rc, x), d') \<Longrightarrow> fs d' = fs d \<and> hs d' = hs d \<and> (rc = 0 \<longrightarrow> x = take n (drop off b))"
    and write_gpu_eff: "c_dfs_write_gpu L = Some g \<Longrightarrow> hs d h = Some p \<Longrightarrow> fs d p = Some b \<Longrightarrow>
       g bh h off x d = (rc, d') \<Longrightarrow> hs d' = hs d \<and>
       (\<exists>j \<le> length x. fs d' = (fs d)(p \<mapsto> overlay b off (take j x)) \<and> (rc = 0 \<longrightarrow> j = length x))"
    and lookup_eff: "c_dfs_lookup L bh p fl d = ((rc, h), d') \<Longrightarrow> fs d' = fs d \<and> hs d' = hs d \<and>
       ds d' = (if rc = 0 then (ds d)(h \<mapsto> p) else ds d)"
    and release_eff: "c_dfs_release L h d = (rc, d') \<Longrightarrow> fs d' = fs d \<and> hs d' = hs d \<and> ds d' = (ds d)(h := None)"
    and move_eff: "ds d h1 = Some p1 \<Longrightarrow> ds d h2 = Some p2 \<Longrightarrow> fs d (in_dir p1 n1) = Some b \<Longrightarrow> in_dir p1 n1 \<noteq> in_dir p2 n2 \<Longrightarrow>
       (\<And>h. hs d h \<noteq> Some (in_dir p1 n1) \<and> hs d h \<noteq> Some (in_dir p2 n2)) \<Longrightarrow> c_dfs_move L bh h1 n1 h2 n2 d = (rc, d') \<Longrightarrow>
       hs d' = hs d \<and> (fs d' = (fs d)(in_dir p1 n1 := None, in_dir p2 n2 \<mapsto> b) \<or> rc \<noteq> 0 \<and> fs d' = fs d)"
begin

abbreviation "sfs s \<equiv> fs (lib_state s)"
abbreviation "shs s \<equiv> hs (lib_state s)"

lemma wp_lib [wp_simps]: "wp (on_lib m) Q s = wp m (\<lambda>r d. Q r (s\<lparr>lib_state := d\<rparr>)) (lib_state s)"
  by (auto simp: wp_def on_lib_def split: prod.splits)

lemma wp_base:
  assumes "\<And>b s'. sfs s' = sfs s \<Longrightarrow> shs s' = shs s \<Longrightarrow> ds (lib_state s') = ds (lib_state s) \<Longrightarrow> Q (Inr b) s'"
    and "\<And>rc s'. sfs s' = sfs s \<Longrightarrow> shs s' = shs s \<Longrightarrow> ds (lib_state s') = ds (lib_state s) \<Longrightarrow> Q (Inl (DaosError rc)) s'"
  shows "wp (base L) Q s"
  unfolding base_def
  by (auto simp: wp_simps intro!: assms dest: base_frame split: option.splits prod.splits)

lemma wp_read_gpu:
  assumes h: "shs s h = Some p" "sfs s p = Some b" and dev: "min n (length b - off) \<le> length dev"
    and ok: "\<And>s' x. sfs s' = sfs s \<Longrightarrow> shs s' = shs s \<Longrightarrow> x = take n (drop off b) \<Longrightarrow> Q (Inr (length x, x @ drop (length x) dev)) s'"
    and bad: "\<And>e s'. sfs s' = sfs s \<Longrightarrow> shs s' = shs s \<Longrightarrow> e \<noteq> MemoryFault \<Longrightarrow> Q (Inl e) s'"
  shows "wp (read_gpu_into L h off n dev) Q s"
proof (cases "gpu_supported L")
  case True
  then obtain f where f: "c_dfs_read_gpu L = Some f" by (auto simp: gpu_supported_def)
  have "wp (on_lib (chk_rc2 (f bh h off n))) (\<lambda>r s'. case r of Inl e \<Rightarrow> Q (Inl e) s' | Inr x \<Rightarrow>
      wp (bind_io (of_sum (store_into dev x)) (\<lambda>dev'. ret (length x, dev'))) Q s') s1"
    if s1: "sfs s1 = sfs s" "shs s1 = shs s" for bh s1
  proof -
    obtain rc x d' where run: "f bh h off n (lib_state s1) = ((rc, x), d')" by (metis surj_pair)
    from read_gpu_eff [OF f _ _ run, of p b] h s1 have "fs d' = sfs s" "hs d' = shs s" "rc = 0 \<longrightarrow> x = take n (drop off b)" by auto
    moreover have "length x \<le> length dev" if "rc = 0" using calculation that dev by simp
    ultimately show ?thesis using run s1 ok [of "s1\<lparr>lib_state := d'\<rparr>" x] by (auto simp: wp_simps intro!: bad)
  qed
  with True f show ?thesis
    unfolding read_gpu_into_def by (auto simp: wp_bind [of "base L"] wp_bind [of "on_lib _"] intro!: wp_base bad)
qed (auto simp: read_gpu_into_def wp_simps intro!: bad)

lemma wp_write_gpu:
  assumes h: "shs s h = Some p" "sfs s p = Some b" and n: "n \<le> length dev"
    and ok: "\<And>s'. shs s' = shs s \<Longrightarrow> sfs s' = (sfs s)(p \<mapsto> overlay b off (take n dev)) \<Longrightarrow> Q (Inr n) s'"
    and bad: "\<And>e j s'. shs s' = shs s \<Longrightarrow> j \<le> n \<Longrightarrow> sfs s' = (sfs s)(p \<mapsto> overlay b off (take j dev)) \<Longrightarrow> e \<noteq> MemoryFault \<Longrightarrow> Q (Inl e) s'"
  shows "wp (write_gpu_from L h off n dev) Q s"
proof -
  have bad0: "Q (Inl e) s'" if "sfs s' = sfs s" "shs s' = shs s" "e \<noteq> MemoryFault" for e s'
    using bad [of s' 0 e] that h by (simp add: fun_upd_idem)
  show ?thesis
  proof (cases "gpu_supported L")
    case True
    then obtain g where g: "c_dfs_write_gpu L = Some g" by (auto simp: gpu_supported_def)
    have "wp (on_lib (chk_rc (g bh h off (take n dev)))) (\<lambda>r s'. case r of Inl e \<Rightarrow> Q (Inl e) s' | Inr x \<Rightarrow> wp (ret n) Q s') s1"
      if s1: "sfs s1 = sfs s" "shs s1 = shs s" for bh s1
    proof -
      obtain rc d' where run: "g bh h off (take n dev) (lib_state s1) = (rc, d')" by (metis surj_pair)
      have l: "length (take n dev) = n" using n by simp
      from write_gpu_eff [OF g _ _ run, of p b] h s1 obtain j where "hs d' = shs s" and j: "j \<le> n"
        "fs d' = (sfs s)(p \<mapsto> overlay b off (take j (take n dev)))" "rc = 0 \<longrightarrow> j = n"
        unfolding l by (metis (no_types))
      moreover have "take j (take n dev) = take j dev" using j(1) by (simp add: min_absorb1)
      ultimately have "hs d' = shs s" "j \<le> n" "fs d' = (sfs s)(p \<mapsto> overlay b off (take j dev))" "rc = 0 \<longrightarrow> j = n" by simp_all
      then show ?thesis using run s1 by (auto simp: wp_simps intro!: ok bad [of _ j])
    qed
    with True g n show ?thesis
      unfolding write_gpu_from_def by (auto simp: wp_bind [of "base L"] wp_bind [of "on_lib _"] intro!: wp_base bad0)
  qed (auto simp: write_gpu_from_def wp_simps intro!: bad0)
qed

end

section \<open>Names\<close>

lemma gds_path_eq: "gds_path dir key = in_dir dir (sha256_hex (key_string key))"
  by (simp add: gds_path_def v2_key_to_path_def Let_def)

lemma gds_temp_eq: "temp_path (gds_path dir key) nonce = in_dir dir (''.tmp-'' @ sha256_hex (key_string key) @ ''-'' @ nonce)"
proof -
  have "rpartition CHR ''/'' (dir @ CHR ''/'' # sha256_hex (key_string key)) = (dir, sha256_hex (key_string key))"
    by (rule rpartition_last) (rule sha256_hex_no, simp)
  then show ?thesis by (simp add: temp_path_def gds_path_eq)
qed

lemma last_part_path: "last_part (gds_path dir key) = sha256_hex (key_string key)"
proof -
  have "CHR ''/'' \<notin> set (sha256_hex (key_string key))" by (rule sha256_hex_no) simp
  from rpartition_last [OF this, of dir] show ?thesis unfolding gds_path_eq last_part_def by simp
qed

lemma last_part_temp:
  assumes "CHR ''/'' \<notin> set nonce"
  shows "last_part (temp_path (gds_path dir key) nonce) = ''.tmp-'' @ sha256_hex (key_string key) @ ''-'' @ nonce"
proof -
  have "CHR ''/'' \<notin> set (''.tmp-'' @ sha256_hex (key_string key) @ ''-'' @ nonce)"
    using assms sha256_hex_no [of "CHR ''/''" "key_string key"] by simp
  from rpartition_last [OF this, of dir] show ?thesis unfolding gds_temp_eq last_part_def by simp
qed

lemma temp_not_path: "temp_path (gds_path dir key) nonce \<noteq> gds_path dir key'"
proof
  assume "temp_path (gds_path dir key) nonce = gds_path dir key'"
  then have e: "sha256_hex (key_string key') = CHR ''.'' # ''tmp-'' @ sha256_hex (key_string key) @ ''-'' @ nonce"
    unfolding gds_temp_eq unfolding gds_path_eq by simp
  have "CHR ''.'' \<in> set (sha256_hex (key_string key'))" unfolding e by simp
  with sha256_hex_no [of "CHR ''.''" "key_string key'"] show False by simp
qed

lemma temp_same_path:
  assumes "temp_path (gds_path dir key) nonce = temp_path (gds_path dir key') nonce'"
  shows "gds_path dir key = gds_path dir key'"
proof -
  have "sha256_hex (key_string key) @ ''-'' @ nonce = sha256_hex (key_string key') @ ''-'' @ nonce'"
    using assms unfolding gds_temp_eq by simp
  then have "sha256_hex (key_string key) = sha256_hex (key_string key')" by (simp add: append_eq_append_conv)
  then show ?thesis by (simp add: gds_path_eq)
qed

section \<open>One call\<close>

lemma wp_Pair [simp]: "wp (Pair r) Q s = Q r s"
  by (simp add: wp_def)

locale gds_conn = gds_lib "g_dfs E" fs hs ds + mem: lm_env "g_lm E" refs nbytes + torch_names "g_torch E"
  for E :: "('d, 'm, 'c, 'dt, 'f) genv" and fs hs ds refs nbytes +
  assumes down_total: "\<exists>f. m_ref_count_down (g_lm E) = Some f \<and> (\<forall>ob m. \<exists>m'. f ob m = (Inr (), m'))"
    and up_eff: "\<exists>m'. g_up E ob m = (Inr (), m') \<and> refs m' = (refs m)(ob := refs m ob + 1) \<and>
       mo_bytes (g_lm E) m' = mo_bytes (g_lm E) m \<and> mo_layout (g_lm E) m' = mo_layout (g_lm E) m"
    and alloc_tensor: "lm_allocate (g_lm E) lay m = (Inr (Some ob), m') \<Longrightarrow> g_tensor E m' ob \<noteq> None"
    and cuda_no_fault: "fst (cu_load (g_cu E) c) \<noteq> Inl MemoryFault" "fst (cu_sync (g_cu E) c) \<noteq> Inl MemoryFault"
begin

abbreviation "gfs s \<equiv> fs (lib_state (gs_dfs s))"
abbreviation "ghs s \<equiv> hs (lib_state (gs_dfs s))"
abbreviation "gpath key \<equiv> gds_path (g_root E) key"
abbreviation "gtemp key nonce \<equiv> temp_path (gpath key) nonce"

lemma wp_on_gs [wp_simps]: "wp (on_gs m) Q s = wp m (\<lambda>r d. Q r (s\<lparr>gs_dfs := d\<rparr>)) (gs_dfs s)"
  by (auto simp: wp_def on_gs_def split: prod.splits)

lemma wp_on_gm [wp_simps]: "wp (on_gm m) Q s = wp m (\<lambda>r d. Q r (s\<lparr>gs_mem := d\<rparr>)) (gs_mem s)"
  by (auto simp: wp_def on_gm_def split: prod.splits)

lemma wp_on_cu [wp_simps]: "wp (on_cu m) Q s = wp m (\<lambda>r d. Q r (s\<lparr>gs_cuda := d\<rparr>)) (gs_cuda s)"
  by (auto simp: wp_def on_cu_def split: prod.splits)

lemma wp_cu_call: "wp (cu_call f) Q s = (case f (gs_cuda s) of (rc, c) \<Rightarrow>
    Q (if rc \<noteq> 0 then Inl RuntimeError else Inr ()) (s\<lparr>gs_cuda := c\<rparr>))"
  by (simp add: cu_call_def wp_def bind_io_def on_cu_def split: prod.splits)

lemma wp_upd_gstats [wp_simps]: "wp (upd_gstats f) Q s = Q (Inr ()) (s\<lparr>gs_stats := f (gs_stats s)\<rparr>)"
  by (simp add: upd_gstats_def wp_put_s)

text \<open>The context is bound or an exception is raised; nothing else changes.\<close>

lemma wp_cuda:
  assumes "\<And>r c x b. r = Inr () \<or> (\<exists>e. r = Inl e \<and> e \<noteq> MemoryFault) \<Longrightarrow> Q r (s\<lparr>gs_cuda := c, gs_ctx := x, gs_bound := b\<rparr>)"
  shows "wp (ensure_cuda_ctx E th) Q s"
proof -
  have q: "Q r s'" if "r = Inr () \<or> (\<exists>e. r = Inl e \<and> e \<noteq> MemoryFault)" "s' = s\<lparr>gs_cuda := gs_cuda s', gs_ctx := gs_ctx s', gs_bound := gs_bound s'\<rparr>"
    for r s' using assms [OF that(1)] that(2) by metis
  show ?thesis
  proof (cases "th \<in> gs_bound s")
    case True
    then show ?thesis by (auto simp: ensure_cuda_ctx_def wp_simps intro!: q)
  next
    case False
    have setc: "wp (bind_io (cu_call (cu_set_current (g_cu E))) (\<lambda>_. put_s (\<lambda>s. s\<lparr>gs_bound := insert th (gs_bound s)\<rparr>))) Q (s\<lparr>gs_cuda := c, gs_ctx := x\<rparr>)" for c x
      by (auto simp: wp_bind wp_cu_call wp_put_s intro!: q split: prod.splits)
    obtain r c where l: "cu_load (g_cu E) (gs_cuda s) = (r, c)" by (cases "cu_load (g_cu E) (gs_cuda s)")
    with cuda_no_fault(1) [of "gs_cuda s"] have nf: "r \<noteq> Inl MemoryFault" by simp
    show ?thesis
    proof (cases "gs_ctx s")
      case True
      have "wp (bind_io (cu_call (cu_set_current (g_cu E))) (\<lambda>_. put_s (\<lambda>s. s\<lparr>gs_bound := insert th (gs_bound s)\<rparr>))) Q s"
        using setc [of "gs_ctx s" "gs_cuda s"] by simp
      with False True show ?thesis by (simp add: ensure_cuda_ctx_def wp_bind wp_get_s wp_ret)
    next
      case ctx: False
      have "wp (bind_io (on_cu (cu_load (g_cu E))) (\<lambda>_. bind_io (cu_call (cu_init (g_cu E))) (\<lambda>_.
          bind_io (cu_call (cu_retain (g_cu E))) (\<lambda>_. put_s (\<lambda>s. s\<lparr>gs_ctx := True\<rparr>)))))
        (\<lambda>r s'. case r of Inl e \<Rightarrow> Q (Inl e) s' | Inr _ \<Rightarrow>
          wp (bind_io (cu_call (cu_set_current (g_cu E))) (\<lambda>_. put_s (\<lambda>s. s\<lparr>gs_bound := insert th (gs_bound s)\<rparr>))) Q s') s"
        using nf setc [of True] ctx
        by (auto simp: wp_bind [of "on_cu _"] wp_bind [of "cu_call (cu_init _)"] wp_bind [of "cu_call (cu_retain _)"] wp_on_cu wp_def [of "cu_load _"] l wp_cu_call wp_put_s
            intro!: q split: prod.splits sum.splits)
      with False ctx show ?thesis
        unfolding ensure_cuda_ctx_def wp_bind [of "get_s _"] wp_get_s sum.case
        by (simp add: wp_bind [of "get_s gs_ctx"] wp_get_s wp_bind [of "bind_io _ _"])
    qed
  qed
qed

lemma wp_ref_down:
  assumes "\<And>m'. refs m' = (refs (gs_mem s))(ob := refs (gs_mem s) ob - 1) \<Longrightarrow>
     (\<And>ob'. ob' \<noteq> ob \<Longrightarrow> 0 < refs (gs_mem s) ob' \<Longrightarrow> mo_bytes (g_lm E) m' ob' = mo_bytes (g_lm E) (gs_mem s) ob' \<and>
        mo_layout (g_lm E) m' ob' = mo_layout (g_lm E) (gs_mem s) ob') \<Longrightarrow> Q (Inr ()) (s\<lparr>gs_mem := m'\<rparr>)"
  shows "wp (ref_down E ob) Q s"
proof -
  from down_total obtain f where f: "m_ref_count_down (g_lm E) = Some f" and t: "\<forall>ob m. \<exists>m'. f ob m = (Inr (), m')" by blast
  obtain m' where run: "f ob (gs_mem s) = (Inr (), m')" using t by blast
  have "release_method (g_lm E) = Some f" using f by (simp add: release_method_def)
  from mem.release_eff [OF this run] show ?thesis
    using f run assms [of m'] by (auto simp: ref_down_def wp_on_gm wp_def [of "f ob"])
qed

text \<open>What a call leaves alone beside the name space and the driver.\<close>

definition same_ctl :: "('d, 'm, 'c) gds \<Rightarrow> ('d, 'm, 'c) gds \<Rightarrow> bool" where
  "same_ctl s s' \<longleftrightarrow> gs_mem s' = gs_mem s \<and> gs_known s' = gs_known s \<and> gs_put_tasks s' = gs_put_tasks s \<and>
     gs_queue s' = gs_queue s \<and> gs_called s' = gs_called s"

lemma same_ctl_simps [simp]:
  "same_ctl s s" "same_ctl (s\<lparr>gs_dfs := d\<rparr>) t \<longleftrightarrow> same_ctl s t" "same_ctl s (t\<lparr>gs_dfs := d\<rparr>) \<longleftrightarrow> same_ctl s t" "same_ctl s (t\<lparr>gs_cuda := c\<rparr>) \<longleftrightarrow> same_ctl s t"
  by (simp_all add: same_ctl_def)

text \<open>A presence check changes the set of known keys at most, and only for a key that is there.\<close>

definition quiet :: "('d, 'm, 'c) gds \<Rightarrow> ('d, 'm, 'c) gds \<Rightarrow> bool" where
  "quiet s s' \<longleftrightarrow> gfs s' = gfs s \<and> ghs s' = ghs s \<and> gs_mem s' = gs_mem s \<and> gs_put_tasks s' = gs_put_tasks s \<and>
     gs_queue s' = gs_queue s \<and> gs_called s' = gs_called s"

definition looked :: "pykey \<Rightarrow> ('d, 'm, 'c) gds \<Rightarrow> exn + bool \<Rightarrow> ('d, 'm, 'c) gds \<Rightarrow> bool" where
  "looked key s r s' \<longleftrightarrow> quiet s s' \<and> r \<noteq> Inl MemoryFault \<and>
     (gs_known s' = gs_known s \<or> gs_known s' = insert key (gs_known s) \<and> gfs s (gpath key) \<noteq> None) \<and>
     (r = Inr True \<longrightarrow> key \<in> gs_known s')"

lemma contains_rule: "wp (gds_contains E th key) (looked key s) s"
  unfolding gds_contains_def wp_bind [of "ensure_cuda_ctx _ _"]
proof (rule wp_cuda, goal_cases)
  case (1 r c x b)
  let ?s = "s\<lparr>gs_cuda := c, gs_ctx := x, gs_bound := b\<rparr>"
  show ?case
  proof (cases r)
    case (Inl e)
    with 1 show ?thesis by (simp add: looked_def quiet_def)
  next
    case (Inr u)
    have "wp (bind_io (catch_io is_DaosError
        (bind_io (on_gl (stat_size (g_dfs E) (gpath key))) (\<lambda>sz. ret (sz \<noteq> None))) (\<lambda>_. ret False)) (\<lambda>present.
     bind_io (if present then put_s (\<lambda>s. s\<lparr>gs_known := insert key (gs_known s)\<rparr>) else ret ()) (\<lambda>_. ret present)))
       (looked key s) ?s"
      unfolding wp_bind [of "catch_io _ _ _"] wp_catch wp_bind [of "on_gl _"] wp_on_gs wp_lib
      by (rule wp_stat_size) (auto simp: wp_simps looked_def quiet_def)
    then show ?thesis using Inr by (auto simp: wp_bind [of "get_s _"] wp_get_s wp_ret looked_def quiet_def)
  qed
qed

end

section \<open>Storing\<close>

definition gds_image :: "('dt, 'f) torch \<Rightarrow> ('dt, 'f) layout \<Rightarrow> bytes \<Rightarrow> exn + bytes" where
  "gds_image T lay x = bind_sum (pack_header (meta_pack T (length x) lay) (int (length x)) STATE_COMMITTED) (\<lambda>page. Inr (page @ x))"

lemma gds_imageE:
  assumes "gds_image T lay x = Inr img"
  obtains page where "pack_header (meta_pack T (length x) lay) (int (length x)) STATE_COMMITTED = Inr page"
    "img = page @ x" "length page = HEADER_SIZE"
proof -
  from assms obtain page where p: "pack_header (meta_pack T (length x) lay) (int (length x)) STATE_COMMITTED = Inr page" "img = page @ x"
    by (auto simp: gds_image_def bind_sum_Inr_iff)
  moreover have "length page = HEADER_SIZE"
    using p(1) by (auto simp: pack_header_Inr_iff length_header_image header_args_def v2_sizes)
  ultimately show ?thesis by (rule that)
qed

lemma overlay_head:
  assumes "b = a @ x"
  shows "\<exists>k'. overlay (take k b) 0 (take j a) = take k' b \<and> (length a \<le> j \<longrightarrow> length a \<le> k') \<and> k' \<le> length b"
proof -
  have t: "take k b = take (min k (length b)) b" by (simp add: min_def)
  have "overlay (take (min k (length b)) b) 0 (take j a) = take (max (min k (length b)) (0 + length (take j a))) b"
    by (rule overlay_prefix [where n = "min j (length a)"]) (simp_all add: assms min_def)
  then show ?thesis unfolding t by (intro exI [of _ "max (min k (length b)) (length (take j a))"]) (auto simp: assms)
qed

lemma overlay_tail:
  assumes "b = a @ x" and "length a \<le> k" "k \<le> length b"
  shows "\<exists>k'. overlay (take k b) (length a) (take j x) = take k' b" "overlay (take k b) (length a) x = b"
proof -
  have o: "overlay (take k b) (length a) (take j x) = take (max k (length a + length (take j x))) b" for j
    by (rule overlay_prefix [where n = "min j (length x)"]) (use assms in \<open>simp_all add: min_def\<close>)
  show "\<exists>k'. overlay (take k b) (length a) (take j x) = take k' b" using o by blast
  show "overlay (take k b) (length a) x = b" using o [of "length x"] assms by (simp add: max_def)
qed

context gds_conn
begin

text \<open>The object \<open>img\<close> in the making: absent or a prefix.\<close>

definition partial_at :: "bytes \<Rightarrow> bytes option \<Rightarrow> bool" where
  "partial_at img f \<longleftrightarrow> f = None \<or> (\<exists>k. f = Some (take k img))"

definition temp_post :: "string \<Rightarrow> bytes \<Rightarrow> nat \<Rightarrow> ('d, 'm, 'c) gds \<Rightarrow> exn + nat \<Rightarrow> ('d, 'm, 'c) gds \<Rightarrow> bool" where
  "temp_post tmp img n s r s' \<longleftrightarrow> ghs s' = ghs s \<and> (\<forall>q. q \<noteq> tmp \<longrightarrow> gfs s' q = gfs s q) \<and> partial_at img (gfs s' tmp) \<and>
     r \<noteq> Inl MemoryFault \<and> (\<forall>k. r = Inr k \<longrightarrow> k = n \<and> gfs s' tmp = Some img) \<and>
     same_ctl s s'"

lemma write_body_rule:
  assumes x: "mo_bytes (g_lm E) (gs_mem s) ob = x" and page: "pack_header mt (int (length x)) STATE_COMMITTED = Inr page"
    and len: "length page = HEADER_SIZE" and img: "img = page @ x"
    and h: "ghs s h = Some tmp" "gfs s tmp = Some (take k img)"
  shows "wp (bind_io (of_sum (pack_header mt (int (length x)) STATE_COMMITTED)) (\<lambda>page.
        bind_io (on_gl (write_obj_from (g_dfs E) h 0 (length page) page)) (\<lambda>_.
        bind_io (on_cu (cu_sync (g_cu E))) (\<lambda>_.
        bind_io (get_s (\<lambda>s. mo_bytes (g_lm E) (gs_mem s) ob)) (\<lambda>dev.
        on_gs (write_gpu_from (g_dfs E) h payload_offset (length x) dev)))))) (temp_post tmp img (length x) s) s"
  unfolding wp_bind [of "of_sum _"] wp_of_sum page sum.case wp_bind [of "on_gl _"] wp_on_gs wp_lib
proof (rule wp_write_full [OF h order.refl], goal_cases)
  case (1 d)
  from overlay_head [OF img, of k "length page"] obtain k' where k': "overlay (take k img) 0 page = take k' img"
    "length page \<le> k'" "k' \<le> length img" by auto
  let ?s = "s\<lparr>gs_dfs := (gs_dfs s)\<lparr>lib_state := d\<rparr>\<rparr>"
  obtain r c where c: "cu_sync (g_cu E) (gs_cuda s) = (r, c)" by (cases "cu_sync (g_cu E) (gs_cuda s)")
  have nf: "r \<noteq> Inl MemoryFault" using cuda_no_fault(2) [of "gs_cuda s"] c by simp
  have f: "gfs ?s tmp = Some (take k' img)" "ghs ?s h = Some tmp" using 1 h k' by simp_all
  have "wp (write_gpu_from (g_dfs E) h payload_offset (length x) x) (\<lambda>r d. temp_post tmp img (length x) s r (s\<lparr>gs_cuda := c, gs_dfs := d\<rparr>)) (gs_dfs ?s)"
  proof (rule wp_write_gpu [of "gs_dfs ?s" h tmp "take k' img"])
    fix s' :: "'d dfssys"
    assume "hs (lib_state s') = ghs ?s" "fs (lib_state s') = (gfs ?s)(tmp \<mapsto> overlay (take k' img) payload_offset (take (length x) x))"
    with 1 h overlay_tail(2) [OF img k'(2,3)] show "temp_post tmp img (length x) s (Inr (length x)) (s\<lparr>gs_cuda := c, gs_dfs := s'\<rparr>)"
      by (auto simp: temp_post_def partial_at_def payload_offset_def len intro: exI [of _ "length img"])
  next
    fix e j and s' :: "'d dfssys"
    assume "hs (lib_state s') = ghs ?s" "fs (lib_state s') = (gfs ?s)(tmp \<mapsto> overlay (take k' img) payload_offset (take j x))" "e \<noteq> MemoryFault"
    with 1 h overlay_tail(1) [OF img k'(2,3)] show "temp_post tmp img (length x) s (Inl e) (s\<lparr>gs_cuda := c, gs_dfs := s'\<rparr>)"
      by (auto simp: temp_post_def partial_at_def payload_offset_def len)
  qed (use f in simp_all)
  then show ?case
    using nf 1 h k' x by (auto simp: wp_bind wp_on_cu wp_def [of "cu_sync _"] c wp_get_s wp_on_gs temp_post_def partial_at_def split: sum.splits)
next
  case (2 j rc d)
  from overlay_head [OF img, of k j] obtain k' where "overlay (take k img) 0 (take j page) = take k' img" by auto
  with 2 h show ?case by (auto simp: temp_post_def partial_at_def)
qed

lemma write_temp_rule:
  assumes x: "mo_bytes (g_lm E) (gs_mem s) ob = x" and page: "pack_header mt (int (length x)) STATE_COMMITTED = Inr page"
    and len: "length page = HEADER_SIZE" and img: "img = page @ x" and tmp: "partial_at img (gfs s tmp)"
  shows "wp (write_temp E tmp ob (length x) mt) (temp_post tmp img (length x) s) s"
  unfolding write_temp_def wp_bind [of "on_gl _"] wp_on_gs wp_lib
proof (rule wp_open_rdwr_create, goal_cases)
  case (1 h d)
  let ?s = "s\<lparr>gs_dfs := (gs_dfs s)\<lparr>lib_state := d\<rparr>\<rparr>"
  from tmp obtain k where "(case gfs s tmp of None \<Rightarrow> [] | Some b \<Rightarrow> b) = take k img"
    by (force simp: partial_at_def intro: exI [of _ 0])
  with 1 have f: "ghs ?s h = Some tmp" "gfs ?s tmp = Some (take k img)" by simp_all
  have x': "mo_bytes (g_lm E) (gs_mem ?s) ob = x" using x by simp
  show ?case
    unfolding sum.case wp_finally
    by (rule wp_mono [OF write_body_rule [OF x' page len img f]])
      (use 1 in \<open>auto simp: wp_on_gs wp_lib temp_post_def fun_upd_idem intro!: wp_close_obj\<close>)
next
  case (2 rc d)
  then show ?case using tmp by (auto simp: temp_post_def partial_at_def intro: exI [of _ 0])
qed

text \<open>The commit: nothing but the two names changes, and the target gets the whole object.\<close>

definition commit_post :: "string \<Rightarrow> string \<Rightarrow> bytes \<Rightarrow> ('d, 'm, 'c) gds \<Rightarrow> exn + unit \<Rightarrow> ('d, 'm, 'c) gds \<Rightarrow> bool" where
  "commit_post tmp final img s r s' \<longleftrightarrow> ghs s' = ghs s \<and> r \<noteq> Inl MemoryFault \<and> same_ctl s s' \<and>
     (gfs s' = (gfs s)(tmp := None, final \<mapsto> img) \<or> r \<noteq> Inr () \<and> gfs s' = gfs s)"

lemma publish_rule:
  assumes nonce: "CHR ''/'' \<notin> set nonce" and img: "gfs s (gtemp key nonce) = Some img"
    and closed: "\<And>h. ghs s h \<noteq> Some (gtemp key nonce) \<and> ghs s h \<noteq> Some (gpath key)"
  shows "wp (publish_temp E (gtemp key nonce) (gpath key)) (commit_post (gtemp key nonce) (gpath key) img s) s"
proof -
  let ?n1 = "last_part (gtemp key nonce)" and ?n2 = "last_part (gpath key)" and ?P = "commit_post (gtemp key nonce) (gpath key) img s"
  have names: "in_dir (g_root E) ?n1 = gtemp key nonce" "in_dir (g_root E) ?n2 = gpath key"
    unfolding last_part_temp [OF nonce] last_part_path unfolding gds_temp_eq by (simp_all add: gds_path_eq)
  have mv: "wp (move (g_dfs E) h ?n1 h ?n2) (\<lambda>r d. ?P r (s\<lparr>gs_dfs := d\<rparr>)) d0"
    if d0: "sfs d0 = gfs s" "shs d0 = ghs s" "ds (lib_state d0) h = Some (g_root E)" for h d0
    unfolding move_def wp_bind
  proof (rule wp_base, goal_cases)
    case (1 b d1)
    obtain rc d2 where run: "c_dfs_move (g_dfs E) b h ?n1 h ?n2 (lib_state d1) = (rc, d2)" by (metis surj_pair)
    have "hs d2 = ghs s \<and> (fs d2 = (gfs s)(gtemp key nonce := None, gpath key \<mapsto> img) \<or> rc \<noteq> 0 \<and> fs d2 = gfs s)"
      using move_eff [OF _ _ _ _ _ run, of "g_root E" "g_root E" img, unfolded names] 1 d0 img closed temp_not_path by simp
    with run show ?case by (auto simp: wp_lib wp_chk_rc commit_post_def)
  qed (use d0 in \<open>auto simp: commit_post_def\<close>)
  have rel: "wp (finally_io (on_gs (move (g_dfs E) h ?n1 h ?n2)) (on_gs (release_dir (g_dfs E) h))) ?P (s\<lparr>gs_dfs := d0\<rparr>)"
    if d0: "sfs d0 = gfs s" "shs d0 = ghs s" "ds (lib_state d0) h = Some (g_root E)" for h d0
    unfolding wp_finally wp_on_gs
    by (simp, rule wp_mono [OF mv [OF d0]])
      (auto simp: release_dir_def wp_lib wp_ignore_rc commit_post_def dest: release_eff split: prod.splits)
  show ?thesis
    unfolding publish_temp_def wp_bind [of "on_gs _"] wp_on_gs lookup_def wp_bind [of "base _"]
  proof (rule wp_base, goal_cases)
    case (1 b d1)
    obtain rc h d2 where run: "c_dfs_lookup (g_dfs E) b (g_root E) O_RDWR (lib_state d1) = ((rc, h), d2)" by (metis surj_pair)
    from lookup_eff [OF run] 1 run rel [of "d1\<lparr>lib_state := d2\<rparr>" h] show ?case
      by (auto simp: wp_lib wp_chk_rc2 commit_post_def)
  qed (auto simp: commit_post_def)
qed

text \<open>
  The outcome of a put: the object of the key appears as a whole or not at all, the temporary object
  is gone or a prefix of it, and nothing else changes in the name space.
\<close>

definition stored :: "pykey \<Rightarrow> string \<Rightarrow> bytes \<Rightarrow> ('d, 'm, 'c) gds \<Rightarrow> ('d, 'm, 'c) gds \<Rightarrow> bool" where
  "stored key nonce img s s' \<longleftrightarrow> ghs s' = ghs s \<and>
     (\<forall>q. q \<noteq> gpath key \<and> q \<noteq> gtemp key nonce \<longrightarrow> gfs s' q = gfs s q) \<and>
     (gfs s' (gpath key) = gfs s (gpath key) \<or> gfs s' (gpath key) = Some img) \<and> partial_at img (gfs s' (gtemp key nonce)) \<and>
     (gs_known s' = gs_known s \<or> gs_known s' = insert key (gs_known s) \<and> gfs s' (gpath key) \<noteq> None)"

definition put_mid :: "pykey \<Rightarrow> string \<Rightarrow> bytes \<Rightarrow> ('d, 'm, 'c) gds \<Rightarrow> exn + unit \<Rightarrow> ('d, 'm, 'c) gds \<Rightarrow> bool" where
  "put_mid key nonce img s r s' \<longleftrightarrow> stored key nonce img s s' \<and> gs_mem s' = gs_mem s \<and> gs_put_tasks s' = gs_put_tasks s \<and>
     gs_queue s' = gs_queue s \<and> r \<noteq> Inl MemoryFault"

lemma note_put_rule:
  assumes "stored key nonce img s s2" "gs_mem s2 = gs_mem s" "gs_put_tasks s2 = gs_put_tasks s" "gs_queue s2 = gs_queue s" "gfs s2 (gpath key) \<noteq> None"
  shows "wp (note_put key n cb) (put_mid key nonce img s) s2"
  using assms by (auto simp: note_put_def wp_simps put_mid_def stored_def)

text \<open>From a complete temporary object on.\<close>

lemma put_commit_rule:
  assumes nonce: "CHR ''/'' \<notin> set nonce" and q: "quiet s s1" "gs_known s1 = gs_known s \<or> gs_known s1 = insert key (gs_known s) \<and> gfs s (gpath key) \<noteq> None"
    and closed: "\<And>h. ghs s h \<noteq> Some (gtemp key nonce) \<and> ghs s h \<noteq> Some (gpath key)"
    and t: "temp_post (gtemp key nonce) img n s1 r s2" and "r = Inr n"
  shows "wp (bind_io (publish_temp E (gtemp key nonce) (gpath key)) (\<lambda>_. note_put key n cb)) (put_mid key nonce img s) s2"
  unfolding wp_bind
proof (rule wp_mono [OF publish_rule [OF nonce, of s2 key img]])
  show "gfs s2 (gtemp key nonce) = Some img" using t assms(6) by (simp add: temp_post_def)
  show "ghs s2 h \<noteq> Some (gtemp key nonce) \<and> ghs s2 h \<noteq> Some (gpath key)" for h
    using t q closed [of h] by (simp add: temp_post_def quiet_def)
  fix r' s3
  assume c: "commit_post (gtemp key nonce) (gpath key) img s2 r' s3"
  have other: "gfs s2 (gpath key) = gfs s (gpath key)" using t q temp_not_path [of "g_root E" key nonce key, symmetric] by (simp add: temp_post_def quiet_def)
  have st: "stored key nonce img s s3"
    using c t q other temp_not_path [of "g_root E" key nonce key]
    by (auto simp: stored_def commit_post_def temp_post_def quiet_def partial_at_def same_ctl_def)
  have mm: "gs_mem s3 = gs_mem s" "gs_put_tasks s3 = gs_put_tasks s" "gs_queue s3 = gs_queue s"
    using c t q by (simp_all add: quiet_def commit_post_def temp_post_def same_ctl_def)
  show "case r' of Inl e \<Rightarrow> put_mid key nonce img s (Inl e) s3 | Inr a \<Rightarrow> wp (note_put key n cb) (put_mid key nonce img s) s3"
    using c st mm note_put_rule [OF st mm] by (cases r') (auto simp: put_mid_def commit_post_def)
qed

lemma put_new_rule:
  assumes img: "gds_image (g_torch E) (mo_layout (g_lm E) (gs_mem s) ob) (mo_bytes (g_lm E) (gs_mem s) ob) = Inr img"
    and nonce: "CHR ''/'' \<notin> set nonce" and tmp: "partial_at img (gfs s (gtemp key nonce))"
    and closed: "\<And>h. ghs s h \<noteq> Some (gtemp key nonce) \<and> ghs s h \<noteq> Some (gpath key)"
    and q: "quiet s s1" "gs_known s1 = gs_known s \<or> gs_known s1 = insert key (gs_known s) \<and> gfs s (gpath key) \<noteq> None"
  shows "wp (put_new E nonce key ob cb) (put_mid key nonce img s) s1"
proof -
  let ?x = "mo_bytes (g_lm E) (gs_mem s) ob" and ?lay = "mo_layout (g_lm E) (gs_mem s) ob"
  from img obtain page where page: "pack_header (meta_pack (g_torch E) (length ?x) ?lay) (int (length ?x)) STATE_COMMITTED = Inr page"
    "img = page @ ?x" "length page = HEADER_SIZE" by (rule gds_imageE)
  have m: "mo_bytes (g_lm E) (gs_mem s1) ob = ?x" "partial_at img (gfs s1 (gtemp key nonce))" "gs_mem s1 = gs_mem s"
    using q tmp by (simp_all add: quiet_def)
  show ?thesis
    unfolding put_new_def wp_bind [of "get_s _"] wp_get_s sum.case prod.case m(3) Let_def wp_bind [of "write_temp _ _ _ _ _"]
  proof (rule wp_mono [OF write_temp_rule [OF m(1) page(1,3,2) m(2)]], goal_cases)
    case (1 r s2)
    have other: "gfs s2 (gpath key) = gfs s (gpath key)" using 1 q temp_not_path [of "g_root E" key nonce key, symmetric] by (simp add: temp_post_def quiet_def)
    show ?case
    proof (cases r)
      case (Inl e)
      then show ?thesis using 1 q other by (auto simp: put_mid_def stored_def temp_post_def quiet_def same_ctl_def)
    next
      case (Inr n)
      with 1 have n: "n = length ?x" by (simp add: temp_post_def)
      show ?thesis using put_commit_rule [OF nonce q closed 1 Inr [unfolded n]] Inr n by simp
    qed
  qed
qed

lemma put_body_rule:
  assumes "gds_image (g_torch E) (mo_layout (g_lm E) (gs_mem s) ob) (mo_bytes (g_lm E) (gs_mem s) ob) = Inr img"
    and "CHR ''/'' \<notin> set nonce" and tmp: "partial_at img (gfs s (gtemp key nonce))"
    and "\<And>h. ghs s h \<noteq> Some (gtemp key nonce) \<and> ghs s h \<noteq> Some (gpath key)"
  shows "wp (put_body E th nonce key ob cb) (put_mid key nonce img s) s"
  unfolding put_body_def wp_bind [of "ensure_cuda_ctx _ _"]
proof (rule wp_cuda, goal_cases)
  case (1 r c x b)
  let ?s = "s\<lparr>gs_cuda := c, gs_ctx := x, gs_bound := b\<rparr>"
  have "wp (bind_io (gds_contains E th key) (\<lambda>present. if present then ret () else
     bind_io (get_s (\<lambda>s. g_tensor E (gs_mem s) ob)) (\<lambda>tensor.
     if tensor \<noteq> Some True then raise AssertionError else put_new E nonce key ob cb))) (put_mid key nonce img s) ?s"
    unfolding wp_bind [of "gds_contains _ _ _"]
  proof (rule wp_mono [OF contains_rule], goal_cases)
    case (1 r s1)
    then have q: "quiet s s1" "gs_known s1 = gs_known s \<or> gs_known s1 = insert key (gs_known s) \<and> gfs s (gpath key) \<noteq> None"
      by (auto simp: looked_def quiet_def)
    have "put_mid key nonce img s u s1" if "u \<noteq> Inl MemoryFault" for u
      using q tmp that by (auto simp: put_mid_def stored_def quiet_def)
    with 1 put_new_rule [OF assms q] show ?case
      by (auto simp: wp_bind [of "get_s _"] wp_get_s wp_ret wp_raise looked_def split: sum.splits)
  qed
  then show ?case using 1 tmp by (auto simp: put_mid_def stored_def)
qed

text \<open>The whole put returns, gives the object back and takes the mark off, whatever happened.\<close>

lemma put_one_rule:
  assumes "gds_image (g_torch E) (mo_layout (g_lm E) (gs_mem s) ob) (mo_bytes (g_lm E) (gs_mem s) ob) = Inr img"
    and "CHR ''/'' \<notin> set nonce" and "partial_at img (gfs s (gtemp key nonce))"
    and "\<And>h. ghs s h \<noteq> Some (gtemp key nonce) \<and> ghs s h \<noteq> Some (gpath key)"
  shows "wp (put_one E th nonce key ob cb) (\<lambda>r s'. r = Inr () \<and> stored key nonce img s s' \<and>
    gs_queue s' = gs_queue s \<and> gs_put_tasks s' = gs_put_tasks s - {key} \<and> refs (gs_mem s') = (refs (gs_mem s))(ob := refs (gs_mem s) ob - 1)) s"
  (is "wp _ ?Q s")
proof -
  have fin: "wp (bind_io (ref_down E ob) (\<lambda>_. put_s (\<lambda>s. s\<lparr>gs_put_tasks := gs_put_tasks s - {key}\<rparr>)))
      (\<lambda>u s2. case u of Inl e \<Rightarrow> ?Q (Inl e) s2 | Inr _ \<Rightarrow> ?Q (Inr ()) s2) s1"
    if "put_mid key nonce img s r s1" for r s1
    using that unfolding wp_bind by (intro wp_ref_down) (simp add: wp_put_s put_mid_def stored_def)
  show ?thesis
    unfolding put_one_def wp_finally wp_catch
  proof (rule wp_mono [OF put_body_rule [OF assms]], goal_cases)
    case (1 r s1)
    then have "is_Exception e" if "r = Inl e" for e using that by (auto simp: put_mid_def is_Exception_def)
    with fin [OF 1] show ?case by (cases r) (simp_all add: wp_ret)
  qed
qed

text \<open>Memory after a put is memory after the release.\<close>

lemma put_one_mem:
  assumes "gds_image (g_torch E) (mo_layout (g_lm E) (gs_mem s) ob) (mo_bytes (g_lm E) (gs_mem s) ob) = Inr img"
    and "CHR ''/'' \<notin> set nonce" and "partial_at img (gfs s (gtemp key nonce))"
    and "\<And>h. ghs s h \<noteq> Some (gtemp key nonce) \<and> ghs s h \<noteq> Some (gpath key)" and f: "m_ref_count_down (g_lm E) = Some f"
  shows "wp (put_one E th nonce key ob cb) (\<lambda>r s'. gs_mem s' = snd (f ob (gs_mem s))) s"
proof -
  have fin: "wp (bind_io (ref_down E ob) (\<lambda>_. put_s (\<lambda>s. s\<lparr>gs_put_tasks := gs_put_tasks s - {key}\<rparr>)))
      (\<lambda>u s2. case u of Inl e \<Rightarrow> gs_mem s2 = snd (f ob (gs_mem s)) | Inr _ \<Rightarrow> gs_mem s2 = snd (f ob (gs_mem s))) s1"
    if "put_mid key nonce img s r s1" for r s1
    using that f by (auto simp: wp_bind ref_down_def wp_on_gm wp_def [of "f ob"] wp_put_s put_mid_def split: sum.splits prod.splits)
  show ?thesis
    unfolding put_one_def wp_finally wp_catch
  proof (rule wp_mono [OF put_body_rule [OF assms(1-4)]], goal_cases)
    case (1 r s1)
    with fin [OF 1] show ?case by (cases r) (simp_all add: wp_ret cong: sum.case_cong)
  qed
qed

section \<open>Loading\<close>

lemma parse_gds_page:
  assumes "pack_header mt (int n) STATE_COMMITTED = Inr page"
  shows "parse_header page True = Inr \<lparr>state = STATE_COMMITTED, meta = mt, payload_len = n\<rparr>"
  using v2.parse_committed [OF assms, of True] by simp

text \<open>What a load may do to memory; a hit is a new object with contents \<open>x\<close> and layout \<open>lay\<close>.\<close>

definition loaded_mem :: "('dt, 'f) layout \<Rightarrow> bytes \<Rightarrow> 'm \<Rightarrow> exn + nat option \<Rightarrow> 'm \<Rightarrow> bool" where
  "loaded_mem lay x m r m' \<longleftrightarrow> mem.keeps m m' \<and> (case r of
     Inr (Some ob) \<Rightarrow> refs m ob = 0 \<and> refs m' = (refs m)(ob := 1) \<and> mo_bytes (g_lm E) m' ob = x \<and> mo_layout (g_lm E) m' ob = lay
   | Inr None \<Rightarrow> refs m' = refs m
   | Inl e \<Rightarrow> e \<noteq> MemoryFault \<and> refs m' = refs m)"

definition prepared :: "('dt, 'f) layout \<Rightarrow> bytes \<Rightarrow> ('d, 'm, 'c) gds \<Rightarrow> exn + (header \<times> nat) option \<Rightarrow> ('d, 'm, 'c) gds \<Rightarrow> bool" where
  "prepared lay x s r s' \<longleftrightarrow> gfs s' = gfs s \<and> ghs s' = ghs s \<and> gs_put_tasks s' = gs_put_tasks s \<and> gs_queue s' = gs_queue s \<and>
     gs_known s' = gs_known s \<and> mem.keeps (gs_mem s) (gs_mem s') \<and> (case r of
       Inl e \<Rightarrow> False
     | Inr None \<Rightarrow> refs (gs_mem s') = refs (gs_mem s)
     | Inr (Some (hdr, ob)) \<Rightarrow> payload_len hdr = length x \<and> refs (gs_mem s) ob = 0 \<and> refs (gs_mem s') = (refs (gs_mem s))(ob := 1) \<and>
         mo_layout (g_lm E) (gs_mem s') ob = lay \<and> length (mo_bytes (g_lm E) (gs_mem s') ob) = nbytes lay \<and> g_tensor E (gs_mem s') ob \<noteq> None)"

lemma wp_alloc_tensor:
  assumes "\<And>ob m'. refs m ob = 0 \<Longrightarrow> refs m' = (refs m)(ob := 1) \<Longrightarrow> mo_layout (g_lm E) m' ob = lay \<Longrightarrow>
             length (mo_bytes (g_lm E) m' ob) = nbytes lay \<Longrightarrow> mem.keeps m m' \<Longrightarrow> g_tensor E m' ob \<noteq> None \<Longrightarrow> Q (Inr (Some ob)) m'"
    and "\<And>r m'. (\<forall>ob. r \<noteq> Inr (Some ob)) \<Longrightarrow> r \<noteq> Inl MemoryFault \<Longrightarrow> refs m' = refs m \<Longrightarrow> mem.keeps m m' \<Longrightarrow> Q r m'"
  shows "wp (lm_allocate (g_lm E) lay) Q m"
proof (rule wp_use)
  show "wp (lm_allocate (g_lm E) lay) (\<lambda>r m'. \<forall>ob. r = Inr (Some ob) \<longrightarrow> g_tensor E m' ob \<noteq> None) m"
    by (rule wpI) (auto dest: alloc_tensor)
  show "wp (lm_allocate (g_lm E) lay) (\<lambda>r m'. (\<forall>ob. r = Inr (Some ob) \<longrightarrow> g_tensor E m' ob \<noteq> None) \<longrightarrow> Q r m') m"
    by (rule mem.wp_allocate) (auto intro: assms)
qed

lemma get_prepare_rule:
  assumes img: "gds_image (g_torch E) lay x = Inr img" and h: "ghs s h = Some p" "gfs s p = Some img"
  shows "wp (get_prepare E h) (prepared lay x s) s"
proof -
  from img obtain page where page: "pack_header (meta_pack (g_torch E) (length x) lay) (int (length x)) STATE_COMMITTED = Inr page"
    "img = page @ x" "length page = HEADER_SIZE" by (rule gds_imageE)
  let ?hdr = "\<lparr>state = STATE_COMMITTED, meta = meta_pack (g_torch E) (length x) lay, payload_len = length x\<rparr>"
  have alloc: "wp (bind_io (on_gm (lm_allocate (g_lm E) lay)) (\<lambda>r. case r of
            None \<Rightarrow> bind_io count_alloc_fail (\<lambda>_. ret None) | Some ob \<Rightarrow> ret (Some (?hdr, ob))))
      (\<lambda>r s'. case r of Inl e \<Rightarrow> (is_Exception e \<longrightarrow> prepared lay x s (Inr None) s') \<and> (\<not> is_Exception e \<longrightarrow> prepared lay x s (Inl e) s') | Inr a \<Rightarrow> prepared lay x s (Inr a) s')
      (s\<lparr>gs_dfs := (gs_dfs s)\<lparr>lib_state := d\<rparr>\<rparr>)" if "fs d = gfs s" "hs d = ghs s" for d
    unfolding wp_bind [of "on_gm _"] wp_on_gm
  proof (rule wp_alloc_tensor, goal_cases)
    case (1 ob m')
    then show ?case using that by (simp add: wp_ret prepared_def)
  next
    case (2 r m')
    then have "prepared lay x s (Inr None) (s\<lparr>gs_dfs := (gs_dfs s)\<lparr>lib_state := d\<rparr>, gs_mem := m', gs_stats := st\<rparr>)"
      "prepared lay x s (Inr None) (s\<lparr>gs_dfs := (gs_dfs s)\<lparr>lib_state := d\<rparr>, gs_mem := m'\<rparr>)" for st
      using that by (simp_all add: prepared_def)
    with 2 show ?case
      by (cases r) (auto simp: is_Exception_def count_alloc_fail_def wp_bind wp_upd_gstats wp_ret split: option.splits)
  qed
  have bad: "prepared lay x s (Inr None) (s\<lparr>gs_dfs := (gs_dfs s)\<lparr>lib_state := d\<rparr>\<rparr>)" if "fs d = gfs s" "hs d = ghs s" for d
    using that by (simp add: prepared_def)
  have rd: "take HEADER_SIZE (drop 0 img) = page" using page by simp
  show ?thesis
    unfolding get_prepare_def wp_catch wp_bind [of "catch_io _ _ _"] wp_bind [of "on_gl _"] wp_on_gs wp_lib
  proof (rule wp_read_obj [OF h], goal_cases)
    case (1 d)
    then show ?case
      unfolding rd using alloc [of d] by (simp add: wp_bind [of "of_sum _"] wp_of_sum parse_gds_page [OF page(1)] wp_ret meta_roundtrip cong: sum.case_cong)
  next
    case (2 rc d)
    with bad [of d] show ?case by (simp add: is_Exception_def wp_ret)
  qed
qed

text \<open>The whole load of a key whose object is absent or complete.\<close>

definition got_post :: "pykey \<Rightarrow> ('dt, 'f) layout \<Rightarrow> bytes \<Rightarrow> ('d, 'm, 'c) gds \<Rightarrow> exn + nat option \<Rightarrow> ('d, 'm, 'c) gds \<Rightarrow> bool" where
  "got_post key lay x s r s' \<longleftrightarrow> gfs s' = gfs s \<and> ghs s' = ghs s \<and> gs_put_tasks s' = gs_put_tasks s \<and> gs_queue s' = gs_queue s \<and>
     (gs_known s' = gs_known s \<or> gs_known s' = insert key (gs_known s) \<and> gfs s (gpath key) \<noteq> None) \<and>
     loaded_mem lay x (gs_mem s) r (gs_mem s')"

lemma keeps_trans: "mem.keeps m m1 \<Longrightarrow> refs m1 = (refs m)(ob := 1) \<Longrightarrow> refs m ob = 0 \<Longrightarrow>
    (\<And>ob'. ob' \<noteq> ob \<Longrightarrow> 0 < refs m1 ob' \<Longrightarrow> mo_bytes (g_lm E) m2 ob' = mo_bytes (g_lm E) m1 ob' \<and> mo_layout (g_lm E) m2 ob' = mo_layout (g_lm E) m1 ob') \<Longrightarrow>
    mem.keeps m m2"
  unfolding mem.keeps_def by (metis fun_upd_apply less_irrefl)

lemma give_back:
  assumes "refs m ob = 0" "refs (gs_mem s1) = (refs m)(ob := 1)" "mem.keeps m (gs_mem s1)"
    and "\<And>m'. refs m' = refs m \<Longrightarrow> mem.keeps m m' \<Longrightarrow> Q (Inr None) (s1\<lparr>gs_mem := m'\<rparr>)"
  shows "wp (bind_io (ref_down E ob) (\<lambda>_. ret None)) Q s1"
  unfolding wp_bind
proof (rule wp_ref_down)
  fix m'
  assume m': "refs m' = (refs (gs_mem s1))(ob := refs (gs_mem s1) ob - 1)"
    "\<And>ob'. ob' \<noteq> ob \<Longrightarrow> 0 < refs (gs_mem s1) ob' \<Longrightarrow> mo_bytes (g_lm E) m' ob' = mo_bytes (g_lm E) (gs_mem s1) ob' \<and>
        mo_layout (g_lm E) m' ob' = mo_layout (g_lm E) (gs_mem s1) ob'"
  have "refs m' = refs m" using m'(1) assms(1,2) by (auto simp: fun_eq_iff)
  moreover have "mem.keeps m m'" using keeps_trans [OF assms(3,2,1) m'(2)] .
  ultimately show "case Inr () of Inl e \<Rightarrow> Q (Inl e) (s1\<lparr>gs_mem := m'\<rparr>) | Inr a \<Rightarrow> wp (ret None) Q (s1\<lparr>gs_mem := m'\<rparr>)"
    using assms(4) by (simp add: wp_ret)
qed

lemma get_payload_rule:
  assumes img: "gds_image (g_torch E) lay x = Inr img" and nb: "nbytes lay = length x"
    and h: "ghs s h = Some (gpath key)" "gfs s (gpath key) = Some img" and p: "prepared lay x s (Inr (Some (hdr, ob))) s1"
  shows "wp (get_payload E key h hdr ob) (got_post key lay x s) s1"
proof -
  let ?m = "gs_mem s" and ?dev = "mo_bytes (g_lm E) (gs_mem s1) ob"
  from img obtain page where page: "img = page @ x" "length page = HEADER_SIZE" by (rule gds_imageE)
  from p have pl: "payload_len hdr = length x" and fr: "refs ?m ob = 0" "refs (gs_mem s1) = (refs ?m)(ob := 1)"
    and lay: "mo_layout (g_lm E) (gs_mem s1) ob = lay" and dev: "length ?dev = length x" and ten: "g_tensor E (gs_mem s1) ob \<noteq> None"
    and k: "mem.keeps ?m (gs_mem s1)" and s1: "gfs s1 = gfs s" "ghs s1 = ghs s" "gs_put_tasks s1 = gs_put_tasks s" "gs_queue s1 = gs_queue s" "gs_known s1 = gs_known s"
    using nb by (simp_all add: prepared_def)
  have rd: "take (length x) (drop payload_offset img) = x" using page by (simp add: payload_offset_def)
  have give: "wp (bind_io (ref_down E ob) (\<lambda>_. ret None)) (got_post key lay x s) (s1\<lparr>gs_dfs := d\<rparr>)" if "sfs d = gfs s" "shs d = ghs s" for d
    by (rule give_back [where m = ?m]) (use that fr k s1 in \<open>simp_all add: got_post_def loaded_mem_def\<close>)
  have hit: "got_post key lay x s (Inr (Some ob)) (s1\<lparr>gs_dfs := d, gs_mem := mo_store (g_lm E) ob x (gs_mem s1), gs_stats := st, gs_known := insert key (gs_known s1)\<rparr>)"
    if "sfs d = gfs s" "shs d = ghs s" for d st
    using that s1 h fr lay dev keeps_trans [OF k fr(2,1), of "mo_store (g_lm E) ob x (gs_mem s1)"]
    by (simp add: got_post_def loaded_mem_def mem.store_bytes mem.store_layout mem.store_refs)
  from ten obtain tb where tb: "g_tensor E (gs_mem s1) ob = Some tb" by blast
  show ?thesis
    unfolding get_payload_def wp_catch wp_bind [of "get_s _"] wp_get_s sum.case prod.case
    using dev pl
  proof (simp add: tb Let_def wp_bind [of "on_gs _"] wp_on_gs del: wp_bind, goal_cases)
    case 1
    show ?case
    proof (rule wp_read_gpu [of "gs_dfs s1" h "gpath key" img], goal_cases)
      case (4 d y)
      then have y: "y = x" using rd by simp
      from 4 hit [of d] s1 show ?case unfolding y by (simp add: wp_bind wp_put_s wp_upd_gstats wp_ret dev)
    next
      case (5 e d)
      with give [of d] s1 show ?case by (simp add: is_Exception_def)
    qed (use h s1 dev in simp_all)
  qed
qed

lemma get_blocking_rule:
  assumes img: "gds_image (g_torch E) lay x = Inr img" and nb: "nbytes lay = length x"
    and f: "gfs s (gpath key) = None \<or> gfs s (gpath key) = Some img"
  shows "wp (get_blocking E th key) (got_post key lay x s) s"
  unfolding get_blocking_def wp_bind [of "ensure_cuda_ctx _ _"]
proof (rule wp_cuda, goal_cases)
  case (1 r c b y)
  let ?s = "s\<lparr>gs_cuda := c, gs_ctx := b, gs_bound := y\<rparr>"
  have body: "wp (finally_io (bind_io (get_prepare E h) (\<lambda>p. case p of None \<Rightarrow> ret None | Some (hdr, ob) \<Rightarrow> get_payload E key h hdr ob))
           (on_gl (close_obj (g_dfs E) h))) (got_post key lay x s) s1"
    if s1: "same_ctl ?s s1" "gfs s1 = gfs s" "ghs s1 = (ghs s)(h \<mapsto> gpath key)" "ghs s h = None" "gfs s (gpath key) = Some img" for h s1
  proof -
    have h: "ghs s1 h = Some (gpath key)" "gfs s1 (gpath key) = Some img" using s1 by simp_all
    have "wp (bind_io (get_prepare E h) (\<lambda>p. case p of None \<Rightarrow> ret None | Some (hdr, ob) \<Rightarrow> get_payload E key h hdr ob)) (got_post key lay x s1) s1"
      unfolding wp_bind
    proof (rule wp_mono [OF get_prepare_rule [OF img h]], goal_cases)
      case (1 r s2)
      then obtain q where r: "r = Inr q" by (cases r) (simp_all add: prepared_def)
      show ?case
      proof (cases q)
        case None
        with 1 r show ?thesis by (simp add: wp_ret prepared_def got_post_def loaded_mem_def)
      next
        case (Some a)
        obtain hdr ob where a: "a = (hdr, ob)" by (cases a)
        show ?thesis using get_payload_rule [OF img nb h 1 [unfolded r Some a]] by (simp add: r Some a)
      qed
    qed
    then show ?thesis
      unfolding wp_finally wp_on_gs wp_lib
      by (rule wp_mono) (use s1 in \<open>auto simp: got_post_def same_ctl_def fun_upd_idem intro!: wp_close_obj\<close>)
  qed
  have opened: "wp (bind_io (catch_io is_DaosError
        (bind_io (on_gl (open_rdonly (g_dfs E) (gpath key))) (\<lambda>h. ret (Some h)))
        (\<lambda>e. if exn_rc e = Some 2 then bind_io count_miss (\<lambda>_. ret None) else raise e)) (\<lambda>oh. case oh of
       None \<Rightarrow> ret None
     | Some h \<Rightarrow> finally_io (bind_io (get_prepare E h) (\<lambda>p. case p of None \<Rightarrow> ret None | Some (hdr, ob) \<Rightarrow> get_payload E key h hdr ob))
           (on_gl (close_obj (g_dfs E) h)))) (got_post key lay x s) ?s"
    unfolding wp_bind [of "catch_io _ _ _"] wp_catch wp_bind [of "on_gl _"] wp_on_gs wp_lib
  proof (rule wp_open_rdonly, goal_cases)
    case (1 h b' d)
    with body [of "?s\<lparr>gs_dfs := (gs_dfs s)\<lparr>lib_state := d\<rparr>\<rparr>" h] f show ?case by (simp add: wp_ret)
  next
    case (2 rc d)
    then show ?case by (auto simp: wp_bind wp_ret wp_raise count_miss_def wp_upd_gstats got_post_def loaded_mem_def)
  qed
  with 1 show ?case by (auto simp: got_post_def loaded_mem_def)
qed

end

end
