(* ===== verification/Gds_Cache.thy ===== *)
theory Gds_Cache
  imports Gds_Sound
begin

text \<open>
  The GPU-direct backend over any sequence of calls: submissions of stores, the stores as the pool runs
  them, loads, presence checks and removals, with failures anywhere and with LMCache using its memory
  as it likes in between.
\<close>

section \<open>Reachable states\<close>

text \<open>\<open>plan key\<close> is the object that belongs to the key: a key is only ever stored with one object.\<close>

inductive gds_reach :: "('d, 'm, 'c, 'dt, 'f) genv \<Rightarrow> (pykey \<Rightarrow> (('dt, 'f) layout \<times> bytes) option) \<Rightarrow> ('d, 'm, 'c) gds \<Rightarrow> ('d, 'm, 'c) gds \<Rightarrow> bool"
  for E plan s0 where
  start: "gds_reach E plan s0 s0"
| submit: "gds_reach E plan s0 s \<Longrightarrow> batched_submit_put_task E cb keys obs s = (r, s') \<Longrightarrow> gds_reach E plan s0 s'"
| put: "gds_reach E plan s0 s \<Longrightarrow> (key, ob, cb) \<in> set (gs_queue s) \<Longrightarrow>
    plan key = Some (mo_layout (g_lm E) (gs_mem s) ob, mo_bytes (g_lm E) (gs_mem s) ob) \<Longrightarrow> CHR ''/'' \<notin> set nonce \<Longrightarrow>
    run_queued E th nonce (key, ob, cb) s = (u, s') \<Longrightarrow> gds_reach E plan s0 s'"
| get: "gds_reach E plan s0 s \<Longrightarrow> plan key \<noteq> None \<Longrightarrow> get_blocking E th key s = (g, s') \<Longrightarrow> gds_reach E plan s0 s'"
| contains: "gds_reach E plan s0 s \<Longrightarrow> plan key \<noteq> None \<Longrightarrow> gds_contains E th key s = (q, s') \<Longrightarrow> gds_reach E plan s0 s'"
| remove: "gds_reach E plan s0 s \<Longrightarrow> plan key \<noteq> None \<Longrightarrow> gds_remove E key s = (q, s') \<Longrightarrow> gds_reach E plan s0 s'"
| memory: "gds_reach E plan s0 s \<Longrightarrow> gds_reach E plan s0 (s\<lparr>gs_mem := m\<rparr>)"

text \<open>
  The objects have a header that fits, and no two of the keys in use have the same path (their digests
  differ).
\<close>

definition gds_plan_ok :: "('d, 'm, 'c, 'dt, 'f) genv \<Rightarrow> (('dt, 'f) layout \<Rightarrow> nat) \<Rightarrow> (pykey \<Rightarrow> (('dt, 'f) layout \<times> bytes) option) \<Rightarrow> bool" where
  "gds_plan_ok E nbytes plan \<longleftrightarrow> inj_on (gds_path (g_root E)) (dom plan) \<and>
     (\<forall>key lay x. plan key = Some (lay, x) \<longrightarrow> nbytes lay = length x \<and> (\<exists>img. gds_image (g_torch E) lay x = Inr img))"

text \<open>
  The invariant: no handle is open between calls; under a key there is nothing or its complete object,
  under a temporary name a prefix of it; known keys are present; the marked keys are those of the
  queued puts, each once.
\<close>

definition objects_ok :: "('d, 'm, 'c, 'dt, 'f) genv \<Rightarrow> (string \<Rightarrow> bytes option) \<Rightarrow> (pykey \<Rightarrow> (('dt, 'f) layout \<times> bytes) option) \<Rightarrow> bool" where
  "objects_ok E files plan \<longleftrightarrow> (\<forall>key lay x img. plan key = Some (lay, x) \<longrightarrow> gds_image (g_torch E) lay x = Inr img \<longrightarrow>
     (files (gds_path (g_root E) key) = None \<or> files (gds_path (g_root E) key) = Some img) \<and>
     (\<forall>nonce c. files (temp_path (gds_path (g_root E) key) nonce) = Some c \<longrightarrow> (\<exists>k. c = take k img)))"

definition gds_inv :: "('d, 'm, 'c, 'dt, 'f) genv \<Rightarrow> ('d \<Rightarrow> string \<Rightarrow> bytes option) \<Rightarrow> ('d \<Rightarrow> nat \<Rightarrow> string option) \<Rightarrow>
    (pykey \<Rightarrow> (('dt, 'f) layout \<times> bytes) option) \<Rightarrow> ('d, 'm, 'c) gds \<Rightarrow> bool" where
  "gds_inv E fs hs plan s \<longleftrightarrow> hs (lib_state (gs_dfs s)) = Map.empty \<and> objects_ok E (fs (lib_state (gs_dfs s))) plan \<and>
     (\<forall>key \<in> gs_known s. plan key \<noteq> None \<and> fs (lib_state (gs_dfs s)) (gds_path (g_root E) key) \<noteq> None) \<and>
     distinct (map fst (gs_queue s)) \<and> gs_put_tasks s = fst ` set (gs_queue s)"

lemma objects_okD:
  assumes "objects_ok E files plan" "plan key = Some (lay, x)" "gds_image (g_torch E) lay x = Inr img"
  shows "files (gds_path (g_root E) key) = None \<or> files (gds_path (g_root E) key) = Some img"
    "files (temp_path (gds_path (g_root E) key) nonce) = Some c \<Longrightarrow> \<exists>k. c = take k img"
  using assms unfolding objects_ok_def by blast+

lemma objects_ok_removed: "objects_ok E files plan \<Longrightarrow> objects_ok E (files(p := None)) plan"
  unfolding objects_ok_def by (metis fun_upd_apply option.distinct(1))

lemma remove1_keys:
  assumes "distinct (map fst q)" "x \<in> set q"
  shows "distinct (map fst (remove1 x q)) \<and> fst ` set (remove1 x q) = fst ` set q - {fst x}"
  using assms
proof (induction q)
  case (Cons y q)
  then show ?case by (cases "y = x") (auto simp: image_iff)
qed simp

locale gds_cache = gds_conn E fs hs ds refs nbytes for E :: "('d, 'm, 'c, 'dt, 'f) genv" and fs hs ds refs nbytes +
  fixes plan :: "pykey \<Rightarrow> (('dt, 'f) layout \<times> bytes) option"
  assumes planned: "gds_plan_ok E nbytes plan"
begin

abbreviation "Inv s \<equiv> gds_inv E fs hs plan s"

lemma planD:
  assumes "plan key = Some (lay, x)"
  obtains img where "gds_image (g_torch E) lay x = Inr img" "nbytes lay = length x"
  using planned assms unfolding gds_plan_ok_def by blast

lemma same_key: "plan key \<noteq> None \<Longrightarrow> plan key' \<noteq> None \<Longrightarrow> gpath key = gpath key' \<Longrightarrow> key = key'"
  using planned unfolding gds_plan_ok_def inj_on_def by blast

text \<open>Storing one object keeps the name space in order.\<close>

lemma stored_objects:
  assumes ok: "objects_ok E (gfs s) plan" and pl: "plan key = Some (lay, x)" and img: "gds_image (g_torch E) lay x = Inr img"
    and st: "stored key nonce img s s'"
  shows "objects_ok E (gfs s') plan"
  unfolding objects_ok_def
proof (intro allI impI conjI)
  fix key' lay' x' img'
  assume k: "plan key' = Some (lay', x')" "gds_image (g_torch E) lay' x' = Inr img'"
  have same: "key' = key \<Longrightarrow> img' = img" using k pl img by simp
  have old: "gfs s (gpath key') = None \<or> gfs s (gpath key') = Some img'" using objects_okD(1) [OF ok k] .
  show "gfs s' (gpath key') = None \<or> gfs s' (gpath key') = Some img'"
  proof (cases "gpath key' = gpath key")
    case True
    with same_key [of key' key] k pl same st old show ?thesis by (auto simp: stored_def)
  next
    case False
    with st old temp_not_path [of "g_root E" key nonce key', symmetric] show ?thesis by (simp add: stored_def)
  qed
  fix nonce' c
  assume c: "gfs s' (gtemp key' nonce') = Some c"
  show "\<exists>k. c = take k img'"
  proof (cases "gtemp key' nonce' = gtemp key nonce")
    case True
    then have "key' = key" using temp_same_path [OF True] same_key [of key' key] k pl by simp
    with st c True same show ?thesis by (auto simp: stored_def partial_at_def)
  next
    case False
    with st temp_not_path [of "g_root E" key' nonce' key] have "gfs s' (gtemp key' nonce') = gfs s (gtemp key' nonce')"
      by (simp add: stored_def)
    with c objects_okD(2) [OF ok k] show ?thesis by simp
  qed
qed

lemma stored_known:
  assumes st: "stored key nonce img s s'" and old: "\<And>k. k \<in> gs_known s \<Longrightarrow> gfs s (gpath k) \<noteq> None" and k: "k \<in> gs_known s'"
  shows "(k \<in> gs_known s \<or> k = key) \<and> gfs s' (gpath k) \<noteq> None"
proof (cases "gpath k = gpath key")
  case True
  then show ?thesis using st k old [of k] by (auto simp: stored_def)
next
  case False
  then have "gfs s' (gpath k) = gfs s (gpath k)" using st temp_not_path [of "g_root E" key nonce k, symmetric] by (simp add: stored_def)
  moreover have "k \<in> gs_known s" using st k False by (auto simp: stored_def)
  ultimately show ?thesis using old [of k] by simp
qed

lemma put_inv:
  assumes inv: "Inv s" and q: "(key, ob, cb) \<in> set (gs_queue s)"
    and pl: "plan key = Some (mo_layout (g_lm E) (gs_mem s) ob, mo_bytes (g_lm E) (gs_mem s) ob)" and nonce: "CHR ''/'' \<notin> set nonce"
  shows "wp (run_queued E th nonce (key, ob, cb)) (\<lambda>r s'. r = Inr () \<and> Inv s' \<and> key \<notin> gs_put_tasks s' \<and>
     refs (gs_mem s') = (refs (gs_mem s))(ob := refs (gs_mem s) ob - 1) \<and> ghs s' = ghs s) s"
proof -
  let ?s = "s\<lparr>gs_queue := remove1 (key, ob, cb) (gs_queue s)\<rparr>"
  obtain img where img: "gds_image (g_torch E) (mo_layout (g_lm E) (gs_mem s) ob) (mo_bytes (g_lm E) (gs_mem s) ob) = Inr img"
    using planD [OF pl] by metis
  have ok: "objects_ok E (gfs s) plan" using inv by (simp add: gds_inv_def)
  have part: "partial_at img (gfs ?s (gtemp key nonce))"
    using objects_okD(2) [OF ok pl img, of nonce] by (cases "gfs s (gtemp key nonce)") (auto simp: partial_at_def)
  have cl: "ghs ?s h \<noteq> Some (gtemp key nonce) \<and> ghs ?s h \<noteq> Some (gpath key)" for h using inv by (simp add: gds_inv_def)
  have img': "gds_image (g_torch E) (mo_layout (g_lm E) (gs_mem ?s) ob) (mo_bytes (g_lm E) (gs_mem ?s) ob) = Inr img" using img by simp
  have d: "distinct (map fst (gs_queue s))" using inv by (simp add: gds_inv_def)
  have rest: "distinct (map fst (remove1 (key, ob, cb) (gs_queue s)))" "fst ` set (remove1 (key, ob, cb) (gs_queue s)) = fst ` set (gs_queue s) - {key}"
    using remove1_keys [OF d q] by simp_all
  show ?thesis
    unfolding run_queued_def prod.case wp_bind wp_put_s sum.case
  proof (rule wp_mono [OF put_one_rule [OF img' nonce part cl]], goal_cases)
    case (1 r s')
    then have st: "stored key nonce img s s'" "gs_queue s' = remove1 (key, ob, cb) (gs_queue s)" by (auto simp: stored_def)
    have kn: "plan k \<noteq> None \<and> gfs s' (gpath k) \<noteq> None" if "k \<in> gs_known s'" for k
      using stored_known [OF st(1) _ that] inv pl unfolding gds_inv_def by blast
    have "ghs s' = ghs s" using st by (simp add: stored_def)
    then have "Inv s'"
      using 1 inv rest kn stored_objects [OF ok pl img st(1)] unfolding gds_inv_def by simp
    with 1 rest \<open>ghs s' = ghs s\<close> inv show ?case by (simp add: gds_inv_def)
  qed
qed

lemma inv_quiet:
  assumes "Inv s" "gfs s' = gfs s" "ghs s' = ghs s" "gs_put_tasks s' = gs_put_tasks s" "gs_queue s' = gs_queue s" "plan key \<noteq> None"
    and "gs_known s' = gs_known s \<or> gs_known s' = insert key (gs_known s) \<and> gfs s (gpath key) \<noteq> None"
  shows "Inv s'"
  using assms unfolding gds_inv_def by (metis insert_iff)

lemma get_inv:
  assumes inv: "Inv s" and pl: "plan key = Some (lay, x)"
  shows "wp (get_blocking E th key) (\<lambda>r s'. Inv s' \<and> loaded_mem lay x (gs_mem s) r (gs_mem s')) s"
proof -
  obtain img where img: "gds_image (g_torch E) lay x = Inr img" "nbytes lay = length x" using planD [OF pl] by metis
  have "gfs s (gpath key) = None \<or> gfs s (gpath key) = Some img"
    using objects_okD(1) [of E "gfs s" plan, OF _ pl img(1)] inv by (simp add: gds_inv_def)
  from get_blocking_rule [OF img this] show ?thesis
    by (rule wp_mono) (use pl in \<open>auto simp: got_post_def intro: inv_quiet [OF inv, where key = key]\<close>)
qed

lemma contains_inv:
  assumes "Inv s" and "plan key \<noteq> None"
  shows "wp (gds_contains E th key) (\<lambda>r s'. Inv s' \<and> (r = Inr True \<longrightarrow> key \<in> gs_known s')) s"
  by (rule wp_mono [OF contains_rule]) (use assms(2) in \<open>auto simp: looked_def quiet_def intro: inv_quiet [OF assms(1), where key = key]\<close>)

lemma remove_inv:
  assumes inv: "Inv s" and pl: "plan key \<noteq> None"
  shows "wp (gds_remove E key) (\<lambda>r s'. Inv s') s"
proof -
  have gone: "Inv (s\<lparr>gs_known := gs_known s - {key}, gs_dfs := (gs_dfs s)\<lparr>lib_state := d\<rparr>\<rparr>)"
    if d: "hs d = ghs s" "fs d = gfs s \<or> fs d = (gfs s)(gpath key := None)" for d
  proof -
    have "objects_ok E (fs d) plan"
    proof -
      have "objects_ok E (gfs s) plan" using inv by (simp add: gds_inv_def)
      with d(2) show ?thesis by (elim disjE) (simp_all add: objects_ok_removed)
    qed
    moreover have "plan k \<noteq> None \<and> fs d (gpath k) \<noteq> None" if "k \<in> gs_known s" "k \<noteq> key" for k
      using that d inv pl same_key [of k key] unfolding gds_inv_def by auto
    ultimately show ?thesis using d inv by (simp add: gds_inv_def)
  qed
  show ?thesis
    unfolding gds_remove_def wp_bind wp_put_s sum.case wp_catch wp_on_gs wp_lib
    by (rule wp_dfs_remove) (use gone in \<open>auto simp: wp_ret\<close>)
qed

lemma submit_inv:
  assumes "Inv s"
  shows "wp (submit_puts E cb jobs) (\<lambda>r s'. (\<exists>n. r = Inr n) \<and> Inv s') s"
  using assms
proof (induction jobs arbitrary: s)
  case Nil
  then show ?case by (simp only: submit_puts.simps wp_ret) simp
next
  case (Cons job jobs)
  obtain key ob where job: "job = (key, ob)" by (cases job)
  show ?case
  proof (cases "key \<in> gs_put_tasks s")
    case True
    with Cons show ?thesis by (simp add: job wp_bind wp_get_s)
  next
    case False
    from up_eff [of ob "gs_mem s"] obtain m' where up: "g_up E ob (gs_mem s) = (Inr (), m')" by blast
    let ?s = "s\<lparr>gs_put_tasks := insert key (gs_put_tasks s), gs_mem := m', gs_queue := gs_queue s @ [(key, ob, cb)]\<rparr>"
    have "Inv ?s" using Cons.prems False by (auto simp: gds_inv_def)
    from Cons.IH [OF this] have "wp (bind_io (submit_puts E cb jobs) (\<lambda>n. ret (Suc n))) (\<lambda>r s'. (\<exists>n. r = Inr n) \<and> Inv s') ?s"
      unfolding wp_bind by (rule wp_mono) (auto simp: wp_ret)
    with False show ?thesis
      by (simp add: job wp_bind [of "get_s _"] wp_get_s wp_bind [of "put_s _"] wp_put_s wp_bind [of "on_gm _"] wp_on_gm wp_def [of "g_up E ob"] up)
  qed
qed

lemma batched_submit_inv: "Inv s \<Longrightarrow> wp (batched_submit_put_task E cb keys obs) (\<lambda>r s'. Inv s') s"
  unfolding batched_submit_put_task_def
  by (cases "g_store E") (auto simp: wp_ret wp_bind intro!: wp_mono [OF submit_inv])

lemma reach_inv:
  assumes "gds_reach E plan s0 s" and "Inv s0"
  shows "Inv s"
  using assms
proof induction
  case (submit s cb keys obs r s')
  then show ?case using wpD [OF batched_submit_inv submit.hyps(2)] by blast
next
  case (put s key ob cb nonce th u s')
  then show ?case using wpD [OF put_inv put.hyps(5)] by blast
next
  case (get s key th g s')
  then obtain lay x where "plan key = Some (lay, x)" by (cases "the (plan key)") auto
  with get show ?case using wpD [OF get_inv get.hyps(3)] by blast
next
  case (contains s key th q s')
  then show ?case using wpD [OF contains_inv contains.hyps(3)] by blast
next
  case (remove s key q s')
  then show ?case using wpD [OF remove_inv remove.hyps(3)] by blast
next
  case (memory s m)
  then show ?case by (simp add: gds_inv_def)
qed

end

end
