(* ===== verification/Gds_Batch.thy ===== *)
theory Gds_Batch
  imports Gds_Cache
begin

text \<open>
  Batched loads of the GPU-direct backend. The callers take the hits as a prefix: what was loaded after
  the first miss is given back. Both batched loads come down to the same loads followed by the same
  releases.
\<close>

section \<open>The loops over the results\<close>

abbreviation "hit_prefix res \<equiv> takeWhile (\<lambda>r. r \<noteq> None) res"
abbreviation "after_miss res \<equiv> dropWhile (\<lambda>r. r \<noteq> None) res"

lemma keep_prefix_failed: "keep_prefix E True res = bind_io (release_hits E res) (\<lambda>_. ret [])"
  by (induction res rule: release_hits.induct) (simp_all add: fun_eq_iff bind_io_def ret_def split: prod.splits sum.splits)

text \<open>The loop of the asynchronous load releases what follows the first miss and returns the prefix.\<close>

lemma keep_prefix_eq:
  "keep_prefix E False res = bind_io (release_hits E (after_miss res)) (\<lambda>_. ret (map the (hit_prefix res)))"
proof (induction res)
  case (Cons r res)
  then show ?case
    by (cases r) (simp_all add: keep_prefix_failed fun_eq_iff bind_io_def ret_def split: prod.splits sum.splits)
qed (simp add: fun_eq_iff bind_io_def ret_def)

lemma find_upt_shift: "List.find P [Suc 0..<Suc n] = map_option Suc (List.find (P \<circ> Suc) [0..<n])"
proof -
  have "List.find P (map Suc xs) = map_option Suc (List.find (P \<circ> Suc) xs)" for xs by (induction xs) auto
  then show ?thesis unfolding map_Suc_upt [symmetric] by blast
qed

lemma first_miss_Cons: "first_miss (r # res) = (if r = None then Some 0 else map_option Suc (first_miss res))"
proof -
  have "first_miss (r # res) = List.find (\<lambda>i. (r # res) ! i = None) (0 # [Suc 0..<Suc (length res)])"
    unfolding first_miss_def by (simp add: upt_rec)
  also have "\<dots> = (if r = None then Some 0 else List.find (\<lambda>i. (r # res) ! i = None) [Suc 0..<Suc (length res)])" by simp
  finally show ?thesis unfolding find_upt_shift by (simp add: first_miss_def comp_def)
qed

lemma first_miss_eq:
  "first_miss res = (if None \<in> set res then Some (length (hit_prefix res)) else None)"
proof (induction res)
  case (Cons r res)
  then show ?case by (auto simp: first_miss_Cons)
qed (simp add: first_miss_def)

text \<open>The loop of the blocking load does the same.\<close>

lemma cut_at_miss:
  "(case first_miss res of None \<Rightarrow> ret res
     | Some i \<Rightarrow> bind_io (release_hits E (drop (i + 1) res)) (\<lambda>_. ret (take i res @ replicate (length res - i) None))) =
   bind_io (release_hits E (after_miss res)) (\<lambda>_. ret (hit_prefix res @ replicate (length res - length (hit_prefix res)) None))"
proof (cases "None \<in> set res")
  case True
  let ?n = "length (hit_prefix res)"
  have "after_miss res \<noteq> []" using True by (auto simp: dropWhile_eq_Nil_conv)
  moreover from this have "hd (after_miss res) = None" using hd_dropWhile [of "\<lambda>r. r \<noteq> None" res] by simp
  ultimately have dw: "after_miss res = None # tl (after_miss res)" by (metis list.collapse)
  have tl: "drop (?n + 1) res = tl (after_miss res)" by (simp add: dropWhile_eq_drop drop_Suc tl_drop)
  have "release_hits E (after_miss res) = release_hits E (drop (?n + 1) res)" unfolding tl by (subst dw) simp
  moreover have "take ?n res = hit_prefix res" by (simp add: takeWhile_eq_take [symmetric])
  ultimately show ?thesis using True by (simp add: first_miss_eq)
next
  case False
  then have "\<forall>r \<in> set res. r \<noteq> None" by metis
  then have all: "hit_prefix res = res" "after_miss res = []" unfolding takeWhile_eq_all_conv dropWhile_eq_Nil_conv by blast+
  show ?thesis unfolding all first_miss_eq using False by (simp add: fun_eq_iff bind_io_def ret_def)
qed

section \<open>The two batched loads\<close>

lemma gather_values_Inr:
  fixes rs :: "(exn + 'a) list"
  shows "is_schedule (length rs) sched \<Longrightarrow> gather_values sched rs = Inr xs \<longleftrightarrow> seq_sum rs = Inr xs"
proof -
  assume sched: "is_schedule (length rs) sched"
  show ?thesis
  proof (cases "\<exists>i < length rs. isl (rs ! i)")
    case True
    then have "\<exists>i \<in> set sched. isl (rs ! i)" using sched by (auto simp: is_schedule_def)
    then have "\<not> (\<exists>xs. gather_values sched rs = Inr xs)" by (auto simp: gather_values_def find_None_iff split: option.splits)
    moreover have "rs \<noteq> map Inr xs" using True by auto
    ultimately show ?thesis by (simp add: seq_sum_Inr_iff)
  next
    case False
    then have "List.find (\<lambda>i. isl (rs ! i)) sched = None" using sched by (auto simp: find_None_iff is_schedule_def)
    then have g: "gather_values sched rs = Inr (map projr rs)" by (simp add: gather_values_def)
    have "Inr (projr (rs ! i)) = rs ! i" if "i < length rs" for i using False that by (metis sum.collapse(2))
    then have rs: "rs = map Inr (map projr rs)" by (simp add: list_eq_iff_nth_eq)
    have "map projr (map Inr xs :: (exn + 'a) list) = xs" by (simp add: comp_def)
    with rs show ?thesis unfolding g seq_sum_Inr_iff by (metis sum.inject(2))
  qed
qed

abbreviation "gds_loads E ths keys \<equiv> map (\<lambda>i. get_blocking E (ths i) (keys ! i)) [0..<length keys]"

lemma batched_get_eq:
  "batched_get_blocking E sched ths keys =
     bind_io (pool_map sched (gds_loads E ths keys)) (\<lambda>res. bind_io (release_hits E (after_miss res)) (\<lambda>_.
       ret (hit_prefix res @ replicate (length res - length (hit_prefix res)) None)))"
  unfolding batched_get_blocking_def cut_at_miss ..

lemma batched_get_nb_eq:
  "gds_batched_get_non_blocking E sched ths keys =
     bind_io (gather_io sched (gds_loads E ths keys)) (\<lambda>res. bind_io (release_hits E (after_miss res)) (\<lambda>_. ret (map the (hit_prefix res))))"
  unfolding gds_batched_get_non_blocking_def keep_prefix_eq ..

lemma hit_prefix_pad: "hit_prefix (hit_prefix res @ replicate n None) = hit_prefix res"
proof -
  have "hit_prefix (hit_prefix res) = hit_prefix res" by (simp only: takeWhile_idem)
  then have "\<forall>r \<in> set (hit_prefix res). r \<noteq> None" unfolding takeWhile_eq_all_conv .
  then show ?thesis by (subst takeWhile_append2) (simp_all add: takeWhile_replicate)
qed

section \<open>What a batch holds\<close>

text \<open>
  After the loads of \<open>D\<close>: each hit is a new object with one reference and the contents of its key, no
  two hits share an object, and no other count has changed.
\<close>

definition hits_ok :: "('d, 'm, 'c, 'dt, 'f) genv \<Rightarrow> ('m \<Rightarrow> nat \<Rightarrow> nat) \<Rightarrow> (nat \<Rightarrow> ('dt, 'f) layout \<times> bytes) \<Rightarrow> 'm \<Rightarrow> nat set \<Rightarrow>
    (nat \<Rightarrow> exn + nat option) \<Rightarrow> 'm \<Rightarrow> bool" where
  "hits_ok E refs vs m D rs m' \<longleftrightarrow>
     (\<forall>i \<in> D. \<forall>ob. rs i = Inr (Some ob) \<longrightarrow> refs m ob = 0 \<and> (mo_layout (g_lm E) m' ob, mo_bytes (g_lm E) m' ob) = vs i) \<and>
     (\<forall>i \<in> D. \<forall>j \<in> D. \<forall>ob. rs i = Inr (Some ob) \<longrightarrow> rs j = Inr (Some ob) \<longrightarrow> i = j) \<and>
     refs m' = (\<lambda>ob. if \<exists>i \<in> D. rs i = Inr (Some ob) then 1 else refs m ob) \<and>
     (\<forall>ob. 0 < refs m ob \<longrightarrow> mo_bytes (g_lm E) m' ob = mo_bytes (g_lm E) m ob \<and> mo_layout (g_lm E) m' ob = mo_layout (g_lm E) m ob)"

context gds_cache
begin

lemma hits_ok_start: "hits_ok E refs vs m {} rs m"
  by (simp add: hits_ok_def)

text \<open>A load that was cancelled gave no object.\<close>

lemma hits_ok_more:
  assumes "hits_ok E refs vs m D rs m'" and "D \<subseteq> D'" and "\<forall>i \<in> D' - D. \<forall>ob. rs i \<noteq> Inr (Some ob)"
  shows "hits_ok E refs vs m D' rs m'"
proof -
  have in_D: "i \<in> D" if "i \<in> D'" "rs i = Inr (Some ob)" for i ob using that assms(3) by blast
  then have "(\<exists>i \<in> D. rs i = Inr (Some ob)) \<longleftrightarrow> (\<exists>i \<in> D'. rs i = Inr (Some ob))" for ob using assms(2) by blast
  then have "refs m' = (\<lambda>ob. if \<exists>i \<in> D'. rs i = Inr (Some ob) then 1 else refs m ob)" using assms(1) by (simp add: hits_ok_def)
  moreover have "refs m ob = 0 \<and> (mo_layout (g_lm E) m' ob, mo_bytes (g_lm E) m' ob) = vs i" if "i \<in> D'" "rs i = Inr (Some ob)" for i ob
    using assms(1) in_D [OF that] that(2) unfolding hits_ok_def by blast
  moreover have "i = j" if "i \<in> D'" "j \<in> D'" "rs i = Inr (Some ob)" "rs j = Inr (Some ob)" for i j ob
    using assms(1) in_D [OF that(1,3)] in_D [OF that(2,4)] that(3,4) unfolding hits_ok_def by blast
  ultimately show ?thesis using assms(1) unfolding hits_ok_def by blast
qed

lemma hits_ok_step:
  assumes ok: "hits_ok E refs vs m D rs m1" and ld: "loaded_mem lay x m1 r m2" and i: "i \<notin> D" "vs i = (lay, x)"
  shows "hits_ok E refs vs m (insert i D) (rs(i := r)) m2"
proof -
  have k: "mo_bytes (g_lm E) m2 ob = mo_bytes (g_lm E) m1 ob \<and> mo_layout (g_lm E) m2 ob = mo_layout (g_lm E) m1 ob" if "0 < refs m1 ob" for ob
    using ld that by (auto simp: loaded_mem_def mem.keeps_def)
  have one: "refs m1 ob = 1" if "j \<in> D" "rs j = Inr (Some ob)" for j ob using ok that by (auto simp: hits_ok_def)
  have old: "0 < refs m1 ob" if "0 < refs m ob" for ob using ok that by (auto simp: hits_ok_def)
  have contents: "\<forall>ob. 0 < refs m ob \<longrightarrow> mo_bytes (g_lm E) m2 ob = mo_bytes (g_lm E) m ob \<and> mo_layout (g_lm E) m2 ob = mo_layout (g_lm E) m ob"
    using ok old k unfolding hits_ok_def by simp
  have olds: "refs m ob = 0 \<and> (mo_layout (g_lm E) m2 ob, mo_bytes (g_lm E) m2 ob) = vs j" if "j \<in> D" "rs j = Inr (Some ob)" for j ob
    using ok that k [of ob] one [OF that] unfolding hits_ok_def by simp
  show ?thesis
  proof (cases "\<exists>ob. r = Inr (Some ob)")
    case True
    then obtain ob where r: "r = Inr (Some ob)" by blast
    with ld have nw: "refs m1 ob = 0" "refs m2 = (refs m1)(ob := 1)" "mo_bytes (g_lm E) m2 ob = x" "mo_layout (g_lm E) m2 ob = lay"
      by (simp_all add: loaded_mem_def)
    have fresh: "\<not> (\<exists>j \<in> D. rs j = Inr (Some ob))" using one nw(1) by (metis zero_neq_one)
    then have "refs m ob = 0" using ok nw(1) by (simp add: hits_ok_def)
    then show ?thesis using ok olds fresh nw i contents unfolding hits_ok_def r by (auto simp: fun_eq_iff)
  next
    case False
    then have "refs m2 = refs m1" using ld by (auto simp: loaded_mem_def split: sum.splits option.splits)
    then show ?thesis using ok olds False i contents unfolding hits_ok_def by (auto simp: fun_eq_iff)
  qed
qed

lemma gds_loads_rule:
  assumes inv: "Inv s" and sched: "may_run (length keys) sched" and vs: "\<And>i. i < length keys \<Longrightarrow> plan (keys ! i) = Some (vs i)"
    and run: "run_all sched (gds_loads E ths keys) s = (rs, s')"
  shows "Inv s' \<and> length rs = length keys \<and> hits_ok E refs vs (gs_mem s) {..<length keys} (\<lambda>i. rs ! i) (gs_mem s')"
proof -
  have len: "length (gds_loads E ths keys) = length keys" by simp
  have "\<exists>f. rs = map f [0..<length keys] \<and> (Inv s' \<and> hits_ok E refs vs (gs_mem s) (set sched) f (gs_mem s')) \<and>
      (\<forall>i. i \<notin> set sched \<longrightarrow> f i = Inl OtherError)"
  proof (rule run_all_part_rule [where I = "\<lambda>D f s1. Inv s1 \<and> hits_ok E refs vs (gs_mem s) D f (gs_mem s1)" and tasks = "gds_loads E ths keys",
        unfolded len, OF _ sched _ run], goal_cases)
    case (1 D f i s1)
    obtain lay x where v: "vs i = (lay, x)" by (cases "vs i")
    have "wp (get_blocking E (ths i) (keys ! i)) (\<lambda>r s'. Inv s' \<and> loaded_mem lay x (gs_mem s1) r (gs_mem s')) s1"
      by (rule get_inv) (use 1 vs [of i] v in simp_all)
    then have "wp (get_blocking E (ths i) (keys ! i)) (\<lambda>r s'. Inv s' \<and> hits_ok E refs vs (gs_mem s) (insert i D) (f(i := r)) (gs_mem s')) s1"
      by (rule wp_mono) (use 1 v hits_ok_step [of vs "gs_mem s" D f "gs_mem s1" lay x _ _ i] in blast)
    with 1 show ?case by simp
  qed (use inv hits_ok_start in blast)
  then obtain f where f: "rs = map f [0..<length keys]" "Inv s'" "hits_ok E refs vs (gs_mem s) (set sched) f (gs_mem s')"
    "\<forall>i. i \<notin> set sched \<longrightarrow> f i = Inl OtherError" by blast
  have "hits_ok E refs vs (gs_mem s) {..<length keys} f (gs_mem s')"
    by (rule hits_ok_more [OF f(3)]) (use sched f(4) in \<open>auto simp: may_run_def\<close>)
  then have "hits_ok E refs vs (gs_mem s) {..<length keys} (\<lambda>i. rs ! i) (gs_mem s')" by (simp add: hits_ok_def f(1))
  with f show ?thesis by simp
qed

text \<open>Giving back a list of different objects.\<close>

lemma release_hits_rule:
  assumes "distinct (filter (\<lambda>r. r \<noteq> None) os)"
  shows "wp (release_hits E os) (\<lambda>r s'. r = Inr () \<and> (\<exists>m'. s' = s\<lparr>gs_mem := m'\<rparr> \<and>
     refs m' = (\<lambda>ob. if Some ob \<in> set os then refs (gs_mem s) ob - 1 else refs (gs_mem s) ob) \<and>
     (\<forall>ob. Some ob \<notin> set os \<and> 0 < refs (gs_mem s) ob \<longrightarrow> mo_bytes (g_lm E) m' ob = mo_bytes (g_lm E) (gs_mem s) ob \<and>
        mo_layout (g_lm E) m' ob = mo_layout (g_lm E) (gs_mem s) ob))) s"
  using assms
proof (induction os arbitrary: s)
  case Nil
  show ?case by (simp add: wp_ret, rule exI [of _ "gs_mem s"]) simp
next
  case (Cons a os)
  show ?case
  proof (cases a)
    case None
    with Cons show ?thesis by simp
  next
    case (Some ob)
    have d: "distinct (filter (\<lambda>r. r \<noteq> None) os)" "Some ob \<notin> set os" using Cons.prems Some by auto
    show ?thesis
      unfolding Some release_hits.simps wp_bind
    proof (rule wp_ref_down, unfold sum.case, rule wp_mono [OF Cons.IH [OF d(1)]], goal_cases)
      case (1 m' r s')
      from 1(3) [simplified] obtain m2 where m2: "s' = s\<lparr>gs_mem := m2\<rparr>" "r = Inr ()"
        "refs m2 = (\<lambda>ob. if Some ob \<in> set os then refs m' ob - 1 else refs m' ob)"
        "\<And>ob. Some ob \<notin> set os \<Longrightarrow> 0 < refs m' ob \<Longrightarrow> mo_bytes (g_lm E) m2 ob = mo_bytes (g_lm E) m' ob \<and> mo_layout (g_lm E) m2 ob = mo_layout (g_lm E) m' ob"
        by (auto simp: fun_eq_iff)
      have "refs m2 = (\<lambda>ob'. if Some ob' \<in> set (Some ob # os) then refs (gs_mem s) ob' - 1 else refs (gs_mem s) ob')"
        using m2(3) 1(1) d(2) by (auto simp: fun_eq_iff)
      moreover have "mo_bytes (g_lm E) m2 ob' = mo_bytes (g_lm E) (gs_mem s) ob' \<and> mo_layout (g_lm E) m2 ob' = mo_layout (g_lm E) (gs_mem s) ob'"
        if "Some ob' \<notin> set (Some ob # os)" "0 < refs (gs_mem s) ob'" for ob'
        using that m2(4) [of ob'] 1(1) 1(2) [of ob'] by simp
      ultimately show ?case using m2(1,2) by blast
    qed
  qed
qed

end

lemma distinct_hits:
  assumes "\<forall>i < length xs. \<forall>j < length xs. \<forall>ob. xs ! i = Some ob \<longrightarrow> xs ! j = Some ob \<longrightarrow> i = j"
  shows "distinct (filter (\<lambda>r. r \<noteq> None) xs)"
  using assms
proof (induction xs)
  case (Cons a xs)
  have inj: "i = j" if "i < length (a # xs)" "j < length (a # xs)" "(a # xs) ! i = Some ob" "(a # xs) ! j = Some ob" for i j ob
    using Cons.prems that by blast
  have "\<forall>i < length xs. \<forall>j < length xs. \<forall>ob. xs ! i = Some ob \<longrightarrow> xs ! j = Some ob \<longrightarrow> i = j"
    using inj [of "Suc _" "Suc _"] by simp
  from Cons.IH [OF this] have IH: "distinct (filter (\<lambda>r. r \<noteq> None) xs)" .
  have "Some ob \<notin> set xs" if "a = Some ob" for ob
  proof
    assume "Some ob \<in> set xs"
    then obtain j where "j < length xs" "xs ! j = Some ob" unfolding in_set_conv_nth by blast
    with inj [of 0 "Suc j" ob] that show False by simp
  qed
  with IH show ?case by (cases a) simp_all
qed simp

text \<open>The prefix that is left of the loads: what it promises to the caller.\<close>

definition prefix_ok :: "('d, 'm, 'c, 'dt, 'f) genv \<Rightarrow> ('m \<Rightarrow> nat \<Rightarrow> nat) \<Rightarrow> (nat \<Rightarrow> ('dt, 'f) layout \<times> bytes) \<Rightarrow> 'm \<Rightarrow> nat list \<Rightarrow> 'm \<Rightarrow> bool" where
  "prefix_ok E refs vs m obs m' \<longleftrightarrow> distinct obs \<and>
     (\<forall>i < length obs. refs m (obs ! i) = 0 \<and> (mo_layout (g_lm E) m' (obs ! i), mo_bytes (g_lm E) m' (obs ! i)) = vs i) \<and>
     refs m' = (\<lambda>ob. if ob \<in> set obs then 1 else refs m ob) \<and>
     (\<forall>ob. 0 < refs m ob \<longrightarrow> mo_bytes (g_lm E) m' ob = mo_bytes (g_lm E) m ob \<and> mo_layout (g_lm E) m' ob = mo_layout (g_lm E) m ob)"

lemma hit_prefix_Some: "hit_prefix res = map Some (map the (hit_prefix res))"
proof -
  have "hit_prefix (hit_prefix res) = hit_prefix res" by (simp only: takeWhile_idem)
  then have "\<forall>r \<in> set (hit_prefix res). r \<noteq> None" unfolding takeWhile_eq_all_conv .
  then have "map (Some \<circ> the) (hit_prefix res) = map id (hit_prefix res)" by (intro map_cong) auto
  then show ?thesis by simp
qed

text \<open>The hits before and after the first miss are different objects when all hits are.\<close>

lemma prefix_facts:
  fixes res :: "nat option list"
  assumes inj: "\<forall>i < length res. \<forall>j < length res. \<forall>ob. res ! i = Some ob \<longrightarrow> res ! j = Some ob \<longrightarrow> i = j"
  defines "obs \<equiv> map the (hit_prefix res)"
  shows "distinct (filter (\<lambda>r. r \<noteq> None) (after_miss res))" "distinct obs" "\<And>ob. ob \<in> set obs \<Longrightarrow> Some ob \<notin> set (after_miss res)"
    "\<And>ob. Some ob \<in> set res \<longleftrightarrow> ob \<in> set obs \<or> Some ob \<in> set (after_miss res)"
    "\<And>i. i < length obs \<Longrightarrow> res ! i = Some (obs ! i) \<and> i < length res"
proof -
  have pre: "hit_prefix res = map Some obs" unfolding obs_def by (rule hit_prefix_Some)
  have split: "res = map Some obs @ after_miss res" unfolding pre [symmetric] by (rule takeWhile_dropWhile_id [symmetric])
  have "distinct (filter (\<lambda>r. r \<noteq> None) (map Some obs @ after_miss res))" unfolding split [symmetric] by (rule distinct_hits [OF inj])
  then have d: "distinct (map Some obs @ filter (\<lambda>r. r \<noteq> None) (after_miss res))" by (simp add: filter_id_conv)
  then show "distinct (filter (\<lambda>r. r \<noteq> None) (after_miss res))" "distinct obs" "\<And>ob. ob \<in> set obs \<Longrightarrow> Some ob \<notin> set (after_miss res)"
    unfolding distinct_append distinct_map by force+
  show "Some ob \<in> set res \<longleftrightarrow> ob \<in> set obs \<or> Some ob \<in> set (after_miss res)" for ob
  proof -
    have "set res = Some ` set obs \<union> set (after_miss res)" using arg_cong [OF split, of set] by simp
    then show ?thesis by blast
  qed
  show "res ! i = Some (obs ! i) \<and> i < length res" if "i < length obs" for i
  proof -
    have "res ! i = (map Some obs @ after_miss res) ! i" using split by simp
    moreover have "length obs \<le> length res" by (simp add: obs_def length_takeWhile_le)
    ultimately show ?thesis using that by (simp add: nth_append)
  qed
qed

context gds_cache
begin

lemma release_rest:
  assumes ok: "hits_ok E refs vs m {..<length res} (\<lambda>i. Inr (res ! i)) (gs_mem s)"
  shows "wp (release_hits E (after_miss res)) (\<lambda>r s'. r = Inr () \<and> (\<exists>m'. s' = s\<lparr>gs_mem := m'\<rparr> \<and>
     prefix_ok E refs vs m (map the (hit_prefix res)) m')) s"
proof -
  let ?obs = "map the (hit_prefix res)" and ?post = "after_miss res"
  have "\<forall>i < length res. \<forall>j < length res. \<forall>ob. res ! i = Some ob \<longrightarrow> res ! j = Some ob \<longrightarrow> i = j"
    using ok unfolding hits_ok_def by simp
  note facts = prefix_facts [OF this]
  note dpost = facts(1) and dobs = facts(2) and disj = facts(3) and mem_res = facts(4) and nth = facts(5)
  have held: "refs (gs_mem s) = (\<lambda>ob. if Some ob \<in> set res then 1 else refs m ob)"
    using ok unfolding hits_ok_def by (simp add: fun_eq_iff in_set_conv_nth) blast
  have hit: "refs m ob = 0 \<and> (mo_layout (g_lm E) (gs_mem s) ob, mo_bytes (g_lm E) (gs_mem s) ob) = vs i" if "res ! i = Some ob \<and> i < length res" for i ob
    using ok [unfolded hits_ok_def, THEN conjunct1, rule_format, of i ob] that by simp
  have fresh: "refs m ob = 0" if "Some ob \<in> set res" for ob
    using that hit unfolding in_set_conv_nth by blast
  show ?thesis
  proof (rule wp_mono [OF release_hits_rule [OF dpost]], goal_cases)
    case (1 r s')
    then obtain m' where m': "s' = s\<lparr>gs_mem := m'\<rparr>" "r = Inr ()"
      "refs m' = (\<lambda>ob. if Some ob \<in> set ?post then refs (gs_mem s) ob - 1 else refs (gs_mem s) ob)"
      and same: "\<And>ob. Some ob \<notin> set ?post \<Longrightarrow> 0 < refs (gs_mem s) ob \<Longrightarrow>
        mo_bytes (g_lm E) m' ob = mo_bytes (g_lm E) (gs_mem s) ob \<and> mo_layout (g_lm E) m' ob = mo_layout (g_lm E) (gs_mem s) ob" by blast
    have "refs m' = (\<lambda>ob. if ob \<in> set ?obs then 1 else refs m ob)"
      unfolding m'(3) held using mem_res disj fresh by (auto simp: fun_eq_iff)
    moreover have "refs m (?obs ! i) = 0 \<and> (mo_layout (g_lm E) m' (?obs ! i), mo_bytes (g_lm E) m' (?obs ! i)) = vs i" if "i < length ?obs" for i
    proof -
      have "?obs ! i \<in> set ?obs" using that by (rule nth_mem)
      then have "Some (?obs ! i) \<notin> set ?post" "Some (?obs ! i) \<in> set res" using disj mem_res by blast+
      moreover from this have "0 < refs (gs_mem s) (?obs ! i)" unfolding held by simp
      ultimately have "mo_bytes (g_lm E) m' (?obs ! i) = mo_bytes (g_lm E) (gs_mem s) (?obs ! i) \<and> mo_layout (g_lm E) m' (?obs ! i) = mo_layout (g_lm E) (gs_mem s) (?obs ! i)"
        by (intro same)
      then show ?thesis using hit [OF nth [OF that]] by (simp only: simp_thms)
    qed
    moreover have "mo_bytes (g_lm E) m' ob = mo_bytes (g_lm E) m ob \<and> mo_layout (g_lm E) m' ob = mo_layout (g_lm E) m ob" if "0 < refs m ob" for ob
    proof -
      have "Some ob \<notin> set res" using fresh [of ob] that by auto
      then have "Some ob \<notin> set ?post" "0 < refs (gs_mem s) ob" using mem_res that unfolding held by auto
      from same [OF this] ok that show ?thesis unfolding hits_ok_def by simp
    qed
    ultimately have "prefix_ok E refs vs m ?obs m'" using dobs unfolding prefix_ok_def by blast
    with m' show ?case by blast
  qed
qed

end

section \<open>The whole batch\<close>

lemma pool_outcome: "pool_map sched tasks s = (Inr res, s1) \<Longrightarrow> run_all sched tasks s = (map Inr res, s1)"
  by (auto simp: pool_map_def seq_sum_Inr_iff split: prod.splits)

lemma inv_mem: "gds_inv E fs hs plan s \<Longrightarrow> gds_inv E fs hs plan (s\<lparr>gs_mem := m\<rparr>)"
  by (simp add: gds_inv_def)

context gds_cache
begin

text \<open>The loads that succeeded, then the releases.\<close>

lemma batch_tail:
  assumes inv: "Inv s" and sched: "may_run (length keys) sched" and vs: "\<And>i. i < length keys \<Longrightarrow> plan (keys ! i) = Some (vs i)"
    and run: "run_all sched (gds_loads E ths keys) s = (map Inr res, s1)"
  shows "length res = length keys" "wp (release_hits E (after_miss res)) (\<lambda>r s'. r = Inr () \<and> Inv s' \<and>
     prefix_ok E refs vs (gs_mem s) (map the (hit_prefix res)) (gs_mem s')) s1"
proof -
  note loads = gds_loads_rule [OF inv sched vs run]
  then show len: "length res = length keys" by simp
  have "hits_ok E refs vs (gs_mem s) {..<length keys} (\<lambda>i. map Inr res ! i) (gs_mem s1)" using loads by blast
  then have "hits_ok E refs vs (gs_mem s) {..<length res} (\<lambda>i. Inr (res ! i)) (gs_mem s1)"
    unfolding len hits_ok_def by (simp add: len)
  from release_rest [OF this] show "wp (release_hits E (after_miss res)) (\<lambda>r s'. r = Inr () \<and> Inv s' \<and>
     prefix_ok E refs vs (gs_mem s) (map the (hit_prefix res)) (gs_mem s')) s1"
    by (rule wp_mono) (use loads inv_mem in auto)
qed

lemma batched_get_rule:
  assumes inv: "Inv s" and sched: "may_run (length keys) sched" and vs: "\<And>i. i < length keys \<Longrightarrow> plan (keys ! i) = Some (vs i)"
    and run: "batched_get_blocking E sched ths keys s = (Inr res, s')"
  shows "Inv s' \<and> (\<exists>obs. length obs \<le> length keys \<and> res = map Some obs @ replicate (length keys - length obs) None \<and>
     prefix_ok E refs vs (gs_mem s) obs (gs_mem s'))"
proof -
  obtain res0 s1 where pm: "pool_map sched (gds_loads E ths keys) s = (Inr res0, s1)"
    using run unfolding batched_get_eq by (auto simp: bind_io_def split: prod.splits sum.splits)
  note tail = batch_tail [OF inv sched vs pool_outcome [OF pm]]
  have t: "bind_io (release_hits E (after_miss res0)) (\<lambda>_. ret (hit_prefix res0 @ replicate (length res0 - length (hit_prefix res0)) None)) s1 = (Inr res, s')"
    using run pm unfolding batched_get_eq by (simp add: bind_io_def)
  have "wp (bind_io (release_hits E (after_miss res0)) (\<lambda>_. ret (hit_prefix res0 @ replicate (length res0 - length (hit_prefix res0)) None)))
      (\<lambda>r s'. r = Inr (hit_prefix res0 @ replicate (length res0 - length (hit_prefix res0)) None) \<and> Inv s' \<and>
         prefix_ok E refs vs (gs_mem s) (map the (hit_prefix res0)) (gs_mem s')) s1"
    unfolding wp_bind by (rule wp_mono [OF tail(2)]) (auto simp: wp_ret)
  from wpD [OF this t] have r: "res = hit_prefix res0 @ replicate (length res0 - length (hit_prefix res0)) None" "Inv s'"
    "prefix_ok E refs vs (gs_mem s) (map the (hit_prefix res0)) (gs_mem s')" by blast+
  have "length (map the (hit_prefix res0)) \<le> length keys" using tail(1) length_takeWhile_le [of "\<lambda>r. r \<noteq> None" res0] by simp
  moreover have "res = map Some (map the (hit_prefix res0)) @ replicate (length keys - length (map the (hit_prefix res0))) None"
    using r(1) tail(1) hit_prefix_Some [of res0] by simp
  ultimately show ?thesis using r(2,3) by blast
qed

text \<open>When a load raised, nothing that the others loaded is given back.\<close>

lemma batched_get_raise:
  assumes inv: "Inv s" and sched: "may_run (length keys) sched" and vs: "\<And>i. i < length keys \<Longrightarrow> plan (keys ! i) = Some (vs i)"
    and run: "batched_get_blocking E sched ths keys s = (Inl e, s')" and loads: "run_all sched (gds_loads E ths keys) s = (rs, s1)"
  shows "s' = s1 \<and> Inl e \<in> set rs \<and> hits_ok E refs vs (gs_mem s) {..<length keys} (\<lambda>i. rs ! i) (gs_mem s')"
proof (cases "seq_sum rs")
  case (Inl e')
  with run loads have "e' = e" "s1 = s'" unfolding batched_get_eq by (simp_all add: bind_io_def pool_map_def)
  then show ?thesis using gds_loads_rule [OF inv sched vs loads] seq_sum_Inl [OF Inl] by simp
next
  case (Inr res0)
  then have rs: "rs = map Inr res0" by (simp add: seq_sum_Inr_iff)
  have t: "bind_io (release_hits E (after_miss res0)) (\<lambda>_. ret (hit_prefix res0 @ replicate (length res0 - length (hit_prefix res0)) None)) s1 = (Inl e, s')"
    using run loads Inr unfolding batched_get_eq by (simp add: bind_io_def pool_map_def)
  have "wp (bind_io (release_hits E (after_miss res0)) (\<lambda>_. ret (hit_prefix res0 @ replicate (length res0 - length (hit_prefix res0)) None)))
      (\<lambda>r s'. \<exists>x. r = Inr x) s1"
    unfolding wp_bind by (rule wp_mono [OF batch_tail(2) [OF inv sched vs loads [unfolded rs]]]) (auto simp: wp_ret)
  from wpD [OF this t] show ?thesis by simp
qed

end

end
