(* ===== verification/Gds_Live.thy ===== *)
theory Gds_Live
  imports Gds_Cache
begin

text \<open>
  The GPU-direct backend with the servers up: a store makes the object visible and a load returns it.
  Then the reference library, allocator and names, on which the contracts are interpreted.
\<close>

section \<open>With the servers up\<close>

locale gds_live = gds_conn E fs hs ds refs nbytes + dfs_live "g_dfs E" fs hs up
  for E :: "('d, 'm, 'c, 'dt, 'f) genv" and fs hs ds refs nbytes up +
  assumes gpu: "gpu_supported (g_dfs E)"
    and base_live: "up d \<Longrightarrow> \<exists>b d'. c_dfs_sys2base (g_dfs E) d = ((0, b), d') \<and> up d'"
    and read_gpu_live: "up d \<Longrightarrow> c_dfs_read_gpu (g_dfs E) = Some f \<Longrightarrow> hs d h \<noteq> None \<Longrightarrow> \<exists>x d'. f b h off n d = ((0, x), d') \<and> up d'"
    and write_gpu_live: "up d \<Longrightarrow> c_dfs_write_gpu (g_dfs E) = Some g \<Longrightarrow> hs d h \<noteq> None \<Longrightarrow> \<exists>d'. g b h off y d = (0, d') \<and> up d'"
    and lookup_live: "up d \<Longrightarrow> \<exists>h d'. c_dfs_lookup (g_dfs E) b p fl d = ((0, h), d') \<and> up d'"
    and release_live: "up d \<Longrightarrow> c_dfs_release (g_dfs E) h d = (rc, d') \<Longrightarrow> up d'"
    and move_live: "up d \<Longrightarrow> ds d h1 = Some p1 \<Longrightarrow> ds d h2 = Some p2 \<Longrightarrow> fs d (in_dir p1 n1) \<noteq> None \<Longrightarrow>
       \<exists>d'. c_dfs_move (g_dfs E) b h1 n1 h2 n2 d = (0, d') \<and> up d'"
    and cuda_live: "fst (cu_load (g_cu E) c) = Inr ()" "fst (cu_sync (g_cu E) c) = Inr ()" "fst (cu_init (g_cu E) c) = 0"
      "fst (cu_retain (g_cu E) c) = 0" "fst (cu_set_current (g_cu E) c) = 0"
begin

abbreviation "gup s \<equiv> up (lib_state (gs_dfs s))"

lemma wp_base_up:
  assumes "up (lib_state s)" and "\<And>b s'. up (lib_state s') \<Longrightarrow> sfs s' = sfs s \<Longrightarrow> shs s' = shs s \<Longrightarrow> ds (lib_state s') = ds (lib_state s) \<Longrightarrow> Q (Inr b) s'"
  shows "wp (base (g_dfs E)) Q s"
proof -
  obtain b d' where run: "c_dfs_sys2base (g_dfs E) (lib_state s) = ((0, b), d')" "up d'" using base_live [OF assms(1)] by blast
  show ?thesis unfolding base_def using assms(1) run base_frame [OF run(1)]
    by (auto simp: wp_simps wp_lib intro!: assms(2) split: option.splits)
qed

lemma wp_write_gpu_up:
  assumes u: "up (lib_state s)" and h: "shs s h = Some p" "sfs s p = Some b" and n: "n \<le> length dev"
    and ok: "\<And>s'. up (lib_state s') \<Longrightarrow> shs s' = shs s \<Longrightarrow> sfs s' = (sfs s)(p \<mapsto> overlay b off (take n dev)) \<Longrightarrow> Q (Inr n) s'"
  shows "wp (write_gpu_from (g_dfs E) h off n dev) Q s"
proof (rule wp_use)
  obtain g where g: "c_dfs_write_gpu (g_dfs E) = Some g" using gpu by (auto simp: gpu_supported_def)
  have "wp (bind_io (on_lib (chk_rc (g bh h off (take n dev)))) (\<lambda>_. ret n)) (\<lambda>r s'. (\<exists>k. r = Inr k) \<and> up (lib_state s')) s1"
    if "up (lib_state s1)" "shs s1 = shs s" for bh s1
    using write_gpu_live [OF that(1) g, of h bh off "take n dev"] that h by (auto simp: wp_bind wp_ret wp_lib wp_chk_rc)
  with n gpu g show "wp (write_gpu_from (g_dfs E) h off n dev) (\<lambda>r s'. (\<exists>k. r = Inr k) \<and> up (lib_state s')) s"
    unfolding write_gpu_from_def by (auto simp: wp_bind [of "base _"] intro!: wp_base_up [OF u])
  show "wp (write_gpu_from (g_dfs E) h off n dev) (\<lambda>r s'. (\<exists>k. r = Inr k) \<and> up (lib_state s') \<longrightarrow> Q r s') s"
    by (rule wp_write_gpu [OF h n]) (auto intro: ok)
qed

lemma wp_read_gpu_up:
  assumes u: "up (lib_state s)" and h: "shs s h = Some p" "sfs s p = Some b" and dev: "min n (length b - off) \<le> length dev"
    and ok: "\<And>s' x. up (lib_state s') \<Longrightarrow> sfs s' = sfs s \<Longrightarrow> shs s' = shs s \<Longrightarrow> x = take n (drop off b) \<Longrightarrow> Q (Inr (length x, x @ drop (length x) dev)) s'"
  shows "wp (read_gpu_into (g_dfs E) h off n dev) Q s"
proof -
  obtain f where f: "c_dfs_read_gpu (g_dfs E) = Some f" using gpu by (auto simp: gpu_supported_def)
  have "wp (on_lib (chk_rc2 (f bh h off n))) (\<lambda>r s'. case r of Inl e \<Rightarrow> Q (Inl e) s' | Inr x \<Rightarrow>
      wp (bind_io (of_sum (store_into dev x)) (\<lambda>dev'. ret (length x, dev'))) Q s') s1"
    if s1: "up (lib_state s1)" "sfs s1 = sfs s" "shs s1 = shs s" for bh s1
  proof -
    obtain x d' where run: "f bh h off n (lib_state s1) = ((0, x), d')" "up d'" using read_gpu_live [OF s1(1) f, of h bh off n] s1 h by auto
    from read_gpu_eff [OF f _ _ run(1), of p b] h s1 have e: "fs d' = sfs s" "hs d' = shs s" "x = take n (drop off b)" by auto
    then have "length x \<le> length dev" using dev by simp
    then show ?thesis using run ok [of "s1\<lparr>lib_state := d'\<rparr>" x] e by (simp add: wp_lib wp_chk_rc2 wp_bind wp_of_sum wp_ret)
  qed
  with gpu f show ?thesis
    unfolding read_gpu_into_def by (auto simp: wp_bind [of "base _"] wp_bind [of "on_lib _"] intro!: wp_base_up [OF u])
qed

lemma wp_cuda_up:
  assumes "\<And>c x b. Q (Inr ()) (s\<lparr>gs_cuda := c, gs_ctx := x, gs_bound := b\<rparr>)"
  shows "wp (ensure_cuda_ctx E th) Q s"
proof (rule wp_use)
  have call: "wp (cu_call f) (\<lambda>r s'. r = Inr ()) s1" if "\<And>c. fst (f c) = 0" for f and s1 :: "('d, 'm, 'c) gds"
    using that [of "gs_cuda s1"] by (auto simp: wp_cu_call split: prod.splits)
  have load: "wp (on_cu (cu_load (g_cu E))) (\<lambda>r s'. r = Inr ()) s1" for s1 :: "('d, 'm, 'c) gds"
    using cuda_live(1) [of "gs_cuda s1"] by (auto simp: wp_on_cu wp_def [of "cu_load _"] split: prod.splits)
  show "wp (ensure_cuda_ctx E th) (\<lambda>r s'. r = Inr ()) s"
    unfolding ensure_cuda_ctx_def
    by (auto simp: wp_bind wp_get_s wp_ret wp_put_s intro!: wp_mono [OF load] wp_mono [OF call] cuda_live split: sum.splits)
  show "wp (ensure_cuda_ctx E th) (\<lambda>r s'. r = Inr () \<longrightarrow> Q r s') s"
    by (rule wp_cuda) (auto intro: assms)
qed

lemma wp_sync_up:
  assumes "\<And>c. Q (Inr ()) (s\<lparr>gs_cuda := c\<rparr>)"
  shows "wp (on_cu (cu_sync (g_cu E))) Q s"
  using cuda_live(2) [of "gs_cuda s"] assms by (auto simp: wp_on_cu wp_def [of "cu_sync _"] split: prod.splits)

lemma contains_up:
  assumes u: "gup s" and k: "key \<notin> gs_known s" "gfs s (gpath key) = None"
  shows "wp (gds_contains E th key) (\<lambda>r s'. r = Inr False \<and> gup s' \<and> quiet s s' \<and> gs_known s' = gs_known s) s"
  unfolding gds_contains_def wp_bind [of "ensure_cuda_ctx _ _"]
proof (rule wp_cuda_up, goal_cases)
  case (1 c x b)
  obtain n d' where st: "c_dfs_sys_stat (g_dfs E) (gpath key) (lib_state (gs_dfs s)) = ((ENOENT, n), d')" "up d'"
    using stat_live [OF u, of "gpath key"] k by auto
  have "fs d' = gfs s" "hs d' = ghs s" using stat_eff [OF st(1)] by auto
  moreover have "stat_size (g_dfs E) (gpath key) (lib_state (gs_dfs s)) = (Inr None, d')"
    using st(1) by (simp add: stat_size_def ENOENT_def)
  ultimately show ?case
    using st(2) k by (simp add: wp_simps wp_def [of "stat_size _ _"] quiet_def)
qed

lemma write_temp_up:
  assumes u: "gup s" and x: "mo_bytes (g_lm E) (gs_mem s) ob = x" and page: "pack_header mt (int (length x)) STATE_COMMITTED = Inr page"
  shows "wp (write_temp E tmp ob (length x) mt) (\<lambda>r s'. r = Inr (length x) \<and> gup s') s"
proof -
  have body: "wp (bind_io (of_sum (pack_header mt (int (length x)) STATE_COMMITTED)) (\<lambda>page.
        bind_io (on_gl (write_obj_from (g_dfs E) h 0 (length page) page)) (\<lambda>_.
        bind_io (on_cu (cu_sync (g_cu E))) (\<lambda>_.
        bind_io (get_s (\<lambda>s. mo_bytes (g_lm E) (gs_mem s) ob)) (\<lambda>dev.
        on_gs (write_gpu_from (g_dfs E) h payload_offset (length x) dev))))))
      (\<lambda>r s'. r = Inr (length x) \<and> gup s') s1"
    if s1: "gup s1" "ghs s1 h = Some tmp" "gfs s1 tmp = Some b" "gs_mem s1 = gs_mem s" for h b s1
    unfolding wp_bind [of "of_sum _"] wp_of_sum page sum.case wp_bind [of "on_gl _"] wp_on_gs wp_lib
  proof (rule wp_write_up [OF s1(1-3) order.refl], goal_cases)
    case (1 d)
    have w: "wp (write_gpu_from (g_dfs E) h payload_offset (length x) x) (\<lambda>r d'. r = Inr (length x) \<and> up (lib_state d')) ((gs_dfs s1)\<lparr>lib_state := d\<rparr>)"
      by (rule wp_write_gpu_up [of _ h tmp]) (use 1 s1 in simp_all)
    show ?case
      unfolding sum.case wp_bind [of "on_cu _"]
      by (rule wp_sync_up) (use w s1 x in \<open>simp add: wp_bind wp_get_s wp_on_gs\<close>)
  qed
  show ?thesis
    unfolding write_temp_def wp_bind [of "on_gl (open_rdwr_create _ _ _)"] wp_on_gs wp_lib
  proof (rule wp_open_create_up [OF u], goal_cases)
    case (1 h d)
    show ?case
      unfolding sum.case wp_finally
      by (rule wp_mono [OF body]) (use 1 in \<open>auto simp: wp_on_gs wp_lib intro!: wp_close_up\<close>)
  qed
qed

lemma publish_up:
  assumes u: "gup s" and nonce: "CHR ''/'' \<notin> set nonce" and img: "gfs s (gtemp key nonce) = Some img"
  shows "wp (publish_temp E (gtemp key nonce) (gpath key)) (\<lambda>r s'. r = Inr () \<and> gup s') s"
  unfolding publish_temp_def wp_bind [of "on_gs _"] wp_on_gs lookup_def wp_bind [of "base _"]
proof (rule wp_base_up [OF u], goal_cases)
  case (1 b d)
  obtain h d1 where l: "c_dfs_lookup (g_dfs E) b (g_root E) O_RDWR (lib_state d) = ((0, h), d1)" "up d1"
    using lookup_live [OF 1(1)] by metis
  note le = lookup_eff [OF l(1)]
  have name: "in_dir (g_root E) (last_part (gtemp key nonce)) = gtemp key nonce"
    unfolding last_part_temp [OF nonce] unfolding gds_temp_eq by simp
  have mv: "wp (move (g_dfs E) h (last_part (gtemp key nonce)) h (last_part (gpath key))) (\<lambda>r d'. r = Inr () \<and> up (lib_state d')) (d\<lparr>lib_state := d1\<rparr>)"
    unfolding move_def wp_bind
  proof (rule wp_base_up, goal_cases)
    case (2 b2 d2)
    have "ds (lib_state d2) h = Some (g_root E)" "fs (lib_state d2) (in_dir (g_root E) (last_part (gtemp key nonce))) \<noteq> None"
      using 2 le 1 img unfolding name by simp_all
    from move_live [OF 2(1) this(1) this(1) this(2), of b2 "last_part (gpath key)"] show ?case by (auto simp: wp_lib wp_chk_rc)
  qed (simp add: l)
  show ?case
    using l wp_mono [OF mv]
    by (auto simp: wp_lib wp_chk_rc2 wp_finally wp_on_gs release_dir_def wp_ignore_rc dest: release_live split: prod.splits intro!: wp_mono [OF mv])
qed

lemma note_put_up: "gup s \<Longrightarrow> wp (note_put key n cb) (\<lambda>r s'. r = Inr () \<and> gup s' \<and> key \<in> gs_known s') s"
  by (simp add: note_put_def wp_simps)

lemma put_new_up:
  assumes u: "gup s" and img: "gds_image (g_torch E) (mo_layout (g_lm E) (gs_mem s) ob) (mo_bytes (g_lm E) (gs_mem s) ob) = Inr img"
    and nonce: "CHR ''/'' \<notin> set nonce" and tmp: "partial_at img (gfs s (gtemp key nonce))"
  shows "wp (put_new E nonce key ob cb) (\<lambda>r s'. r = Inr () \<and> gup s' \<and> key \<in> gs_known s') s"
proof -
  let ?x = "mo_bytes (g_lm E) (gs_mem s) ob" and ?lay = "mo_layout (g_lm E) (gs_mem s) ob"
  from img obtain page where page: "pack_header (meta_pack (g_torch E) (length ?x) ?lay) (int (length ?x)) STATE_COMMITTED = Inr page"
    "img = page @ ?x" "length page = HEADER_SIZE" by (rule gds_imageE)
  have wt: "wp (write_temp E (gtemp key nonce) ob (length ?x) (meta_pack (g_torch E) (length ?x) ?lay))
      (\<lambda>r s'. (r = Inr (length ?x) \<and> gup s') \<and> temp_post (gtemp key nonce) img (length ?x) s r s') s"
    by (rule wp_conj) (rule write_temp_up [OF u refl page(1)], rule write_temp_rule [OF refl page(1,3,2) tmp])
  show ?thesis
    unfolding put_new_def wp_bind [of "get_s _"] wp_get_s sum.case prod.case Let_def wp_bind [of "write_temp _ _ _ _ _"]
  proof (rule wp_mono [OF wt], goal_cases)
    case (1 r s2)
    then have s2: "r = Inr (length ?x)" "gup s2" "gfs s2 (gtemp key nonce) = Some img" unfolding temp_post_def by blast+
    have "wp (bind_io (publish_temp E (gtemp key nonce) (gpath key)) (\<lambda>_. note_put key (length ?x) cb)) (\<lambda>r s'. r = Inr () \<and> gup s' \<and> key \<in> gs_known s') s2"
      unfolding wp_bind by (rule wp_mono [OF publish_up [OF s2(2) nonce s2(3)]]) (simp add: note_put_up)
    then show ?case unfolding s2(1) by (simp only: sum.case simp_thms if_False)
  qed
qed

lemma put_body_up:
  assumes u: "gup s" and img: "gds_image (g_torch E) (mo_layout (g_lm E) (gs_mem s) ob) (mo_bytes (g_lm E) (gs_mem s) ob) = Inr img"
    and nonce: "CHR ''/'' \<notin> set nonce" and tmp: "partial_at img (gfs s (gtemp key nonce))"
    and k: "key \<notin> gs_known s" "gfs s (gpath key) = None" and ten: "g_tensor E (gs_mem s) ob = Some True"
  shows "wp (put_body E th nonce key ob cb) (\<lambda>r s'. r = Inr () \<and> gup s' \<and> key \<in> gs_known s') s"
  unfolding put_body_def wp_bind [of "ensure_cuda_ctx _ _"]
proof (rule wp_cuda_up, goal_cases)
  case (1 c x b)
  have st: "gup (s\<lparr>gs_cuda := c, gs_ctx := x, gs_bound := b\<rparr>)" "key \<notin> gs_known (s\<lparr>gs_cuda := c, gs_ctx := x, gs_bound := b\<rparr>)"
    "gfs (s\<lparr>gs_cuda := c, gs_ctx := x, gs_bound := b\<rparr>) (gpath key) = None" using u k by simp_all
  show ?case
    unfolding sum.case wp_bind [of "gds_contains _ _ _"]
  proof (rule wp_mono [OF contains_up [OF st]], goal_cases)
    case (1 r s1)
    then have s1: "gs_mem s1 = gs_mem s" "gfs s1 = gfs s" "gup s1" by (simp_all add: quiet_def)
    have "wp (put_new E nonce key ob cb) (\<lambda>r s'. r = Inr () \<and> gup s' \<and> key \<in> gs_known s') s1"
      by (rule put_new_up [OF s1(3) _ nonce, of ob img]) (use img tmp s1 in simp_all)
    with 1 s1 ten show ?case by (simp add: wp_bind [of "get_s _"] wp_get_s)
  qed
qed

lemma put_one_up:
  assumes "gup s" and "gds_image (g_torch E) (mo_layout (g_lm E) (gs_mem s) ob) (mo_bytes (g_lm E) (gs_mem s) ob) = Inr img"
    and "CHR ''/'' \<notin> set nonce" and "partial_at img (gfs s (gtemp key nonce))"
    and "key \<notin> gs_known s" "gfs s (gpath key) = None" and "g_tensor E (gs_mem s) ob = Some True"
  shows "wp (put_one E th nonce key ob cb) (\<lambda>r s'. gup s' \<and> key \<in> gs_known s') s"
  unfolding put_one_def wp_finally wp_catch
proof (rule wp_mono [OF put_body_up [OF assms]], goal_cases)
  case (1 r s1)
  have "wp (bind_io (ref_down E ob) (\<lambda>_. put_s (\<lambda>s. s\<lparr>gs_put_tasks := gs_put_tasks s - {key}\<rparr>)))
      (\<lambda>u s2. case u of Inl e \<Rightarrow> gup s2 \<and> key \<in> gs_known s2 | Inr _ \<Rightarrow> gup s2 \<and> key \<in> gs_known s2) s1"
    using 1 unfolding wp_bind by (intro wp_ref_down) (simp add: wp_put_s)
  with 1 show ?case by simp
qed

text \<open>The whole object is visible after a put with the servers up.\<close>

lemma put_one_visible:
  assumes "gup s" and "gds_image (g_torch E) (mo_layout (g_lm E) (gs_mem s) ob) (mo_bytes (g_lm E) (gs_mem s) ob) = Inr img"
    and "CHR ''/'' \<notin> set nonce" and "partial_at img (gfs s (gtemp key nonce))" and "ghs s = Map.empty"
    and "key \<notin> gs_known s" "gfs s (gpath key) = None" and "g_tensor E (gs_mem s) ob = Some True"
  shows "wp (put_one E th nonce key ob cb) (\<lambda>r s'. r = Inr () \<and> gup s' \<and> ghs s' = Map.empty \<and> gfs s' (gpath key) = Some img \<and>
     key \<in> gs_known s' \<and> gs_put_tasks s' = gs_put_tasks s - {key} \<and> refs (gs_mem s') = (refs (gs_mem s))(ob := refs (gs_mem s) ob - 1)) s"
proof (rule wp_mono [OF wp_conj [OF put_one_up [OF assms(1-4,6-8)] put_one_rule [OF assms(2-4)]]], goal_cases)
  case (1 h)
  then show ?case using assms(5) by simp
next
  case (2 r s')
  then show ?case using assms(5-7) by (auto simp: stored_def)
qed

section \<open>A load that finds its object\<close>

lemma get_prepare_up:
  assumes u: "gup s" and img: "gds_image (g_torch E) lay x = Inr img" and h: "ghs s h = Some p" "gfs s p = Some img"
    and al: "lm_allocate (g_lm E) lay (gs_mem s) = (Inr (Some ob), m')"
  shows "wp (get_prepare E h) (\<lambda>r s'. (\<exists>hdr. r = Inr (Some (hdr, ob))) \<and> gup s') s"
proof -
  from img obtain page where page: "pack_header (meta_pack (g_torch E) (length x) lay) (int (length x)) STATE_COMMITTED = Inr page"
    "img = page @ x" "length page = HEADER_SIZE" by (rule gds_imageE)
  have rd: "take HEADER_SIZE (drop 0 img) = page" using page by simp
  show ?thesis
    unfolding get_prepare_def wp_catch wp_bind [of "catch_io _ _ _"] wp_bind [of "on_gl _"] wp_on_gs wp_lib
  proof (rule wp_read_up [OF u h], goal_cases)
    case (1 d)
    then show ?case
      unfolding rd
      by (simp add: wp_bind wp_of_sum parse_gds_page [OF page(1)] wp_ret meta_roundtrip wp_on_gm wp_def [of "lm_allocate _ _"] al cong: sum.case_cong)
  qed
qed

lemma get_payload_up:
  assumes img: "gds_image (g_torch E) lay x = Inr img" and nb: "nbytes lay = length x"
    and h: "ghs s h = Some (gpath key)" "gfs s (gpath key) = Some img" and p: "prepared lay x s (Inr (Some (hdr, ob))) s1" and u: "gup s1"
  shows "wp (get_payload E key h hdr ob) (\<lambda>r s'. r = Inr (Some ob) \<and> gup s') s1"
proof -
  let ?dev = "mo_bytes (g_lm E) (gs_mem s1) ob"
  from img obtain page where page: "img = page @ x" "length page = HEADER_SIZE" by (rule gds_imageE)
  from p have pl: "payload_len hdr = length x" and dev: "length ?dev = length x" and ten: "g_tensor E (gs_mem s1) ob \<noteq> None"
    and s1: "gfs s1 = gfs s" "ghs s1 = ghs s" using nb by (simp_all add: prepared_def)
  have rd: "take (length x) (drop payload_offset img) = x" using page by (simp add: payload_offset_def)
  from ten obtain tb where tb: "g_tensor E (gs_mem s1) ob = Some tb" by blast
  show ?thesis
    unfolding get_payload_def wp_catch wp_bind [of "get_s _"] wp_get_s sum.case prod.case
    using dev pl
  proof (simp add: tb Let_def wp_bind [of "on_gs _"] wp_on_gs del: wp_bind, goal_cases)
    case 1
    show ?case
    proof (rule wp_read_gpu_up [of "gs_dfs s1" h "gpath key" img], goal_cases)
      case (5 d y)
      then have y: "y = x" using rd by simp
      from 5 show ?case unfolding y by (simp add: wp_bind wp_put_s wp_upd_gstats wp_ret dev)
    qed (use h s1 dev u in simp_all)
  qed
qed

lemma get_blocking_up:
  assumes u: "gup s" and img: "gds_image (g_torch E) lay x = Inr img" and nb: "nbytes lay = length x"
    and f: "gfs s (gpath key) = Some img" and al: "lm_allocate (g_lm E) lay (gs_mem s) = (Inr (Some ob), m')"
  shows "wp (get_blocking E th key) (\<lambda>r s'. r = Inr (Some ob) \<and> gup s') s"
proof -
  have body: "wp (finally_io (bind_io (get_prepare E h) (\<lambda>p. case p of None \<Rightarrow> ret None | Some (hdr, ob) \<Rightarrow> get_payload E key h hdr ob))
      (on_gl (close_obj (g_dfs E) h))) (\<lambda>r s'. r = Inr (Some ob) \<and> gup s') s1"
    if s1: "gup s1" "ghs s1 h = Some (gpath key)" "gfs s1 (gpath key) = Some img" "gs_mem s1 = gs_mem s" for h s1
  proof -
    have al1: "lm_allocate (g_lm E) lay (gs_mem s1) = (Inr (Some ob), m')" using al s1(4) by simp
    have "wp (bind_io (get_prepare E h) (\<lambda>p. case p of None \<Rightarrow> ret None | Some (hdr, ob) \<Rightarrow> get_payload E key h hdr ob))
        (\<lambda>r s'. r = Inr (Some ob) \<and> gup s') s1"
      unfolding wp_bind
    proof (rule wp_mono [OF wp_conj [OF get_prepare_up [OF s1(1) img s1(2,3) al1] get_prepare_rule [OF img s1(2,3)]]], goal_cases)
      case (1 r s2)
      then obtain hdr where r: "r = Inr (Some (hdr, ob))" by blast
      from 1 have "prepared lay x s1 (Inr (Some (hdr, ob))) s2" "gup s2" unfolding r by blast+
      from get_payload_up [OF img nb s1(2,3) this] show ?case by (simp add: r)
    qed
    then show ?thesis
      unfolding wp_finally by (rule wp_mono) (auto simp: wp_on_gs wp_lib intro!: wp_close_up)
  qed
  show ?thesis
    unfolding get_blocking_def wp_bind [of "ensure_cuda_ctx _ _"]
  proof (rule wp_cuda_up, goal_cases)
    case (1 c y b)
    have f': "up (lib_state (gs_dfs s))" "gfs s (gpath key) = Some img" using u f by simp_all
    show ?case
      unfolding sum.case wp_bind [of "catch_io _ _ _"] wp_catch wp_bind [of "on_gl _"] wp_on_gs wp_lib
      by (simp, rule wp_open_rdonly_up [OF f']) (simp add: wp_ret, rule body, use f in simp_all)
  qed
qed

end

end
