(* ===== verification/Gds_Ref.thy ===== *)
theory Gds_Ref
  imports Gds_Live
begin

text \<open>
  A reference library with the GPU and directory calls, a GPU allocator and a table of names, on which
  the contracts of the GPU-direct backend are interpreted and its witnesses run.
\<close>

section \<open>Library\<close>

text \<open>The name space of \<open>Mem_Dfs\<close> with the open directories beside it.\<close>

type_synonym gfs_state = "memfs \<times> (nat \<Rightarrow> string option)"

definition lift_mem :: "(memfs \<Rightarrow> 'r \<times> memfs) \<Rightarrow> gfs_state \<Rightarrow> 'r \<times> gfs_state" where
  "lift_mem f = (\<lambda>(d, e). case f d of (r, d') \<Rightarrow> (r, (d', e)))"

text \<open>A space quota bounds the handles as well: then the open fails with \<^verbatim>\<open>EMFILE\<close>.\<close>

definition gref_open :: "string \<Rightarrow> nat \<Rightarrow> nat \<Rightarrow> nat \<Rightarrow> memfs \<Rightarrow> (int \<times> nat) \<times> memfs" where
  "gref_open p md fl cid d =
     (if (case mspace d of None \<Rightarrow> False | Some k \<Rightarrow> k \<le> mnext d) then ((24, 0), d) else mem_open p md fl cid d)"

definition gref_write_gpu :: "nat \<Rightarrow> nat \<Rightarrow> nat \<Rightarrow> bytes \<Rightarrow> gfs_state \<Rightarrow> int \<times> gfs_state" where
  "gref_write_gpu b h off x = lift_mem (\<lambda>d. case mem_write h off x d of ((rc, k), d') \<Rightarrow> (rc, d'))"

definition gref_lookup :: "nat \<Rightarrow> string \<Rightarrow> nat \<Rightarrow> gfs_state \<Rightarrow> (int \<times> nat) \<times> gfs_state" where
  "gref_lookup b p fl = (\<lambda>(d, e). ((0, 0), (d, e(0 \<mapsto> p))))"

definition gref_release :: "nat \<Rightarrow> gfs_state \<Rightarrow> int \<times> gfs_state" where
  "gref_release h = (\<lambda>(d, e). (0, (d, e(h := None))))"

definition gref_move :: "nat \<Rightarrow> nat \<Rightarrow> string \<Rightarrow> nat \<Rightarrow> string \<Rightarrow> gfs_state \<Rightarrow> int \<times> gfs_state" where
  "gref_move b h1 n1 h2 n2 = (\<lambda>(d, e). case (e h1, e h2) of
     (Some p1, Some p2) \<Rightarrow> (case mfiles d (in_dir p1 n1) of
         None \<Rightarrow> (ENOENT, (d, e))
       | Some c \<Rightarrow> (0, (d\<lparr>mfiles := (mfiles d)(in_dir p1 n1 := None, in_dir p2 n2 \<mapsto> c)\<rparr>, e)))
   | _ \<Rightarrow> (EBADF, (d, e)))"

definition gref_dfs :: "gfs_state libdfs" where
  "gref_dfs = \<lparr>c_daos_init = (\<lambda>d. (0, d)), c_dfs_init = (\<lambda>d. (0, d)),
     c_dfs_sys_connect = (\<lambda>_ _ _ _ _ d. (0, d)), c_dfs_sys_disconnect = (\<lambda>d. (0, d)),
     c_dfs_sys_open = (\<lambda>p md fl cid. lift_mem (gref_open p md fl cid)), c_dfs_sys_close = (\<lambda>h. lift_mem (mem_close h)),
     c_dfs_sys_read = (\<lambda>h off n. lift_mem (mem_read h off n)), c_dfs_sys_write = (\<lambda>h off x. lift_mem (mem_write h off x)),
     c_dfs_sys_remove_type = (\<lambda>p force md. lift_mem (mem_remove p force md)), c_dfs_sys_stat = (\<lambda>p. lift_mem (mem_stat p)),
     c_dfs_sys_mkdir_p = (\<lambda>_ d. (0, d)),
     c_dfs_sys_opendir = (\<lambda>_ d. ((EBADF, 0), d)), c_dfs_sys_readdir = (\<lambda>_ d. ((EBADF, None), d)),
     c_dfs_sys_closedir = (\<lambda>_ d. (0, d)), c_dfs_sys2base = (\<lambda>d. ((0, 0), d)),
     c_dfs_read_gpu = Some (\<lambda>b h off n. lift_mem (mem_read h off n)), c_dfs_write_gpu = Some gref_write_gpu,
     c_dfs_lookup = gref_lookup, c_dfs_release = gref_release, c_dfs_move = gref_move\<rparr>"

definition gref_files :: "gfs_state \<Rightarrow> string \<Rightarrow> bytes option" where
  "gref_files d = mfiles (fst d)"

definition gref_handles :: "gfs_state \<Rightarrow> nat \<Rightarrow> string option" where
  "gref_handles d = mhandles (fst d)"

definition gref_up :: "gfs_state \<Rightarrow> bool" where
  "gref_up d \<longleftrightarrow> mem_up (fst d)"

lemmas gref_defs = gref_dfs_def gref_files_def gref_handles_def lift_mem_def gref_open_def mem_dfs_defs

lemma gref_full: "dfs_full gref_dfs gref_files gref_handles"
proof (unfold_locales, goal_cases)
  case (6 d h p b off x rc k d')
  then show ?case
    by (cases d) (auto simp: gref_defs split: option.splits if_splits
        intro: exI [of _ "length x"] exI [of _ "min (length x) (the (mspace (fst d)))"])
qed (auto simp: gref_defs fun_eq_iff split: option.splits if_splits prod.splits)

interpretation grefs: gds_lib gref_dfs gref_files gref_handles snd
proof (intro gds_lib.intro gds_lib_axioms.intro gref_full, goal_cases)
  case (3 g d h p b bh off x rc d')
  then show ?case
    by (cases d) (auto simp: gref_defs gref_write_gpu_def split: option.splits if_splits
        intro: exI [of _ "length x"] exI [of _ "min (length x) (the (mspace (fst d)))"])
next
  case (6 d h1 p1 h2 p2 n1 b n2 bh rc d')
  then show ?case by (cases d) (auto simp: gref_defs gref_move_def)
qed (auto simp: gref_defs gref_lookup_def gref_release_def split: option.splits if_splits prod.splits)

lemma gref_live: "dfs_live gref_dfs gref_files gref_handles gref_up"
  by (intro dfs_live.intro dfs_live_axioms.intro gref_full)
    (auto simp: gref_defs gref_up_def mem_up_def split: option.splits if_splits prod.splits)

section \<open>Names, allocator and driver\<close>

datatype ref_dtype = Bfloat16 | Uint8

datatype ref_fmt = Kv_2ltd | Kv_t2d

definition ref_torch :: "(ref_dtype, ref_fmt) torch" where
  "ref_torch = \<lparr>t_str = (\<lambda>d. case d of Bfloat16 \<Rightarrow> ''torch.bfloat16'' | Uint8 \<Rightarrow> ''torch.uint8''),
     t_attr = (\<lambda>n. if n = ''bfloat16'' then Some Bfloat16 else if n = ''uint8'' then Some Uint8 else None),
     f_value = (\<lambda>f. case f of Kv_2ltd \<Rightarrow> 1 | Kv_t2d \<Rightarrow> 2),
     f_of = (\<lambda>i. if i = 1 then Some Kv_2ltd else if i = 2 then Some Kv_t2d else None)\<rparr>"

interpretation refnames: torch_names ref_torch
proof (unfold_locales, goal_cases)
  case (1 d)
  then show ?case by (cases d) (simp_all add: ref_torch_def remove_all.simps)
next
  case (2 d)
  then show ?case by (cases d) (simp_all add: ref_torch_def remove_all.simps)
next
  case (3 f)
  then show ?case by (cases f) (simp_all add: ref_torch_def)
qed

type_synonym ref_layout = "(ref_dtype, ref_fmt) layout"

text \<open>An object has the bytes of its tensors; the allocator hands out numbers in order up to a limit.\<close>

fun ref_item :: "ref_dtype \<Rightarrow> nat" where
  "ref_item Bfloat16 = 2"
| "ref_item Uint8 = 1"

definition ref_nbytes :: "ref_layout \<Rightarrow> nat" where
  "ref_nbytes lay = (case lay of (shapes, dtypes, _) \<Rightarrow> sum_list (map (\<lambda>(s, d). nat (prod_list s) * ref_item d) (zip shapes dtypes)))"

record gmem =
  gm_bytes :: "nat \<Rightarrow> bytes"
  gm_layout :: "nat \<Rightarrow> ref_layout"
  gm_refs :: "nat \<Rightarrow> nat"
  gm_next :: nat
  gm_limit :: nat

definition gm_allocate :: "ref_layout \<Rightarrow> (gmem, nat option) io" where
  "gm_allocate lay m =
     (if gm_limit m \<le> gm_next m \<or> gm_refs m (gm_next m) \<noteq> 0 then (Inr None, m)
      else (Inr (Some (gm_next m)),
            m\<lparr>gm_bytes := (gm_bytes m)(gm_next m := replicate (ref_nbytes lay) 0), gm_layout := (gm_layout m)(gm_next m := lay),
              gm_refs := (gm_refs m)(gm_next m := 1), gm_next := gm_next m + 1\<rparr>))"

definition gm_up :: "nat \<Rightarrow> (gmem, unit) io" where
  "gm_up ob m = (Inr (), m\<lparr>gm_refs := (gm_refs m)(ob := gm_refs m ob + 1)\<rparr>)"

definition gm_down :: "nat \<Rightarrow> (gmem, unit) io" where
  "gm_down ob m = (Inr (), m\<lparr>gm_refs := (gm_refs m)(ob := gm_refs m ob - 1)\<rparr>)"

definition ref_lm :: "(ref_layout, gmem) lmcache" where
  "ref_lm = \<lparr>rm_serialize = (\<lambda>_ _. Inl OtherError), rm_deserialize = (\<lambda>_. Inl OtherError), mo_layout = gm_layout, mo_bytes = gm_bytes,
     mo_store = (\<lambda>ob x m. m\<lparr>gm_bytes := (gm_bytes m)(ob := x)\<rparr>),
     lm_allocate = gm_allocate, m_ref_count_down = Some gm_down, m_release = None, m_free = None\<rparr>"

interpretation refmem: lm_env ref_lm gm_refs ref_nbytes
proof (unfold_locales, goal_cases)
  case (8 f ob m u m')
  then show ?case by (auto simp: ref_lm_def release_method_def gm_down_def)
qed (auto simp: ref_lm_def gm_allocate_def gm_down_def release_method_def fun_eq_iff split: if_splits)

definition ref_cuda :: "unit cudalib" where
  "ref_cuda = \<lparr>cu_load = ret (), cu_init = (\<lambda>c. (0, c)), cu_retain = (\<lambda>c. (0, c)), cu_set_current = (\<lambda>c. (0, c)), cu_sync = ret ()\<rparr>"

definition ref_genv :: "(gfs_state, gmem, unit, ref_dtype, ref_fmt) genv" where
  "ref_genv = \<lparr>g_dfs = gref_dfs, g_lm = ref_lm, g_up = gm_up, g_tensor = (\<lambda>_ _. Some True), g_torch = ref_torch, g_cu = ref_cuda,
     g_root = V2_PREFIX, g_store = True\<rparr>"

lemma ref_genv_simps [simp]:
  "g_dfs ref_genv = gref_dfs" "g_lm ref_genv = ref_lm" "g_up ref_genv = gm_up" "g_tensor ref_genv = (\<lambda>_ _. Some True)"
  "g_torch ref_genv = ref_torch" "g_cu ref_genv = ref_cuda" "g_root ref_genv = V2_PREFIX" "g_store ref_genv"
  by (simp_all add: ref_genv_def)

interpretation refgds: gds_conn ref_genv gref_files gref_handles snd gm_refs ref_nbytes
proof (intro gds_conn.intro gds_conn_axioms.intro, goal_cases)
  case 1
  show ?case using grefs.gds_lib_axioms by simp
next
  case 2
  show ?case using refmem.lm_env_axioms by simp
next
  case 3
  show ?case using refnames.torch_names_axioms by simp
qed (auto simp: ref_lm_def gm_down_def gm_up_def ref_cuda_def ret_def)

interpretation reflive: gds_live ref_genv gref_files gref_handles snd gm_refs ref_nbytes gref_up
proof (intro gds_live.intro gds_live_axioms.intro, goal_cases)
  case 1
  show ?case by (rule refgds.gds_conn_axioms)
next
  case 2
  show ?case using gref_live by simp
qed (auto simp: ref_cuda_def ret_def gpu_supported_def gref_defs gref_up_def mem_up_def gref_write_gpu_def gref_lookup_def gref_release_def gref_move_def
    split: option.splits if_splits prod.splits)

section \<open>One key and its object\<close>

definition ref_key :: pykey where
  "ref_key = \<lparr>to_string = Some ''k'', str_of = ''k'', layer_id = None, base_to_string = None\<rparr>"

definition ref_lay :: ref_layout where
  "ref_lay = ([[1, 2]], [Bfloat16], Kv_2ltd)"

definition ref_data :: bytes where
  "ref_data = [1, 2, 3, 4]"

definition ref_plan :: "pykey \<Rightarrow> (ref_layout \<times> bytes) option" where
  "ref_plan = (\<lambda>_. None)(ref_key := Some (ref_lay, ref_data))"

text \<open>Object 0 is the caller's; two more can be allocated.\<close>

definition ref_gmem :: gmem where
  "ref_gmem = \<lparr>gm_bytes = (\<lambda>_. [])(0 := ref_data), gm_layout = (\<lambda>_. ref_lay), gm_refs = (\<lambda>_. 0)(0 := 1), gm_next = 1, gm_limit = 3\<rparr>"

definition ref_gds :: "(gfs_state, gmem, unit) gds" where
  "ref_gds = gds_blank \<lparr>lib_state = (mem_init, \<lambda>_. None), daos_inited = True, sys_valid = True, base_handle = None\<rparr> ref_gmem ()"

lemma ref_meta_short: "length (meta_pack ref_torch 4 ref_lay) \<le> 100"
  by code_simp

lemma ref_image: "\<exists>img. gds_image ref_torch ref_lay ref_data = Inr img"
proof -
  have "header_args (meta_pack ref_torch 4 ref_lay) 4 STATE_COMMITTED"
    using ref_meta_short by (simp add: header_args_def v2_sizes)
  then have "\<exists>page. pack_header (meta_pack ref_torch 4 ref_lay) 4 STATE_COMMITTED = Inr page" by (simp add: pack_header_Inr_iff)
  moreover have "length ref_data = 4" by (simp add: ref_data_def)
  ultimately show ?thesis by (auto simp: gds_image_def)
qed

lemma ref_plan_ok: "gds_plan_ok ref_genv ref_nbytes ref_plan"
  using ref_image by (auto simp: gds_plan_ok_def ref_plan_def ref_nbytes_def ref_lay_def ref_data_def)

interpretation refcache: gds_cache ref_genv gref_files gref_handles snd gm_refs ref_nbytes ref_plan
  by (intro gds_cache.intro gds_cache_axioms.intro refgds.gds_conn_axioms ref_plan_ok)

lemma ref_gds_start: "gds_inv ref_genv gref_files gref_handles ref_plan ref_gds" "gref_up (lib_state (gs_dfs ref_gds))"
  by (simp_all add: gds_inv_def objects_ok_def ref_gds_def gds_blank_def gref_files_def gref_handles_def gref_up_def)

end
