(* ===== verification/Gds_Props.thy ===== *)
theory Gds_Props
  imports Gds_Batch Gds_Ref
begin

text \<open>
  The properties of the GPU-direct backend, stated of its operations under the contracts of the
  library, the allocator, the names and the driver, each with a run on the reference instance.
\<close>

section \<open>Inside the contracts\<close>

lemma gds_cacheI: "gds_conn E fs hs ds refs nbytes \<Longrightarrow> gds_plan_ok E nbytes plan \<Longrightarrow> gds_cache E fs hs ds refs nbytes plan"
  by (intro gds_cache.intro gds_cache_axioms.intro)

context gds_cache
begin

lemma get_hit:
  assumes "gds_inv E fs hs plan s0" "gds_reach E plan s0 s" "plan key = Some (lay, x)" "get_blocking E th key s = (Inr (Some ob), s')"
  shows "mo_layout (g_lm E) (gs_mem s') ob = lay \<and> mo_bytes (g_lm E) (gs_mem s') ob = x \<and>
    refs (gs_mem s) ob = 0 \<and> refs (gs_mem s') = (refs (gs_mem s))(ob := 1) \<and>
    (\<forall>ob'. 0 < refs (gs_mem s) ob' \<longrightarrow> mo_bytes (g_lm E) (gs_mem s') ob' = mo_bytes (g_lm E) (gs_mem s) ob')"
  using wpD [OF get_inv [OF reach_inv [OF assms(2,1)] assms(3)] assms(4)] by (simp add: loaded_mem_def mem.keeps_def)

lemma put_back:
  assumes "gds_inv E fs hs plan s0" "gds_reach E plan s0 s" "(key, ob, cb) \<in> set (gs_queue s)"
    "plan key = Some (mo_layout (g_lm E) (gs_mem s) ob, mo_bytes (g_lm E) (gs_mem s) ob)" "CHR ''/'' \<notin> set nonce"
    "run_queued E th nonce (key, ob, cb) s = (r, s')"
  shows "r = Inr () \<and> key \<notin> gs_put_tasks s' \<and> refs (gs_mem s') = (refs (gs_mem s))(ob := refs (gs_mem s) ob - 1) \<and>
    hs (lib_state (gs_dfs s')) = Map.empty"
proof -
  have inv: "Inv s" by (rule reach_inv [OF assms(2,1)])
  from wpD [OF put_inv [OF inv assms(3-5)] assms(6)] inv show ?thesis unfolding gds_inv_def by metis
qed

end

context gds_live
begin

lemma put_then_get:
  assumes c: "gds_cache E fs hs ds refs nbytes plan" and inv: "gds_inv E fs hs plan s0" and re: "gds_reach E plan s0 s" and u: "gup s"
    and pl: "plan key = Some (mo_layout (g_lm E) (gs_mem s) ob, mo_bytes (g_lm E) (gs_mem s) ob)" and nonce: "CHR ''/'' \<notin> set nonce"
    and k: "key \<notin> gs_known s" "gfs s (gpath key) = None" and ten: "g_tensor E (gs_mem s) ob = Some True"
    and put: "run_queued E th nonce (key, ob, cb) s = (r, s1)"
    and al: "lm_allocate (g_lm E) (mo_layout (g_lm E) (gs_mem s) ob) (gs_mem s1) = (Inr (Some ob'), m')"
    and get: "get_blocking E th' key s1 = (r', s2)"
  shows "r = Inr () \<and> r' = Inr (Some ob') \<and> mo_layout (g_lm E) (gs_mem s2) ob' = mo_layout (g_lm E) (gs_mem s) ob \<and>
    mo_bytes (g_lm E) (gs_mem s2) ob' = mo_bytes (g_lm E) (gs_mem s) ob"
proof -
  let ?lay = "mo_layout (g_lm E) (gs_mem s) ob" and ?x = "mo_bytes (g_lm E) (gs_mem s) ob" and ?s = "s\<lparr>gs_queue := remove1 (key, ob, cb) (gs_queue s)\<rparr>"
  note i = gds_cache.reach_inv [OF c re inv]
  obtain img where img: "gds_image (g_torch E) ?lay ?x = Inr img" "nbytes ?lay = length ?x" using gds_cache.planD [OF c pl] by metis
  have ok: "objects_ok E (gfs s) plan" and hs: "ghs ?s = Map.empty" using i by (simp_all add: gds_inv_def)
  have part: "partial_at img (gfs ?s (gtemp key nonce))"
    using objects_okD(2) [OF ok pl img(1), of nonce] by (cases "gfs s (gtemp key nonce)") (auto simp: partial_at_def)
  have put': "put_one E th nonce key ob cb ?s = (r, s1)"
    using put by (simp add: run_queued_def bind_io_def put_s_def)
  have "wp (put_one E th nonce key ob cb) (\<lambda>r s'. r = Inr () \<and> gup s' \<and> gfs s' (gpath key) = Some img) ?s"
    by (rule wp_mono [OF put_one_visible [OF _ _ nonce part hs]]) (use u img k ten in simp_all)
  from wpD [OF this put'] have s1: "r = Inr ()" "gup s1" "gfs s1 (gpath key) = Some img" by blast+
  from wpD [OF get_blocking_up [OF s1(2) img s1(3) al] get] have r': "r' = Inr (Some ob')" by blast
  have "got_post key ?lay ?x s1 r' s2" using wpD [OF get_blocking_rule [OF img] get] s1(3) by blast
  with r' s1 show ?thesis by (simp add: got_post_def loaded_mem_def)
qed

end

section \<open>The name space and the loads\<close>

text \<open>
  C3: a load through the GPU-direct backend that hits returns a new object with the layout and the bytes
  that belong to the key, in every state reached by submissions, puts, loads, presence checks and
  removals with failures anywhere. It holds one reference, and no other object in use is touched.
\<close>

theorem gds_get_sound:
  assumes "gds_conn E fs hs ds refs nbytes" and "gds_plan_ok E nbytes plan"
    and "gds_inv E fs hs plan s0" and "gds_reach E plan s0 s"
    and "plan key = Some (lay, x)" and "get_blocking E th key s = (Inr (Some ob), s')"
  shows "mo_layout (g_lm E) (gs_mem s') ob = lay \<and> mo_bytes (g_lm E) (gs_mem s') ob = x \<and>
    refs (gs_mem s) ob = 0 \<and> refs (gs_mem s') = (refs (gs_mem s))(ob := 1) \<and>
    (\<forall>ob'. 0 < refs (gs_mem s) ob' \<longrightarrow> mo_bytes (g_lm E) (gs_mem s') ob' = mo_bytes (g_lm E) (gs_mem s) ob')"
  by (rule gds_cache.get_hit [OF gds_cacheI [OF assms(1,2)] assms(3-6)])

text \<open>
  C6: under the path of a key there is nothing or the complete object of the key, in every reachable state,
  however many puts failed half way; a key the backend remembers as present is there.
\<close>

theorem gds_visible_complete:
  assumes "gds_conn E fs hs ds refs nbytes" and "gds_plan_ok E nbytes plan"
    and "gds_inv E fs hs plan s0" and "gds_reach E plan s0 s"
    and "plan key = Some (lay, x)" and "gds_image (g_torch E) lay x = Inr img"
  shows "(fs (lib_state (gs_dfs s)) (gds_path (g_root E) key) = None \<or> fs (lib_state (gs_dfs s)) (gds_path (g_root E) key) = Some img) \<and>
    (key \<in> gs_known s \<longrightarrow> fs (lib_state (gs_dfs s)) (gds_path (g_root E) key) = Some img)"
proof -
  have i: "gds_inv E fs hs plan s" by (rule gds_cache.reach_inv [OF gds_cacheI [OF assms(1,2)] assms(4,3)])
  then have "objects_ok E (fs (lib_state (gs_dfs s))) plan" by (simp add: gds_inv_def)
  from objects_okD(1) [OF this assms(5,6)] i show ?thesis by (auto simp: gds_inv_def)
qed

text \<open>
  The keys marked as being stored are those of the puts waiting in the pool, each once, and between
  calls no file handle is open.
\<close>

theorem gds_marks_exact:
  assumes "gds_conn E fs hs ds refs nbytes" and "gds_plan_ok E nbytes plan"
    and "gds_inv E fs hs plan s0" and "gds_reach E plan s0 s"
  shows "gs_put_tasks s = fst ` set (gs_queue s) \<and> distinct (map fst (gs_queue s)) \<and> hs (lib_state (gs_dfs s)) = Map.empty"
  using gds_cache.reach_inv [OF gds_cacheI [OF assms(1,2)] assms(4,3)] by (simp add: gds_inv_def)


text \<open>
  C8: with the servers up, a put of a key that is not there, and the load after it when there is room for an
  object: the load returns an object with the layout and bytes of the one that was put.
\<close>

theorem gds_put_then_get:
  assumes "gds_live E fs hs ds refs nbytes up" and "gds_plan_ok E nbytes plan"
    and "gds_inv E fs hs plan s0" and "gds_reach E plan s0 s" and "up (lib_state (gs_dfs s))"
    and "plan key = Some (mo_layout (g_lm E) (gs_mem s) ob, mo_bytes (g_lm E) (gs_mem s) ob)" and "CHR ''/'' \<notin> set nonce"
    and "key \<notin> gs_known s" and "fs (lib_state (gs_dfs s)) (gds_path (g_root E) key) = None" and "g_tensor E (gs_mem s) ob = Some True"
    and "run_queued E th nonce (key, ob, cb) s = (r, s1)"
    and "lm_allocate (g_lm E) (mo_layout (g_lm E) (gs_mem s) ob) (gs_mem s1) = (Inr (Some ob'), m')"
    and "get_blocking E th' key s1 = (r', s2)"
  shows "r = Inr () \<and> r' = Inr (Some ob') \<and> mo_layout (g_lm E) (gs_mem s2) ob' = mo_layout (g_lm E) (gs_mem s) ob \<and>
    mo_bytes (g_lm E) (gs_mem s2) ob' = mo_bytes (g_lm E) (gs_mem s) ob"
  by (rule gds_live.put_then_get [OF assms(1) gds_cacheI [OF gds_live.axioms(1) [OF assms(1)] assms(2)] assms(3-13)])

section \<open>Batches\<close>

text \<open>
  C9: a batched load that returns gives the hits as a prefix, the loads having finished in any order: different
  new objects, each with the contents of the key at its position, then \<^verbatim>\<open>None\<close>. Objects loaded after the
  first miss have been given back: only the returned ones hold a reference.
\<close>

theorem gds_batched_prefix:
  assumes "gds_conn E fs hs ds refs nbytes" and "gds_plan_ok E nbytes plan"
    and "gds_inv E fs hs plan s0" and "gds_reach E plan s0 s" and "may_run (length keys) sched"
    and "\<And>i. i < length keys \<Longrightarrow> plan (keys ! i) = Some (vs i)"
    and "batched_get_blocking E sched ths keys s = (Inr res, s')"
  shows "\<exists>obs. length obs \<le> length keys \<and> res = map Some obs @ replicate (length keys - length obs) None \<and>
    prefix_ok E refs vs (gs_mem s) obs (gs_mem s')"
proof -
  have c: "gds_cache E fs hs ds refs nbytes plan" by (rule gds_cacheI [OF assms(1,2)])
  from gds_cache.batched_get_rule [OF c gds_cache.reach_inv [OF c assms(4,3)] assms(5,6,7)] show ?thesis by blast
qed

text \<open>
  C28: when one load of a batch raises, which an open that fails with anything but \<^verbatim>\<open>ENOENT\<close> does, the batch
  raises and gives nothing back: every object that another load of the batch produced keeps its
  reference, and nobody has it; loads that no thread had begun may be cancelled.
\<close>

theorem gds_batched_raise_keeps:
  assumes "gds_conn E fs hs ds refs nbytes" and "gds_plan_ok E nbytes plan"
    and "gds_inv E fs hs plan s0" and "gds_reach E plan s0 s" and "may_run (length keys) sched"
    and "\<And>i. i < length keys \<Longrightarrow> plan (keys ! i) = Some (vs i)"
    and "run_all sched (gds_loads E ths keys) s = (rs, s1)"
    and "batched_get_blocking E sched ths keys s = (Inl e, s')"
  shows "s' = s1 \<and> Inl e \<in> set rs \<and> refs (gs_mem s') = (\<lambda>ob. if Inr (Some ob) \<in> set rs then 1 else refs (gs_mem s) ob)"
proof -
  have c: "gds_cache E fs hs ds refs nbytes plan" by (rule gds_cacheI [OF assms(1,2)])
  note i = gds_cache.reach_inv [OF c assms(4,3)]
  from gds_cache.batched_get_raise [OF c i assms(5,6,8,7)] gds_cache.gds_loads_rule [OF c i assms(5,6,7)]
  show ?thesis by (auto simp: hits_ok_def in_set_conv_nth fun_eq_iff)
qed

text \<open>
  the asynchronous batched load and the blocking one do the same: for the same completion order the
  asynchronous one returns the hits before the first miss and leaves the same state, or both raise.
\<close>

theorem gds_batches_agree:
  assumes "is_schedule (length keys) sched"
  shows "case batched_get_blocking E sched ths keys s of
      (Inr res, s') \<Rightarrow> gds_batched_get_non_blocking E sched ths keys s = (Inr (map the (hit_prefix res)), s')
    | (Inl e, s') \<Rightarrow> \<exists>e'. gds_batched_get_non_blocking E sched ths keys s = (Inl e', s')"
proof -
  obtain rs s1 where run: "run_all sched (gds_loads E ths keys) s = (rs, s1)" by (metis surj_pair)
  have len: "length rs = length keys" using run_all_length [OF run] by simp
  show ?thesis
  proof (cases "seq_sum rs")
    case (Inl e)
    then have "\<not> (\<exists>xs. gather_values sched rs = Inr xs)" using gather_values_Inr [of rs sched] assms len by simp
    then obtain e' where "gather_values sched rs = Inl e'" by (cases "gather_values sched rs") auto
    with Inl run show ?thesis unfolding batched_get_eq batched_get_nb_eq by (simp add: bind_io_def pool_map_def gather_io_def)
  next
    case (Inr res)
    then have g: "gather_values sched rs = Inr res" using gather_values_Inr [of rs sched] assms len by simp
    obtain r s2 where rel: "release_hits E (after_miss res) s1 = (r, s2)" by (metis surj_pair)
    show ?thesis
      unfolding batched_get_eq batched_get_nb_eq bind_io_def pool_map_def gather_io_def run prod.case Inr g sum.case rel
      by (cases r) (simp_all add: ret_def hit_prefix_pad del: not_None_eq)
  qed
qed

section \<open>Metadata\<close>

text \<open>
  C29: the metadata of an object reads back as it was written: length, shapes, element types and format
  survive the JSON text, whatever the shapes are.
\<close>

theorem gds_meta_roundtrip:
  assumes "torch_names T"
  shows "meta_unpack T (meta_pack T n lay) = Inr (int n, lay)"
  by (rule torch_names.meta_roundtrip [OF assms])

theorem gds_meta_roundtrip_witness: "meta_unpack ref_torch (meta_pack ref_torch 4 ref_lay) = Inr (4, ref_lay)"
  using gds_meta_roundtrip [OF refnames.torch_names_axioms, of 4 ref_lay] by simp

section \<open>A run on the reference instance\<close>

definition ref_queued :: "(gfs_state, gmem, unit) gds" where
  "ref_queued = ref_gds\<lparr>gs_put_tasks := {ref_key}, gs_mem := ref_gmem\<lparr>gm_refs := (\<lambda>_. 0)(0 := 2)\<rparr>, gs_queue := [(ref_key, 0, False)]\<rparr>"

lemma ref_submit: "batched_submit_put_task ref_genv False [ref_key] [0] ref_gds = (Inr (Some 1), ref_queued)"
  by (simp add: batched_submit_put_task_def bind_io_def ret_def get_s_def put_s_def on_gm_def gm_up_def ref_gds_def gds_blank_def ref_queued_def ref_gmem_def numeral_2_eq_2)

lemma ref_queued_reach: "gds_reach ref_genv ref_plan ref_gds ref_queued"
  by (rule gds_reach.submit [OF gds_reach.start ref_submit])

lemma ref_queued_facts:
  "ref_plan ref_key = Some (mo_layout (g_lm ref_genv) (gs_mem ref_queued) 0, mo_bytes (g_lm ref_genv) (gs_mem ref_queued) 0)"
  "gref_up (lib_state (gs_dfs ref_queued))" "ref_key \<notin> gs_known ref_queued" "(ref_key, 0, False) \<in> set (gs_queue ref_queued)"
  "gref_files (lib_state (gs_dfs ref_queued)) (gds_path (g_root ref_genv) ref_key) = None"
  by (simp_all add: ref_queued_def ref_gds_def gds_blank_def ref_plan_def ref_lm_def ref_gmem_def gref_up_def gref_files_def)

lemmas ref_hyps = refgds.gds_conn_axioms ref_plan_ok ref_gds_start(1) ref_queued_reach

theorem gds_marks_exact_witness: "gs_put_tasks ref_queued = {ref_key} \<and> gs_put_tasks ref_queued = fst ` set (gs_queue ref_queued)"
  using gds_marks_exact [OF ref_hyps] by (simp add: ref_queued_def)


abbreviation "ref_nonce \<equiv> ''0a1b2c3d''"

text \<open>The put, and room for a load after it.\<close>

lemma ref_put_run:
  obtains s1 where "run_queued ref_genv 7 ref_nonce (ref_key, 0, False) ref_queued = (Inr (), s1)" "gds_reach ref_genv ref_plan ref_gds s1"
    "gref_up (lib_state (gs_dfs s1))" "gs_mem s1 = ref_gmem" "ref_key \<in> gs_known s1"
proof -
  let ?s = "ref_queued\<lparr>gs_queue := remove1 (ref_key, 0, False) (gs_queue ref_queued)\<rparr>"
  obtain r s1 where run: "run_queued ref_genv 7 ref_nonce (ref_key, 0, False) ref_queued = (r, s1)" by (metis surj_pair)
  then have put: "put_one ref_genv 7 ref_nonce ref_key 0 False ?s = (r, s1)" by (simp add: run_queued_def bind_io_def put_s_def)
  obtain img where img: "gds_image ref_torch ref_lay ref_data = Inr img" using ref_image by blast
  have nonce: "CHR ''/'' \<notin> set ref_nonce" by simp
  have s: "gref_files (lib_state (gs_dfs ?s)) = Map.empty" "gref_handles (lib_state (gs_dfs ?s)) = Map.empty" "gref_up (lib_state (gs_dfs ?s))"
    "mo_layout ref_lm (gs_mem ?s) 0 = ref_lay" "mo_bytes ref_lm (gs_mem ?s) 0 = ref_data" "gs_known ?s = {}"
    by (simp_all add: ref_queued_def ref_gds_def gds_blank_def gref_files_def gref_handles_def gref_up_def ref_lm_def ref_gmem_def)
  have v: "wp (put_one ref_genv 7 ref_nonce ref_key 0 False) (\<lambda>r s'. r = Inr () \<and> gref_up (lib_state (gs_dfs s')) \<and> ref_key \<in> gs_known s') ?s"
    by (rule wp_mono [OF reflive.put_one_visible [OF _ _ nonce, where img = img]]) (use s img in \<open>simp_all add: refgds.partial_at_def\<close>)
  have "wp (put_one ref_genv 7 ref_nonce ref_key 0 False) (\<lambda>r s'. gs_mem s' = snd (gm_down 0 (gs_mem ?s))) ?s"
    by (rule refgds.put_one_mem [OF _ nonce, where img = img]) (use s img in \<open>simp_all add: refgds.partial_at_def ref_lm_def\<close>)
  from wpD [OF this put] have m: "gs_mem s1 = ref_gmem" by (auto simp: gm_down_def ref_queued_def ref_gmem_def)
  from wpD [OF v put] have r: "r = Inr ()" "gref_up (lib_state (gs_dfs s1))" "ref_key \<in> gs_known s1" by blast+
  have "gds_reach ref_genv ref_plan ref_gds s1" by (rule gds_reach.put [OF ref_queued_reach ref_queued_facts(4,1) nonce run])
  with that run r m show ?thesis by blast
qed

lemma ref_room: "lm_allocate (g_lm ref_genv) ref_lay ref_gmem = (Inr (Some 1), snd (gm_allocate ref_lay ref_gmem))"
  by (simp add: ref_lm_def gm_allocate_def ref_gmem_def)

theorem gds_put_then_get_witness:
  "\<exists>s1 s2. run_queued ref_genv 7 ref_nonce (ref_key, 0, False) ref_queued = (Inr (), s1) \<and>
     get_blocking ref_genv 8 ref_key s1 = (Inr (Some 1), s2) \<and> gm_bytes (gs_mem s2) 1 = [1, 2, 3, 4]"
proof -
  obtain s1 where run: "run_queued ref_genv 7 ref_nonce (ref_key, 0, False) ref_queued = (Inr (), s1)" and m: "gs_mem s1 = ref_gmem"
    by (rule ref_put_run)
  obtain r s2 where get: "get_blocking ref_genv 8 ref_key s1 = (r, s2)" by (metis surj_pair)
  have lay: "mo_layout (g_lm ref_genv) (gs_mem ref_queued) 0 = ref_lay" "mo_bytes (g_lm ref_genv) (gs_mem ref_queued) 0 = ref_data"
    by (simp_all add: ref_queued_def ref_lm_def ref_gmem_def)
  have nonce: "CHR ''/'' \<notin> set ref_nonce" by simp
  have "Inr () = (Inr () :: exn + unit) \<and> r = Inr (Some 1) \<and> mo_layout (g_lm ref_genv) (gs_mem s2) 1 = mo_layout (g_lm ref_genv) (gs_mem ref_queued) 0 \<and>
    mo_bytes (g_lm ref_genv) (gs_mem s2) 1 = mo_bytes (g_lm ref_genv) (gs_mem ref_queued) 0"
    by (rule gds_put_then_get [OF reflive.gds_live_axioms ref_hyps(2-4) ref_queued_facts(2,1) nonce ref_queued_facts(3,5) _ run _ get])
      (use ref_room m lay in simp_all)
  then have "r = Inr (Some 1)" "gm_bytes (gs_mem s2) 1 = [1, 2, 3, 4]" unfolding lay by (simp_all add: ref_lm_def ref_data_def)
  with run get show ?thesis by blast
qed

text \<open>A load after the put, for the statements about loads.\<close>

lemma ref_get_run:
  assumes "gds_reach ref_genv ref_plan ref_gds s1" "gref_up (lib_state (gs_dfs s1))" "gs_mem s1 = ref_gmem" "ref_key \<in> gs_known s1"
  obtains s2 where "get_blocking ref_genv th ref_key s1 = (Inr (Some 1), s2)" "gref_up (lib_state (gs_dfs s2))"
proof -
  obtain img where img: "gds_image ref_torch ref_lay ref_data = Inr img" using ref_image by blast
  have nb: "ref_nbytes ref_lay = length ref_data" by (simp add: ref_nbytes_def ref_lay_def ref_data_def)
  have i: "gds_inv ref_genv gref_files gref_handles ref_plan s1" by (rule refcache.reach_inv [OF assms(1) ref_gds_start(1)])
  have "gref_files (lib_state (gs_dfs s1)) (gds_path (g_root ref_genv) ref_key) \<noteq> None" using i assms(4) unfolding gds_inv_def by blast
  moreover have "objects_ok ref_genv (gref_files (lib_state (gs_dfs s1))) ref_plan" using i by (simp add: gds_inv_def)
  from objects_okD(1) [OF this, of ref_key ref_lay ref_data img] img
  have "gref_files (lib_state (gs_dfs s1)) (gds_path (g_root ref_genv) ref_key) = None \<or> gref_files (lib_state (gs_dfs s1)) (gds_path (g_root ref_genv) ref_key) = Some img"
    by (simp add: ref_plan_def)
  ultimately have f: "gref_files (lib_state (gs_dfs s1)) (gds_path (g_root ref_genv) ref_key) = Some img" by auto
  obtain r s2 where get: "get_blocking ref_genv th ref_key s1 = (r, s2)" by (metis surj_pair)
  have "wp (get_blocking ref_genv th ref_key) (\<lambda>r s'. r = Inr (Some 1) \<and> gref_up (lib_state (gs_dfs s'))) s1"
    by (rule reflive.get_blocking_up [OF assms(2) _ nb f]) (use img ref_room assms(3) in simp_all)
  from wpD [OF this get] get that show ?thesis by blast
qed

theorem gds_get_sound_witness:
  "\<exists>s1 s2. gds_reach ref_genv ref_plan ref_gds s1 \<and> get_blocking ref_genv 8 ref_key s1 = (Inr (Some 1), s2) \<and>
     gm_bytes (gs_mem s2) 1 = [1, 2, 3, 4]"
proof -
  obtain s1 where s1: "gds_reach ref_genv ref_plan ref_gds s1" "gref_up (lib_state (gs_dfs s1))" "gs_mem s1 = ref_gmem" "ref_key \<in> gs_known s1"
    by (rule ref_put_run)
  from ref_get_run [OF this] obtain s2 where get: "get_blocking ref_genv 8 ref_key s1 = (Inr (Some 1), s2)" by metis
  have pl: "ref_plan ref_key = Some (ref_lay, ref_data)" by (simp add: ref_plan_def)
  from gds_get_sound [OF ref_hyps(1-3) s1(1) pl get] have "gm_bytes (gs_mem s2) 1 = [1, 2, 3, 4]" by (simp add: ref_lm_def ref_data_def)
  with s1(1) get show ?thesis by blast
qed

theorem gds_visible_complete_witness:
  "\<exists>s1 img. gds_reach ref_genv ref_plan ref_gds s1 \<and> gds_image ref_torch ref_lay ref_data = Inr img \<and>
     gref_files (lib_state (gs_dfs s1)) (gds_path V2_PREFIX ref_key) = Some img"
proof -
  obtain s1 where s1: "gds_reach ref_genv ref_plan ref_gds s1" "ref_key \<in> gs_known s1" by (rule ref_put_run)
  obtain img where img: "gds_image (g_torch ref_genv) ref_lay ref_data = Inr img" using ref_image by auto
  have pl: "ref_plan ref_key = Some (ref_lay, ref_data)" by (simp add: ref_plan_def)
  from gds_visible_complete [OF ref_hyps(1-3) s1(1) pl img] s1 img show ?thesis by auto
qed

theorem gds_batched_prefix_witness:
  "\<exists>s1 s2. gds_reach ref_genv ref_plan ref_gds s1 \<and> batched_get_blocking ref_genv [0] (\<lambda>_. 8) [ref_key] s1 = (Inr [Some 1], s2) \<and>
     gm_refs (gs_mem s2) 1 = 1"
proof -
  obtain s1 where s1: "gds_reach ref_genv ref_plan ref_gds s1" "gref_up (lib_state (gs_dfs s1))" "gs_mem s1 = ref_gmem" "ref_key \<in> gs_known s1"
    by (rule ref_put_run)
  from ref_get_run [OF this] obtain s2 where get: "get_blocking ref_genv 8 ref_key s1 = (Inr (Some 1), s2)" by metis
  have run: "batched_get_blocking ref_genv [0] (\<lambda>_. 8) [ref_key] s1 = (Inr [Some 1], s2)"
    using get by (simp add: batched_get_blocking_def pool_map_def run_all_def run_step_def bind_io_def ret_def first_miss_def)
  have sched: "may_run (length [ref_key]) [0]" by (simp add: may_run_def lessThan_Suc)
  have "\<exists>obs. length obs \<le> length [ref_key] \<and> [Some 1] = map Some obs @ replicate (length [ref_key] - length obs) None \<and>
      prefix_ok ref_genv gm_refs (\<lambda>_. (ref_lay, ref_data)) (gs_mem s1) obs (gs_mem s2)"
    by (rule gds_batched_prefix [OF ref_hyps(1-3) s1(1) sched _ run]) (simp add: ref_plan_def)
  then have "gm_refs (gs_mem s2) 1 = 1" by (auto simp: prefix_ok_def Cons_eq_append_conv Cons_eq_map_conv)
  with s1(1) run show ?thesis by blast
qed

theorem gds_batches_agree_witness:
  "\<exists>s1 s2. batched_get_blocking ref_genv [0] (\<lambda>_. 8) [ref_key] s1 = (Inr [Some 1], s2) \<and>
     gds_batched_get_non_blocking ref_genv [0] (\<lambda>_. 8) [ref_key] s1 = (Inr [1], s2)"
proof -
  obtain s1 where s1: "gds_reach ref_genv ref_plan ref_gds s1" "gref_up (lib_state (gs_dfs s1))" "gs_mem s1 = ref_gmem" "ref_key \<in> gs_known s1"
    by (rule ref_put_run)
  from ref_get_run [OF this] obtain s2 where get: "get_blocking ref_genv 8 ref_key s1 = (Inr (Some 1), s2)" by metis
  have run: "batched_get_blocking ref_genv [0] (\<lambda>_. 8) [ref_key] s1 = (Inr [Some 1], s2)"
    using get by (simp add: batched_get_blocking_def pool_map_def run_all_def run_step_def bind_io_def ret_def first_miss_def)
  have sched: "is_schedule (length [ref_key]) [0]" by (simp add: is_schedule_def lessThan_Suc)
  from gds_batches_agree [OF sched, of ref_genv "\<lambda>_. 8" s1] run show ?thesis by auto
qed

text \<open>A library that opens one object only: the second load of the batch raises.\<close>

definition ref_low :: "bytes \<Rightarrow> (gfs_state, gmem, unit) gds" where
  "ref_low img = gds_blank \<lparr>lib_state = (\<lparr>mfiles = Map.empty(gds_path V2_PREFIX ref_key \<mapsto> img), mhandles = Map.empty, mnext = 0, mspace = Some 1\<rparr>, Map.empty),
     daos_inited = True, sys_valid = True, base_handle = None\<rparr> ref_gmem ()"

lemma ref_low_get:
  assumes img: "gds_image ref_torch ref_lay ref_data = Inr img"
  shows "wp (get_blocking ref_genv th ref_key) (\<lambda>r s'. r = Inr (Some 1) \<and> mspace (fst (lib_state (gs_dfs s'))) = Some 1 \<and> mnext (fst (lib_state (gs_dfs s'))) = 1) (ref_low img)"
proof -
  from img obtain page where page: "pack_header (meta_pack ref_torch (length ref_data) ref_lay) (int (length ref_data)) STATE_COMMITTED = Inr page"
    "img = page @ ref_data" "length page = HEADER_SIZE" by (rule gds_imageE)
  have h: "parse_header page True = Inr \<lparr>state = STATE_COMMITTED, meta = meta_pack ref_torch (length ref_data) ref_lay, payload_len = length ref_data\<rparr>"
    by (rule refgds.parse_gds_page [OF page(1)])
  have d: "length ref_data = 4" "ref_nbytes ref_lay = 4" by (simp_all add: ref_data_def ref_nbytes_def ref_lay_def)
  have cu: "ensure_cuda_ctx ref_genv th (ref_low img) = (Inr (), (ref_low img)\<lparr>gs_ctx := True, gs_bound := {th}\<rparr>)"
    by (simp add: ensure_cuda_ctx_def ref_cuda_def ref_low_def gds_blank_def bind_io_def get_s_def put_s_def ret_def on_cu_def cu_call_def)
  let ?p = "gds_path V2_PREFIX ref_key"
  define d1 where "d1 = \<lparr>mfiles = Map.empty(?p \<mapsto> img), mhandles = Map.empty(0 \<mapsto> ?p), mnext = 1, mspace = Some 1\<rparr>"
  define s1 where "s1 = gds_blank \<lparr>lib_state = (d1, Map.empty :: nat \<Rightarrow> string option), daos_inited = True, sys_valid = True, base_handle = None\<rparr> ref_gmem ()\<lparr>gs_ctx := True, gs_bound := {th}\<rparr>"
  have op: "on_gl (open_rdonly gref_dfs ?p) ((ref_low img)\<lparr>gs_ctx := True, gs_bound := {th}\<rparr>) = (Inr 0, s1)"
    by (simp add: on_gs_def on_lib_def open_rdonly_def open_obj_def chk_rc2_def gref_dfs_def lift_mem_def gref_open_def mem_open_def ref_low_def gds_blank_def s1_def d1_def)
  have f1: "lib_state (gs_dfs s1) = (d1, Map.empty)" "gs_mem s1 = ref_gmem" "mhandles d1 0 = Some ?p" "mfiles d1 ?p = Some img"
    by (simp_all add: s1_def gds_blank_def d1_def)
  have rd: "on_gl (read_obj gref_dfs 0 0 HEADER_SIZE) s1 = (Inr page, s1)"
    using page(2,3) by (simp add: on_gs_def on_lib_def read_obj_def read_obj_into_def bind_io_def chk_rc2_def gref_dfs_def lift_mem_def mem_read_def f1 store_into_def of_sum_def ret_def s1_def gds_blank_def)
  let ?m2 = "snd (gm_allocate ref_lay ref_gmem)"
  let ?hdr = "\<lparr>state = STATE_COMMITTED, meta = meta_pack ref_torch (length ref_data) ref_lay, payload_len = length ref_data\<rparr>"
  have prep: "get_prepare ref_genv 0 s1 = (Inr (Some (?hdr, 1)), s1\<lparr>gs_mem := ?m2\<rparr>)"
    using rd h ref_room by (simp add: get_prepare_def catch_io_def bind_io_def of_sum_def ret_def on_gm_def f1 refnames.meta_roundtrip)
  let ?s2 = "s1\<lparr>gs_mem := ?m2\<rparr>"
  have dev: "mo_bytes ref_lm ?m2 1 = replicate 4 0" using d by (simp add: ref_lm_def gm_allocate_def ref_gmem_def)
  have "take 4 (drop payload_offset img) = ref_data" using page(2,3) d by (simp add: payload_offset_def)
  then have gp: "on_gs (read_gpu_into gref_dfs 0 payload_offset 4 (replicate 4 0)) ?s2 = (Inr (4, ref_data), ?s2\<lparr>gs_dfs := (gs_dfs s1)\<lparr>base_handle := Some 0\<rparr>\<rparr>)"
    using d by (simp add: on_gs_def read_gpu_into_def gpu_supported_def base_def gref_dfs_def bind_io_def get_s_def put_s_def ret_def on_lib_def chk_rc2_def lift_mem_def
        mem_read_def f1 of_sum_def store_into_def s1_def gds_blank_def)
  have pay: "\<exists>s3. get_payload ref_genv ref_key 0 ?hdr 1 ?s2 = (Inr (Some 1), s3) \<and> lib_state (gs_dfs s3) = (d1, Map.empty)"
    using gp dev d f1 by (simp add: get_payload_def catch_io_def bind_io_def get_s_def put_s_def ret_def Let_def upd_gstats_def)
  from pay obtain s3 where s3: "get_payload ref_genv ref_key 0 ?hdr 1 ?s2 = (Inr (Some 1), s3)" "lib_state (gs_dfs s3) = (d1, Map.empty)" by blast
  have cl: "on_gl (close_obj gref_dfs 0) s3 = (Inr (), s3\<lparr>gs_dfs := (gs_dfs s3)\<lparr>lib_state := (d1\<lparr>mhandles := Map.empty\<rparr>, Map.empty)\<rparr>\<rparr>)"
    using s3(2) f1 by (simp add: on_gs_def on_lib_def close_obj_def ignore_rc_def gref_dfs_def lift_mem_def mem_close_def d1_def)
  show ?thesis
    using cu op prep s3 cl by (simp add: wp_def get_blocking_def bind_io_def catch_io_def finally_io_def ret_def d1_def)
qed

lemma ref_low_raise:
  assumes "mspace (fst (lib_state (gs_dfs s))) = Some 1" "mnext (fst (lib_state (gs_dfs s))) = 1"
  shows "wp (get_blocking ref_genv th ref_key) (\<lambda>r s'. r = Inl (DaosError 24)) s"
  unfolding get_blocking_def wp_bind [of "ensure_cuda_ctx _ _"]
proof (rule reflive.wp_cuda_up, goal_cases)
  case (1 c x b)
  obtain d e where d: "lib_state (gs_dfs s) = (d, e)" by (cases "lib_state (gs_dfs s)")
  with assms have o: "on_gl (open_rdonly gref_dfs (gds_path V2_PREFIX ref_key)) (s\<lparr>gs_cuda := c, gs_ctx := x, gs_bound := b\<rparr>) =
      (Inl (DaosError 24), s\<lparr>gs_cuda := c, gs_ctx := x, gs_bound := b, gs_dfs := (gs_dfs s)\<lparr>lib_state := (d, e)\<rparr>\<rparr>)"
    by (simp add: on_gs_def on_lib_def open_rdonly_def open_obj_def chk_rc2_def gref_dfs_def lift_mem_def gref_open_def)
  then show ?case by (simp add: wp_def bind_io_def catch_io_def raise_def)
qed

lemma ref_low_inv:
  assumes "gds_image ref_torch ref_lay ref_data = Inr img"
  shows "gds_inv ref_genv gref_files gref_handles ref_plan (ref_low img)"
  using assms temp_not_path [of V2_PREFIX ref_key _ ref_key]
  by (auto simp: gds_inv_def objects_ok_def ref_low_def gds_blank_def gref_files_def gref_handles_def ref_plan_def)

theorem gds_batched_raise_keeps_witness:
  "\<exists>img s'. batched_get_blocking ref_genv [0, 1] (\<lambda>_. 8) [ref_key, ref_key] (ref_low img) = (Inl (DaosError 24), s') \<and>
     gm_refs (gs_mem (ref_low img)) 1 = 0 \<and> gm_refs (gs_mem s') 1 = 1"
proof -
  obtain img where img: "gds_image ref_torch ref_lay ref_data = Inr img" using ref_image by blast
  obtain r1 s1 where g1: "get_blocking ref_genv 8 ref_key (ref_low img) = (r1, s1)" by (metis surj_pair)
  note one = wpD [OF ref_low_get [OF img] g1]
  obtain r2 s2 where g2: "get_blocking ref_genv 8 ref_key s1 = (r2, s2)" by (metis surj_pair)
  have two: "r2 = Inl (DaosError 24)" by (rule wpD [OF ref_low_raise g2]) (use one in auto)
  have loads: "run_all [0, 1] (gds_loads ref_genv (\<lambda>_. 8) [ref_key, ref_key]) (ref_low img) = ([Inr (Some 1), Inl (DaosError 24)], s2)"
    using g1 g2 one two by (simp add: run_all_def run_step_def)
  have run: "batched_get_blocking ref_genv [0, 1] (\<lambda>_. 8) [ref_key, ref_key] (ref_low img) = (Inl (DaosError 24), s2)"
    using loads unfolding batched_get_eq by (simp add: pool_map_def bind_io_def)
  have sched: "may_run (length [ref_key, ref_key]) [0, 1]" by (auto simp: may_run_def)
  have "s2 = s2 \<and> Inl (DaosError 24) \<in> set [Inr (Some (1 :: nat)), Inl (DaosError 24)] \<and>
      gm_refs (gs_mem s2) = (\<lambda>ob. if Inr (Some ob) \<in> set [Inr (Some 1), Inl (DaosError 24)] then 1 else gm_refs (gs_mem (ref_low img)) ob)"
    by (rule gds_batched_raise_keeps [OF ref_hyps(1,2) ref_low_inv [OF img] gds_reach.start sched _ loads run, where vs = "\<lambda>_. (ref_lay, ref_data)"])
      (auto simp: ref_plan_def less_Suc_eq)
  then have "gm_refs (gs_mem s2) 1 = 1" by simp
  moreover have "gm_refs (gs_mem (ref_low img)) 1 = 0" by (simp add: ref_low_def gds_blank_def ref_gmem_def)
  ultimately show ?thesis using run by blast
qed

end
