(* ===== verification/Gds_Commit.thy ===== *)
theory Gds_Commit
  imports Gds_Ref
begin

text \<open>
  Puts and loads of many threads and clients, interleaved at the calls into the library. The writers of
  \<^verbatim>\<open>_put_one\<close> create a temporary object, write the header page, write the payload and rename; the readers
  of \<^verbatim>\<open>get_blocking\<close> open, read the header page, allocate and read the payload. Any thread may stop
  anywhere, any call may fail, and objects are removed in between.

  The name space is seen as names for objects: an open handle stays with its object when the name
  goes to another one or away, and the contents of an object without a name can vanish at any time.
\<close>

section \<open>Model\<close>

datatype wphase = WNew | WHeader nat | WPayload nat | WMove nat | WDone

datatype ('dt, 'f) rphase = RNew | RHeader nat | RPayload nat header "('dt, 'f) layout" | RHit "('dt, 'f) layout" bytes | RMiss

record ('dt, 'f) shared =
  sh_names :: "string \<Rightarrow> nat option"
  sh_data :: "nat \<Rightarrow> bytes"
  sh_next :: nat
  sh_writers :: "nat \<Rightarrow> wphase"
  sh_readers :: "nat \<Rightarrow> ('dt, 'f) rphase"

text \<open>The key and object of each writer with its nonce, the key of each reader, the size of a layout.\<close>

record ('dt, 'f) cenv =
  ce_torch :: "('dt, 'f) torch"
  ce_root :: string
  ce_size :: "('dt, 'f) layout \<Rightarrow> nat"
  ce_job :: "nat \<Rightarrow> pykey \<times> ('dt, 'f) layout \<times> bytes"
  ce_nonce :: "nat \<Rightarrow> string"
  ce_want :: "nat \<Rightarrow> pykey"

definition c_final :: "('dt, 'f) cenv \<Rightarrow> nat \<Rightarrow> string" where
  "c_final C w = gds_path (ce_root C) (fst (ce_job C w))"

definition c_tmp :: "('dt, 'f) cenv \<Rightarrow> nat \<Rightarrow> string" where
  "c_tmp C w = temp_path (c_final C w) (ce_nonce C w)"

definition c_page :: "('dt, 'f) cenv \<Rightarrow> nat \<Rightarrow> exn + bytes" where
  "c_page C w = (case ce_job C w of (key, lay, x) \<Rightarrow> pack_header (meta_pack (ce_torch C) (length x) lay) (int (length x)) STATE_COMMITTED)"

definition c_payload :: "('dt, 'f) cenv \<Rightarrow> nat \<Rightarrow> bytes" where
  "c_payload C w = snd (snd (ce_job C w))"

definition w_set :: "nat \<Rightarrow> wphase \<Rightarrow> ('dt, 'f) shared \<Rightarrow> ('dt, 'f) shared" where
  "w_set w ph s = s\<lparr>sh_writers := (sh_writers s)(w := ph)\<rparr>"

definition r_set :: "nat \<Rightarrow> ('dt, 'f) rphase \<Rightarrow> ('dt, 'f) shared \<Rightarrow> ('dt, 'f) shared" where
  "r_set r ph s = s\<lparr>sh_readers := (sh_readers s)(r := ph)\<rparr>"

definition put_data :: "nat \<Rightarrow> nat \<Rightarrow> bytes \<Rightarrow> ('dt, 'f) shared \<Rightarrow> ('dt, 'f) shared" where
  "put_data ob off x s = s\<lparr>sh_data := (sh_data s)(ob := overlay (sh_data s ob) off x)\<rparr>"

text \<open>\<^verbatim>\<open>open_rdwr_create(tmp)\<close>\<close>

definition w_create :: "('dt, 'f) cenv \<Rightarrow> nat \<Rightarrow> ('dt, 'f) shared \<Rightarrow> ('dt, 'f) shared" where
  "w_create C w s = (case sh_names s (c_tmp C w) of
     Some ob \<Rightarrow> w_set w (WHeader ob) s
   | None \<Rightarrow> w_set w (WHeader (sh_next s))
       (s\<lparr>sh_names := (sh_names s)(c_tmp C w \<mapsto> sh_next s), sh_data := (sh_data s)(sh_next s := []), sh_next := sh_next s + 1\<rparr>))"

text \<open>\<^verbatim>\<open>move\<close>: the name of the temporary object becomes the final one.\<close>

definition w_move :: "('dt, 'f) cenv \<Rightarrow> nat \<Rightarrow> ('dt, 'f) shared \<Rightarrow> ('dt, 'f) shared" where
  "w_move C w s = w_set w WDone (case sh_names s (c_tmp C w) of
     None \<Rightarrow> s
   | Some ob \<Rightarrow> s\<lparr>sh_names := (sh_names s)(c_tmp C w := None, c_final C w \<mapsto> ob)\<rparr>)"

text \<open>\<^verbatim>\<open>open_rdonly\<close>, then the header page with its metadata, then the payload.\<close>

definition r_open :: "('dt, 'f) cenv \<Rightarrow> nat \<Rightarrow> ('dt, 'f) shared \<Rightarrow> ('dt, 'f) shared" where
  "r_open C r s = r_set r (case sh_names s (gds_path (ce_root C) (ce_want C r)) of None \<Rightarrow> RMiss | Some ob \<Rightarrow> RHeader ob) s"

definition r_header :: "('dt, 'f) cenv \<Rightarrow> nat \<Rightarrow> nat \<Rightarrow> ('dt, 'f) shared \<Rightarrow> ('dt, 'f) shared" where
  "r_header C r ob s = r_set r (case parse_header (take HEADER_SIZE (sh_data s ob)) True of
     Inl _ \<Rightarrow> RMiss
   | Inr hdr \<Rightarrow> (case meta_unpack (ce_torch C) (meta hdr) of Inl _ \<Rightarrow> RMiss | Inr (len, lay) \<Rightarrow> RPayload ob hdr lay)) s"

definition r_payload :: "('dt, 'f) cenv \<Rightarrow> nat \<Rightarrow> nat \<Rightarrow> header \<Rightarrow> ('dt, 'f) layout \<Rightarrow> ('dt, 'f) shared \<Rightarrow> ('dt, 'f) shared" where
  "r_payload C r ob hdr lay s = r_set r
     (let n = payload_len hdr; got = take n (drop payload_offset (sh_data s ob)) in
      if n \<noteq> ce_size C lay then RMiss else if length got \<noteq> n then RMiss else RHit lay got) s"

inductive commit_step :: "('dt, 'f) cenv \<Rightarrow> ('dt, 'f) shared \<Rightarrow> ('dt, 'f) shared \<Rightarrow> bool" for C where
  create: "sh_writers s w = WNew \<Longrightarrow> commit_step C s (w_create C w s)"
| header: "sh_writers s w = WHeader ob \<Longrightarrow> c_page C w = Inr page \<Longrightarrow> commit_step C s (w_set w (WPayload ob) (put_data ob 0 page s))"
| header_cut: "sh_writers s w = WHeader ob \<Longrightarrow> c_page C w = Inr page \<Longrightarrow> commit_step C s (w_set w WDone (put_data ob 0 (take j page) s))"
| payload: "sh_writers s w = WPayload ob \<Longrightarrow> commit_step C s (w_set w (WMove ob) (put_data ob payload_offset (c_payload C w) s))"
| payload_cut: "sh_writers s w = WPayload ob \<Longrightarrow> commit_step C s (w_set w WDone (put_data ob payload_offset (take j (c_payload C w)) s))"
| move: "sh_writers s w = WMove ob \<Longrightarrow> commit_step C s (w_move C w s)"
| give_up: "commit_step C s (w_set w WDone s)"
| opened: "sh_readers s r = RNew \<Longrightarrow> commit_step C s (r_open C r s)"
| read_header: "sh_readers s r = RHeader ob \<Longrightarrow> commit_step C s (r_header C r ob s)"
| read_payload: "sh_readers s r = RPayload ob hdr lay \<Longrightarrow> commit_step C s (r_payload C r ob hdr lay s)"
| miss: "commit_step C s (r_set r RMiss s)"
| unlink: "commit_step C s (s\<lparr>sh_names := (sh_names s)(gds_path (ce_root C) key := None)\<rparr>)"
| reclaim: "ob \<notin> ran (sh_names s) \<Longrightarrow> commit_step C s (s\<lparr>sh_data := (sh_data s)(ob := [])\<rparr>)"

definition shared_new :: "('dt, 'f) shared" where
  "shared_new = \<lparr>sh_names = (\<lambda>_. None), sh_data = (\<lambda>_. []), sh_next = 0, sh_writers = (\<lambda>_. WNew), sh_readers = (\<lambda>_. RNew)\<rparr>"

inductive commit_reach :: "('dt, 'f) cenv \<Rightarrow> ('dt, 'f) shared \<Rightarrow> bool" for C where
  fresh: "commit_reach C shared_new"
| more: "commit_reach C s \<Longrightarrow> commit_step C s s' \<Longrightarrow> commit_reach C s'"

section \<open>Invariant\<close>

text \<open>
  What the threads work on: a key is only stored with one object, its header fits, the keys in use have
  different paths, and no two writers have the same temporary name (key and nonce).
\<close>

definition commit_plan :: "('dt, 'f) cenv \<Rightarrow> (pykey \<Rightarrow> (('dt, 'f) layout \<times> bytes) option) \<Rightarrow> bool" where
  "commit_plan C plan \<longleftrightarrow> inj_on (gds_path (ce_root C)) (dom plan) \<and> inj (c_tmp C) \<and> (\<forall>r. plan (ce_want C r) \<noteq> None) \<and>
     (\<forall>w. plan (fst (ce_job C w)) = Some (snd (ce_job C w))) \<and>
     (\<forall>key lay x. plan key = Some (lay, x) \<longrightarrow> (\<exists>img. gds_image (ce_torch C) lay x = Inr img))"

text \<open>The complete object of a key.\<close>

definition whole :: "('dt, 'f) cenv \<Rightarrow> (pykey \<Rightarrow> (('dt, 'f) layout \<times> bytes) option) \<Rightarrow> pykey \<Rightarrow> bytes \<Rightarrow> bool" where
  "whole C plan key b \<longleftrightarrow> (\<exists>lay x. plan key = Some (lay, x) \<and> gds_image (ce_torch C) lay x = Inr b)"

definition names_ok :: "('dt, 'f) shared \<Rightarrow> bool" where
  "names_ok s \<longleftrightarrow> (\<forall>p ob. sh_names s p = Some ob \<longrightarrow> ob < sh_next s) \<and> (\<forall>p q ob. sh_names s p = Some ob \<longrightarrow> sh_names s q = Some ob \<longrightarrow> p = q)"

definition writer_ok :: "('dt, 'f) cenv \<Rightarrow> (pykey \<Rightarrow> (('dt, 'f) layout \<times> bytes) option) \<Rightarrow> ('dt, 'f) shared \<Rightarrow> nat \<Rightarrow> bool" where
  "writer_ok C plan s w \<longleftrightarrow> (case sh_writers s w of
     WNew \<Rightarrow> sh_names s (c_tmp C w) = None
   | WHeader ob \<Rightarrow> sh_names s (c_tmp C w) = Some ob \<and> sh_data s ob = []
   | WPayload ob \<Rightarrow> sh_names s (c_tmp C w) = Some ob \<and> c_page C w = Inr (sh_data s ob)
   | WMove ob \<Rightarrow> sh_names s (c_tmp C w) = Some ob \<and> whole C plan (fst (ce_job C w)) (sh_data s ob)
   | WDone \<Rightarrow> True)"

text \<open>An object a reader has open: the complete object of its key, or emptied; no other name leads to it.\<close>

definition held_ok :: "('dt, 'f) cenv \<Rightarrow> (pykey \<Rightarrow> (('dt, 'f) layout \<times> bytes) option) \<Rightarrow> ('dt, 'f) shared \<Rightarrow> pykey \<Rightarrow> nat \<Rightarrow> bool" where
  "held_ok C plan s key ob \<longleftrightarrow> ob < sh_next s \<and> (\<forall>p. sh_names s p = Some ob \<longrightarrow> p = gds_path (ce_root C) key) \<and>
     (whole C plan key (sh_data s ob) \<or> sh_data s ob = [])"

definition reader_ok :: "('dt, 'f) cenv \<Rightarrow> (pykey \<Rightarrow> (('dt, 'f) layout \<times> bytes) option) \<Rightarrow> ('dt, 'f) shared \<Rightarrow> nat \<Rightarrow> bool" where
  "reader_ok C plan s r \<longleftrightarrow> (case sh_readers s r of
     RNew \<Rightarrow> True
   | RHeader ob \<Rightarrow> held_ok C plan s (ce_want C r) ob
   | RPayload ob hdr lay \<Rightarrow> held_ok C plan s (ce_want C r) ob \<and> (\<exists>x. plan (ce_want C r) = Some (lay, x) \<and> payload_len hdr = length x)
   | RHit lay x \<Rightarrow> plan (ce_want C r) = Some (lay, x)
   | RMiss \<Rightarrow> True)"

definition commit_inv :: "('dt, 'f) cenv \<Rightarrow> (pykey \<Rightarrow> (('dt, 'f) layout \<times> bytes) option) \<Rightarrow> ('dt, 'f) shared \<Rightarrow> bool" where
  "commit_inv C plan s \<longleftrightarrow> names_ok s \<and> (\<forall>key ob. plan key \<noteq> None \<longrightarrow> sh_names s (gds_path (ce_root C) key) = Some ob \<longrightarrow> whole C plan key (sh_data s ob)) \<and>
     (\<forall>w. writer_ok C plan s w) \<and> (\<forall>r. reader_ok C plan s r)"

lemma commit_planD:
  assumes "commit_plan C plan"
  shows "plan k \<noteq> None \<Longrightarrow> plan k' \<noteq> None \<Longrightarrow> gds_path (ce_root C) k = gds_path (ce_root C) k' \<Longrightarrow> k = k'"
    "c_tmp C w = c_tmp C w' \<Longrightarrow> w = w'" "plan (ce_want C r) \<noteq> None" "plan (fst (ce_job C w)) = Some (snd (ce_job C w))"
    "plan key = Some (lay, x) \<Longrightarrow> \<exists>img. gds_image (ce_torch C) lay x = Inr img"
  using assms unfolding commit_plan_def inj_on_def inj_def by blast+

lemma tmp_not_final: "c_tmp C w \<noteq> gds_path (ce_root C) key"
  by (simp add: c_tmp_def c_final_def temp_not_path)

lemma commit_invD:
  assumes "commit_inv C plan s"
  shows "names_ok s" "plan key \<noteq> None \<Longrightarrow> sh_names s (gds_path (ce_root C) key) = Some ob \<Longrightarrow> whole C plan key (sh_data s ob)"
    "writer_ok C plan s w" "reader_ok C plan s r"
  using assms unfolding commit_inv_def by blast+

lemma names_okD:
  assumes "names_ok s"
  shows "sh_names s p = Some ob \<Longrightarrow> ob < sh_next s" "sh_names s p = Some ob \<Longrightarrow> sh_names s q = Some ob \<Longrightarrow> p = q"
  using assms unfolding names_ok_def by blast+

lemma commit_invI:
  assumes "names_ok s" "\<And>key ob. plan key \<noteq> None \<Longrightarrow> sh_names s (gds_path (ce_root C) key) = Some ob \<Longrightarrow> whole C plan key (sh_data s ob)"
    "\<And>w. writer_ok C plan s w" "\<And>r. reader_ok C plan s r"
  shows "commit_inv C plan s"
  using assms unfolding commit_inv_def by blast

text \<open>What a step does to the names and objects, seen from the readers.\<close>

lemma reader_frame:
  assumes "reader_ok C plan s r" and "sh_readers s' = sh_readers s"
    and "\<And>ob. held_ok C plan s (ce_want C r) ob \<Longrightarrow> held_ok C plan s' (ce_want C r) ob"
  shows "reader_ok C plan s' r"
  using assms by (auto simp: reader_ok_def split: rphase.splits)

text \<open>The progress of one thread touches no other.\<close>

lemma w_set_inv:
  assumes "commit_inv C plan s" and "writer_ok C plan (w_set w ph s) w"
  shows "commit_inv C plan (w_set w ph s)"
proof (rule commit_invI)
  show "writer_ok C plan (w_set w ph s) v" for v
    using assms(2) commit_invD(3) [OF assms(1), of v] by (cases "v = w") (auto simp: writer_ok_def w_set_def split: wphase.splits)
  show "reader_ok C plan (w_set w ph s) r" for r
    by (rule reader_frame [OF commit_invD(4) [OF assms(1)]]) (simp_all add: w_set_def held_ok_def)
qed (use commit_invD [OF assms(1)] in \<open>simp_all add: w_set_def names_ok_def\<close>)

lemma r_set_inv:
  assumes "commit_inv C plan s" and "reader_ok C plan (r_set r ph s) r"
  shows "commit_inv C plan (r_set r ph s)"
proof (rule commit_invI)
  show "reader_ok C plan (r_set r ph s) q" for q
    using assms(2) commit_invD(4) [OF assms(1), of q] by (cases "q = r") (auto simp: reader_ok_def r_set_def held_ok_def split: rphase.splits)
  show "writer_ok C plan (r_set r ph s) w" for w
    using commit_invD(3) [OF assms(1), of w] by (auto simp: writer_ok_def r_set_def split: wphase.splits)
qed (use commit_invD [OF assms(1)] in \<open>simp_all add: r_set_def names_ok_def\<close>)

text \<open>A write to the temporary object of a writer.\<close>

lemma put_data_inv:
  assumes C: "commit_plan C plan" and inv: "commit_inv C plan s" and nm: "sh_names s (c_tmp C w) = Some ob"
    and new: "writer_ok C plan (w_set w ph (put_data ob off x s)) w"
  shows "commit_inv C plan (w_set w ph (put_data ob off x s))"
proof (rule commit_invI)
  note n = names_okD [OF commit_invD(1) [OF inv]]
  show "names_ok (w_set w ph (put_data ob off x s))" using commit_invD(1) [OF inv] by (simp add: names_ok_def w_set_def put_data_def)
  show "whole C plan key (sh_data (w_set w ph (put_data ob off x s)) ob')"
    if "plan key \<noteq> None" "sh_names (w_set w ph (put_data ob off x s)) (gds_path (ce_root C) key) = Some ob'" for key ob'
  proof -
    have nm': "sh_names s (gds_path (ce_root C) key) = Some ob'" using that by (simp add: w_set_def put_data_def)
    with n(2) [OF nm] tmp_not_final have "ob' \<noteq> ob" by metis
    with commit_invD(2) [OF inv that(1) nm'] show ?thesis by (simp add: w_set_def put_data_def)
  qed
  show "writer_ok C plan (w_set w ph (put_data ob off x s)) v" for v
  proof (cases "v = w")
    case False
    then have "sh_names s (c_tmp C v) \<noteq> Some ob" using n(2) [OF nm] commit_planD(2) [OF C] by metis
    with False commit_invD(3) [OF inv, of v] show ?thesis by (auto simp: writer_ok_def w_set_def put_data_def split: wphase.splits)
  qed (use new in simp)
  show "reader_ok C plan (w_set w ph (put_data ob off x s)) r" for r
  proof (rule reader_frame [OF commit_invD(4) [OF inv]])
    fix ob'
    assume h: "held_ok C plan s (ce_want C r) ob'"
    with nm tmp_not_final have "ob' \<noteq> ob" unfolding held_ok_def by metis
    with h show "held_ok C plan (w_set w ph (put_data ob off x s)) (ce_want C r) ob'" by (simp add: held_ok_def w_set_def put_data_def)
  qed (simp add: w_set_def put_data_def)
qed

lemma create_inv:
  assumes C: "commit_plan C plan" and inv: "commit_inv C plan s" and w: "sh_writers s w = WNew"
  shows "commit_inv C plan (w_create C w s)"
proof -
  note n = names_okD [OF commit_invD(1) [OF inv]]
  have none: "sh_names s (c_tmp C w) = None" using commit_invD(3) [OF inv, of w] w by (simp add: writer_ok_def)
  let ?s = "s\<lparr>sh_names := (sh_names s)(c_tmp C w \<mapsto> sh_next s), sh_data := (sh_data s)(sh_next s := []), sh_next := sh_next s + 1\<rparr>"
  have eq: "w_create C w s = w_set w (WHeader (sh_next s)) ?s" using none by (simp add: w_create_def)
  have old: "ob \<noteq> sh_next s" if "sh_names s p = Some ob" for p ob using n(1) [OF that] by simp
  show ?thesis
    unfolding eq
  proof (rule commit_invI)
    show "names_ok (w_set w (WHeader (sh_next s)) ?s)"
      using n none by (auto simp: names_ok_def w_set_def less_Suc_eq dest: old)
    show "whole C plan key (sh_data (w_set w (WHeader (sh_next s)) ?s) ob)"
      if "plan key \<noteq> None" "sh_names (w_set w (WHeader (sh_next s)) ?s) (gds_path (ce_root C) key) = Some ob" for key ob
    proof -
      have nm: "sh_names s (gds_path (ce_root C) key) = Some ob" using that tmp_not_final [of C w key, symmetric] by (simp add: w_set_def)
      with commit_invD(2) [OF inv that(1) nm] old [OF nm] show ?thesis by (simp add: w_set_def)
    qed
    show "writer_ok C plan (w_set w (WHeader (sh_next s)) ?s) v" for v
    proof (cases "v = w")
      case False
      then have "c_tmp C v \<noteq> c_tmp C w" using commit_planD(2) [OF C] by blast
      with False commit_invD(3) [OF inv, of v] show ?thesis by (auto simp: writer_ok_def w_set_def split: wphase.splits dest: old)
    qed (simp add: writer_ok_def w_set_def)
    show "reader_ok C plan (w_set w (WHeader (sh_next s)) ?s) r" for r
      by (rule reader_frame [OF commit_invD(4) [OF inv]]) (auto simp: w_set_def held_ok_def)
  qed
qed

lemma whole_here: "commit_plan C plan \<Longrightarrow> whole C plan (fst (ce_job C w)) b \<longleftrightarrow> (\<exists>page. c_page C w = Inr page \<and> b = page @ c_payload C w)"
  by (cases "ce_job C w") (use commit_planD(4) [of C plan w] in \<open>auto simp: whole_def c_page_def c_payload_def gds_image_def bind_sum_Inr_iff\<close>)

lemma page_length: "c_page C w = Inr page \<Longrightarrow> length page = HEADER_SIZE"
  by (auto simp: c_page_def pack_header_Inr_iff length_header_image header_args_def v2_sizes split: prod.splits)

text \<open>The steps of a writer.\<close>

lemma header_inv:
  assumes C: "commit_plan C plan" and inv: "commit_inv C plan s" and w: "sh_writers s w = WHeader ob" and page: "c_page C w = Inr page"
  shows "commit_inv C plan (w_set w (WPayload ob) (put_data ob 0 page s))" "commit_inv C plan (w_set w WDone (put_data ob 0 (take j page) s))"
proof -
  have o: "sh_names s (c_tmp C w) = Some ob" "sh_data s ob = []" using commit_invD(3) [OF inv, of w] w by (simp_all add: writer_ok_def)
  show "commit_inv C plan (w_set w (WPayload ob) (put_data ob 0 page s))"
    by (rule put_data_inv [OF C inv o(1)]) (use o page in \<open>simp add: writer_ok_def w_set_def put_data_def\<close>)
  show "commit_inv C plan (w_set w WDone (put_data ob 0 (take j page) s))"
    by (rule put_data_inv [OF C inv o(1)]) (simp add: writer_ok_def w_set_def)
qed

lemma payload_inv:
  assumes C: "commit_plan C plan" and inv: "commit_inv C plan s" and w: "sh_writers s w = WPayload ob"
  shows "commit_inv C plan (w_set w (WMove ob) (put_data ob payload_offset (c_payload C w) s))"
    "commit_inv C plan (w_set w WDone (put_data ob payload_offset (take j (c_payload C w)) s))"
proof -
  have o: "sh_names s (c_tmp C w) = Some ob" "c_page C w = Inr (sh_data s ob)" using commit_invD(3) [OF inv, of w] w by (simp_all add: writer_ok_def)
  have "overlay (sh_data s ob) payload_offset (c_payload C w) = sh_data s ob @ c_payload C w"
    using overlay_tail(2) [of "sh_data s ob @ c_payload C w" "sh_data s ob" "c_payload C w" "length (sh_data s ob)"] page_length [OF o(2)]
    by (simp add: payload_offset_def)
  then have "whole C plan (fst (ce_job C w)) (overlay (sh_data s ob) payload_offset (c_payload C w))"
    using o(2) by (simp add: whole_here [OF C])
  then show "commit_inv C plan (w_set w (WMove ob) (put_data ob payload_offset (c_payload C w) s))"
    by (intro put_data_inv [OF C inv o(1)]) (use o in \<open>simp add: writer_ok_def w_set_def put_data_def\<close>)
  show "commit_inv C plan (w_set w WDone (put_data ob payload_offset (take j (c_payload C w)) s))"
    by (rule put_data_inv [OF C inv o(1)]) (simp add: writer_ok_def w_set_def)
qed

lemma move_inv:
  assumes C: "commit_plan C plan" and inv: "commit_inv C plan s" and w: "sh_writers s w = WMove ob"
  shows "commit_inv C plan (w_move C w s)"
proof -
  note n = names_okD [OF commit_invD(1) [OF inv]]
  have o: "sh_names s (c_tmp C w) = Some ob" "whole C plan (fst (ce_job C w)) (sh_data s ob)"
    using commit_invD(3) [OF inv, of w] w by (simp_all add: writer_ok_def)
  let ?s = "s\<lparr>sh_names := (sh_names s)(c_tmp C w := None, c_final C w \<mapsto> ob)\<rparr>"
  have eq: "w_move C w s = w_set w WDone ?s" using o by (simp add: w_move_def)
  have nt: "c_final C w \<noteq> c_tmp C v" for v using tmp_not_final [of C v "fst (ce_job C w)"] by (simp add: c_final_def)
  have job: "plan (fst (ce_job C w)) \<noteq> None" using commit_planD(4) [OF C, of w] by simp
  show ?thesis
    unfolding eq
  proof (rule commit_invI)
    show "names_ok (w_set w WDone ?s)" using n o(1) unfolding names_ok_def w_set_def by (auto split: if_splits)
    show "whole C plan key (sh_data (w_set w WDone ?s) ob')"
      if "plan key \<noteq> None" "sh_names (w_set w WDone ?s) (gds_path (ce_root C) key) = Some ob'" for key ob'
    proof (cases "gds_path (ce_root C) key = c_final C w")
      case True
      then have "key = fst (ce_job C w)" using commit_planD(1) [OF C that(1) job] by (simp add: c_final_def)
      with that o(2) True show ?thesis by (simp add: w_set_def)
    next
      case False
      with that have "sh_names s (gds_path (ce_root C) key) = Some ob'" by (simp add: w_set_def split: if_splits)
      with commit_invD(2) [OF inv that(1)] show ?thesis by (simp add: w_set_def)
    qed
    show "writer_ok C plan (w_set w WDone ?s) v" for v
    proof (cases "v = w")
      case False
      then have "c_tmp C v \<noteq> c_tmp C w" using commit_planD(2) [OF C] by blast
      with False commit_invD(3) [OF inv, of v] nt [of v] show ?thesis by (auto simp: writer_ok_def w_set_def split: wphase.splits)
    qed (simp add: writer_ok_def w_set_def)
    show "reader_ok C plan (w_set w WDone ?s) r" for r
    proof (rule reader_frame [OF commit_invD(4) [OF inv]])
      fix ob'
      assume h: "held_ok C plan s (ce_want C r) ob'"
      with o(1) tmp_not_final have "ob' \<noteq> ob" unfolding held_ok_def by metis
      with h show "held_ok C plan (w_set w WDone ?s) (ce_want C r) ob'" by (simp add: held_ok_def w_set_def)
    qed (simp add: w_set_def)
  qed
qed

text \<open>Removal and the end of an object nobody can name.\<close>

lemma unlink_inv:
  assumes inv: "commit_inv C plan s"
  shows "commit_inv C plan (s\<lparr>sh_names := (sh_names s)(gds_path (ce_root C) key := None)\<rparr>)" (is "commit_inv _ _ ?s")
proof (rule commit_invI)
  show "names_ok ?s" using commit_invD(1) [OF inv] by (simp add: names_ok_def)
  show "whole C plan k (sh_data ?s ob)" if "plan k \<noteq> None" "sh_names ?s (gds_path (ce_root C) k) = Some ob" for k ob
    using commit_invD(2) [OF inv that(1)] that(2) by (simp split: if_splits)
  show "writer_ok C plan ?s w" for w
    using commit_invD(3) [OF inv, of w] tmp_not_final [of C w key] by (auto simp: writer_ok_def split: wphase.splits)
  show "reader_ok C plan ?s r" for r
    by (rule reader_frame [OF commit_invD(4) [OF inv]]) (auto simp: held_ok_def)
qed

lemma reclaim_inv:
  assumes inv: "commit_inv C plan s" and o: "ob \<notin> ran (sh_names s)"
  shows "commit_inv C plan (s\<lparr>sh_data := (sh_data s)(ob := [])\<rparr>)" (is "commit_inv _ _ ?s")
proof (rule commit_invI)
  have ne: "sh_names s p \<noteq> Some ob" for p using o by (auto simp: ran_def)
  show "names_ok ?s" using commit_invD(1) [OF inv] by (simp add: names_ok_def)
  show "whole C plan k (sh_data ?s ob')" if "plan k \<noteq> None" "sh_names ?s (gds_path (ce_root C) k) = Some ob'" for k ob'
    using commit_invD(2) [OF inv that(1)] that(2) ne by auto
  show "writer_ok C plan ?s w" for w
    using commit_invD(3) [OF inv, of w] ne [of "c_tmp C w"] by (auto simp: writer_ok_def split: wphase.splits)
  show "reader_ok C plan ?s r" for r
    by (rule reader_frame [OF commit_invD(4) [OF inv]]) (auto simp: held_ok_def)
qed

text \<open>The steps of a reader, under the contract of the names.\<close>

context torch_names
begin

lemma header_of_whole:
  assumes "whole C plan key b" "plan key = Some (lay, x)" "ce_torch C = T"
  shows "parse_header (take HEADER_SIZE b) True = Inr \<lparr>state = STATE_COMMITTED, meta = meta_pack T (length x) lay, payload_len = length x\<rparr>"
    "meta_unpack T (meta_pack T (length x) lay) = Inr (int (length x), lay)" "drop payload_offset b = x"
proof -
  from assms have "gds_image T lay x = Inr b" by (auto simp: whole_def)
  then obtain page where p: "pack_header (meta_pack T (length x) lay) (int (length x)) STATE_COMMITTED = Inr page" "b = page @ x" "length page = HEADER_SIZE"
    by (rule gds_imageE)
  show "parse_header (take HEADER_SIZE b) True = Inr \<lparr>state = STATE_COMMITTED, meta = meta_pack T (length x) lay, payload_len = length x\<rparr>"
    using v2.parse_committed [OF p(1), of True] p by simp
  show "drop payload_offset b = x" using p by (simp add: payload_offset_def)
qed (rule meta_roundtrip)

lemma read_header_inv:
  assumes C: "commit_plan C plan" "ce_torch C = T" and inv: "commit_inv C plan s" and r: "sh_readers s r = RHeader ob"
  shows "commit_inv C plan (r_header C r ob s)"
  unfolding r_header_def
proof (rule r_set_inv [OF inv])
  have h: "held_ok C plan s (ce_want C r) ob" using commit_invD(4) [OF inv, of r] r by (simp add: reader_ok_def)
  obtain lay x where pl: "plan (ce_want C r) = Some (lay, x)" using commit_planD(3) [OF C(1), of r] by (cases "the (plan (ce_want C r))") auto
  have keep: "held_ok C plan (r_set r ph s) (ce_want C r) ob" for ph using h by (simp add: held_ok_def r_set_def)
  let ?ph = "case parse_header (take HEADER_SIZE (sh_data s ob)) True of Inl _ \<Rightarrow> RMiss
     | Inr hdr \<Rightarrow> (case meta_unpack (ce_torch C) (meta hdr) of Inl _ \<Rightarrow> RMiss | Inr (len, lay) \<Rightarrow> RPayload ob hdr lay)"
  show "reader_ok C plan (r_set r ?ph s) r"
  proof (cases "whole C plan (ce_want C r) (sh_data s ob)")
    case True
    note hw = header_of_whole [OF True pl C(2)]
    have "?ph = RPayload ob \<lparr>state = STATE_COMMITTED, meta = meta_pack T (length x) lay, payload_len = length x\<rparr> lay"
      using hw(1,2) C(2) by simp
    then show ?thesis using keep pl by (simp add: reader_ok_def r_set_def)
  next
    case False
    then have "sh_data s ob = []" using h by (simp add: held_ok_def)
    moreover have "parse_header [] True = Inl BadHeader" by (simp add: parse_header_def v2_sizes)
    ultimately show ?thesis by (simp add: reader_ok_def r_set_def)
  qed
qed

lemma read_payload_inv:
  assumes C: "commit_plan C plan" "ce_torch C = T" and inv: "commit_inv C plan s" and r: "sh_readers s r = RPayload ob hdr lay"
  shows "commit_inv C plan (r_payload C r ob hdr lay s)"
  unfolding r_payload_def
proof (rule r_set_inv [OF inv])
  from commit_invD(4) [OF inv, of r] r obtain x where h: "held_ok C plan s (ce_want C r) ob"
    and pl: "plan (ce_want C r) = Some (lay, x)" "payload_len hdr = length x" by (auto simp: reader_ok_def)
  define got where "got = take (length x) (drop payload_offset (sh_data s ob))"
  have g: "got = x" if "length got = length x"
  proof (cases "whole C plan (ce_want C r) (sh_data s ob)")
    case True
    then show ?thesis using header_of_whole(3) [OF True pl(1) C(2)] by (simp add: got_def)
  next
    case False
    with h have "sh_data s ob = []" by (simp add: held_ok_def)
    with that show ?thesis by (simp add: got_def)
  qed
  show "reader_ok C plan (r_set r (let n = payload_len hdr; got = take n (drop payload_offset (sh_data s ob)) in
      if n \<noteq> ce_size C lay then RMiss else if length got \<noteq> n then RMiss else RHit lay got) s) r"
    unfolding Let_def pl(2) got_def [symmetric] using g pl(1) by (cases "length got = length x") (auto simp: reader_ok_def r_set_def)
qed

lemma commit_step_inv:
  assumes C: "commit_plan C plan" "ce_torch C = T" and "commit_step C s s'" "commit_inv C plan s"
  shows "commit_inv C plan s'"
  using assms(3,4)
proof (induction rule: commit_step.induct)
  case (opened s r)
  have "reader_ok C plan (r_set r (RHeader ob) s) r" if "sh_names s (gds_path (ce_root C) (ce_want C r)) = Some ob" for ob
    using names_okD [OF commit_invD(1) [OF opened(2)]] that commit_invD(2) [OF opened(2) commit_planD(3) [OF C(1)] that]
    by (auto simp: reader_ok_def r_set_def held_ok_def)
  then show ?case unfolding r_open_def by (intro r_set_inv [OF opened(2)]) (auto simp: reader_ok_def r_set_def split: option.splits)
next
  case (give_up s w)
  then show ?case by (rule w_set_inv) (simp add: writer_ok_def w_set_def)
next
  case (miss s r)
  then show ?case by (rule r_set_inv) (simp add: reader_ok_def r_set_def)
qed (use C in \<open>auto intro: create_inv header_inv payload_inv move_inv unlink_inv reclaim_inv read_header_inv read_payload_inv\<close>)

lemma commit_reach_inv:
  assumes "commit_plan C plan" "ce_torch C = T" "commit_reach C s"
  shows "commit_inv C plan s"
  using assms(3)
proof induction
  case fresh
  show ?case by (rule commit_invI) (simp_all add: shared_new_def names_ok_def writer_ok_def reader_ok_def)
next
  case (more s s')
  then show ?case using commit_step_inv assms(1,2) by blast
qed

end

section \<open>Properties\<close>

text \<open>
  C4: however puts, loads and removals of any number of threads and clients interleave, with any of
  them stopping anywhere, a load that hits has the layout and bytes that belong to its key.
\<close>

theorem gds_concurrent_load:
  assumes "torch_names (ce_torch C)" and "commit_plan C plan" and "commit_reach C s" and "sh_readers s r = RHit lay x"
  shows "plan (ce_want C r) = Some (lay, x)"
  using commit_invD(4) [OF torch_names.commit_reach_inv [OF assms(1,2) refl assms(3)], of r] assms(4) by (simp add: reader_ok_def)

text \<open>
  C5: under its final name an object is complete at every moment: readers never see a half-written
  object there, as \<^verbatim>\<open>serde_v2.py\<close> promises of the rename.
\<close>

theorem gds_final_name_complete:
  assumes "torch_names (ce_torch C)" and "commit_plan C plan" and "commit_reach C s"
    and "plan key = Some (lay, x)" and "sh_names s (gds_path (ce_root C) key) = Some ob"
  shows "gds_image (ce_torch C) lay x = Inr (sh_data s ob)"
  using commit_invD(2) [OF torch_names.commit_reach_inv [OF assms(1,2) refl assms(3)] _ assms(5)] assms(4) by (auto simp: whole_def)

text \<open>
  the state flag of the header does not follow the payload: a writer that stops after the header
  page leaves a temporary object whose header reads as committed although its payload is missing. Only
  the rename keeps such an object from readers.
\<close>

theorem gds_committed_before_payload:
  assumes "torch_names (ce_torch C)" and "commit_plan C plan"
  shows "\<exists>s ob hdr. commit_reach C s \<and> sh_names s (c_tmp C w) = Some ob \<and> sh_writers s w = WDone \<and>
    parse_header (take HEADER_SIZE (sh_data s ob)) True = Inr hdr \<and> committed hdr \<and>
    payload_len hdr = length (c_payload C w) \<and> drop payload_offset (sh_data s ob) = []"
proof -
  obtain key lay x where job: "ce_job C w = (key, lay, x)" by (cases "ce_job C w")
  then have "plan key = Some (lay, x)" using commit_planD(4) [OF assms(2), of w] by simp
  then obtain img where "gds_image (ce_torch C) lay x = Inr img" using commit_planD(5) [OF assms(2)] by blast
  then obtain page where p: "pack_header (meta_pack (ce_torch C) (length x) lay) (int (length x)) STATE_COMMITTED = Inr page" "length page = HEADER_SIZE"
    by (rule gds_imageE)
  have page: "c_page C w = Inr page" using job p by (simp add: c_page_def)
  let ?s1 = "w_create C w shared_new" and ?n = "0 :: nat"
  let ?s2 = "w_set w (WPayload ?n) (put_data ?n 0 page ?s1)"
  have s1: "sh_writers ?s1 w = WHeader ?n" "sh_names ?s1 (c_tmp C w) = Some ?n" "sh_data ?s1 ?n = []"
    by (simp_all add: w_create_def shared_new_def w_set_def)
  have "commit_reach C ?s1" by (rule commit_reach.more [OF commit_reach.fresh commit_step.create]) (simp add: shared_new_def)
  then have "commit_reach C ?s2" by (rule commit_reach.more [OF _ commit_step.header [OF s1(1) page]])
  then have "commit_reach C (w_set w WDone ?s2)" by (rule commit_reach.more [OF _ commit_step.give_up])
  moreover have "parse_header page True = Inr \<lparr>state = STATE_COMMITTED, meta = meta_pack (ce_torch C) (length x) lay, payload_len = length x\<rparr>"
    using v2.parse_committed [OF p(1), of True] by simp
  ultimately show ?thesis
    using s1 p(2) job by (intro exI [of _ "w_set w WDone ?s2"] exI [of _ ?n] exI) (auto simp: w_set_def put_data_def committed_def c_payload_def payload_offset_def)
qed

section \<open>A run\<close>

definition ref_cenv :: "(ref_dtype, ref_fmt) cenv" where
  "ref_cenv = \<lparr>ce_torch = ref_torch, ce_root = V2_PREFIX, ce_size = ref_nbytes, ce_job = (\<lambda>_. (ref_key, ref_lay, ref_data)),
     ce_nonce = (\<lambda>w. replicate w CHR ''a''), ce_want = (\<lambda>_. ref_key)\<rparr>"

lemma ref_cenv_simps [simp]:
  "ce_torch ref_cenv = ref_torch" "ce_root ref_cenv = V2_PREFIX" "ce_size ref_cenv = ref_nbytes" "ce_job ref_cenv w = (ref_key, ref_lay, ref_data)"
  "ce_nonce ref_cenv w = replicate w CHR ''a''" "ce_want ref_cenv r = ref_key"
  by (simp_all add: ref_cenv_def)

lemma ref_commit_plan: "commit_plan ref_cenv ref_plan"
proof -
  have "inj (c_tmp ref_cenv)" unfolding inj_def c_tmp_def c_final_def gds_temp_eq by (simp add: replicate_eq_replicate)
  then show ?thesis using ref_image by (auto simp: commit_plan_def ref_plan_def)
qed

lemma ref_torch_ok: "torch_names (ce_torch ref_cenv)"
  using refnames.torch_names_axioms by simp

text \<open>A put by writer 0, then a load by reader 0.\<close>

lemma ref_commit_run:
  obtains s ob where "commit_reach ref_cenv s" "sh_readers s 0 = RHit ref_lay ref_data" "sh_names s (gds_path V2_PREFIX ref_key) = Some ob"
proof -
  obtain img where "gds_image ref_torch ref_lay ref_data = Inr img" using ref_image by blast
  then obtain page where p: "pack_header (meta_pack ref_torch (length ref_data) ref_lay) (int (length ref_data)) STATE_COMMITTED = Inr page" "length page = HEADER_SIZE"
    by (rule gds_imageE)
  let ?C = ref_cenv and ?x = ref_data and ?hdr = "\<lparr>state = STATE_COMMITTED, meta = meta_pack ref_torch (length ref_data) ref_lay, payload_len = length ref_data\<rparr>"
  have page: "c_page ?C 0 = Inr page" "c_payload ?C 0 = ?x" using p by (simp_all add: c_page_def c_payload_def)
  have tf: "c_tmp ?C 0 \<noteq> c_final ?C 0" using tmp_not_final [of ?C 0 ref_key] by (simp add: c_final_def)
  define s1 where "s1 = w_create ?C 0 shared_new"
  define s2 where "s2 = w_set 0 (WPayload 0) (put_data 0 0 page s1)"
  define s3 where "s3 = w_set 0 (WMove 0) (put_data 0 payload_offset ?x s2)"
  define s4 where "s4 = w_move ?C 0 s3"
  define s5 where "s5 = r_open ?C 0 s4"
  define s6 where "s6 = r_header ?C 0 0 s5"
  have 1: "commit_reach ?C s1" unfolding s1_def by (rule commit_reach.more [OF commit_reach.fresh commit_step.create]) (simp add: shared_new_def)
  have f1: "sh_writers s1 0 = WHeader 0" "sh_names s1 (c_tmp ?C 0) = Some 0" "sh_data s1 0 = []" "sh_readers s1 0 = RNew"
    by (simp_all add: s1_def w_create_def shared_new_def w_set_def)
  have 2: "commit_reach ?C s2" unfolding s2_def by (rule commit_reach.more [OF 1 commit_step.header [OF f1(1) page(1)]])
  have f2: "sh_writers s2 0 = WPayload 0" "sh_names s2 (c_tmp ?C 0) = Some 0" "sh_data s2 0 = page" "sh_readers s2 0 = RNew"
    using f1 by (simp_all add: s2_def w_set_def put_data_def)
  have 3: "commit_reach ?C s3" unfolding s3_def page(2) [symmetric] by (rule commit_reach.more [OF 2 commit_step.payload [OF f2(1)]])
  have "overlay page payload_offset ?x = page @ ?x"
    using overlay_tail(2) [of "page @ ?x" page ?x "length page"] p(2) by (simp add: payload_offset_def)
  then have f3: "sh_writers s3 0 = WMove 0" "sh_names s3 (c_tmp ?C 0) = Some 0" "sh_data s3 0 = page @ ?x" "sh_readers s3 0 = RNew"
    using f2 by (simp_all add: s3_def w_set_def put_data_def)
  have 4: "commit_reach ?C s4" unfolding s4_def by (rule commit_reach.more [OF 3 commit_step.move [OF f3(1)]])
  have f4: "sh_names s4 (gds_path V2_PREFIX ref_key) = Some 0" "sh_data s4 0 = page @ ?x" "sh_readers s4 0 = RNew"
    using f3 tf by (simp_all add: s4_def w_move_def w_set_def c_final_def)
  have 5: "commit_reach ?C s5" unfolding s5_def by (rule commit_reach.more [OF 4 commit_step.opened [OF f4(3)]])
  have f5: "sh_readers s5 0 = RHeader 0" "sh_data s5 0 = page @ ?x" "sh_names s5 (gds_path V2_PREFIX ref_key) = Some 0"
    using f4 by (simp_all add: s5_def r_open_def r_set_def)
  have 6: "commit_reach ?C s6" unfolding s6_def by (rule commit_reach.more [OF 5 commit_step.read_header [OF f5(1)]])
  have f6: "sh_readers s6 0 = RPayload 0 ?hdr ref_lay" "sh_data s6 0 = page @ ?x" "sh_names s6 (gds_path V2_PREFIX ref_key) = Some 0"
    using f5 p v2.parse_committed [OF p(1), of True] by (simp_all add: s6_def r_header_def r_set_def refnames.meta_roundtrip)
  have "commit_reach ?C (r_payload ?C 0 0 ?hdr ref_lay s6)" by (rule commit_reach.more [OF 6 commit_step.read_payload [OF f6(1)]])
  moreover have "ref_nbytes ref_lay = length ?x" by (simp add: ref_nbytes_def ref_lay_def ref_data_def)
  then have "sh_readers (r_payload ?C 0 0 ?hdr ref_lay s6) 0 = RHit ref_lay ?x" using f6(2) p(2) by (simp add: r_payload_def r_set_def payload_offset_def)
  ultimately show ?thesis using f6(3) that [of "r_payload ?C 0 0 ?hdr ref_lay s6" 0] by (simp add: r_payload_def r_set_def)
qed

theorem gds_concurrent_load_witness:
  "\<exists>s. commit_reach ref_cenv s \<and> sh_readers s 0 = RHit ref_lay [1, 2, 3, 4] \<and> ref_plan ref_key = Some (ref_lay, [1, 2, 3, 4])"
proof -
  obtain s where s: "commit_reach ref_cenv s" "sh_readers s 0 = RHit ref_lay ref_data" by (rule ref_commit_run)
  from gds_concurrent_load [OF ref_torch_ok ref_commit_plan s] s show ?thesis by (auto simp: ref_data_def)
qed

theorem gds_final_name_complete_witness:
  "\<exists>s ob. commit_reach ref_cenv s \<and> sh_names s (gds_path V2_PREFIX ref_key) = Some ob \<and> gds_image ref_torch ref_lay ref_data = Inr (sh_data s ob)"
proof -
  obtain s ob where s0: "commit_reach ref_cenv s" "sh_names s (gds_path V2_PREFIX ref_key) = Some ob" by (rule ref_commit_run)
  then have s: "commit_reach ref_cenv s" "sh_names s (gds_path (ce_root ref_cenv) ref_key) = Some ob" by simp_all
  have pl: "ref_plan ref_key = Some (ref_lay, ref_data)" by (simp add: ref_plan_def)
  from gds_final_name_complete [OF ref_torch_ok ref_commit_plan s(1) pl s(2)] s show ?thesis by auto
qed

theorem gds_committed_before_payload_witness:
  "\<exists>s ob hdr. commit_reach ref_cenv s \<and> sh_writers s 0 = WDone \<and> parse_header (take HEADER_SIZE (sh_data s ob)) True = Inr hdr \<and>
     payload_len hdr = 4 \<and> drop payload_offset (sh_data s ob) = []"
proof -
  have "length (c_payload ref_cenv 0) = 4" by (simp add: c_payload_def ref_data_def)
  with gds_committed_before_payload [OF ref_torch_ok ref_commit_plan, of 0] show ?thesis by metis
qed

end
