(* ===== verification/Gds_Pool.thy ===== *)
theory Gds_Pool
  imports Daos_Prelude "HOL-Library.Multiset"
begin

text \<open>
  The thread pool of \<^verbatim>\<open>DaosGdsBackend\<close>. All calls share \<^verbatim>\<open>self._pool\<close>: \<^verbatim>\<open>batched_async_contains\<close> runs
  \<^verbatim>\<open>batched_contains\<close> on it, which hands one \<^verbatim>\<open>contains\<close> per key to the same pool and waits for all of
  them on the worker it occupies. Jobs start in the order of their submission, on one of \<open>W\<close> workers.
  The \<^verbatim>\<open>contains\<close> calls of this model do not raise.
\<close>

section \<open>Model\<close>

text \<open>
  \<open>Lookup i n\<close> is a submitted \<^verbatim>\<open>batched_contains\<close> of \<open>n\<close> keys, \<open>Part i\<close> one of its \<^verbatim>\<open>contains\<close> calls, \<open>Single\<close> a
  job that waits for no other (\<^verbatim>\<open>_put_one\<close>, \<^verbatim>\<open>get_blocking\<close>). A worker runs a job or waits for the parts
  of a lookup.
\<close>

datatype pjob = Lookup nat nat | Part nat | Single

datatype pwork = Running pjob | Waiting nat

record tpool =
  tp_queue :: "pjob list"
  tp_busy :: "pwork multiset"
  tp_left :: "nat \<Rightarrow> nat"
  tp_next :: nat

definition pool_new :: tpool where
  "pool_new = \<lparr>tp_queue = [], tp_busy = {#}, tp_left = (\<lambda>_. 0), tp_next = 0\<rparr>"

text \<open>\<^verbatim>\<open>loop.run_in_executor(self._pool, self.batched_contains, keys, pin)\<close>\<close>

definition async_contains :: "nat \<Rightarrow> tpool \<Rightarrow> tpool" where
  "async_contains n P = P\<lparr>tp_queue := tp_queue P @ [Lookup (tp_next P) n], tp_next := tp_next P + 1\<rparr>"

text \<open>\<^verbatim>\<open>self._pool.submit(self._put_one, ...)\<close> and \<^verbatim>\<open>run_in_executor(self._pool, self.get_blocking, k)\<close>\<close>

definition submit_single :: "tpool \<Rightarrow> tpool" where
  "submit_single P = P\<lparr>tp_queue := tp_queue P @ [Single]\<rparr>"

text \<open>\<^verbatim>\<open>self._pool.map(lambda k: self.contains(k, pin), keys)\<close>: all parts are submitted, then the worker waits.\<close>

definition map_contains :: "nat \<Rightarrow> nat \<Rightarrow> tpool \<Rightarrow> tpool" where
  "map_contains i n P = P\<lparr>tp_queue := tp_queue P @ replicate n (Part i), tp_left := (tp_left P)(i := n),
     tp_busy := add_mset (Waiting i) (tp_busy P - {#Running (Lookup i n)#})\<rparr>"

definition end_part :: "nat \<Rightarrow> tpool \<Rightarrow> tpool" where
  "end_part i P = P\<lparr>tp_busy := tp_busy P - {#Running (Part i)#}, tp_left := (tp_left P)(i := tp_left P i - 1)\<rparr>"

definition leave :: "pwork \<Rightarrow> tpool \<Rightarrow> tpool" where
  "leave w P = P\<lparr>tp_busy := tp_busy P - {#w#}\<rparr>"

inductive pool_step :: "nat \<Rightarrow> tpool \<Rightarrow> tpool \<Rightarrow> bool" for W where
  start: "tp_queue P = j # q \<Longrightarrow> size (tp_busy P) < W \<Longrightarrow> pool_step W P (P\<lparr>tp_queue := q, tp_busy := add_mset (Running j) (tp_busy P)\<rparr>)"
| spread: "Running (Lookup i n) \<in># tp_busy P \<Longrightarrow> pool_step W P (map_contains i n P)"
| part: "Running (Part i) \<in># tp_busy P \<Longrightarrow> pool_step W P (end_part i P)"
| single: "Running Single \<in># tp_busy P \<Longrightarrow> pool_step W P (leave (Running Single) P)"
| return: "Waiting i \<in># tp_busy P \<Longrightarrow> tp_left P i = 0 \<Longrightarrow> pool_step W P (leave (Waiting i) P)"

text \<open>Any interleaving of new calls and steps of the pool.\<close>

inductive pool_reach :: "nat \<Rightarrow> tpool \<Rightarrow> tpool \<Rightarrow> bool" for W P0 where
  init: "pool_reach W P0 P0"
| call: "pool_reach W P0 P \<Longrightarrow> pool_reach W P0 (async_contains n P)"
| job: "pool_reach W P0 P \<Longrightarrow> pool_reach W P0 (submit_single P)"
| step: "pool_reach W P0 P \<Longrightarrow> pool_step W P Q \<Longrightarrow> pool_reach W P0 Q"

text \<open>A run of the pool without new calls.\<close>

inductive pool_run :: "nat \<Rightarrow> nat \<Rightarrow> tpool \<Rightarrow> tpool \<Rightarrow> bool" for W where
  none: "pool_run W 0 P P"
| more: "pool_step W P Q \<Longrightarrow> pool_run W k Q R \<Longrightarrow> pool_run W (Suc k) P R"

inductive_cases pool_stepE: "pool_step W P Q"

section \<open>Counting\<close>

fun is_lookup :: "pjob \<Rightarrow> bool" where
  "is_lookup (Lookup _ _) = True"
| "is_lookup _ = False"

fun holds_lookup :: "pwork \<Rightarrow> bool" where
  "holds_lookup (Running j) = is_lookup j"
| "holds_lookup (Waiting _) = True"

text \<open>The lookups that have not returned.\<close>

definition open_lookups :: "tpool \<Rightarrow> nat" where
  "open_lookups P = length (filter is_lookup (tp_queue P)) + size (filter_mset holds_lookup (tp_busy P))"

definition idle :: "tpool \<Rightarrow> bool" where
  "idle P \<longleftrightarrow> tp_queue P = [] \<and> tp_busy P = {#}"

text \<open>The steps a job and a worker still need.\<close>

fun job_work :: "pjob \<Rightarrow> nat" where
  "job_work (Lookup _ n) = 2 * n + 3"
| "job_work _ = 2"

fun worker_work :: "pwork \<Rightarrow> nat" where
  "worker_work (Running j) = job_work j - 1"
| "worker_work (Waiting _) = 1"

definition work :: "tpool \<Rightarrow> nat" where
  "work P = sum_list (map job_work (tp_queue P)) + sum_mset (image_mset worker_work (tp_busy P))"

lemma job_work_pos: "0 < job_work j" "job_work j = Suc (job_work j - 1)"
  by (cases j; simp)+

lemma step_work: "pool_step W P Q \<Longrightarrow> work P = Suc (work Q)"
proof (induction rule: pool_step.induct)
  case (start P j q)
  then show ?case using job_work_pos(2) [of j] by (simp add: work_def)
next
  case (spread i n P)
  then obtain M where "tp_busy P = add_mset (Running (Lookup i n)) M" by (metis mset_add)
  then show ?case by (simp add: work_def map_contains_def sum_list_replicate map_replicate)
next
  case (part i P)
  then obtain M where "tp_busy P = add_mset (Running (Part i)) M" by (metis mset_add)
  then show ?case by (simp add: work_def end_part_def)
next
  case (single P)
  then obtain M where "tp_busy P = add_mset (Running Single) M" by (metis mset_add)
  then show ?case by (simp add: work_def leave_def)
next
  case (return i P)
  then obtain M where "tp_busy P = add_mset (Waiting i) M" by (metis mset_add)
  then show ?case by (simp add: work_def leave_def)
qed

lemma step_lookups: "pool_step W P Q \<Longrightarrow> open_lookups Q \<le> open_lookups P"
proof (induction rule: pool_step.induct)
  case (start P j q)
  then show ?case by (simp add: open_lookups_def)
next
  case (spread i n P)
  then obtain M where "tp_busy P = add_mset (Running (Lookup i n)) M" by (metis mset_add)
  then show ?case by (simp add: open_lookups_def map_contains_def)
next
  case (part i P)
  then obtain M where "tp_busy P = add_mset (Running (Part i)) M" by (metis mset_add)
  then show ?case by (simp add: open_lookups_def end_part_def)
next
  case (single P)
  then obtain M where "tp_busy P = add_mset (Running Single) M" by (metis mset_add)
  then show ?case by (simp add: open_lookups_def leave_def)
next
  case (return i P)
  then obtain M where "tp_busy P = add_mset (Waiting i) M" by (metis mset_add)
  then show ?case by (simp add: open_lookups_def leave_def)
qed

section \<open>Parts and their lookups\<close>

definition parts_of :: "nat \<Rightarrow> tpool \<Rightarrow> nat" where
  "parts_of i P = count_list (tp_queue P) (Part i) + count (tp_busy P) (Running (Part i))"

fun lookup_of :: "nat \<Rightarrow> pjob \<Rightarrow> bool" where
  "lookup_of i (Lookup k _) \<longleftrightarrow> k = i"
| "lookup_of i _ \<longleftrightarrow> False"

fun works_for :: "nat \<Rightarrow> pwork \<Rightarrow> bool" where
  "works_for i (Running j) \<longleftrightarrow> lookup_of i j"
| "works_for i (Waiting k) \<longleftrightarrow> k = i"

text \<open>How often the lookup \<open>i\<close> itself is in the pool.\<close>

definition copies :: "nat \<Rightarrow> tpool \<Rightarrow> nat" where
  "copies i P = length (filter (lookup_of i) (tp_queue P)) + size (filter_mset (works_for i) (tp_busy P))"

text \<open>
  A lookup is in the pool at most once; the counter of a waiting lookup is the number of its parts, and
  no other lookup has parts.
\<close>

definition pool_ok :: "tpool \<Rightarrow> bool" where
  "pool_ok P \<longleftrightarrow> (\<forall>i. copies i P \<le> 1) \<and> (\<forall>i \<ge> tp_next P. copies i P = 0 \<and> parts_of i P = 0) \<and>
     (\<forall>i. if Waiting i \<in># tp_busy P then tp_left P i = parts_of i P else parts_of i P = 0)"

lemma pool_new_ok: "pool_ok pool_new"
  by (simp add: pool_ok_def pool_new_def copies_def parts_of_def)

lemma pool_okI:
  assumes "\<And>i. copies i P \<le> 1" and "\<And>i. tp_next P \<le> i \<Longrightarrow> copies i P = 0 \<and> parts_of i P = 0"
    and "\<And>i. Waiting i \<in># tp_busy P \<Longrightarrow> tp_left P i = parts_of i P" and "\<And>i. Waiting i \<notin># tp_busy P \<Longrightarrow> parts_of i P = 0"
  shows "pool_ok P"
  using assms by (simp add: pool_ok_def)

lemma pool_okD:
  assumes "pool_ok P"
  shows "copies i P \<le> 1" "tp_next P \<le> i \<Longrightarrow> copies i P = 0 \<and> parts_of i P = 0"
    "Waiting i \<in># tp_busy P \<Longrightarrow> tp_left P i = parts_of i P" "Waiting i \<notin># tp_busy P \<Longrightarrow> parts_of i P = 0"
  using assms unfolding pool_ok_def by metis+

lemma call_counts:
  "copies i (async_contains n P) = copies i P + (if i = tp_next P then 1 else 0)" "parts_of i (async_contains n P) = parts_of i P"
  "copies i (submit_single P) = copies i P" "parts_of i (submit_single P) = parts_of i P"
  by (simp_all add: copies_def parts_of_def async_contains_def submit_single_def)

lemma call_ok: "pool_ok P \<Longrightarrow> pool_ok (async_contains n P)"
  by (rule pool_okI; unfold call_counts) (use pool_okD [of P] in \<open>force simp: async_contains_def\<close>)+

lemma single_ok: "pool_ok P \<Longrightarrow> pool_ok (submit_single P)"
  by (rule pool_okI; unfold call_counts) (use pool_okD [of P] in \<open>force simp: submit_single_def\<close>)+

lemma step_next: "pool_step W P Q \<Longrightarrow> tp_next Q = tp_next P"
  by (induction rule: pool_step.induct) (simp_all add: map_contains_def end_part_def leave_def)

text \<open>A worker that has the lookup is the only one.\<close>

lemma sole_copy:
  assumes "pool_ok P" "tp_busy P = add_mset w M" "works_for i w"
  shows "Waiting i \<notin># M"
proof
  assume "Waiting i \<in># M"
  then obtain N where "M = add_mset (Waiting i) N" by (metis mset_add)
  with assms(2,3) pool_okD(1) [OF assms(1), of i] show False by (simp add: copies_def)
qed

lemma spread_ok:
  assumes ok: "pool_ok P" and w: "Running (Lookup i n) \<in># tp_busy P"
  shows "pool_ok (map_contains i n P)"
proof -
  obtain M where M: "tp_busy P = add_mset (Running (Lookup i n)) M" using w by (metis mset_add)
  have sole: "Waiting i \<notin># tp_busy P" using sole_copy [OF ok M, of i] M by simp
  have rep: "count_list (replicate n (Part i)) (Part k) = (if k = i then n else 0)" for k by (induction n) auto
  have cnt: "copies k (map_contains i n P) = copies k P" "parts_of k (map_contains i n P) = parts_of k P + (if k = i then n else 0)" for k
    using M by (auto simp: copies_def parts_of_def map_contains_def filter_replicate count_list_append rep)
  have id: "i < tp_next P" using pool_okD(2) [OF ok, of i] M by (force simp: copies_def not_less [symmetric])
  show ?thesis
  proof (rule pool_okI, unfold cnt)
    fix k
    show "copies k P \<le> 1" by (rule pool_okD(1) [OF ok])
    show "copies k P = 0 \<and> parts_of k P + (if k = i then n else 0) = 0" if "tp_next (map_contains i n P) \<le> k"
      using pool_okD(2) [OF ok, of k] that id by (simp add: map_contains_def)
    show "tp_left (map_contains i n P) k = parts_of k P + (if k = i then n else 0)" if "Waiting k \<in># tp_busy (map_contains i n P)"
      using that M pool_okD(3) [OF ok, of k] pool_okD(4) [OF ok sole] by (auto simp: map_contains_def)
    show "parts_of k P + (if k = i then n else 0) = 0" if "Waiting k \<notin># tp_busy (map_contains i n P)"
      using that M pool_okD(4) [OF ok, of k] by (auto simp: map_contains_def)
  qed
qed

lemma part_ok:
  assumes ok: "pool_ok P" and w: "Running (Part i) \<in># tp_busy P"
  shows "pool_ok (end_part i P)"
proof -
  obtain M where M: "tp_busy P = add_mset (Running (Part i)) M" using w by (metis mset_add)
  have cnt: "copies k (end_part i P) = copies k P" "parts_of k (end_part i P) = parts_of k P - (if k = i then 1 else 0)" for k
    using M by (auto simp: copies_def parts_of_def end_part_def)
  have "0 < parts_of i P" using M by (simp add: parts_of_def)
  with pool_okD(4) [OF ok, of i] have wi: "Waiting i \<in># tp_busy P" by (metis less_irrefl)
  have same: "Waiting k \<in># tp_busy (end_part i P) \<longleftrightarrow> Waiting k \<in># tp_busy P" for k using M by (simp add: end_part_def)
  show ?thesis
  proof (rule pool_okI, unfold cnt same)
    fix k
    show "copies k P \<le> 1" by (rule pool_okD(1) [OF ok])
    show "copies k P = 0 \<and> parts_of k P - (if k = i then 1 else 0) = 0" if "tp_next (end_part i P) \<le> k"
      using pool_okD(2) [OF ok, of k] that by (simp add: end_part_def)
    show "tp_left (end_part i P) k = parts_of k P - (if k = i then 1 else 0)" if "Waiting k \<in># tp_busy P"
      using that pool_okD(3) [OF ok, of k] by (auto simp: end_part_def)
    show "parts_of k P - (if k = i then 1 else 0) = 0" if "Waiting k \<notin># tp_busy P"
      using that pool_okD(4) [OF ok, of k] by simp
  qed
qed

lemma return_ok:
  assumes ok: "pool_ok P" and w: "Waiting i \<in># tp_busy P" "tp_left P i = 0"
  shows "pool_ok (leave (Waiting i) P)"
proof -
  obtain M where M: "tp_busy P = add_mset (Waiting i) M" using w by (metis mset_add)
  have sole: "Waiting i \<notin># M" using sole_copy [OF ok M, of i] by simp
  have cnt: "copies k (leave (Waiting i) P) = copies k P - (if k = i then 1 else 0)" "parts_of k (leave (Waiting i) P) = parts_of k P" for k
    using M by (auto simp: copies_def parts_of_def leave_def)
  have zero: "parts_of i P = 0" using pool_okD(3) [OF ok w(1)] w(2) by simp
  have le: "copies k P - (if k = i then 1 else 0) \<le> 1" for k using pool_okD(1) [OF ok, of k] by simp
  show ?thesis
  proof (rule pool_okI, unfold cnt)
    fix k
    show "copies k P - (if k = i then 1 else 0) \<le> 1" by (rule le)
    show "copies k P - (if k = i then 1 else 0) = 0 \<and> parts_of k P = 0" if "tp_next (leave (Waiting i) P) \<le> k"
      using pool_okD(2) [OF ok, of k] that by (simp add: leave_def)
    show "tp_left (leave (Waiting i) P) k = parts_of k P" if "Waiting k \<in># tp_busy (leave (Waiting i) P)"
      using that M pool_okD(3) [OF ok, of k] by (simp add: leave_def)
    show "parts_of k P = 0" if "Waiting k \<notin># tp_busy (leave (Waiting i) P)"
      using that M zero pool_okD(4) [OF ok, of k] by (cases "k = i") (simp_all add: leave_def)
  qed
qed

lemma step_ok: "pool_step W P Q \<Longrightarrow> pool_ok P \<Longrightarrow> pool_ok Q"
proof (induction rule: pool_step.induct)
  case (start P j q)
  let ?Q = "P\<lparr>tp_queue := q, tp_busy := add_mset (Running j) (tp_busy P)\<rparr>"
  have "copies i ?Q = copies i P" "parts_of i ?Q = parts_of i P" for i
    using start by (simp_all add: copies_def parts_of_def)
  with start show ?case by (simp add: pool_ok_def)
next
  case (single P)
  then obtain M where M: "tp_busy P = add_mset (Running Single) M" by (metis mset_add)
  have "copies i (leave (Running Single) P) = copies i P" "parts_of i (leave (Running Single) P) = parts_of i P" for i
    using M by (simp_all add: copies_def parts_of_def leave_def)
  with single M show ?case by (simp add: pool_ok_def leave_def)
qed (simp_all add: spread_ok part_ok return_ok)

lemma reach_ok: "pool_reach W P0 P \<Longrightarrow> pool_ok P0 \<Longrightarrow> pool_ok P"
  by (induction rule: pool_reach.induct) (auto intro: call_ok single_ok step_ok)

section \<open>Progress\<close>

text \<open>With a worker to spare for the lookups, the pool can always go on.\<close>

lemma pool_progress:
  assumes ok: "pool_ok P" and few: "open_lookups P < W" and busy: "\<not> idle P"
  shows "\<exists>Q. pool_step W P Q"
proof (cases "\<exists>j. Running j \<in># tp_busy P")
  case True
  then obtain j where "Running j \<in># tp_busy P" by blast
  then show ?thesis by (cases j) (auto intro: pool_step.intros)
next
  case False
  have wait: "\<exists>i. w = Waiting i" if "w \<in># tp_busy P" for w using False that by (cases w) auto
  then have "filter_mset holds_lookup (tp_busy P) = tp_busy P" by (force simp: filter_mset_eq_conv)
  with few have room: "size (tp_busy P) < W" by (simp add: open_lookups_def)
  show ?thesis
  proof (cases "tp_queue P")
    case Nil
    with busy obtain w where "w \<in># tp_busy P" by (auto simp: idle_def)
    with wait obtain i where w: "Waiting i \<in># tp_busy P" by blast
    have "parts_of i P = 0" using Nil False by (simp add: parts_of_def not_in_iff)
    with pool_okD(3) [OF ok w] w show ?thesis by (auto intro: pool_step.return)
  next
    case (Cons j q)
    from pool_step.start [OF this room] show ?thesis by blast
  qed
qed

lemma run_bounds: "pool_run W k P Q \<Longrightarrow> pool_ok P \<Longrightarrow> work P = k + work Q \<and> open_lookups Q \<le> open_lookups P \<and> pool_ok Q"
proof (induction rule: pool_run.induct)
  case (more P Q k R)
  then show ?case using step_work step_lookups step_ok by fastforce
qed simp

text \<open>
  C11: with fewer lookups than workers a pool to which nothing is submitted does at most \<open>work P\<close> steps, and it
  can always do another one until every job has ended.
\<close>

theorem gds_pool_completes:
  assumes "pool_reach W pool_new P" and "open_lookups P < W" and "pool_run W k P Q"
  shows "k \<le> work P \<and> ((\<exists>R. pool_step W Q R) \<or> idle Q)"
proof -
  note r = run_bounds [OF assms(3) reach_ok [OF assms(1) pool_new_ok]]
  with assms(2) pool_progress [of Q W] show ?thesis by auto
qed

section \<open>Deadlock\<close>

text \<open>
  The workers have lookups only, and the queue starts with as many lookups as there are workers left.
  A lookup with a key waits for its parts, which are behind the lookups in the queue.
\<close>

fun has_keys :: "pjob \<Rightarrow> bool" where
  "has_keys (Lookup _ n) \<longleftrightarrow> 0 < n"
| "has_keys _ \<longleftrightarrow> False"

fun held_up :: "(nat \<Rightarrow> nat) \<Rightarrow> pwork \<Rightarrow> bool" where
  "held_up left (Running j) \<longleftrightarrow> has_keys j"
| "held_up left (Waiting i) \<longleftrightarrow> 0 < left i"

definition doomed :: "nat \<Rightarrow> tpool \<Rightarrow> bool" where
  "doomed W P \<longleftrightarrow> (\<forall>w \<in># tp_busy P. held_up (tp_left P) w) \<and> size (tp_busy P) \<le> W \<and> W - size (tp_busy P) \<le> length (tp_queue P) \<and>
     (\<forall>j \<in> set (take (W - size (tp_busy P)) (tp_queue P)). has_keys j)"

lemma doomed_start:
  assumes "doomed W P" "tp_queue P = j # q" "size (tp_busy P) < W"
  shows "doomed W (P\<lparr>tp_queue := q, tp_busy := add_mset (Running j) (tp_busy P)\<rparr>)"
proof -
  obtain m where m: "W - size (tp_busy P) = Suc m" using assms(3) by (metis Suc_diff_Suc)
  then have "W - Suc (size (tp_busy P)) = m" by simp
  with assms m show ?thesis by (auto simp: doomed_def)
qed

lemma doomed_spread:
  assumes d: "doomed W P" and w: "Running (Lookup i n) \<in># tp_busy P"
  shows "doomed W (map_contains i n P)"
proof -
  obtain M where M: "tp_busy P = add_mset (Running (Lookup i n)) M" using w by (metis mset_add)
  have "0 < n" using d M by (auto simp: doomed_def)
  then have "held_up ((tp_left P)(i := n)) v" if "held_up (tp_left P) v" for v using that by (cases v) auto
  with d M \<open>0 < n\<close> show ?thesis by (auto simp: doomed_def map_contains_def)
qed

lemma doomed_step: "pool_step W P Q \<Longrightarrow> doomed W P \<Longrightarrow> doomed W Q"
  by (induction rule: pool_step.induct) (auto simp: doomed_start doomed_spread, auto simp: doomed_def)

lemma doomed_reach: "pool_reach W P Q \<Longrightarrow> doomed W P \<Longrightarrow> doomed W Q"
proof (induction rule: pool_reach.induct)
  case (step Q R)
  then show ?case by (simp add: doomed_step)
qed (auto simp: doomed_def async_contains_def submit_single_def)

text \<open>No lookup leaves such a pool.\<close>

lemma doomed_copies:
  assumes "pool_step W P Q" "doomed W P"
  shows "copies i Q = copies i P"
  using assms
proof (induction rule: pool_step.induct)
  case (start P j q)
  then show ?case by (simp add: copies_def)
next
  case (spread k n P)
  then obtain M where "tp_busy P = add_mset (Running (Lookup k n)) M" by (metis mset_add)
  then show ?case by (auto simp: copies_def map_contains_def filter_replicate)
qed (auto simp: doomed_def)

lemma doomed_reach_copies: "pool_reach W P Q \<Longrightarrow> doomed W P \<Longrightarrow> copies i P \<le> copies i Q"
proof (induction rule: pool_reach.induct)
  case (step Q R)
  then show ?case using doomed_copies [OF step.hyps(2) doomed_reach [OF step.hyps(1)]] by simp
qed (simp_all add: call_counts)

text \<open>A burst of lookups on an idle pool.\<close>

definition burst :: "nat \<Rightarrow> nat \<Rightarrow> tpool" where
  "burst W n = (async_contains n ^^ W) pool_new"

lemma burst_state: "tp_busy (burst W n) = {#} \<and> length (tp_queue (burst W n)) = W \<and> set (tp_queue (burst W n)) \<subseteq> {Lookup i n |i. True}"
  unfolding burst_def by (induction W) (auto simp: pool_new_def async_contains_def)

lemma burst_copies: "tp_next (burst W n) = W \<and> (\<forall>i < W. 0 < copies i (burst W n))"
proof (induction W)
  case (Suc W)
  have "burst (Suc W) n = async_contains n (burst W n)" by (simp add: burst_def)
  with Suc show ?case by (auto simp: call_counts less_Suc_eq) (simp add: async_contains_def)
qed (simp add: burst_def pool_new_def)

lemma burst_doomed: "0 < n \<Longrightarrow> doomed W (burst W n)"
  using burst_state [of W n] by (auto simp: doomed_def)



theorem gds_pool_completes_witness:
  "open_lookups (async_contains 2 pool_new) = 1 \<and> ((\<exists>R. pool_step 2 (async_contains 2 pool_new) R) \<or> idle (async_contains 2 pool_new))"
proof -
  have o: "open_lookups (async_contains 2 pool_new) = 1" by (simp add: open_lookups_def async_contains_def pool_new_def)
  have "pool_reach 2 pool_new (async_contains 2 pool_new)" by (intro pool_reach.call pool_reach.init)
  from gds_pool_completes [OF this _ pool_run.none] o show ?thesis by simp
qed

end
