(* ===== verification/Lib_Load.thy ===== *)
theory Lib_Load
  imports Daos_Event
begin

text \<open>
  How the bindings open their C libraries: \<^verbatim>\<open>_load\<close> of \<^verbatim>\<open>dfs_binding.py\<close> and of \<^verbatim>\<open>obj_binding.py\<close>,
  \<^verbatim>\<open>_declare\<close> of \<^verbatim>\<open>daos_event.py\<close>, and the tables of prototypes they declare through ctypes. The
  environment, \<^verbatim>\<open>find_library\<close> and \<^verbatim>\<open>dlopen\<close> are the parameter \<open>host\<close>: a library that opens is the
  predicate of the symbols it exports.

  A \<^verbatim>\<open>CDLL\<close> object keeps the prototypes declared on it, and looking up a symbol that the library does
  not export raises \<^verbatim>\<open>AttributeError\<close> (an \<open>OtherError\<close>). The module globals are the state; they keep what
  was assigned before an exception.
\<close>

section \<open>Libraries and prototypes\<close>

datatype ctype =
    CInt | CUint | CUint64 | CInt64 | CULongLong | CBool | CCharP | CVoidP | CVoid
  | CStruct string
  | CPtr ctype

type_synonym proto = "string \<times> ctype \<times> ctype list"

record cdll =
  cd_path :: string
  cd_exports :: "string \<Rightarrow> bool"
  cd_protos :: "string \<Rightarrow> (ctype \<times> ctype list) option"

record host =
  h_env :: "string \<Rightarrow> string option"
  h_find :: "string \<Rightarrow> string option"
  h_dlopen :: "string \<Rightarrow> (string \<Rightarrow> bool) option"
  h_shim :: "int option"

text \<open>The module globals of the three modules.\<close>

record globals =
  g_dfs_daos :: "cdll option"
  g_dfs_dfs :: "cdll option"
  g_gpu_ok :: bool
  g_obj_daos :: "cdll option"
  g_ev_protos_done :: bool
  g_ev_size :: "nat \<times> bool"

text \<open>\<^verbatim>\<open>ctypes.CDLL(path)\<close>; an \<^verbatim>\<open>OSError\<close> when the library does not open.\<close>

definition CDLL :: "host \<Rightarrow> string \<Rightarrow> ('s, cdll) io" where
  "CDLL H path = (case h_dlopen H path of
     None \<Rightarrow> raise IOError
   | Some X \<Rightarrow> ret \<lparr>cd_path = path, cd_exports = X, cd_protos = Map.empty\<rparr>)"

text \<open>\<^verbatim>\<open>lib.f.restype = ...; lib.f.argtypes = ...\<close>\<close>

definition declare_one :: "proto \<Rightarrow> (cdll, unit) io" where
  "declare_one p = (case p of (f, r, args) \<Rightarrow>
     bind_io (get_s (\<lambda>l. cd_exports l f)) (\<lambda>x.
     if x then put_s (\<lambda>l. l\<lparr>cd_protos := (cd_protos l)(f \<mapsto> (r, args))\<rparr>) else raise OtherError))"

primrec declare_all :: "proto list \<Rightarrow> (cdll, unit) io" where
  "declare_all [] = ret ()"
| "declare_all (p # ps) = bind_io (declare_one p) (\<lambda>_. declare_all ps)"

text \<open>A computation on the object a global refers to.\<close>

definition on_dfs_daos :: "(cdll, 'a) io \<Rightarrow> (globals, 'a) io" where
  "on_dfs_daos m = (\<lambda>s. case g_dfs_daos s of None \<Rightarrow> (Inl OtherError, s)
     | Some l \<Rightarrow> (case m l of (r, l') \<Rightarrow> (r, s\<lparr>g_dfs_daos := Some l'\<rparr>)))"

definition on_dfs_dfs :: "(cdll, 'a) io \<Rightarrow> (globals, 'a) io" where
  "on_dfs_dfs m = (\<lambda>s. case g_dfs_dfs s of None \<Rightarrow> (Inl OtherError, s)
     | Some l \<Rightarrow> (case m l of (r, l') \<Rightarrow> (r, s\<lparr>g_dfs_dfs := Some l'\<rparr>)))"

definition on_obj_daos :: "(cdll, 'a) io \<Rightarrow> (globals, 'a) io" where
  "on_obj_daos m = (\<lambda>s. case g_obj_daos s of None \<Rightarrow> (Inl OtherError, s)
     | Some l \<Rightarrow> (case m l of (r, l') \<Rightarrow> (r, s\<lparr>g_obj_daos := Some l'\<rparr>)))"

section \<open>The tables\<close>

abbreviation "DIov_t \<equiv> CStruct ''DIov''"
abbreviation "DSgList_t \<equiv> CStruct ''DSgList''"
abbreviation "DaosHandle_t \<equiv> CStruct ''DaosHandle''"
abbreviation "DaosEvent_p \<equiv> CPtr (CStruct ''DaosEvent'')"

definition DAOS_PROTOS :: "proto list" where
  "DAOS_PROTOS = [(''daos_init'', CInt, []), (''daos_fini'', CInt, [])]"

text \<open>Declared before the look for the GPU-direct entry points.\<close>

definition DFS_SYS_PROTOS :: "proto list" where
  "DFS_SYS_PROTOS =
    [(''dfs_init'', CInt, []),
     (''dfs_fini'', CInt, []),
     (''dfs_sys_connect'', CInt, [CCharP, CCharP, CCharP, CInt, CInt, CVoidP, CPtr CVoidP]),
     (''dfs_sys_disconnect'', CInt, [CVoidP]),
     (''dfs_sys_open'', CInt, [CVoidP, CCharP, CUint, CInt, CUint, CULongLong, CCharP, CPtr CVoidP]),
     (''dfs_sys_close'', CInt, [CVoidP]),
     (''dfs_sys_read'', CInt, [CVoidP, CVoidP, CVoidP, CULongLong, CPtr CULongLong, CVoidP]),
     (''dfs_sys_write'', CInt, [CVoidP, CVoidP, CVoidP, CULongLong, CPtr CULongLong, CVoidP]),
     (''dfs_sys_remove_type'', CInt, [CVoidP, CCharP, CBool, CUint, CVoidP]),
     (''dfs_sys_opendir'', CInt, [CVoidP, CCharP, CInt, CPtr CVoidP]),
     (''dfs_sys_readdir'', CInt, [CVoidP, CVoidP, CPtr (CPtr (CStruct ''_Dirent''))]),
     (''dfs_sys_closedir'', CInt, [CVoidP]),
     (''dfs_sys_stat'', CInt, [CVoidP, CCharP, CInt, CPtr (CStruct ''_Stat'')]),
     (''dfs_sys_mkdir_p'', CInt, [CVoidP, CCharP, CUint, CUint])]"

definition DFS_GPU_PROTOS :: "proto list" where
  "DFS_GPU_PROTOS =
    [(''dfs_read_gpu'', CInt, [CVoidP, CVoidP, CPtr DSgList_t, CULongLong, CPtr CULongLong, CPtr (CStruct ''DaosMemAttr'')]),
     (''dfs_write_gpu'', CInt, [CVoidP, CVoidP, CPtr DSgList_t, CULongLong, CPtr (CStruct ''DaosMemAttr'')])]"

text \<open>Declared after it.\<close>

definition DFS_BASE_PROTOS :: "proto list" where
  "DFS_BASE_PROTOS =
    [(''dfs_lookup'', CInt, [CVoidP, CCharP, CInt, CPtr CVoidP, CVoidP, CVoidP]),
     (''dfs_release'', CInt, [CVoidP]),
     (''dfs_move'', CInt, [CVoidP, CVoidP, CCharP, CVoidP, CCharP, CVoidP]),
     (''dfs_sys2base'', CInt, [CVoidP, CPtr CVoidP]),
     (''dfs_read'', CInt, [CVoidP, CVoidP, CPtr DSgList_t, CULongLong, CPtr CULongLong, CVoidP])]"

definition OBJ_PROTOS :: "proto list" where
  "OBJ_PROTOS =
    [(''daos_init'', CInt, []),
     (''daos_fini'', CInt, []),
     (''daos_pool_connect'', CInt, [CCharP, CCharP, CUint, CPtr DaosHandle_t, CVoidP, CVoidP]),
     (''daos_pool_disconnect'', CInt, [DaosHandle_t, CVoidP]),
     (''daos_cont_open'', CInt, [DaosHandle_t, CCharP, CUint, CPtr DaosHandle_t, CVoidP, CVoidP]),
     (''daos_cont_close'', CInt, [DaosHandle_t, CVoidP]),
     (''daos_obj_generate_oid'', CInt, [DaosHandle_t, CPtr (CStruct ''DaosObjId''), CUint, CUint, CUint, CUint]),
     (''daos_obj_open'', CInt, [DaosHandle_t, CStruct ''DaosObjId'', CUint, CPtr DaosHandle_t, CVoidP]),
     (''daos_obj_close'', CInt, [DaosHandle_t, CVoidP]),
     (''daos_obj_update'', CInt, [DaosHandle_t, DaosHandle_t, CUint64, CPtr DIov_t, CUint, CPtr (CStruct ''DaosIod''), CPtr DSgList_t, CVoidP]),
     (''daos_obj_fetch'', CInt, [DaosHandle_t, DaosHandle_t, CUint64, CPtr DIov_t, CUint, CPtr (CStruct ''DaosIod''), CPtr DSgList_t, CVoidP, CVoidP]),
     (''daos_obj_punch_dkeys'', CInt, [DaosHandle_t, DaosHandle_t, CUint64, CUint, CPtr DIov_t, CVoidP]),
     (''daos_obj_punch_akeys'', CInt, [DaosHandle_t, DaosHandle_t, CUint64, CPtr DIov_t, CUint, CPtr DIov_t, CVoidP]),
     (''daos_cont_query'', CInt, [DaosHandle_t, CVoidP, CPtr (CStruct ''DaosProp''), CVoidP]),
     (''daos_prop_alloc'', CPtr (CStruct ''DaosProp''), [CUint]),
     (''daos_prop_free'', CVoid, [CPtr (CStruct ''DaosProp'')])]"

definition EVENT_PROTOS :: "proto list" where
  "EVENT_PROTOS =
    [(''daos_eq_create'', CInt, [CPtr DaosHandle_t]),
     (''daos_eq_destroy'', CInt, [DaosHandle_t, CInt]),
     (''daos_event_init'', CInt, [DaosEvent_p, DaosHandle_t, DaosEvent_p]),
     (''daos_event_fini'', CInt, [DaosEvent_p]),
     (''daos_event_abort'', CInt, [DaosEvent_p]),
     (''daos_eq_poll'', CInt, [DaosHandle_t, CInt, CInt64, CUint, CPtr DaosEvent_p])]"

section \<open>Finding and loading\<close>

text \<open>\<^verbatim>\<open>os.path.join\<close> of a directory and a file name, and \<^verbatim>\<open>find_library(x) or default\<close>.\<close>

definition path_join :: "string \<Rightarrow> string \<Rightarrow> string" where
  "path_join d f = (if d = [] \<or> last d = CHR ''/'' then d @ f else d @ CHR ''/'' # f)"

definition or_else :: "string option \<Rightarrow> string \<Rightarrow> string" where
  "or_else v dflt = (case v of None \<Rightarrow> dflt | Some x \<Rightarrow> if x = [] then dflt else x)"

definition lib_path :: "host \<Rightarrow> string \<Rightarrow> string \<Rightarrow> string \<Rightarrow> string" where
  "lib_path H var lib file_name =
     (let d = or_else (h_env H var) [] in
      if d \<noteq> [] then path_join d file_name else or_else (h_find H lib) file_name)"

definition dfs_daos_path :: "host \<Rightarrow> string" where
  "dfs_daos_path H = lib_path H ''LMCACHE_DAOS_LIBDIR'' ''daos'' ''libdaos.so''"

definition dfs_dfs_path :: "host \<Rightarrow> string" where
  "dfs_dfs_path H = lib_path H ''LMCACHE_DAOS_LIBDIR'' ''dfs'' ''libdfs.so''"

definition obj_daos_path :: "host \<Rightarrow> string" where
  "obj_daos_path H = lib_path H ''DAOS_LIBDIR'' ''daos'' ''libdaos.so''"

text \<open>The GPU-direct part of \<^verbatim>\<open>_load\<close>.\<close>

definition load_gpu :: "(globals, unit) io" where
  "load_gpu =
     bind_io (on_dfs_dfs (get_s (\<lambda>l. cd_exports l ''dfs_read_gpu'' \<and> cd_exports l ''dfs_write_gpu''))) (\<lambda>ok.
     bind_io (put_s (\<lambda>s. s\<lparr>g_gpu_ok := ok\<rparr>)) (\<lambda>_.
     if ok then on_dfs_dfs (declare_all DFS_GPU_PROTOS) else ret ()))"

definition dfs_load :: "host \<Rightarrow> (globals, unit) io" where
  "dfs_load H =
     bind_io (get_s g_dfs_dfs) (\<lambda>d.
     if d \<noteq> None then ret ()
     else
      bind_io (CDLL H (dfs_daos_path H)) (\<lambda>l1.
      bind_io (put_s (\<lambda>s. s\<lparr>g_dfs_daos := Some l1\<rparr>)) (\<lambda>_.
      bind_io (CDLL H (dfs_dfs_path H)) (\<lambda>l2.
      bind_io (put_s (\<lambda>s. s\<lparr>g_dfs_dfs := Some l2\<rparr>)) (\<lambda>_.
      bind_io (on_dfs_daos (declare_all DAOS_PROTOS)) (\<lambda>_.
      bind_io (on_dfs_dfs (declare_all DFS_SYS_PROTOS)) (\<lambda>_.
      bind_io load_gpu (\<lambda>_.
      on_dfs_dfs (declare_all DFS_BASE_PROTOS)))))))))"

definition libdaos :: "host \<Rightarrow> (globals, cdll option) io" where
  "libdaos H = bind_io (dfs_load H) (\<lambda>_. get_s g_dfs_daos)"

definition obj_load :: "host \<Rightarrow> (globals, unit) io" where
  "obj_load H =
     bind_io (get_s g_obj_daos) (\<lambda>d.
     if d \<noteq> None then ret ()
     else
      bind_io (CDLL H (obj_daos_path H)) (\<lambda>l.
      bind_io (put_s (\<lambda>s. s\<lparr>g_obj_daos := Some l\<rparr>)) (\<lambda>_.
      on_obj_daos (declare_all OBJ_PROTOS))))"

definition obj_loaded :: "globals \<Rightarrow> bool" where
  "obj_loaded s \<longleftrightarrow> g_obj_daos s \<noteq> None"

text \<open>\<^verbatim>\<open>_probe_event_size\<close> keeps the first plausible answer of the shim; \<open>h_shim\<close> is what the shim says.\<close>

definition probe_size :: "host \<Rightarrow> (globals, unit) io" where
  "probe_size H = put_s (\<lambda>s. if snd (g_ev_size s) then s else s\<lparr>g_ev_size := probe_event_size (h_shim H)\<rparr>)"

definition ev_declare :: "host \<Rightarrow> (globals, cdll option) io" where
  "ev_declare H =
     bind_io (libdaos H) (\<lambda>lib.
     bind_io (get_s g_ev_protos_done) (\<lambda>d.
     if d then ret lib
     else
      bind_io (probe_size H) (\<lambda>_.
      bind_io (on_dfs_daos (declare_all EVENT_PROTOS)) (\<lambda>_.
      bind_io (put_s (\<lambda>s. s\<lparr>g_ev_protos_done := True\<rparr>)) (\<lambda>_.
      get_s g_dfs_daos)))))"

section \<open>What a declaration leaves\<close>

abbreviation names :: "proto list \<Rightarrow> string set" where
  "names ps \<equiv> fst ` set ps"

definition declared :: "proto list \<Rightarrow> cdll \<Rightarrow> bool" where
  "declared ps l \<longleftrightarrow> (\<forall>(f, sig) \<in> set ps. cd_protos l f = Some sig)"

lemma declared_append [simp]: "declared (ps @ qs) l \<longleftrightarrow> declared ps l \<and> declared qs l"
  by (auto simp: declared_def)

lemma declared_Nil [simp]: "declared [] l"
  by (simp add: declared_def)

lemma declared_cong: "declared ps l \<Longrightarrow> \<forall>f \<in> names ps. cd_protos l' f = cd_protos l f \<Longrightarrow> declared ps l'"
  by (force simp: declared_def)

text \<open>Every outcome of the declaration of a table: all of it, or an \<^verbatim>\<open>AttributeError\<close> before its last entry.\<close>

definition declares :: "proto list \<Rightarrow> cdll \<Rightarrow> exn + unit \<Rightarrow> cdll \<Rightarrow> bool" where
  "declares ps l r l' \<longleftrightarrow>
     cd_exports l' = cd_exports l \<and> cd_path l' = cd_path l \<and>
     r = (if \<forall>f \<in> names ps. cd_exports l f then Inr () else Inl OtherError) \<and>
     (r = Inr () \<longrightarrow> declared ps l') \<and>
     (r \<noteq> Inr () \<longrightarrow> cd_protos l' (fst (last ps)) = cd_protos l (fst (last ps))) \<and>
     (\<forall>f. f \<notin> names ps \<or> \<not> cd_exports l f \<longrightarrow> cd_protos l' f = cd_protos l f)"

lemma declare_all_declares:
  "distinct (map fst ps) \<Longrightarrow> declare_all ps l = (r, l') \<Longrightarrow> declares ps l r l'"
proof (induction ps arbitrary: l)
  case Nil
  then show ?case by (simp add: declares_def)
next
  case (Cons p ps)
  obtain f sig where p: "p = (f, sig)" by (cases p)
  show ?case
  proof (cases "cd_exports l f")
    case False
    then have "r = Inl OtherError" "l' = l" using Cons.prems(2) by (auto simp: p declare_one_def io_defs get_s_def split: prod.splits)
    then show ?thesis using False by (auto simp: declares_def p)
  next
    case True
    define l1 where "l1 = l\<lparr>cd_protos := (cd_protos l)(f \<mapsto> sig)\<rparr>"
    have "declare_all ps l1 = (r, l')" using Cons.prems(2) True
      by (auto simp: p declare_one_def io_defs get_s_def put_s_def l1_def split: prod.splits)
    then have d: "declares ps l1 r l'" using Cons by simp
    have f: "f \<notin> names ps" using Cons.prems(1) by (simp add: p)
    then have "cd_protos l' f = Some sig" using d by (simp add: declares_def l1_def)
    moreover have "ps \<noteq> []" if "r \<noteq> Inr ()" using d that by (auto simp: declares_def)
    moreover have "fst (last ps) \<noteq> f" if "ps \<noteq> []" using f last_in_set [OF that] by auto
    ultimately show ?thesis using d f True by (auto simp: declares_def declared_def p l1_def)
  qed
qed

lemma tables_distinct [simp]:
  "distinct (map fst DAOS_PROTOS)" "distinct (map fst DFS_SYS_PROTOS)" "distinct (map fst DFS_GPU_PROTOS)"
  "distinct (map fst DFS_BASE_PROTOS)" "distinct (map fst OBJ_PROTOS)" "distinct (map fst EVENT_PROTOS)"
  by (simp_all add: DAOS_PROTOS_def DFS_SYS_PROTOS_def DFS_GPU_PROTOS_def DFS_BASE_PROTOS_def OBJ_PROTOS_def EVENT_PROTOS_def)

lemma tables_disjoint:
  "names DFS_SYS_PROTOS \<inter> names DFS_GPU_PROTOS = {}" "names DFS_SYS_PROTOS \<inter> names DFS_BASE_PROTOS = {}"
  "names DFS_GPU_PROTOS \<inter> names DFS_BASE_PROTOS = {}" "names DAOS_PROTOS \<inter> names EVENT_PROTOS = {}"
  by (simp_all add: DAOS_PROTOS_def DFS_SYS_PROTOS_def DFS_GPU_PROTOS_def DFS_BASE_PROTOS_def EVENT_PROTOS_def)

lemma names_gpu: "names DFS_GPU_PROTOS = {''dfs_read_gpu'', ''dfs_write_gpu''}"
  by (simp add: DFS_GPU_PROTOS_def)

lemma dfs_read_last: "fst (last DFS_BASE_PROTOS) = ''dfs_read''" "''dfs_read'' \<in> names DFS_BASE_PROTOS"
  by (simp_all add: DFS_BASE_PROTOS_def)

lemma dfs_read_fresh: "''dfs_read'' \<notin> names DFS_SYS_PROTOS"
  by (simp add: DFS_SYS_PROTOS_def)

lemma wp_declare_all:
  assumes "distinct (map fst ps)" and "\<And>r l'. declares ps l r l' \<Longrightarrow> Q r l'"
  shows "wp (declare_all ps) Q l"
  using declare_all_declares [OF assms(1)] assms(2) by (auto simp: wp_def split: prod.splits)

lemma wp_on_dfs_daos [wp_simps]: "wp (on_dfs_daos m) Q s = (case g_dfs_daos s of None \<Rightarrow> Q (Inl OtherError) s
    | Some l \<Rightarrow> wp m (\<lambda>r l'. Q r (s\<lparr>g_dfs_daos := Some l'\<rparr>)) l)"
  by (auto simp: wp_def on_dfs_daos_def split: option.splits prod.splits)

lemma wp_on_dfs_dfs [wp_simps]: "wp (on_dfs_dfs m) Q s = (case g_dfs_dfs s of None \<Rightarrow> Q (Inl OtherError) s
    | Some l \<Rightarrow> wp m (\<lambda>r l'. Q r (s\<lparr>g_dfs_dfs := Some l'\<rparr>)) l)"
  by (auto simp: wp_def on_dfs_dfs_def split: option.splits prod.splits)

lemma wp_CDLL [wp_simps]: "wp (CDLL H p) Q s = (case h_dlopen H p of None \<Rightarrow> Q (Inl IOError) s
    | Some X \<Rightarrow> Q (Inr \<lparr>cd_path = p, cd_exports = X, cd_protos = Map.empty\<rparr>) s)"
  by (auto simp: wp_def CDLL_def split: option.splits)

text \<open>
  A first \<^verbatim>\<open>_load\<close>: which libraries must open and what they must export for it to return, and what it
  leaves. When an entry point is missing the handle stays in the global and \<^verbatim>\<open>dfs_read\<close>, the last of
  the tables, is not declared.
\<close>

definition opens :: "host \<Rightarrow> (string \<Rightarrow> bool) \<Rightarrow> (string \<Rightarrow> bool) \<Rightarrow> bool" where
  "opens H X Y \<longleftrightarrow> h_dlopen H (dfs_daos_path H) = Some X \<and> h_dlopen H (dfs_dfs_path H) = Some Y"

definition exports_all :: "(string \<Rightarrow> bool) \<Rightarrow> (string \<Rightarrow> bool) \<Rightarrow> bool" where
  "exports_all X Y \<longleftrightarrow> (\<forall>f \<in> names DAOS_PROTOS. X f) \<and> (\<forall>f \<in> names (DFS_SYS_PROTOS @ DFS_BASE_PROTOS). Y f)"

definition dfs_ready :: "host \<Rightarrow> (string \<Rightarrow> bool) \<Rightarrow> globals \<Rightarrow> bool" where
  "dfs_ready H Y s \<longleftrightarrow> (\<exists>l1 l2. g_dfs_daos s = Some l1 \<and> g_dfs_dfs s = Some l2 \<and>
     cd_path l1 = dfs_daos_path H \<and> cd_path l2 = dfs_dfs_path H \<and>
     h_dlopen H (dfs_daos_path H) = Some (cd_exports l1) \<and> declared DAOS_PROTOS l1 \<and>
     declared (DFS_SYS_PROTOS @ DFS_BASE_PROTOS) l2 \<and>
     g_gpu_ok s = (Y ''dfs_read_gpu'' \<and> Y ''dfs_write_gpu'') \<and> (g_gpu_ok s \<longrightarrow> declared DFS_GPU_PROTOS l2))"

definition dfs_half :: "globals \<Rightarrow> bool" where
  "dfs_half s \<longleftrightarrow> (\<exists>l1 l2. g_dfs_daos s = Some l1 \<and> g_dfs_dfs s = Some l2 \<and> cd_protos l2 ''dfs_read'' = None)"

lemma wp_declare_daos: "g_dfs_daos s = Some l \<Longrightarrow> distinct (map fst ps) \<Longrightarrow>
    wp (on_dfs_daos (declare_all ps)) (\<lambda>r s'. \<exists>l'. declares ps l r l' \<and> s' = s\<lparr>g_dfs_daos := Some l'\<rparr>) s"
  by (auto simp: wp_simps intro!: wp_declare_all)

lemma wp_declare_dfs: "g_dfs_dfs s = Some l \<Longrightarrow> distinct (map fst ps) \<Longrightarrow>
    wp (on_dfs_dfs (declare_all ps)) (\<lambda>r s'. \<exists>l'. declares ps l r l' \<and> s' = s\<lparr>g_dfs_dfs := Some l'\<rparr>) s"
  by (auto simp: wp_simps intro!: wp_declare_all)

lemma wp_load_gpu:
  assumes "g_dfs_dfs s = Some l"
  shows "wp load_gpu (\<lambda>r s'. r = Inr () \<and> (\<exists>l' ok. ok = (cd_exports l ''dfs_read_gpu'' \<and> cd_exports l ''dfs_write_gpu'') \<and>
    (if ok then declares DFS_GPU_PROTOS l (Inr ()) l' else l' = l) \<and> s' = s\<lparr>g_gpu_ok := ok, g_dfs_dfs := Some l'\<rparr>)) s"
proof -
  have [simp]: "s\<lparr>g_dfs_dfs := Some l\<rparr> = s" "s\<lparr>g_gpu_ok := b, g_dfs_dfs := Some l\<rparr> = s\<lparr>g_gpu_ok := b\<rparr>" for b
    using assms by (cases s; simp)+
  show ?thesis
  proof (cases "cd_exports l ''dfs_read_gpu'' \<and> cd_exports l ''dfs_write_gpu''")
    case True
    have "r = Inr ()" if "declares DFS_GPU_PROTOS l r l'" for r l' using that True by (auto simp: declares_def names_gpu)
    then show ?thesis using True assms by (auto simp: load_gpu_def wp_simps intro!: wp_declare_all)
  next
    case False
    then show ?thesis using assms by (auto simp: load_gpu_def wp_simps)
  qed
qed

text \<open>What the three declarations on \<^verbatim>\<open>libdfs\<close> leave together.\<close>

lemma dfs_tables:
  assumes "declares DFS_SYS_PROTOS \<lparr>cd_path = p, cd_exports = Y, cd_protos = Map.empty\<rparr> (Inr ()) l1"
    and "ok = (cd_exports l1 ''dfs_read_gpu'' \<and> cd_exports l1 ''dfs_write_gpu'')"
    and "if ok then declares DFS_GPU_PROTOS l1 (Inr ()) l2 else l2 = l1"
    and "declares DFS_BASE_PROTOS l2 r l3"
  shows "cd_path l3 = p" "ok = (Y ''dfs_read_gpu'' \<and> Y ''dfs_write_gpu'')"
    "r = (if \<forall>f \<in> names DFS_BASE_PROTOS. Y f then Inr () else Inl OtherError)"
    "r = Inr () \<Longrightarrow> declared (DFS_SYS_PROTOS @ DFS_BASE_PROTOS) l3 \<and> (ok \<longrightarrow> declared DFS_GPU_PROTOS l3)"
    "r \<noteq> Inr () \<Longrightarrow> cd_protos l3 ''dfs_read'' = None"
proof -
  have e: "cd_exports l1 = Y" "cd_exports l2 = Y" "cd_path l2 = p" using assms(1,3) by (auto simp: declares_def split: if_splits)
  have keep: "cd_protos l2 f = cd_protos l1 f" if "f \<notin> names DFS_GPU_PROTOS" for f using assms(3) that by (auto simp: declares_def split: if_splits)
  have keep': "cd_protos l3 f = cd_protos l2 f" if "f \<notin> names DFS_BASE_PROTOS" for f using assms(4) that by (auto simp: declares_def)
  show "cd_path l3 = p" "ok = (Y ''dfs_read_gpu'' \<and> Y ''dfs_write_gpu'')"
    "r = (if \<forall>f \<in> names DFS_BASE_PROTOS. Y f then Inr () else Inl OtherError)"
    using assms(2,4) e by (auto simp: declares_def)
  show "declared (DFS_SYS_PROTOS @ DFS_BASE_PROTOS) l3 \<and> (ok \<longrightarrow> declared DFS_GPU_PROTOS l3)" if "r = Inr ()"
  proof (intro conjI impI)
    have "declared DFS_SYS_PROTOS l1" using assms(1) by (simp add: declares_def)
    moreover have "\<forall>f \<in> names DFS_SYS_PROTOS. cd_protos l3 f = cd_protos l1 f" using keep keep' tables_disjoint(1,2) by (metis disjoint_iff)
    ultimately have "declared DFS_SYS_PROTOS l3" by (rule declared_cong)
    then show "declared (DFS_SYS_PROTOS @ DFS_BASE_PROTOS) l3" using assms(4) that by (simp add: declares_def)
    assume ok
    then have "declared DFS_GPU_PROTOS l2" using assms(3) by (simp add: declares_def)
    moreover have "\<forall>f \<in> names DFS_GPU_PROTOS. cd_protos l3 f = cd_protos l2 f" using keep' tables_disjoint(3) by (metis disjoint_iff)
    ultimately show "declared DFS_GPU_PROTOS l3" by (rule declared_cong)
  qed
  show "cd_protos l3 ''dfs_read'' = None" if "r \<noteq> Inr ()"
  proof -
    have "cd_protos l3 ''dfs_read'' = cd_protos l2 ''dfs_read''" using assms(4) that by (simp add: declares_def dfs_read_last)
    also have "\<dots> = cd_protos l1 ''dfs_read''" using keep tables_disjoint(3) dfs_read_last(2) by (metis disjoint_iff)
    also have "\<dots> = None" using assms(1) dfs_read_fresh by (auto simp: declares_def)
    finally show ?thesis .
  qed
qed

lemma wp_libdfs_tables:
  assumes "g_dfs_dfs s = Some \<lparr>cd_path = p, cd_exports = Y, cd_protos = Map.empty\<rparr>" and "g_dfs_daos s = Some l"
  shows "wp (bind_io (on_dfs_dfs (declare_all DFS_SYS_PROTOS)) (\<lambda>_. bind_io load_gpu (\<lambda>_. on_dfs_dfs (declare_all DFS_BASE_PROTOS))))
    (\<lambda>r s'. g_dfs_daos s' = Some l \<and> r = (if \<forall>f \<in> names (DFS_SYS_PROTOS @ DFS_BASE_PROTOS). Y f then Inr () else Inl OtherError) \<and>
      (\<exists>l2. g_dfs_dfs s' = Some l2 \<and> cd_path l2 = p \<and> (r \<noteq> Inr () \<longrightarrow> cd_protos l2 ''dfs_read'' = None) \<and>
        (r = Inr () \<longrightarrow> declared (DFS_SYS_PROTOS @ DFS_BASE_PROTOS) l2 \<and> g_gpu_ok s' = (Y ''dfs_read_gpu'' \<and> Y ''dfs_write_gpu'') \<and>
          (g_gpu_ok s' \<longrightarrow> declared DFS_GPU_PROTOS l2)))) s" (is "wp ?m ?Q s")
proof (rule wp_bindI [OF wp_declare_dfs [OF assms(1)]], goal_cases)
  case (2 e s1)
  then obtain l1 where d: "declares DFS_SYS_PROTOS \<lparr>cd_path = p, cd_exports = Y, cd_protos = Map.empty\<rparr> (Inl e) l1" and s1: "s1 = s\<lparr>g_dfs_dfs := Some l1\<rparr>" by auto
  show ?case using d dfs_read_fresh assms(2) by (auto simp: declares_def s1 split: if_splits)
next
  case (3 u s1)
  then obtain l1 where d1: "declares DFS_SYS_PROTOS \<lparr>cd_path = p, cd_exports = Y, cd_protos = Map.empty\<rparr> (Inr ()) l1" and s1: "s1 = s\<lparr>g_dfs_dfs := Some l1\<rparr>" by auto
  have sys: "\<forall>f \<in> names DFS_SYS_PROTOS. Y f" using d1 by (auto simp: declares_def split: if_splits)
  show ?case
  proof (rule wp_bindI [OF wp_load_gpu [of s1 l1]], goal_cases)
    case (3 u s2)
    then obtain l2 ok where d2: "ok = (cd_exports l1 ''dfs_read_gpu'' \<and> cd_exports l1 ''dfs_write_gpu'')"
      "if ok then declares DFS_GPU_PROTOS l1 (Inr ()) l2 else l2 = l1" and s2: "s2 = s1\<lparr>g_gpu_ok := ok, g_dfs_dfs := Some l2\<rparr>" by blast
    show ?case
    proof (rule wp_mono [OF wp_declare_dfs [of s2 l2 DFS_BASE_PROTOS]], goal_cases)
      case (3 r s3)
      then obtain l3 where d3: "declares DFS_BASE_PROTOS l2 r l3" and s3: "s3 = s2\<lparr>g_dfs_dfs := Some l3\<rparr>" by auto
      show ?case using dfs_tables [OF d1 d2 d3] sys assms(2) by (auto simp: s3 s2 s1)
    qed (simp_all add: s2)
  qed (auto simp: s1)
qed simp

lemma wp_dfs_load:
  assumes "g_dfs_dfs s = None" and "opens H X Y"
  shows "wp (dfs_load H) (\<lambda>r s'. if exports_all X Y then r = Inr () \<and> dfs_ready H Y s' else r = Inl OtherError \<and> dfs_half s') s"
proof -
  define l0 where "l0 = \<lparr>cd_path = dfs_daos_path H, cd_exports = X, cd_protos = Map.empty :: string \<Rightarrow> (ctype \<times> ctype list) option\<rparr>"
  define s0 where "s0 = s\<lparr>g_dfs_daos := Some l0, g_dfs_dfs := Some \<lparr>cd_path = dfs_dfs_path H, cd_exports = Y, cd_protos = Map.empty\<rparr>\<rparr>"
  have "wp (bind_io (on_dfs_daos (declare_all DAOS_PROTOS)) (\<lambda>_. bind_io (on_dfs_dfs (declare_all DFS_SYS_PROTOS)) (\<lambda>_. bind_io load_gpu (\<lambda>_.
      on_dfs_dfs (declare_all DFS_BASE_PROTOS))))) (\<lambda>r s'. if exports_all X Y then r = Inr () \<and> dfs_ready H Y s' else r = Inl OtherError \<and> dfs_half s') s0"
  proof (rule wp_bindI [OF wp_declare_daos [of s0 l0]], goal_cases)
    case (3 e s1)
    then show ?case by (auto simp: declares_def exports_all_def dfs_half_def s0_def l0_def split: if_splits)
  next
    case (4 u s1)
    then obtain l1 where d: "declares DAOS_PROTOS l0 (Inr ()) l1" and s1: "s1 = s0\<lparr>g_dfs_daos := Some l1\<rparr>" by auto
    have d': "\<forall>f \<in> names DAOS_PROTOS. X f" "cd_path l1 = dfs_daos_path H" "declared DAOS_PROTOS l1"
      "h_dlopen H (dfs_daos_path H) = Some (cd_exports l1)"
      using d assms(2) by (auto simp: declares_def l0_def opens_def split: if_splits)
    show ?case
      by (rule wp_mono [OF wp_libdfs_tables [of s1 "dfs_dfs_path H" Y l1]])
        (use d' in \<open>auto simp: s1 s0_def exports_all_def dfs_ready_def dfs_half_def split: if_splits\<close>)
  qed (simp_all add: s0_def)
  then show ?thesis using assms by (simp add: dfs_load_def wp_simps opens_def s0_def l0_def)
qed

lemma wp_on_obj_daos [wp_simps]: "wp (on_obj_daos m) Q s = (case g_obj_daos s of None \<Rightarrow> Q (Inl OtherError) s
    | Some l \<Rightarrow> wp m (\<lambda>r l'. Q r (s\<lparr>g_obj_daos := Some l'\<rparr>)) l)"
  by (auto simp: wp_def on_obj_daos_def split: option.splits prod.splits)

lemma dfs_load_again: "g_dfs_dfs s \<noteq> None \<Longrightarrow> dfs_load H s = (Inr (), s)"
  by (simp add: dfs_load_def io_defs get_s_def)

lemma wp_dfs_load_frame:
  "wp (dfs_load H) (\<lambda>r s'. g_ev_protos_done s' = g_ev_protos_done s \<and> g_obj_daos s' = g_obj_daos s \<and> (r = Inr () \<longrightarrow> g_dfs_dfs s' \<noteq> None) \<and>
     (g_dfs_dfs s \<noteq> None \<longrightarrow> s' = s)) s"
  by (auto simp: dfs_load_def load_gpu_def wp_simps intro!: wp_declare_all split: option.splits sum.splits)

lemma wp_obj_load:
  "wp (obj_load H) (\<lambda>r s'. (\<exists>v. s' = s\<lparr>g_obj_daos := v\<rparr>) \<and>
     (r = Inr () \<longrightarrow> obj_loaded s' \<and> (g_obj_daos s = None \<longrightarrow> (\<exists>l. g_obj_daos s' = Some l \<and> cd_path l = obj_daos_path H \<and> declared OBJ_PROTOS l)))) s"
proof -
  have [simp]: "\<exists>v. s = s\<lparr>g_obj_daos := v\<rparr>" by (rule exI [of _ "g_obj_daos s"]) simp
  show ?thesis by (auto simp: obj_load_def obj_loaded_def wp_simps declares_def intro!: wp_declare_all split: option.splits)
qed

lemma wp_dfs_load_absent:
  "g_dfs_dfs s = None \<Longrightarrow> \<nexists>X Y. opens H X Y \<Longrightarrow> wp (dfs_load H) (\<lambda>r s'. r = Inl IOError \<and> g_dfs_dfs s' = None) s"
  by (cases "h_dlopen H (dfs_daos_path H)"; cases "h_dlopen H (dfs_dfs_path H)") (simp_all add: dfs_load_def wp_simps opens_def)

lemma dfs_load_returns:
  assumes "g_dfs_dfs s = None" and "dfs_load H s = (Inr (), s')"
  obtains X Y where "opens H X Y" "exports_all X Y" "dfs_ready H Y s'"
proof (cases "\<exists>X Y. opens H X Y")
  case True
  then obtain X Y where "opens H X Y" by blast
  with wpD [OF wp_dfs_load [OF assms(1) this] assms(2)] show ?thesis by (intro that) (simp_all split: if_splits)
next
  case False
  then show ?thesis using wpD [OF wp_dfs_load_absent [OF assms(1)] assms(2)] by simp
qed

section \<open>Properties\<close>

text \<open>
  the first \<^verbatim>\<open>_load\<close> of the DFS binding returns exactly when both libraries open and export every
  entry point of the tables but the two GPU-direct ones; it then leaves both handles with every
  prototype declared and the GPU flag set exactly when both GPU-direct entry points are there, and
  loading again changes nothing. A library that does not open is an \<^verbatim>\<open>OSError\<close>, and the next call tries
  again.
\<close>

theorem dfs_load_outcome:
  assumes "g_dfs_dfs s = None" and "dfs_load H s = (r, s')"
  shows "(r = Inr () \<longleftrightarrow> (\<exists>X Y. opens H X Y \<and> exports_all X Y)) \<and>
    (r = Inr () \<longrightarrow> (\<exists>X Y. opens H X Y \<and> dfs_ready H Y s') \<and> (\<forall>H'. dfs_load H' s' = (Inr (), s'))) \<and>
    ((\<nexists>X Y. opens H X Y) \<longrightarrow> r = Inl IOError \<and> g_dfs_dfs s' = None)"
proof (intro conjI impI)
  show "r = Inr () \<longleftrightarrow> (\<exists>X Y. opens H X Y \<and> exports_all X Y)"
  proof
    assume "r = Inr ()"
    then show "\<exists>X Y. opens H X Y \<and> exports_all X Y" using dfs_load_returns [OF assms(1)] assms(2) by metis
  next
    assume "\<exists>X Y. opens H X Y \<and> exports_all X Y"
    then obtain X Y where o: "opens H X Y" "exports_all X Y" by blast
    show "r = Inr ()" using wpD [OF wp_dfs_load [OF assms(1) o(1)] assms(2)] o(2) by simp
  qed
next
  assume r: "r = Inr ()"
  then obtain X Y where o: "opens H X Y" "dfs_ready H Y s'" using dfs_load_returns [OF assms(1)] assms(2) by metis
  then show "\<exists>X Y. opens H X Y \<and> dfs_ready H Y s'" by blast
  show "\<forall>H'. dfs_load H' s' = (Inr (), s')" using o(2) by (auto simp: dfs_ready_def dfs_load_again)
next
  assume n: "\<nexists>X Y. opens H X Y"
  show "r = Inl IOError" "g_dfs_dfs s' = None" using wpD [OF wp_dfs_load_absent [OF assms(1) n] assms(2)] by simp_all
qed

text \<open>
  C38: a failure to load does not last. When the libraries open but an entry point is missing, the
  first \<^verbatim>\<open>_load\<close> raises, and every later one returns at once although the prototypes from there on were
  never declared: \<^verbatim>\<open>dfs_read\<close>, whose arguments include an offset and an address, is among them.
\<close>

theorem dfs_load_retry_hides_failure:
  assumes "g_dfs_dfs s = None" and "opens H X Y" and "\<not> exports_all X Y"
  shows "\<exists>s1 l. dfs_load H s = (Inl OtherError, s1) \<and> (\<forall>H'. dfs_load H' s1 = (Inr (), s1)) \<and>
    g_dfs_dfs s1 = Some l \<and> cd_protos l ''dfs_read'' = None"
proof -
  obtain r s1 where r: "dfs_load H s = (r, s1)" by (cases "dfs_load H s")
  have "r = Inl OtherError \<and> dfs_half s1" using wpD [OF wp_dfs_load [OF assms(1,2)] r] assms(3) by simp
  then show ?thesis using r by (auto simp: dfs_half_def dfs_load_again)
qed


text \<open>The calls in any order, each on the host as it is at that moment.\<close>

datatype load_op = DfsLoad host | ObjLoad host | EvDeclare host

primrec load_step :: "load_op \<Rightarrow> globals \<Rightarrow> globals" where
  "load_step (DfsLoad H) s = snd (dfs_load H s)"
| "load_step (ObjLoad H) s = snd (obj_load H s)"
| "load_step (EvDeclare H) s = snd (ev_declare H s)"

definition fresh_globals :: globals where
  "fresh_globals = \<lparr>g_dfs_daos = None, g_dfs_dfs = None, g_gpu_ok = False, g_obj_daos = None, g_ev_protos_done = False,
     g_ev_size = (sizeof_DaosEvent, False)\<rparr>"

definition ev_inv :: "globals \<Rightarrow> bool" where
  "ev_inv s \<longleftrightarrow> (g_ev_protos_done s \<longrightarrow> g_dfs_dfs s \<noteq> None \<and> (\<exists>l. g_dfs_daos s = Some l \<and> declared EVENT_PROTOS l))"

lemma ev_inv_dfs_load: "ev_inv s \<Longrightarrow> wp (dfs_load H) (\<lambda>r s'. ev_inv s' \<and> (r = Inr () \<longrightarrow> g_dfs_dfs s' \<noteq> None)) s"
  by (rule wp_mono [OF wp_dfs_load_frame]) (auto simp: ev_inv_def)

lemma ev_inv_declare: "ev_inv s \<Longrightarrow> wp (ev_declare H) (\<lambda>r s'. ev_inv s') s"
  unfolding ev_declare_def libdaos_def bind_assoc
  by (rule wp_bindI [OF ev_inv_dfs_load])
    (auto simp: wp_simps probe_size_def ev_inv_def declares_def intro!: wp_declare_all split: option.splits)

lemma wp_snd: "wp m Q s \<Longrightarrow> (\<And>r s'. Q r s' \<Longrightarrow> P s') \<Longrightarrow> P (snd (m s))"
  by (auto simp: wp_def split: prod.splits)

lemma ev_inv_step:
  assumes "ev_inv s"
  shows "ev_inv (load_step x s)"
proof (cases x)
  case (DfsLoad H)
  show ?thesis unfolding DfsLoad load_step.simps by (rule wp_snd [OF ev_inv_dfs_load [OF assms]]) blast
next
  case (ObjLoad H)
  show ?thesis unfolding ObjLoad load_step.simps by (rule wp_snd [OF wp_obj_load]) (use assms in \<open>auto simp: ev_inv_def\<close>)
next
  case (EvDeclare H)
  show ?thesis unfolding EvDeclare load_step.simps by (rule wp_snd [OF ev_inv_declare [OF assms]])
qed

lemma ev_inv_fold: "ev_inv s \<Longrightarrow> ev_inv (fold load_step xs s)"
  by (induction xs arbitrary: s) (auto intro: ev_inv_step)

text \<open>
  the event prototypes are declared whenever the module says so. After any sequence of loads and
  declarations, failed ones included and with the installation changing in between, the flag of
  \<^verbatim>\<open>_declare\<close> is set only if every event function is declared on the handle of \<^verbatim>\<open>libdaos\<close> in use.
\<close>

theorem ev_protos_declared:
  "g_ev_protos_done (fold load_step ops fresh_globals) \<Longrightarrow>
     \<exists>l. g_dfs_daos (fold load_step ops fresh_globals) = Some l \<and> declared EVENT_PROTOS l"
  using ev_inv_fold [of fresh_globals ops] by (auto simp: ev_inv_def fresh_globals_def)

section \<open>Instances\<close>

text \<open>
  A host with a client bundle under \<^verbatim>\<open>/opt/gds\<close>, named by \<^verbatim>\<open>LMCACHE_DAOS_LIBDIR\<close>, beside the packaged
  client; and the same host with a \<^verbatim>\<open>libdfs\<close> that lacks \<^verbatim>\<open>dfs_sys2base\<close>.
\<close>

definition bundle_host :: "(string \<Rightarrow> bool) \<Rightarrow> host" where
  "bundle_host Y = \<lparr>h_env = [''LMCACHE_DAOS_LIBDIR'' \<mapsto> ''/opt/gds''], h_find = [''daos'' \<mapsto> ''libdaos.so.2''],
     h_dlopen = (\<lambda>p. if p = ''/opt/gds/libdfs.so'' then Some Y else Some (\<lambda>_. True)), h_shim = Some 176\<rparr>"

definition no_base :: "string \<Rightarrow> bool" where
  "no_base f \<longleftrightarrow> f \<noteq> ''dfs_sys2base''"

lemma bundle_paths:
  "dfs_daos_path (bundle_host Y) = ''/opt/gds/libdaos.so''" "dfs_dfs_path (bundle_host Y) = ''/opt/gds/libdfs.so''"
  "obj_daos_path (bundle_host Y) = ''libdaos.so.2''"
  by (simp_all add: dfs_daos_path_def dfs_dfs_path_def obj_daos_path_def lib_path_def path_join_def or_else_def bundle_host_def)

lemma bundle_dlopen: "h_dlopen (bundle_host (\<lambda>_. True)) p = Some (\<lambda>_. True)"
  by (simp add: bundle_host_def)

lemma bundle_opens: "opens (bundle_host Y) (\<lambda>_. True) Y"
  unfolding opens_def bundle_paths by (simp add: bundle_host_def)

lemma fresh_sel [simp]: "g_dfs_dfs fresh_globals = None" "g_obj_daos fresh_globals = None"
  by (simp_all add: fresh_globals_def)

lemma bundle_dfs_load:
  obtains s1 where "dfs_load (bundle_host (\<lambda>_. True)) fresh_globals = (Inr (), s1)" "g_dfs_dfs s1 \<noteq> None" "g_obj_daos s1 = None"
proof -
  obtain r s1 where r: "dfs_load (bundle_host (\<lambda>_. True)) fresh_globals = (r, s1)" by fastforce
  have "r = Inr ()" using wpD [OF wp_dfs_load [OF fresh_sel(1) bundle_opens] r] by (simp add: exports_all_def)
  then show ?thesis using that r wpD [OF wp_dfs_load_frame r] by simp
qed

theorem dfs_load_outcome_witness:
  "\<exists>s'. dfs_load (bundle_host (\<lambda>_. True)) fresh_globals = (Inr (), s') \<and> g_gpu_ok s'"
proof -
  obtain s1 where r: "dfs_load (bundle_host (\<lambda>_. True)) fresh_globals = (Inr (), s1)" by (rule bundle_dfs_load)
  then obtain X Y where "opens (bundle_host (\<lambda>_. True)) X Y" "dfs_ready (bundle_host (\<lambda>_. True)) Y s1"
    using dfs_load_outcome [OF fresh_sel(1) r] by blast
  moreover from this(1) have "Y = (\<lambda>_. True)" using bundle_opens [of "\<lambda>_. True"] by (simp add: opens_def)
  ultimately show ?thesis using r unfolding dfs_ready_def by metis
qed

theorem dfs_load_retry_hides_failure_witness:
  "\<exists>s1 l. dfs_load (bundle_host no_base) fresh_globals = (Inl OtherError, s1) \<and> (\<forall>H'. dfs_load H' s1 = (Inr (), s1)) \<and>
    g_dfs_dfs s1 = Some l \<and> cd_protos l ''dfs_read'' = None"
  by (rule dfs_load_retry_hides_failure [OF fresh_sel(1) bundle_opens])
    (simp add: exports_all_def no_base_def DFS_BASE_PROTOS_def)


theorem ev_protos_declared_witness:
  "g_ev_protos_done (fold load_step [EvDeclare (bundle_host (\<lambda>_. True))] fresh_globals) \<and>
   (\<exists>l. g_dfs_daos (fold load_step [EvDeclare (bundle_host (\<lambda>_. True))] fresh_globals) = Some l \<and> declared EVENT_PROTOS l)"
proof -
  let ?H = "bundle_host (\<lambda>_. True)"
  have "wp (ev_declare ?H) (\<lambda>r s'. g_ev_protos_done s') fresh_globals"
    unfolding ev_declare_def libdaos_def bind_assoc
  proof (rule wp_bindI [OF wp_dfs_load [OF fresh_sel(1) bundle_opens]], goal_cases)
    case (2 u s1)
    then obtain l where l: "g_dfs_daos s1 = Some l" "cd_exports l = (\<lambda>_. True)"
      by (auto simp: exports_all_def dfs_ready_def bundle_dlopen)
    show ?case by (auto simp: wp_simps probe_size_def l declares_def intro!: wp_declare_all)
  qed (simp add: exports_all_def)
  then have "g_ev_protos_done (fold load_step [EvDeclare ?H] fresh_globals)" by (auto simp: wp_def split: prod.splits)
  then show ?thesis using ev_protos_declared [of "[EvDeclare ?H]"] by blast
qed

end
