(* ===== verification/L2_Close.thy ===== *)
theory L2_Close
  imports L2_Tasks L2_Fair
begin

text \<open>
  \<^verbatim>\<open>lmcache_daos/mp/l2_adapter.py\<close>, the shutdown: \<^verbatim>\<open>DaosL2Adapter.close\<close> against everything that may be
  going on when it is called. Four kinds of threads interleave: callers that submit tasks, the threads
  of the task pool, which hand the keys of a task to another pool and wait, the threads of the I/O and of
  the metadata pool, and the dispatcher of \<open>L2_Fair\<close> when the schedule is \<^verbatim>\<open>fair\<close>. The thread that
  runs \<^verbatim>\<open>close\<close> is at one of the places of \<open>cphase\<close>.

  A call on one key begins and ends; \<open>raised\<close> marks a task one of whose calls raised, after which
  \<^verbatim>\<open>pool.map\<close> cancels the calls that have not begun and leaves the others running. The number of threads
  of a pool is a parameter. Calls that the dispatcher handed out do not count against the threads of
  the I/O pool, which only adds interleavings. The hooks of the base class return.
\<close>

section \<open>State\<close>

text \<open>\<^verbatim>\<open>ThreadPoolExecutor\<close>: what waits, what the threads are doing, and whether it takes work.\<close>

record ('q, 'b) xpool =
  xp_queue :: "'q list"
  xp_busy :: "'b multiset"
  xp_shut :: bool

definition xp_new :: "('q, 'b) xpool" where
  "xp_new = \<lparr>xp_queue = [], xp_busy = {#}, xp_shut = False\<rparr>"

definition xp_idle :: "('q, 'b) xpool \<Rightarrow> bool" where
  "xp_idle p \<longleftrightarrow> xp_queue p = [] \<and> xp_busy p = {#}"

definition xp_begin :: "('q \<Rightarrow> 'b) \<Rightarrow> ('q, 'b) xpool \<Rightarrow> ('q, 'b) xpool" where
  "xp_begin f p = p\<lparr>xp_queue := tl (xp_queue p), xp_busy := add_mset (f (hd (xp_queue p))) (xp_busy p)\<rparr>"

definition xp_leave :: "'b \<Rightarrow> ('q, 'b) xpool \<Rightarrow> ('q, 'b) xpool" where
  "xp_leave x p = p\<lparr>xp_busy := xp_busy p - {#x#}\<rparr>"

text \<open>Where a task thread is, and where the closing thread is.\<close>

datatype stage = Begun | OnIo | OnMeta | OnFair nat | Joined

datatype cphase = Open | Drain | StopFair | ShutTasks | JoinTasks | ShutIo | JoinIo | ShutMeta | JoinMeta | Unmount | CloseFds | Closed

primrec rank :: "cphase \<Rightarrow> nat" where
  "rank Open = 0" | "rank Drain = 1" | "rank StopFair = 2" | "rank ShutTasks = 3" | "rank JoinTasks = 4" | "rank ShutIo = 5"
| "rank JoinIo = 6" | "rank ShutMeta = 7" | "rank JoinMeta = 8" | "rank Unmount = 9" | "rank CloseFds = 10" | "rank Closed = 11"

record shut =
  sh_phase :: cphase
  sh_now :: real
  sh_deadline :: real
  sh_next :: nat
  sh_inflight :: int
  sh_calls :: "l2task multiset"
  sh_refused :: "l2task multiset"
  sh_finished :: "nat multiset"
  sh_tasks :: "(l2task, l2task \<times> stage) xpool"
  sh_io :: "(nat \<times> nat, nat \<times> nat) xpool"
  sh_meta :: "(nat \<times> nat, nat \<times> nat) xpool"
  sh_raised :: "nat set"
  sh_denied :: "l2task multiset"
  sh_disp :: "fair option"
  sh_mounted :: bool

text \<open>The adapter after \<^verbatim>\<open>__init__\<close>; the dispatcher exists when the schedule is fair.\<close>

definition shut_init :: "real \<Rightarrow> fair option \<Rightarrow> shut" where
  "shut_init now disp = \<lparr>sh_phase = Open, sh_now = now, sh_deadline = now, sh_next = 0, sh_inflight = 0, sh_calls = {#}, sh_refused = {#},
     sh_finished = {#}, sh_tasks = xp_new, sh_io = xp_new, sh_meta = xp_new, sh_raised = {}, sh_denied = {#}, sh_disp = disp, sh_mounted = True\<rparr>"

section \<open>Callers and task threads\<close>

text \<open>\<^verbatim>\<open>_new_task_id\<close>, then \<^verbatim>\<open>self._tasks.submit\<close>, which raises after the pool was shut down.\<close>

definition call_new :: "l2task \<Rightarrow> shut \<Rightarrow> shut" where
  "call_new t s = s\<lparr>sh_next := sh_next s + 1, sh_inflight := sh_inflight s + 1, sh_calls := add_mset t (sh_calls s)\<rparr>"

definition call_submit :: "l2task \<Rightarrow> shut \<Rightarrow> shut" where
  "call_submit t s =
     (let s1 = s\<lparr>sh_calls := sh_calls s - {#t#}\<rparr> in
      if xp_shut (sh_tasks s) then s1\<lparr>sh_refused := add_mset t (sh_refused s)\<rparr>
      else s1\<lparr>sh_tasks := (sh_tasks s)\<lparr>xp_queue := xp_queue (sh_tasks s) @ [t]\<rparr>\<rparr>)"

definition task_start :: "shut \<Rightarrow> shut" where
  "task_start s = s\<lparr>sh_tasks := xp_begin (\<lambda>t. (t, Begun)) (sh_tasks s)\<rparr>"

definition set_stage :: "l2task \<Rightarrow> stage \<Rightarrow> stage \<Rightarrow> shut \<Rightarrow> shut" where
  "set_stage t st st' s = s\<lparr>sh_tasks := (sh_tasks s)\<lparr>xp_busy := add_mset (t, st') (xp_busy (sh_tasks s) - {#(t, st)#})\<rparr>\<rparr>"

text \<open>The calls of a task, one per key.\<close>

definition items :: "l2task \<Rightarrow> (nat \<times> nat) list" where
  "items t = map (Pair (task_id t)) [0..<task_width t]"

text \<open>
  \<^verbatim>\<open>self._map\<close>, \<^verbatim>\<open>self._meta.map\<close> and \<^verbatim>\<open>self._fair.run\<close> up to the wait. A pool that was shut down refuses; the
  task records the exception and goes on to its end.
\<close>

definition fan_io :: "l2task \<Rightarrow> shut \<Rightarrow> shut" where
  "fan_io t s =
     (if xp_shut (sh_io s) \<and> items t \<noteq> [] then (set_stage t Begun Joined s)\<lparr>sh_denied := add_mset t (sh_denied s)\<rparr>
      else (set_stage t Begun OnIo s)\<lparr>sh_io := (sh_io s)\<lparr>xp_queue := xp_queue (sh_io s) @ items t\<rparr>\<rparr>)"

definition fan_meta :: "l2task \<Rightarrow> shut \<Rightarrow> shut" where
  "fan_meta t s =
     (if xp_shut (sh_meta s) \<and> items t \<noteq> [] then (set_stage t Begun Joined s)\<lparr>sh_denied := add_mset t (sh_denied s)\<rparr>
      else (set_stage t Begun OnMeta s)\<lparr>sh_meta := (sh_meta s)\<lparr>xp_queue := xp_queue (sh_meta s) @ items t\<rparr>\<rparr>)"

definition fan_fair :: "fair \<Rightarrow> l2task \<Rightarrow> shut \<Rightarrow> shut" where
  "fan_fair d t s =
     (if task_width t = 0 then set_stage t Begun Joined s
      else (set_stage t Begun (OnFair (fd_next d)) s)\<lparr>sh_disp := Some (fair_run (task_width t) d)\<rparr>)"

definition fan :: "l2task \<Rightarrow> shut \<Rightarrow> shut" where
  "fan t s = (case t of
     TStore _ _ _ \<Rightarrow> fan_io t s
   | TLookup _ _ _ \<Rightarrow> fan_meta t s
   | TLoad _ _ _ \<Rightarrow> (case sh_disp s of None \<Rightarrow> fan_io t s | Some d \<Rightarrow> fan_fair d t s))"

text \<open>The end of \<^verbatim>\<open>_execute_store\<close>, \<^verbatim>\<open>_execute_lookup\<close>, \<^verbatim>\<open>_execute_load\<close>: the result is recorded, then \<^verbatim>\<open>_finish\<close>.\<close>

definition task_end :: "l2task \<Rightarrow> shut \<Rightarrow> shut" where
  "task_end t s = s\<lparr>sh_tasks := xp_leave (t, Joined) (sh_tasks s), sh_inflight := sh_inflight s - 1, sh_finished := add_mset (task_id t) (sh_finished s)\<rparr>"

text \<open>No call of the task is left in the pool; a call raised, and those that have not begun are cancelled.\<close>

definition no_items :: "nat \<Rightarrow> (nat \<times> nat, nat \<times> nat) xpool \<Rightarrow> bool" where
  "no_items tid p \<longleftrightarrow> tid \<notin> fst ` set (xp_queue p) \<and> tid \<notin> fst ` set_mset (xp_busy p)"

definition cancel_items :: "nat \<Rightarrow> (nat \<times> nat, nat \<times> nat) xpool \<Rightarrow> (nat \<times> nat, nat \<times> nat) xpool" where
  "cancel_items tid p = p\<lparr>xp_queue := filter (\<lambda>x. fst x \<noteq> tid) (xp_queue p)\<rparr>"

text \<open>The end of a call on one key.\<close>

definition call_end :: "bool \<Rightarrow> nat \<times> nat \<Rightarrow> shut \<Rightarrow> shut" where
  "call_end exc x s = (if exc then s\<lparr>sh_raised := insert (fst x) (sh_raised s)\<rparr> else s)"

section \<open>The closing thread\<close>

text \<open>\<^verbatim>\<open>deadline = time.monotonic() + 30.0\<close>; one turn of the loop, after which at least 0.05 s have passed.\<close>

definition close_begin :: "shut \<Rightarrow> shut" where
  "close_begin s = s\<lparr>sh_phase := Drain, sh_deadline := sh_now s + 30\<rparr>"

definition drain_turn :: "real \<Rightarrow> shut \<Rightarrow> shut" where
  "drain_turn dt s =
     (if sh_now s < sh_deadline s
      then if sh_inflight s = 0 then s\<lparr>sh_phase := StopFair\<rparr> else s\<lparr>sh_now := sh_now s + dt\<rparr>
      else s\<lparr>sh_phase := StopFair\<rparr>)"

text \<open>
  The statements after the loop, in order. A shutdown with \<^verbatim>\<open>wait=True\<close> first refuses new work, then
  waits until the pool has nothing to do.
\<close>

definition fair_quiet :: "shut \<Rightarrow> bool" where
  "fair_quiet s \<longleftrightarrow> (case sh_disp s of None \<Rightarrow> True | Some d \<Rightarrow> fd_pool d = [] \<and> fd_leaving d = [])"

definition close_next :: "shut \<Rightarrow> shut option" where
  "close_next s = (case sh_phase s of
     StopFair \<Rightarrow> Some (s\<lparr>sh_disp := map_option fair_close (sh_disp s), sh_phase := ShutTasks\<rparr>)
   | ShutTasks \<Rightarrow> Some (s\<lparr>sh_tasks := (sh_tasks s)\<lparr>xp_shut := True\<rparr>, sh_phase := JoinTasks\<rparr>)
   | JoinTasks \<Rightarrow> if xp_idle (sh_tasks s) then Some (s\<lparr>sh_phase := ShutIo\<rparr>) else None
   | ShutIo \<Rightarrow> Some (s\<lparr>sh_io := (sh_io s)\<lparr>xp_shut := True\<rparr>, sh_phase := JoinIo\<rparr>)
   | JoinIo \<Rightarrow> if xp_idle (sh_io s) \<and> fair_quiet s then Some (s\<lparr>sh_phase := ShutMeta\<rparr>) else None
   | ShutMeta \<Rightarrow> Some (s\<lparr>sh_meta := (sh_meta s)\<lparr>xp_shut := True\<rparr>, sh_phase := JoinMeta\<rparr>)
   | JoinMeta \<Rightarrow> if xp_idle (sh_meta s) then Some (s\<lparr>sh_phase := Unmount\<rparr>) else None
   | Unmount \<Rightarrow> Some (s\<lparr>sh_mounted := False, sh_phase := CloseFds\<rparr>)
   | CloseFds \<Rightarrow> Some (s\<lparr>sh_phase := Closed\<rparr>)
   | _ \<Rightarrow> None)"

section \<open>Steps\<close>

record widths =
  w_tasks :: nat
  w_io :: nat
  w_meta :: nat

text \<open>What the threads do by themselves; what callers do.\<close>

inductive shut_work :: "widths \<Rightarrow> (nat \<Rightarrow> nat \<Rightarrow> exn + bool) \<Rightarrow> shut \<Rightarrow> shut \<Rightarrow> bool" for W fn where
  submit: "t \<in># sh_calls s \<Longrightarrow> shut_work W fn s (call_submit t s)"
| start: "xp_queue (sh_tasks s) \<noteq> [] \<Longrightarrow> size (xp_busy (sh_tasks s)) < w_tasks W \<Longrightarrow> shut_work W fn s (task_start s)"
| fan: "(t, Begun) \<in># xp_busy (sh_tasks s) \<Longrightarrow> shut_work W fn s (fan t s)"
| join_io: "(t, OnIo) \<in># xp_busy (sh_tasks s) \<Longrightarrow> no_items (task_id t) (sh_io s) \<Longrightarrow> shut_work W fn s (set_stage t OnIo Joined s)"
| abort_io: "(t, OnIo) \<in># xp_busy (sh_tasks s) \<Longrightarrow> task_id t \<in> sh_raised s \<Longrightarrow>
    shut_work W fn s ((set_stage t OnIo Joined s)\<lparr>sh_io := cancel_items (task_id t) (sh_io s)\<rparr>)"
| join_meta: "(t, OnMeta) \<in># xp_busy (sh_tasks s) \<Longrightarrow> no_items (task_id t) (sh_meta s) \<Longrightarrow> shut_work W fn s (set_stage t OnMeta Joined s)"
| abort_meta: "(t, OnMeta) \<in># xp_busy (sh_tasks s) \<Longrightarrow> task_id t \<in> sh_raised s \<Longrightarrow>
    shut_work W fn s ((set_stage t OnMeta Joined s)\<lparr>sh_meta := cancel_items (task_id t) (sh_meta s)\<rparr>)"
| join_fair: "(t, OnFair k) \<in># xp_busy (sh_tasks s) \<Longrightarrow> sh_disp s = Some d \<Longrightarrow> fd_done d k \<Longrightarrow>
    shut_work W fn s (set_stage t (OnFair k) Joined s)"
| finish: "(t, Joined) \<in># xp_busy (sh_tasks s) \<Longrightarrow> shut_work W fn s (task_end t s)"
| io_start: "xp_queue (sh_io s) \<noteq> [] \<Longrightarrow> size (xp_busy (sh_io s)) < w_io W \<Longrightarrow>
    shut_work W fn s (s\<lparr>sh_io := xp_begin id (sh_io s)\<rparr>)"
| io_end: "x \<in># xp_busy (sh_io s) \<Longrightarrow> shut_work W fn s (call_end exc x (s\<lparr>sh_io := xp_leave x (sh_io s)\<rparr>))"
| meta_start: "xp_queue (sh_meta s) \<noteq> [] \<Longrightarrow> size (xp_busy (sh_meta s)) < w_meta W \<Longrightarrow>
    shut_work W fn s (s\<lparr>sh_meta := xp_begin id (sh_meta s)\<rparr>)"
| meta_end: "x \<in># xp_busy (sh_meta s) \<Longrightarrow> shut_work W fn s (call_end exc x (s\<lparr>sh_meta := xp_leave x (sh_meta s)\<rparr>))"
| dispatch: "sh_disp s = Some d \<Longrightarrow> fair_work fn d d' \<Longrightarrow> shut_work W fn s (s\<lparr>sh_disp := Some d'\<rparr>)"
| drain: "sh_phase s = Drain \<Longrightarrow> 1 / 20 \<le> dt \<Longrightarrow> shut_work W fn s (drain_turn dt s)"
| close: "close_next s = Some s' \<Longrightarrow> shut_work W fn s s'"

inductive shut_step :: "widths \<Rightarrow> (nat \<Rightarrow> nat \<Rightarrow> exn + bool) \<Rightarrow> shut \<Rightarrow> shut \<Rightarrow> bool" for W fn where
  work: "shut_work W fn s s' \<Longrightarrow> shut_step W fn s s'"
| call: "task_id t = sh_next s \<Longrightarrow> shut_step W fn s (call_new t s)"
| begin_close: "sh_phase s = Open \<Longrightarrow> shut_step W fn s (close_begin s)"

abbreviation "shut_steps W fn \<equiv> (shut_step W fn)\<^sup>*\<^sup>*"

inductive_cases shut_workE: "shut_work W fn s s'"

lemmas shut_defs = call_submit_def task_start_def set_stage_def fan_def fan_io_def fan_meta_def fan_fair_def task_end_def
  call_end_def drain_turn_def close_next_def xp_begin_def xp_leave_def cancel_items_def Let_def

section \<open>Every task is somewhere\<close>

text \<open>The tasks that have an id and no result: being submitted, refused, waiting, running.\<close>

definition open_tasks :: "shut \<Rightarrow> l2task multiset" where
  "open_tasks s = sh_calls s + sh_refused s + mset (xp_queue (sh_tasks s)) + image_mset fst (xp_busy (sh_tasks s))"

definition inv_count :: "shut \<Rightarrow> bool" where
  "inv_count s \<longleftrightarrow> mset_set {..<sh_next s} = image_mset task_id (open_tasks s) + sh_finished s \<and> sh_inflight s = int (size (open_tasks s))"

lemma fan_same [simp]: "sh_next (fan t s) = sh_next s" "sh_inflight (fan t s) = sh_inflight s" "sh_finished (fan t s) = sh_finished s"
  "sh_phase (fan t s) = sh_phase s" "sh_calls (fan t s) = sh_calls s" "sh_refused (fan t s) = sh_refused s" "sh_mounted (fan t s) = sh_mounted s"
  "sh_now (fan t s) = sh_now s" "sh_deadline (fan t s) = sh_deadline s" "sh_raised (fan t s) = sh_raised s"
  "xp_queue (sh_tasks (fan t s)) = xp_queue (sh_tasks s)" "xp_shut (sh_tasks (fan t s)) = xp_shut (sh_tasks s)"
  "xp_shut (sh_io (fan t s)) = xp_shut (sh_io s)" "xp_shut (sh_meta (fan t s)) = xp_shut (sh_meta s)"
  "xp_busy (sh_io (fan t s)) = xp_busy (sh_io s)" "xp_busy (sh_meta (fan t s)) = xp_busy (sh_meta s)"
  by (auto simp: shut_defs split: l2task.splits option.splits)

lemma fan_busy: "\<exists>st. xp_busy (sh_tasks (fan t s)) = add_mset (t, st) (xp_busy (sh_tasks s) - {#(t, Begun)#})"
  by (auto simp: shut_defs split: l2task.splits option.splits)

text \<open>A step of the threads keeps these tasks, or one of them ends.\<close>

definition same_open :: "shut \<Rightarrow> shut \<Rightarrow> bool" where
  "same_open s s' \<longleftrightarrow> open_tasks s' = open_tasks s \<and> sh_next s' = sh_next s \<and> sh_inflight s' = sh_inflight s \<and> sh_finished s' = sh_finished s"

lemma same_open_refl [simp]: "same_open s s"
  by (simp add: same_open_def)

lemma same_open_upd [simp]:
  "same_open s (s'\<lparr>sh_io := p\<rparr>) = same_open s s'" "same_open s (s'\<lparr>sh_meta := p\<rparr>) = same_open s s'"
  "same_open s (s'\<lparr>sh_disp := d\<rparr>) = same_open s s'" "same_open s (s'\<lparr>sh_raised := r\<rparr>) = same_open s s'"
  "same_open s (s'\<lparr>sh_phase := ph\<rparr>) = same_open s s'" "same_open s (s'\<lparr>sh_now := n\<rparr>) = same_open s s'"
  "same_open s (call_end exc x s') = same_open s s'" "same_open s (drain_turn dt s') = same_open s s'"
  by (simp_all add: same_open_def open_tasks_def call_end_def drain_turn_def)

lemma open_set_stage: "(t, st) \<in># xp_busy (sh_tasks s) \<Longrightarrow> same_open s (set_stage t st st' s)"
  by (auto simp: same_open_def open_tasks_def set_stage_def dest!: multi_member_split)

lemma open_fan: "(t, Begun) \<in># xp_busy (sh_tasks s) \<Longrightarrow> same_open s (fan t s)"
  using fan_busy [of t s] by (auto simp: same_open_def open_tasks_def dest!: multi_member_split)

lemma open_start: "xp_queue (sh_tasks s) \<noteq> [] \<Longrightarrow> same_open s (task_start s)"
  by (cases "xp_queue (sh_tasks s)") (simp_all add: same_open_def open_tasks_def shut_defs)

lemma open_submit: "t \<in># sh_calls s \<Longrightarrow> same_open s (call_submit t s)"
  by (auto simp: same_open_def open_tasks_def shut_defs dest!: multi_member_split)

lemma open_finish: "(t, Joined) \<in># xp_busy (sh_tasks s) \<Longrightarrow> open_tasks s = add_mset t (open_tasks (task_end t s))"
  by (auto simp: open_tasks_def shut_defs dest!: multi_member_split)

lemma open_close: "close_next s = Some s' \<Longrightarrow> same_open s s'"
  by (auto simp: same_open_def open_tasks_def close_next_def split: cphase.splits if_splits)

lemma open_work:
  assumes "shut_work W fn s s'"
  shows "same_open s s' \<or> (\<exists>t. s' = task_end t s \<and> (t, Joined) \<in># xp_busy (sh_tasks s))"
  using assms
  by cases (simp_all add: open_submit open_start open_fan open_set_stage open_close, blast)

lemma inv_count_same: "same_open s s' \<Longrightarrow> inv_count s \<Longrightarrow> inv_count s'"
  unfolding inv_count_def same_open_def by metis

lemma inv_count_end:
  assumes "(t, Joined) \<in># xp_busy (sh_tasks s)" and "inv_count s"
  shows "inv_count (task_end t s)"
proof -
  have "sh_next (task_end t s) = sh_next s" "sh_inflight (task_end t s) = sh_inflight s - 1"
    "sh_finished (task_end t s) = add_mset (task_id t) (sh_finished s)" by (simp_all add: task_end_def)
  then show ?thesis using assms(2) unfolding inv_count_def open_finish [OF assms(1)] by simp
qed

lemma inv_count_new:
  assumes "task_id t = sh_next s" and "inv_count s"
  shows "inv_count (call_new t s)"
proof -
  have "open_tasks (call_new t s) = add_mset t (open_tasks s)" "sh_next (call_new t s) = Suc (sh_next s)"
    "sh_inflight (call_new t s) = sh_inflight s + 1" "sh_finished (call_new t s) = sh_finished s"
    by (simp_all add: open_tasks_def call_new_def)
  moreover have "mset_set {..<Suc (sh_next s)} = add_mset (sh_next s) (mset_set {..<sh_next s})" by (simp add: lessThan_Suc)
  ultimately show ?thesis using assms unfolding inv_count_def by simp
qed

lemma inv_count_step:
  assumes "shut_step W fn s s'" and "inv_count s"
  shows "inv_count s'"
  using assms(1)
proof cases
  case work
  from open_work [OF work] show ?thesis using assms(2) by (blast intro: inv_count_same inv_count_end)
next
  case (call t)
  then show ?thesis using assms(2) by (simp add: inv_count_new)
next
  case begin_close
  have "same_open s (close_begin s)" by (simp add: same_open_def open_tasks_def close_begin_def)
  then show ?thesis using begin_close assms(2) inv_count_same by blast
qed

section \<open>The order of the shutdown\<close>

text \<open>Which pools take work and which are empty, by the place of the closing thread; no pool ever refused a task's calls.\<close>

definition inv_phase :: "shut \<Rightarrow> bool" where
  "inv_phase s \<longleftrightarrow> (xp_shut (sh_tasks s) \<longleftrightarrow> 4 \<le> rank (sh_phase s)) \<and> (xp_shut (sh_io s) \<longleftrightarrow> 6 \<le> rank (sh_phase s)) \<and>
     (xp_shut (sh_meta s) \<longleftrightarrow> 8 \<le> rank (sh_phase s)) \<and> (sh_mounted s \<longleftrightarrow> rank (sh_phase s) < 10) \<and>
     (5 \<le> rank (sh_phase s) \<longrightarrow> xp_idle (sh_tasks s)) \<and> (7 \<le> rank (sh_phase s) \<longrightarrow> xp_idle (sh_io s)) \<and>
     (9 \<le> rank (sh_phase s) \<longrightarrow> xp_idle (sh_meta s)) \<and> sh_denied s = {#}"

lemma inv_phase_running:
  assumes "inv_phase s" and "x \<in># xp_busy (sh_tasks s)"
  shows "rank (sh_phase s) < 5" "\<not> xp_shut (sh_io s)" "\<not> xp_shut (sh_meta s)"
  using assms by (auto simp: inv_phase_def xp_idle_def)

lemma fan_denied: "\<not> xp_shut (sh_io s) \<Longrightarrow> \<not> xp_shut (sh_meta s) \<Longrightarrow> sh_denied (fan t s) = sh_denied s"
  by (auto simp: shut_defs split: l2task.splits option.splits)

lemma inv_phase_early:
  assumes "inv_phase s" and "rank (sh_phase s) < 5" and "sh_phase s' = sh_phase s" and "xp_shut (sh_tasks s') = xp_shut (sh_tasks s)"
    and "xp_shut (sh_io s') = xp_shut (sh_io s)" "xp_shut (sh_meta s') = xp_shut (sh_meta s)" "sh_mounted s' = sh_mounted s"
    and "sh_denied s' = sh_denied s"
  shows "inv_phase s'"
  using assms by (auto simp: inv_phase_def)

lemma set_stage_same [simp]: "sh_phase (set_stage t st st' s) = sh_phase s" "sh_io (set_stage t st st' s) = sh_io s"
  "sh_meta (set_stage t st st' s) = sh_meta s" "sh_mounted (set_stage t st st' s) = sh_mounted s" "sh_denied (set_stage t st st' s) = sh_denied s"
  "sh_disp (set_stage t st st' s) = sh_disp s" "sh_raised (set_stage t st st' s) = sh_raised s" "sh_calls (set_stage t st st' s) = sh_calls s"
  "xp_shut (sh_tasks (set_stage t st st' s)) = xp_shut (sh_tasks s)" "xp_queue (sh_tasks (set_stage t st st' s)) = xp_queue (sh_tasks s)"
  "xp_busy (sh_tasks (set_stage t st st' s)) = add_mset (t, st') (xp_busy (sh_tasks s) - {#(t, st)#})"
  "sh_now (set_stage t st st' s) = sh_now s" "sh_deadline (set_stage t st st' s) = sh_deadline s"
  by (simp_all add: set_stage_def)

lemma inv_phase_stage: "inv_phase s \<Longrightarrow> (t, st) \<in># xp_busy (sh_tasks s) \<Longrightarrow> inv_phase (set_stage t st st' s)"
  using inv_phase_running(1) [of s "(t, st)"] by - (rule inv_phase_early [where s = s], simp_all)

lemma inv_phase_fan: "inv_phase s \<Longrightarrow> (t, Begun) \<in># xp_busy (sh_tasks s) \<Longrightarrow> inv_phase (fan t s)"
  using inv_phase_running [of s "(t, Begun)"] by - (rule inv_phase_early [where s = s], simp_all add: fan_denied)

lemma inv_phase_pools:
  assumes "inv_phase s" and "rank (sh_phase s) < 7 \<or> xp_idle p" and "xp_shut p = xp_shut (sh_io s)"
  shows "inv_phase (s\<lparr>sh_io := p\<rparr>)"
  using assms by (auto simp: inv_phase_def)

lemma inv_phase_metas:
  assumes "inv_phase s" and "rank (sh_phase s) < 9 \<or> xp_idle p" and "xp_shut p = xp_shut (sh_meta s)"
  shows "inv_phase (s\<lparr>sh_meta := p\<rparr>)"
  using assms by (auto simp: inv_phase_def)

lemma inv_phase_busy:
  assumes "inv_phase s"
  shows "xp_queue (sh_io s) \<noteq> [] \<or> xp_busy (sh_io s) \<noteq> {#} \<Longrightarrow> rank (sh_phase s) < 7"
    "xp_queue (sh_meta s) \<noteq> [] \<or> xp_busy (sh_meta s) \<noteq> {#} \<Longrightarrow> rank (sh_phase s) < 9"
  using assms by (auto simp: inv_phase_def xp_idle_def not_less)

lemma inv_phase_call_end [simp]: "inv_phase (call_end exc x s) = inv_phase s"
  by (simp add: inv_phase_def call_end_def)

lemma inv_phase_drain: "inv_phase s \<Longrightarrow> sh_phase s = Drain \<Longrightarrow> inv_phase (drain_turn dt s)"
  by (simp add: inv_phase_def drain_turn_def)

lemma inv_phase_close: "close_next s = Some s' \<Longrightarrow> inv_phase s \<Longrightarrow> inv_phase s'"
  by (cases "sh_phase s") (auto simp: inv_phase_def close_next_def xp_idle_def split: if_splits)

lemma inv_phase_submit: "inv_phase s \<Longrightarrow> inv_phase (call_submit t s)"
  by (auto simp: inv_phase_def call_submit_def Let_def)

lemma inv_phase_start: "inv_phase s \<Longrightarrow> xp_queue (sh_tasks s) \<noteq> [] \<Longrightarrow> inv_phase (task_start s)"
  by (auto simp: inv_phase_def shut_defs xp_idle_def)

lemma inv_phase_end: "inv_phase s \<Longrightarrow> inv_phase (task_end t s)"
  by (auto simp: inv_phase_def shut_defs xp_idle_def)

lemma inv_phase_work:
  assumes "shut_work W fn s s'" and "inv_phase s"
  shows "inv_phase s'"
  using assms(1)
proof cases
  case (abort_io t)
  have "inv_phase (set_stage t OnIo Joined s)" by (rule inv_phase_stage [OF assms(2) abort_io(2)])
  then show ?thesis using inv_phase_running(1) [OF assms(2) abort_io(2)]
    unfolding abort_io(1) by (intro inv_phase_pools) (simp_all add: cancel_items_def)
next
  case (abort_meta t)
  have "inv_phase (set_stage t OnMeta Joined s)" by (rule inv_phase_stage [OF assms(2) abort_meta(2)])
  then show ?thesis using inv_phase_running(1) [OF assms(2) abort_meta(2)]
    unfolding abort_meta(1) by (intro inv_phase_metas) (simp_all add: cancel_items_def)
next
  case io_start
  then show ?thesis using assms(2) inv_phase_busy(1) [OF assms(2)] by (auto intro!: inv_phase_pools simp: xp_begin_def)
next
  case (io_end x exc)
  then have "rank (sh_phase s) < 7" using inv_phase_busy(1) [OF assms(2)] io_end(2) by (metis empty_not_add_mset mset_add)
  then show ?thesis using io_end assms(2) by (auto intro!: inv_phase_pools simp: xp_leave_def)
next
  case meta_start
  then show ?thesis using assms(2) inv_phase_busy(2) [OF assms(2)] by (auto intro!: inv_phase_metas simp: xp_begin_def)
next
  case (meta_end x exc)
  then have "rank (sh_phase s) < 9" using inv_phase_busy(2) [OF assms(2)] meta_end(2) by (metis empty_not_add_mset mset_add)
  then show ?thesis using meta_end assms(2) by (auto intro!: inv_phase_metas simp: xp_leave_def)
next
  case (dispatch d d')
  then show ?thesis using assms(2) by (simp add: inv_phase_def)
qed (use assms(2) in \<open>simp_all add: inv_phase_submit inv_phase_start inv_phase_fan inv_phase_stage inv_phase_end inv_phase_drain inv_phase_close\<close>)

lemma inv_phase_step:
  assumes "shut_step W fn s s'" and "inv_phase s"
  shows "inv_phase s'"
  using assms(1)
proof cases
  case work
  then show ?thesis using assms(2) by (rule inv_phase_work)
qed (use assms(2) in \<open>simp_all add: call_new_def close_begin_def inv_phase_def\<close>)

section \<open>Who waits for what\<close>

text \<open>A call that waits in a pool belongs to a task thread that waits for it.\<close>

definition owned :: "stage \<Rightarrow> (nat \<times> nat, nat \<times> nat) xpool \<Rightarrow> (l2task \<times> stage) multiset \<Rightarrow> bool" where
  "owned st p B \<longleftrightarrow> (\<forall>x \<in> set (xp_queue p). \<exists>t. (t, st) \<in># B \<and> task_id t = fst x)"

definition inv_owner :: "shut \<Rightarrow> bool" where
  "inv_owner s \<longleftrightarrow> owned OnIo (sh_io s) (xp_busy (sh_tasks s)) \<and> owned OnMeta (sh_meta s) (xp_busy (sh_tasks s))"

lemma owned_add: "owned st p B \<Longrightarrow> owned st p (add_mset y B)"
  by (auto simp: owned_def)

lemma owned_keep: "owned st p (add_mset y B) \<Longrightarrow> \<forall>t. y = (t, st) \<longrightarrow> task_id t \<notin> fst ` set (xp_queue p) \<Longrightarrow> owned st p B"
  by (fastforce simp: owned_def)

lemma owned_swap:
  assumes "owned st p B" and "(t, st1) \<in># B" and "st1 = st \<longrightarrow> task_id t \<notin> fst ` set (xp_queue p)"
  shows "owned st p (add_mset (t, st2) (B - {#(t, st1)#}))"
proof -
  obtain A where A: "B = add_mset (t, st1) A" using assms(2) by (auto dest: multi_member_split)
  then have "owned st p A" using assms(1,3) owned_keep [of st p "(t, st1)" A] by simp
  then show ?thesis by (simp add: A owned_add)
qed

lemma owned_shut [simp]: "owned st (p\<lparr>xp_shut := b\<rparr>) B = owned st p B"
  by (simp add: owned_def)

lemma owned_sub: "owned st p B \<Longrightarrow> set (xp_queue p') \<subseteq> set (xp_queue p) \<Longrightarrow> owned st p' B"
  by (auto simp: owned_def)

lemma owned_items: "owned st p B \<Longrightarrow> (t, st) \<in># B \<Longrightarrow> owned st (p\<lparr>xp_queue := xp_queue p @ items t\<rparr>) B"
  by (auto simp: owned_def items_def)

lemma owned_pool [simp]: "owned st (xp_leave x p) B = owned st p B"
  by (simp add: owned_def xp_leave_def)

lemma owned_begin: "owned st p B \<Longrightarrow> xp_queue p \<noteq> [] \<Longrightarrow> owned st (xp_begin f p) B"
  by (rule owned_sub) (auto simp: xp_begin_def dest: list.set_sel(2))

lemma owned_cancel: "owned st p B \<Longrightarrow> owned st (cancel_items tid p) B"
  by (rule owned_sub) (auto simp: cancel_items_def)

lemma inv_owner_fan:
  assumes "inv_owner s" and "(t, Begun) \<in># xp_busy (sh_tasks s)"
  shows "inv_owner (fan t s)"
proof -
  have o: "owned OnIo (sh_io s) (add_mset (t, st) (xp_busy (sh_tasks s) - {#(t, Begun)#}))"
    "owned OnMeta (sh_meta s) (add_mset (t, st) (xp_busy (sh_tasks s) - {#(t, Begun)#}))" for st
    using assms by (auto simp: inv_owner_def intro: owned_swap)
  have "inv_owner (fan_io t s)" "inv_owner (fan_meta t s)" "inv_owner (fan_fair d t s)" for d
    using o by (auto simp: inv_owner_def fan_io_def fan_meta_def fan_fair_def intro!: owned_items)
  then show ?thesis by (auto simp: fan_def split: l2task.splits option.splits)
qed

lemma inv_owner_stage:
  assumes "inv_owner s" and "(t, st) \<in># xp_busy (sh_tasks s)"
    and "st = OnIo \<longrightarrow> task_id t \<notin> fst ` set (xp_queue (sh_io s))" and "st = OnMeta \<longrightarrow> task_id t \<notin> fst ` set (xp_queue (sh_meta s))"
  shows "inv_owner (set_stage t st st' s)"
  using assms by (simp add: inv_owner_def owned_swap)

lemma inv_owner_cancel:
  assumes "inv_owner s"
  shows "inv_owner (s\<lparr>sh_io := cancel_items tid (sh_io s)\<rparr>)" "inv_owner (s\<lparr>sh_meta := cancel_items tid (sh_meta s)\<rparr>)"
  using assms by (simp_all add: inv_owner_def owned_cancel)

lemma stage_cancel:
  "(set_stage t st st' s)\<lparr>sh_io := p\<rparr> = set_stage t st st' (s\<lparr>sh_io := p\<rparr>)" "(set_stage t st st' s)\<lparr>sh_meta := p\<rparr> = set_stage t st st' (s\<lparr>sh_meta := p\<rparr>)"
  by (simp_all add: set_stage_def)

lemma cancelled: "tid \<notin> fst ` set (xp_queue (cancel_items tid p))"
  by (auto simp: cancel_items_def)

lemma inv_owner_same: "inv_owner s \<Longrightarrow> sh_io s' = sh_io s \<Longrightarrow> sh_meta s' = sh_meta s \<Longrightarrow>
    xp_busy (sh_tasks s') = xp_busy (sh_tasks s) \<Longrightarrow> inv_owner s'"
  by (simp add: inv_owner_def)

lemma inv_owner_end: "inv_owner s \<Longrightarrow> (t, Joined) \<in># xp_busy (sh_tasks s) \<Longrightarrow> inv_owner (task_end t s)"
  by (auto simp: inv_owner_def task_end_def xp_leave_def dest!: multi_member_split intro: owned_keep)

lemma inv_owner_start: "inv_owner s \<Longrightarrow> inv_owner (task_start s)"
  by (simp add: inv_owner_def task_start_def xp_begin_def owned_add)

lemma inv_owner_close: "close_next s = Some s' \<Longrightarrow> inv_owner s \<Longrightarrow> inv_owner s'"
  by (cases "sh_phase s") (auto simp: inv_owner_def close_next_def split: if_splits)

lemma inv_owner_work:
  assumes "shut_work W fn s s'" and "inv_owner s"
  shows "inv_owner s'"
  using assms(1)
proof cases
  case (abort_io t)
  have "inv_owner (s\<lparr>sh_io := cancel_items (task_id t) (sh_io s)\<rparr>)" using assms(2) by (rule inv_owner_cancel)
  then show ?thesis unfolding abort_io(1) stage_cancel
    by (rule inv_owner_stage) (use abort_io(2) in \<open>simp_all add: cancelled\<close>)
next
  case (abort_meta t)
  have "inv_owner (s\<lparr>sh_meta := cancel_items (task_id t) (sh_meta s)\<rparr>)" using assms(2) by (rule inv_owner_cancel)
  then show ?thesis unfolding abort_meta(1) stage_cancel
    by (rule inv_owner_stage) (use abort_meta(2) in \<open>simp_all add: cancelled\<close>)
next
  case (submit t)
  then show ?thesis using assms(2) by (auto simp: call_submit_def Let_def intro: inv_owner_same)
next
  case (drain dt)
  then show ?thesis using assms(2) by (auto simp: drain_turn_def intro: inv_owner_same)
qed (use assms(2) in \<open>simp_all add: inv_owner_start inv_owner_fan inv_owner_stage inv_owner_end inv_owner_close no_items_def\<close>,
     simp_all add: inv_owner_def owned_begin call_end_def)

lemma inv_owner_step:
  assumes "shut_step W fn s s'" and "inv_owner s"
  shows "inv_owner s'"
  using assms(1)
proof cases
  case work
  then show ?thesis using assms(2) by (rule inv_owner_work)
qed (use assms(2) in \<open>simp_all add: call_new_def close_begin_def inv_owner_def\<close>)

text \<open>A call of \<^verbatim>\<open>run\<close> that is not done has a task thread waiting for it.\<close>

definition fair_bound :: "(nat \<Rightarrow> nat \<Rightarrow> exn + bool) \<Rightarrow> nat \<Rightarrow> cphase \<Rightarrow> (l2task \<times> stage) multiset \<Rightarrow> fair \<Rightarrow> bool" where
  "fair_bound fn slots ph B d \<longleftrightarrow> fair_good fn slots d \<and> (fd_stop d \<longleftrightarrow> 3 \<le> rank ph) \<and>
     (\<forall>k < fd_next d. \<not> fd_done d k \<longrightarrow> (\<exists>t. (t, OnFair k) \<in># B)) \<and> (\<forall>t k. (t, OnFair k) \<in># B \<longrightarrow> k < fd_next d)"

definition inv_fair :: "(nat \<Rightarrow> nat \<Rightarrow> exn + bool) \<Rightarrow> nat \<Rightarrow> shut \<Rightarrow> bool" where
  "inv_fair fn slots s \<longleftrightarrow> (case sh_disp s of
     None \<Rightarrow> \<forall>t k. (t, OnFair k) \<notin># xp_busy (sh_tasks s)
   | Some d \<Rightarrow> fair_bound fn slots (sh_phase s) (xp_busy (sh_tasks s)) d)"

lemma fair_work_frame:
  "fair_work fn d d' \<Longrightarrow> fd_next d' = fd_next d \<and> fd_stop d' = fd_stop d \<and> (\<forall>k. fd_done d k \<longrightarrow> fd_done d' k)"
  by (induction rule: fair_work.induct) (auto simp: fair_submit_def fair_one_def fair_count_def Let_def split: option.splits)

lemma fair_bound_work: "fair_bound fn slots ph B d \<Longrightarrow> fair_work fn d d' \<Longrightarrow> fair_bound fn slots ph B d'"
  using fair_work_frame [of fn d d'] fair_good_work [of fn d d' slots] by (auto simp: fair_bound_def)

lemma fair_bound_swap:
  assumes "fair_bound fn slots ph B d" and "(t, st) \<in># B" and "\<forall>k. st = OnFair k \<longrightarrow> fd_done d k" and "\<forall>k. st' \<noteq> OnFair k"
  shows "fair_bound fn slots ph (add_mset (t, st') (B - {#(t, st)#})) d"
proof -
  obtain A where A: "B = add_mset (t, st) A" using assms(2) by (auto dest: multi_member_split)
  show ?thesis using assms(1,3,4) unfolding fair_bound_def A by fastforce
qed

lemma fair_bound_drop:
  assumes "fair_bound fn slots ph B d"
  shows "fair_bound fn slots ph (B - {#(t, Joined)#}) d"
proof (cases "(t, Joined) \<in># B")
  case True
  then obtain A where A: "B = add_mset (t, Joined) A" by (auto dest: multi_member_split)
  show ?thesis using assms unfolding fair_bound_def A by fastforce
qed (use assms in \<open>simp add: diff_single_trivial\<close>)

lemma fair_bound_run:
  assumes "fair_bound fn slots ph B d" and "(t, Begun) \<in># B" and "n \<noteq> 0"
  shows "fair_bound fn slots ph (add_mset (t, OnFair (fd_next d)) (B - {#(t, Begun)#})) (fair_run n d)"
proof -
  obtain A where A: "B = add_mset (t, Begun) A" using assms(2) by (auto dest: multi_member_split)
  have sel: "fd_next (fair_run n d) = Suc (fd_next d)" "fd_stop (fair_run n d) = fd_stop d" "fd_done (fair_run n d) = fd_done d"
    using assms(3) by (simp_all add: fair_run_def Let_def)
  have "fair_good fn slots (fair_run n d)" using assms(1) by (auto simp: fair_bound_def intro: fair_good_step fair_step.run)
  moreover have "k < Suc (fd_next d)" if "(u, OnFair k) \<in># A" for u k
  proof -
    have "k < fd_next d" using assms(1) that unfolding fair_bound_def A by auto
    then show ?thesis by simp
  qed
  moreover have "\<exists>u. (u, OnFair k) \<in># add_mset (t, OnFair (fd_next d)) A" if "k < Suc (fd_next d)" "\<not> fd_done d k" for k
  proof (cases "k = fd_next d")
    case False
    with that have "\<exists>u. (u, OnFair k) \<in># B" using assms(1) by (auto simp: fair_bound_def less_Suc_eq)
    then show ?thesis by (auto simp: A)
  qed auto
  ultimately show ?thesis using assms(1) unfolding fair_bound_def sel by (auto simp: A)
qed

lemma fair_bound_close: "fair_bound fn slots StopFair B d \<Longrightarrow> fair_bound fn slots ShutTasks B (fair_close d)"
  using fair_good_step [OF fair_step.close, of fn slots d] by (auto simp: fair_bound_def fair_close_def)

lemma inv_fair_stage:
  assumes "inv_fair fn slots s" and "(t, st) \<in># xp_busy (sh_tasks s)" and "\<forall>k d. st = OnFair k \<and> sh_disp s = Some d \<longrightarrow> fd_done d k" and "\<forall>k. st' \<noteq> OnFair k"
  shows "inv_fair fn slots (set_stage t st st' s)"
  using assms by (auto simp: inv_fair_def fair_bound_swap split: option.splits dest: in_diffD)

lemma inv_fair_upd [simp]: "inv_fair fn slots (s\<lparr>sh_io := p\<rparr>) = inv_fair fn slots s" "inv_fair fn slots (s\<lparr>sh_meta := p\<rparr>) = inv_fair fn slots s"
  "inv_fair fn slots (s\<lparr>sh_denied := D\<rparr>) = inv_fair fn slots s" "inv_fair fn slots (call_end exc x s) = inv_fair fn slots s"
  by (simp_all add: inv_fair_def call_end_def split: option.split)

lemma inv_fair_fan:
  assumes "inv_fair fn slots s" and "(t, Begun) \<in># xp_busy (sh_tasks s)"
  shows "inv_fair fn slots (fan t s)"
proof -
  have st: "inv_fair fn slots (set_stage t Begun st' s)" if "\<forall>k. st' \<noteq> OnFair k" for st'
    by (rule inv_fair_stage [OF assms]) (use that in auto)
  then have "inv_fair fn slots (fan_io t s)" "inv_fair fn slots (fan_meta t s)" by (simp_all add: fan_io_def fan_meta_def)
  moreover have "inv_fair fn slots (fan_fair d t s)" if "sh_disp s = Some d" for d
    using st that assms fair_bound_run [of fn slots "sh_phase s" "xp_busy (sh_tasks s)" d t "task_width t"]
    by (auto simp: fan_fair_def inv_fair_def)
  ultimately show ?thesis by (auto simp: fan_def split: l2task.splits option.splits)
qed

lemma inv_fair_close:
  assumes "close_next s = Some s'" and "inv_fair fn slots s"
  shows "inv_fair fn slots s'"
  using assms by (cases "sh_phase s")
    (auto simp: close_next_def inv_fair_def fair_bound_close split: if_splits option.splits, simp_all add: fair_bound_def)

lemma inv_fair_work:
  assumes "shut_work W fn s s'" and "inv_fair fn slots s"
  shows "inv_fair fn slots s'"
  using assms(1)
proof cases
  case (submit t)
  then show ?thesis using assms(2) by (simp add: inv_fair_def call_submit_def Let_def split: option.split_asm)
next
  case start
  then show ?thesis using assms(2) by (auto simp: inv_fair_def task_start_def xp_begin_def fair_bound_def split: option.splits)
next
  case (finish t)
  then show ?thesis using assms(2) by (auto simp: inv_fair_def task_end_def xp_leave_def fair_bound_drop split: option.splits dest: in_diffD)
next
  case (drain dt)
  then show ?thesis using assms(2) by (auto simp: inv_fair_def drain_turn_def fair_bound_def split: option.splits)
next
  case (dispatch d d')
  then show ?thesis using assms(2) fair_bound_work by (auto simp: inv_fair_def)
qed (use assms(2) in \<open>simp_all add: inv_fair_fan inv_fair_stage inv_fair_close\<close>)

lemma inv_fair_step:
  assumes "shut_step W fn s s'" and "inv_fair fn slots s"
  shows "inv_fair fn slots s'"
  using assms(1)
proof cases
  case work
  then show ?thesis using assms(2) by (rule inv_fair_work)
qed (use assms(2) in \<open>simp_all add: call_new_def close_begin_def inv_fair_def fair_bound_def split: option.splits\<close>)

section \<open>Reachable states\<close>

definition shut_good :: "(nat \<Rightarrow> nat \<Rightarrow> exn + bool) \<Rightarrow> nat \<Rightarrow> shut \<Rightarrow> bool" where
  "shut_good fn slots s \<longleftrightarrow> inv_count s \<and> inv_phase s \<and> inv_owner s \<and> inv_fair fn slots s"

lemma shut_good_step: "shut_step W fn s s' \<Longrightarrow> shut_good fn slots s \<Longrightarrow> shut_good fn slots s'"
  by (simp add: shut_good_def inv_count_step inv_phase_step inv_owner_step inv_fair_step)

lemma shut_good_steps: "shut_steps W fn s s' \<Longrightarrow> shut_good fn slots s \<Longrightarrow> shut_good fn slots s'"
  by (induction rule: rtranclp_induct) (auto intro: shut_good_step)

lemma shut_good_init: "disp \<in> {None, Some (fair_init slots)} \<Longrightarrow> shut_good fn slots (shut_init now disp)"
  using fair_good_init [of fn slots]
  by (auto simp: shut_good_def shut_init_def inv_count_def inv_phase_def inv_owner_def inv_fair_def fair_bound_def owned_def
      open_tasks_def xp_new_def fair_init_def split: option.splits)

lemma fair_nothing_left:
  assumes "fair_good fn slots d" and "\<forall>k < fd_next d. fd_done d k"
  shows "uncounted d = {#}"
proof (rule ccontr)
  assume "uncounted d \<noteq> {#}"
  then obtain x where x: "x \<in># uncounted d" by blast
  then have k: "fst x < fd_next d" using assms(1) by (auto simp: fair_good_def fair_inv_def)
  have "x \<in># filter_mset (\<lambda>y. fst y = fst x) (uncounted d)" using x by simp
  then have "filter_mset (\<lambda>y. fst y = fst x) (uncounted d) \<noteq> {#}" by (metis empty_iff set_mset_empty)
  then have "\<not> fd_done d (fst x)" using assms(1) k by (simp add: fair_good_def fair_inv_def)
  with assms(2) k show False by blast
qed

lemma idle_tasks_fair:
  assumes "inv_fair fn slots s" and "xp_idle (sh_tasks s)" and "sh_disp s = Some d"
  shows "uncounted d = {#}"
  using assms by (intro fair_nothing_left [of fn slots]) (auto simp: inv_fair_def fair_bound_def xp_idle_def)

text \<open>
  C17: \<^verbatim>\<open>close\<close> takes the mount away from nobody. In every state that submissions, the threads of all pools
  and the closing thread can reach, failed calls included, once the container is unmounted no task is
  waiting or running, no call on a key is waiting or running in any pool, no running task was ever
  refused by a pool, and every task that was given an id has either finished or was refused at its
  submission.
\<close>

theorem l2_close_safe:
  assumes "shut_steps W fn (shut_init now disp) s" and "disp \<in> {None, Some (fair_init slots)}" and "\<not> sh_mounted s"
  shows "xp_idle (sh_tasks s) \<and> xp_idle (sh_io s) \<and> xp_idle (sh_meta s) \<and> (\<forall>d. sh_disp s = Some d \<longrightarrow> uncounted d = {#}) \<and>
    sh_denied s = {#} \<and> mset_set {..<sh_next s} = image_mset task_id (sh_calls s + sh_refused s) + sh_finished s"
proof -
  have good: "shut_good fn slots s" by (rule shut_good_steps [OF assms(1) shut_good_init [OF assms(2)]])
  then have p: "inv_phase s" by (simp add: shut_good_def)
  then have r: "10 \<le> rank (sh_phase s)" using assms(3) by (simp add: inv_phase_def)
  with p have idle: "xp_idle (sh_tasks s)" "xp_idle (sh_io s)" "xp_idle (sh_meta s)" "sh_denied s = {#}" by (simp_all add: inv_phase_def)
  then have "open_tasks s = sh_calls s + sh_refused s" by (simp add: open_tasks_def xp_idle_def)
  then show ?thesis using good idle idle_tasks_fair [of fn slots s] by (simp add: shut_good_def inv_count_def)
qed

text \<open>
  what the drain loop waits for. In every reachable state the count of tasks in flight is the number
  of tasks being submitted, refused, waiting and running, each id being in exactly one of these places or
  among the finished; so the loop leaves early only when no task is anywhere, and a task refused after
  the shutdown stays counted for ever.
\<close>

theorem l2_close_accounting:
  assumes "shut_steps W fn (shut_init now disp) s" and "disp \<in> {None, Some (fair_init slots)}"
  shows "sh_inflight s = int (size (open_tasks s)) \<and> mset_set {..<sh_next s} = image_mset task_id (open_tasks s) + sh_finished s \<and>
    (sh_inflight s = 0 \<longrightarrow> xp_idle (sh_tasks s) \<and> sh_calls s = {#} \<and> sh_refused s = {#})"
proof -
  have "inv_count s" using shut_good_steps [OF assms(1) shut_good_init [OF assms(2)]] by (simp add: shut_good_def)
  moreover have "open_tasks s = {#} \<Longrightarrow> xp_idle (sh_tasks s) \<and> sh_calls s = {#} \<and> sh_refused s = {#}" by (simp add: open_tasks_def xp_idle_def)
  ultimately show ?thesis by (simp add: inv_count_def)
qed

section \<open>The shutdown ends\<close>

text \<open>The work left, in steps: per task, per call, in the dispatcher, and of the closing thread.\<close>

fun stage_work :: "l2task \<times> stage \<Rightarrow> nat" where
  "stage_work (t, Begun) = 4 * task_width t + 3"
| "stage_work (t, Joined) = 1"
| "stage_work (t, _) = 2"

definition pool_work :: "(nat \<times> nat, nat \<times> nat) xpool \<Rightarrow> nat" where
  "pool_work p = 2 * length (xp_queue p) + size (xp_busy p)"

definition close_work :: "cphase \<Rightarrow> real \<Rightarrow> nat" where
  "close_work ph left = (case ph of
     Open \<Rightarrow> 0
   | Drain \<Rightarrow> 10 + nat \<lceil>20 * left\<rceil>
   | _ \<Rightarrow> 11 - rank ph)"

definition shut_effort :: "shut \<Rightarrow> nat" where
  "shut_effort s = (\<Sum>t \<in># sh_calls s. 4 * task_width t + 5) + (\<Sum>t\<leftarrow>xp_queue (sh_tasks s). 4 * task_width t + 4) +
     (\<Sum>x \<in># xp_busy (sh_tasks s). stage_work x) + pool_work (sh_io s) + pool_work (sh_meta s) +
     (case sh_disp s of None \<Rightarrow> 0 | Some d \<Rightarrow> effort d) + close_work (sh_phase s) (sh_deadline s - sh_now s)"

lemma effort_run:
  assumes "queues_ok d" and "0 < n"
  shows "effort (fair_run n d) = effort d + 4 * n"
proof -
  have sel: "fd_held (fair_run n d) = fd_held d" "fd_pool (fair_run n d) = fd_pool d" "fd_leaving (fair_run n d) = fd_leaving d"
    by (simp_all add: fair_run_def Let_def)
  have "size (pending (fair_run n d)) = size (pending d) + n" unfolding uncounted_run(1) [OF assms] by simp
  then have "size (queued (fair_run n d)) = size (queued d) + n" unfolding pending_def sel by simp
  then show ?thesis by (simp add: effort_def sel)
qed

lemma drain_work:
  assumes "sh_phase s = Drain" and "1 / 20 \<le> dt"
  shows "shut_effort (drain_turn dt s) < shut_effort s"
proof -
  have "nat \<lceil>20 * (sh_deadline s - (sh_now s + dt))\<rceil> < nat \<lceil>20 * (sh_deadline s - sh_now s)\<rceil>" if "sh_now s < sh_deadline s"
  proof -
    have "20 * (sh_deadline s - (sh_now s + dt)) \<le> 20 * (sh_deadline s - sh_now s) - 1" using assms(2) by (simp add: field_simps)
    then have "\<lceil>20 * (sh_deadline s - (sh_now s + dt))\<rceil> \<le> \<lceil>20 * (sh_deadline s - sh_now s)\<rceil> - 1"
      by (metis ceiling_diff_one ceiling_mono)
    moreover have "0 < \<lceil>20 * (sh_deadline s - sh_now s)\<rceil>" using that by simp
    ultimately show ?thesis by linarith
  qed
  then show ?thesis using assms(1) by (simp add: shut_effort_def close_work_def drain_turn_def)
qed

lemma next_work: "close_next s = Some s' \<Longrightarrow> shut_effort s' < shut_effort s"
  by (cases "sh_phase s") (auto simp: close_next_def shut_effort_def close_work_def pool_work_def effort_def queued_def fair_close_def
      split: if_splits option.splits)

lemma stage_effort:
  assumes "(t, st) \<in># B" and "stage_work (t, st') + n < stage_work (t, st)"
  shows "(\<Sum>x \<in># add_mset (t, st') (B - {#(t, st)#}). stage_work x) + n < (\<Sum>x \<in># B. stage_work x)"
  using assms by (auto dest!: multi_member_split)

lemma set_stage_effort:
  assumes "(t, st) \<in># xp_busy (sh_tasks s)" and "stage_work (t, st') < stage_work (t, st)"
  shows "shut_effort (set_stage t st st' s) < shut_effort s"
  using stage_effort [OF assms(1), of st' 0] assms(2) by (simp add: shut_effort_def)

lemma pool_work_cancel: "pool_work (cancel_items tid p) \<le> pool_work p"
  by (simp add: pool_work_def cancel_items_def)

lemma fan_effort:
  assumes "(t, Begun) \<in># xp_busy (sh_tasks s)" and "\<forall>d. sh_disp s = Some d \<longrightarrow> queues_ok d"
  shows "shut_effort (fan t s) < shut_effort s"
proof -
  note st = stage_effort [OF assms(1)]
  have "shut_effort (fan_io t s) < shut_effort s"
    using st [of OnIo "4 * task_width t"] st [of Joined 0] by (simp add: fan_io_def shut_effort_def pool_work_def items_def)
  moreover have "shut_effort (fan_meta t s) < shut_effort s"
    using st [of OnMeta "4 * task_width t"] st [of Joined 0] by (simp add: fan_meta_def shut_effort_def pool_work_def items_def)
  moreover have "shut_effort (fan_fair d t s) < shut_effort s" if "sh_disp s = Some d" for d
    using st [of "OnFair (fd_next d)" "4 * task_width t"] st [of Joined 0] that effort_run [of d "task_width t"] assms(2)
    by (simp add: fan_fair_def shut_effort_def)
  ultimately show ?thesis by (auto simp: fan_def split: l2task.splits option.splits)
qed

lemma leave_work: "x \<in># xp_busy p \<Longrightarrow> pool_work (xp_leave x p) < pool_work p"
  by (auto simp: pool_work_def xp_leave_def dest!: multi_member_split)

lemma begin_work: "xp_queue p \<noteq> [] \<Longrightarrow> pool_work (xp_begin id p) < pool_work p"
  by (cases "xp_queue p") (simp_all add: pool_work_def xp_begin_def)

lemma effort_work_shut:
  assumes "shut_work W fn s s'" and "inv_fair fn slots s"
  shows "shut_effort s' < shut_effort s"
proof -
  have q: "\<forall>d. sh_disp s = Some d \<longrightarrow> queues_ok d" using assms(2) by (auto simp: inv_fair_def fair_bound_def fair_good_def fair_inv_def)
  show ?thesis using assms(1)
  proof cases
    case (submit t)
    then show ?thesis by (auto simp: shut_effort_def call_submit_def Let_def dest!: multi_member_split)
  next
    case start
    then show ?thesis by (cases "xp_queue (sh_tasks s)") (simp_all add: shut_effort_def task_start_def xp_begin_def)
  next
    case (fan t)
    then show ?thesis using q by (simp add: fan_effort)
  next
    case (abort_io t)
    have "shut_effort s' \<le> shut_effort (set_stage t OnIo Joined s)"
      using pool_work_cancel [of "task_id t" "sh_io s"] by (simp add: abort_io(1) shut_effort_def)
    then show ?thesis using set_stage_effort [OF abort_io(2), of Joined] by simp
  next
    case (abort_meta t)
    have "shut_effort s' \<le> shut_effort (set_stage t OnMeta Joined s)"
      using pool_work_cancel [of "task_id t" "sh_meta s"] by (simp add: abort_meta(1) shut_effort_def)
    then show ?thesis using set_stage_effort [OF abort_meta(2), of Joined] by simp
  next
    case (finish t)
    then show ?thesis by (auto simp: shut_effort_def task_end_def xp_leave_def dest!: multi_member_split)
  next
    case io_start
    then show ?thesis using begin_work [of "sh_io s"] by (simp add: shut_effort_def)
  next
    case (io_end x exc)
    then show ?thesis using leave_work [of x "sh_io s"] by (simp add: shut_effort_def call_end_def)
  next
    case meta_start
    then show ?thesis using begin_work [of "sh_meta s"] by (simp add: shut_effort_def)
  next
    case (meta_end x exc)
    then show ?thesis using leave_work [of x "sh_meta s"] by (simp add: shut_effort_def call_end_def)
  next
    case (dispatch d d')
    then show ?thesis using effort_work [OF dispatch(3)] q by (simp add: shut_effort_def)
  next
    case (drain dt)
    then show ?thesis by (simp add: drain_work)
  next
    case close
    then show ?thesis by (rule next_work)
  qed (simp_all add: set_stage_effort)
qed

lemma shut_effort_bound:
  assumes "(shut_work W fn ^^ n) s s'" and "shut_good fn slots s"
  shows "n + shut_effort s' \<le> shut_effort s \<and> shut_good fn slots s'"
  using assms
proof (induction n arbitrary: s')
  case (Suc n)
  then obtain u where u: "(shut_work W fn ^^ n) s u" "shut_work W fn u s'" by auto
  with Suc.IH Suc.prems(2) have "n + shut_effort u \<le> shut_effort s" "shut_good fn slots u" by blast+
  moreover from this(2) have "shut_effort s' < shut_effort u" using effort_work_shut [OF u(2), of slots] by (simp add: shut_good_def)
  ultimately show ?case using shut_good_step [OF shut_step.work [OF u(2)]] by auto
qed simp

text \<open>When no thread can do anything, everything is over.\<close>

lemma stuck_pool:
  assumes "\<nexists>s'. shut_work W fn s s'" and "0 < w_io W" and "0 < w_meta W"
  shows "xp_idle (sh_io s)" "xp_idle (sh_meta s)"
proof -
  have "xp_busy (sh_io s) = {#}" using assms(1) shut_work.io_end by (meson multiset_nonemptyE)
  moreover from this have "xp_queue (sh_io s) = []" using assms shut_work.io_start by (metis size_empty)
  ultimately show "xp_idle (sh_io s)" by (simp add: xp_idle_def)
  have "xp_busy (sh_meta s) = {#}" using assms(1) shut_work.meta_end by (meson multiset_nonemptyE)
  moreover from this have "xp_queue (sh_meta s) = []" using assms shut_work.meta_start by (metis size_empty)
  ultimately show "xp_idle (sh_meta s)" by (simp add: xp_idle_def)
qed

lemma stuck_tasks:
  assumes "\<nexists>s'. shut_work W fn s s'" and "0 < w_tasks W" "0 < w_io W" "0 < w_meta W" and "sh_disp s = None" and "inv_fair fn slots s"
  shows "xp_idle (sh_tasks s)"
proof -
  note p = stuck_pool [OF assms(1,3,4)]
  have "(t, st) \<notin># xp_busy (sh_tasks s)" for t st
  proof
    assume b: "(t, st) \<in># xp_busy (sh_tasks s)"
    have "no_items (task_id t) (sh_io s)" "no_items (task_id t) (sh_meta s)" using p by (simp_all add: no_items_def xp_idle_def)
    then have "\<exists>s'. shut_work W fn s s'" using b assms(5,6)
      by (cases st) (auto simp: inv_fair_def intro: shut_work.fan shut_work.join_io shut_work.join_meta shut_work.finish)
    with assms(1) show False by blast
  qed
  then have "xp_busy (sh_tasks s) = {#}" by (metis multiset_nonemptyE prod.exhaust)
  moreover from this have "xp_queue (sh_tasks s) = []" using assms(1,2) shut_work.start by (metis size_empty)
  ultimately show ?thesis by (simp add: xp_idle_def)
qed

lemma stuck_closed:
  assumes "\<nexists>s'. shut_work W fn s s'" and "0 < w_tasks W" "0 < w_io W" "0 < w_meta W" and "sh_disp s = None" and "inv_fair fn slots s" and "sh_phase s \<noteq> Open"
  shows "sh_phase s = Closed"
proof -
  have "close_next s = None" using assms(1) shut_work.close by (metis not_None_eq)
  moreover have "sh_phase s \<noteq> Drain" using assms(1) shut_work.drain [of s "1 / 20" W fn] by auto
  ultimately show ?thesis using assms(5,7) stuck_tasks [OF assms(1-6)] stuck_pool [OF assms(1,3,4)]
    by (cases "sh_phase s") (simp_all add: close_next_def fair_quiet_def)
qed

lemma work_frame: "shut_work W fn s s' \<Longrightarrow> (sh_disp s = None \<longrightarrow> sh_disp s' = None) \<and> (sh_phase s \<noteq> Open \<longrightarrow> sh_phase s' \<noteq> Open)"
  by (induction rule: shut_work.induct)
    (auto simp: call_submit_def task_start_def fan_def fan_io_def fan_meta_def fan_fair_def task_end_def call_end_def drain_turn_def close_next_def Let_def
      split: l2task.splits option.splits if_splits cphase.splits)

lemma work_frames: "(shut_work W fn ^^ n) s s' \<Longrightarrow> (sh_disp s = None \<longrightarrow> sh_disp s' = None) \<and> (sh_phase s \<noteq> Open \<longrightarrow> sh_phase s' \<noteq> Open)"
  by (induction n arbitrary: s') (fastforce dest: work_frame)+

lemma steps_frame: "shut_steps W fn s s' \<Longrightarrow> sh_disp s = None \<Longrightarrow> sh_disp s' = None"
proof (induction rule: rtranclp_induct)
  case (step u v)
  from step(2) show ?case
  proof cases
    case work
    then show ?thesis using work_frame step by blast
  qed (use step in \<open>simp_all add: call_new_def close_begin_def\<close>)
qed

text \<open>
  C18: with the default schedule \<^verbatim>\<open>close\<close> returns. Whatever was going on when it was called, the threads can
  take at most \<open>shut_effort s\<close> steps without new submissions, 600 turns of the drain loop included, as
  long as calls into the library return; and when none can go on, \<^verbatim>\<open>close\<close> is at its end.
\<close>

theorem l2_close_returns:
  assumes "shut_steps W fn (shut_init now None) s" and "0 < w_tasks W" and "0 < w_io W" and "0 < w_meta W" and "(shut_work W fn ^^ n) s s'"
  shows "n \<le> shut_effort s \<and> (sh_phase s \<noteq> Open \<and> (\<nexists>u. shut_work W fn s' u) \<longrightarrow> sh_phase s' = Closed)"
proof -
  have "shut_good fn 1 s" by (rule shut_good_steps [OF assms(1) shut_good_init]) simp
  then have b: "n + shut_effort s' \<le> shut_effort s" "inv_fair fn 1 s'" using shut_effort_bound [OF assms(5)] by (auto simp: shut_good_def)
  have "sh_disp s = None" by (rule steps_frame [OF assms(1)]) (simp add: shut_init_def)
  then have "sh_disp s' = None" "sh_phase s \<noteq> Open \<longrightarrow> sh_phase s' \<noteq> Open" using work_frames [OF assms(5)] by blast+
  then show ?thesis using b stuck_closed [OF _ assms(2-4) _ b(2)] by auto
qed

section \<open>The fair schedule\<close>

text \<open>A load whose calls wait in a dispatcher that was stopped keeps waiting.\<close>

definition stranded :: "nat \<Rightarrow> l2task \<Rightarrow> shut \<Rightarrow> bool" where
  "stranded k t s \<longleftrightarrow> (t, OnFair k) \<in># xp_busy (sh_tasks s) \<and> (\<exists>d. sh_disp s = Some d \<and> fd_stop d \<and> k \<in> dom (fd_queues d))"

lemma in_remove_other: "x \<noteq> y \<Longrightarrow> x \<in># B - {#y#} \<longleftrightarrow> x \<in># B"
  by (simp add: in_diff_count)

lemma stranded_stage: "stranded k t s \<Longrightarrow> (u, st) \<noteq> (t, OnFair k) \<Longrightarrow> stranded k t (set_stage u st st' s)"
  by (auto simp: stranded_def in_remove_other)

lemma stranded_upd [simp]: "stranded k t (s\<lparr>sh_io := p\<rparr>) = stranded k t s" "stranded k t (s\<lparr>sh_meta := p\<rparr>) = stranded k t s"
  "stranded k t (s\<lparr>sh_denied := D\<rparr>) = stranded k t s" "stranded k t (call_end exc x s) = stranded k t s" "stranded k t (s\<lparr>sh_phase := ph\<rparr>) = stranded k t s"
  "stranded k t (drain_turn dt s) = stranded k t s" "stranded k t (s\<lparr>sh_mounted := b\<rparr>) = stranded k t s"
  by (simp_all add: stranded_def call_end_def drain_turn_def)

lemma stranded_disp:
  assumes "stranded k t s" and "inv_fair fn slots s" and "sh_disp s = Some d" and "fair_step fn d d'"
  shows "stranded k t (s\<lparr>sh_disp := Some d'\<rparr>)"
proof -
  have "fd_stop d" "k \<in> dom (fd_queues d)" "fair_good fn slots d" using assms(1-3) by (auto simp: stranded_def inv_fair_def fair_bound_def)
  from stopped_step [OF assms(4) this] show ?thesis using assms(1,3) by (auto simp: stranded_def)
qed

lemma stranded_fan:
  assumes "stranded k t s" and "inv_fair fn slots s"
  shows "stranded k t (fan u s)"
proof -
  have st: "stranded k t (set_stage u Begun st' s)" for st' using assms(1) by (rule stranded_stage) simp
  then have "stranded k t (fan_io u s)" "stranded k t (fan_meta u s)" by (simp_all add: fan_io_def fan_meta_def)
  moreover have "stranded k t (fan_fair d u s)" if "sh_disp s = Some d" for d
  proof -
    have "stranded k t (s\<lparr>sh_disp := Some (fair_run (task_width u) d)\<rparr>)" by (rule stranded_disp [OF assms that fair_step.run])
    then show ?thesis using st by (auto simp: fan_fair_def stranded_def)
  qed
  ultimately show ?thesis by (auto simp: fan_def split: l2task.splits option.splits)
qed

lemma stranded_close: "close_next s = Some s' \<Longrightarrow> stranded k t s \<Longrightarrow> stranded k t s'"
  by (cases "sh_phase s") (auto simp: close_next_def stranded_def fair_close_def split: if_splits)

lemma stranded_step:
  assumes "shut_step W fn s s'" and "stranded k t s" and "inv_fair fn slots s"
  shows "stranded k t s'"
  using assms(1)
proof cases
  case work
  then show ?thesis
  proof cases
    case (submit u)
    then show ?thesis using assms(2) by (simp add: stranded_def call_submit_def Let_def)
  next
    case start
    then show ?thesis using assms(2) by (simp add: stranded_def task_start_def xp_begin_def)
  next
    case (fan u)
    then show ?thesis using assms(2,3) by (simp add: stranded_fan)
  next
    case (join_fair u j d)
    have "\<not> fd_done d k" using assms(2,3) join_fair(3) by (intro active_not_done [of fn slots]) (auto simp: stranded_def inv_fair_def fair_bound_def)
    then have "(u, OnFair j) \<noteq> (t, OnFair k)" using join_fair(4) by auto
    then show ?thesis using assms(2) join_fair(1) by (simp add: stranded_stage)
  next
    case (finish u)
    then show ?thesis using assms(2) by (simp add: stranded_def task_end_def xp_leave_def in_remove_other)
  next
    case (dispatch d d')
    then show ?thesis using stranded_disp [OF assms(2,3)] by (simp add: fair_step.work)
  next
    case close
    then show ?thesis using assms(2) by (rule stranded_close)
  qed (use assms(2) in \<open>simp_all add: stranded_stage\<close>)
qed (use assms(2) in \<open>simp_all add: stranded_def call_new_def close_begin_def\<close>)

text \<open>
  C37: with the schedule \<^verbatim>\<open>fair\<close>, \<^verbatim>\<open>close\<close> may never return: if the dispatcher is stopped while a load still has
  calls in its queues, because the drain loop ran into its deadline or because the load was submitted
  after the loop, then in every continuation the task thread waits, the shutdown of the task pool waits
  for it, and the container stays mounted.
\<close>

theorem l2_close_fair_hangs:
  assumes "shut_steps W fn (shut_init now (Some (fair_init slots))) s" and "sh_disp s = Some d" and "fd_stop d" and "k \<in> dom (fd_queues d)"
    and "(t, OnFair k) \<in># xp_busy (sh_tasks s)" and "shut_steps W fn s s'"
  shows "sh_phase s' \<noteq> Closed \<and> sh_mounted s' \<and> (t, OnFair k) \<in># xp_busy (sh_tasks s')"
proof -
  have good: "shut_good fn slots s" by (rule shut_good_steps [OF assms(1) shut_good_init]) simp
  have "stranded k t s" using assms(2-5) by (simp add: stranded_def)
  with assms(6) have "stranded k t s' \<and> shut_good fn slots s'"
  proof (induction rule: rtranclp_induct)
    case (step u v)
    then show ?case using stranded_step [OF step(2), of k t slots] shut_good_step [OF step(2), of slots] by (simp add: shut_good_def)
  qed (use good in simp)
  then have b: "(t, OnFair k) \<in># xp_busy (sh_tasks s')" and p: "inv_phase s'" by (simp_all add: stranded_def shut_good_def)
  from inv_phase_running(1) [OF p b] p b show ?thesis by (auto simp: inv_phase_def)
qed

section \<open>Runs\<close>

text \<open>The closing thread alone, as long as it does not have to wait.\<close>

primrec run_close :: "nat \<Rightarrow> shut \<Rightarrow> shut option" where
  "run_close 0 s = Some s"
| "run_close (Suc n) s = (case close_next s of None \<Rightarrow> None | Some s' \<Rightarrow> run_close n s')"

lemma run_close_work: "run_close n s = Some s' \<Longrightarrow> (shut_work W fn ^^ n) s s'"
proof (induction n arbitrary: s)
  case (Suc n)
  then obtain u where u: "close_next s = Some u" "run_close n u = Some s'" by (auto split: option.splits)
  from Suc.IH [OF u(2)] shut_work.close [OF u(1)] show ?case by (metis relpowp_Suc_I2)
qed simp

lemma shut_work_steps: "(shut_work W fn ^^ n) s s' \<Longrightarrow> shut_steps W fn s s'"
  by (induction n arbitrary: s') (auto intro: rtranclp.rtrancl_into_rtrancl shut_step.work)

text \<open>\<^verbatim>\<open>close\<close> on an idle adapter.\<close>

definition idle_close :: shut where
  "idle_close = close_begin (shut_init 0 None)"

definition idle_end :: shut where
  "idle_end = idle_close\<lparr>sh_phase := Closed, sh_tasks := xp_new\<lparr>xp_shut := True\<rparr>, sh_io := xp_new\<lparr>xp_shut := True\<rparr>,
     sh_meta := xp_new\<lparr>xp_shut := True\<rparr>, sh_mounted := False\<rparr>"

lemma idle_begin: "shut_steps W fn (shut_init 0 None) idle_close"
  unfolding idle_close_def by (intro r_into_rtranclp shut_step.begin_close) (simp add: shut_init_def)

lemma idle_work: "(shut_work W fn ^^ 10) idle_close idle_end"
proof -
  have "shut_work W fn idle_close (drain_turn 1 idle_close)"
    by (rule shut_work.drain) (simp_all add: idle_close_def close_begin_def)
  moreover have "run_close 9 (drain_turn 1 idle_close) = Some idle_end"
    by (simp add: eval_nat_numeral idle_end_def idle_close_def close_begin_def shut_init_def drain_turn_def close_next_def xp_new_def xp_idle_def fair_quiet_def)
  then have "(shut_work W fn ^^ 9) (drain_turn 1 idle_close) idle_end" by (rule run_close_work)
  ultimately show ?thesis using relpowp_Suc_I2 [of "shut_work W fn" _ _ 9] by simp
qed

lemma idle_stuck: "\<not> shut_work W fn idle_end u"
  by (auto elim!: shut_workE simp: idle_end_def idle_close_def close_begin_def shut_init_def xp_new_def close_next_def)

abbreviation "one_each \<equiv> \<lparr>w_tasks = 1, w_io = 1, w_meta = 1\<rparr>"

theorem l2_close_safe_witness:
  "shut_steps one_each yes (shut_init 0 None) idle_end \<and> \<not> sh_mounted idle_end \<and> xp_idle (sh_tasks idle_end)"
proof -
  have s: "shut_steps one_each yes (shut_init 0 None) idle_end"
    using idle_begin shut_work_steps [OF idle_work] by (rule rtranclp_trans)
  have "\<not> sh_mounted idle_end" by (simp add: idle_end_def)
  with s l2_close_safe [of one_each yes 0 None idle_end 1] show ?thesis by simp
qed

theorem l2_close_returns_witness: "10 \<le> shut_effort idle_close \<and> sh_phase idle_end = Closed"
proof -
  have "sh_phase idle_close \<noteq> Open" by (simp add: idle_close_def close_begin_def)
  then show ?thesis using l2_close_returns [OF idle_begin _ _ _ idle_work, of one_each yes] idle_stuck by auto
qed

text \<open>One load of one key with the fair schedule; the drain loop runs into its deadline before the dispatcher picks the key.\<close>

definition load0 :: l2task where
  "load0 = TLoad 0 [ref_key] [0]"

definition fair_busy :: shut where
  "fair_busy = fan load0 (task_start (call_submit load0 (call_new load0 (shut_init 0 (Some (fair_init 1))))))"

definition fair_stop :: shut where
  "fair_stop = the (close_next (drain_turn 1 (drain_turn 30 (close_begin fair_busy))))"

lemmas fair_run_defs = fair_stop_def fair_busy_def load0_def fan_def fan_fair_def task_start_def call_submit_def call_new_def shut_init_def
  set_stage_def xp_begin_def xp_new_def close_next_def drain_turn_def close_begin_def fair_run_def fair_init_def fair_close_def Let_def

lemma fair_stop_steps: "shut_steps one_each yes (shut_init 0 (Some (fair_init 1))) fair_stop"
proof -
  let ?s0 = "shut_init 0 (Some (fair_init 1))"
  have 1: "shut_step one_each yes ?s0 (call_new load0 ?s0)" by (rule shut_step.call) (simp add: load0_def shut_init_def)
  have 2: "shut_step one_each yes (call_new load0 ?s0) (call_submit load0 (call_new load0 ?s0))"
    by (intro shut_step.work shut_work.submit) (simp add: call_new_def)
  have 3: "shut_step one_each yes (call_submit load0 (call_new load0 ?s0)) (task_start (call_submit load0 (call_new load0 ?s0)))"
    by (intro shut_step.work shut_work.start) (simp_all add: fair_run_defs)
  have 4: "shut_step one_each yes (task_start (call_submit load0 (call_new load0 ?s0))) fair_busy"
    unfolding fair_busy_def by (intro shut_step.work shut_work.fan) (simp add: fair_run_defs)
  have 5: "shut_step one_each yes fair_busy (close_begin fair_busy)" by (rule shut_step.begin_close) (simp add: fair_run_defs)
  have 6: "shut_step one_each yes (close_begin fair_busy) (drain_turn 30 (close_begin fair_busy))"
    by (intro shut_step.work shut_work.drain) (simp_all add: fair_run_defs)
  have 7: "shut_step one_each yes (drain_turn 30 (close_begin fair_busy)) (drain_turn 1 (drain_turn 30 (close_begin fair_busy)))"
    by (intro shut_step.work shut_work.drain) (simp_all add: fair_run_defs)
  have 8: "shut_step one_each yes (drain_turn 1 (drain_turn 30 (close_begin fair_busy))) fair_stop"
    unfolding fair_stop_def by (intro shut_step.work shut_work.close) (simp add: fair_run_defs)
  show ?thesis using 1 2 3 4 5 6 7 8 by (meson rtranclp.rtrancl_into_rtrancl rtranclp.rtrancl_refl)
qed

text \<open>The closing thread goes on to the wait for the task pool and is stuck there.\<close>

definition fair_wait :: shut where
  "fair_wait = the (close_next fair_stop)"

theorem l2_close_fair_hangs_witness:
  "shut_steps one_each yes fair_stop fair_wait \<and> close_next fair_wait = None \<and> sh_phase fair_wait \<noteq> Closed \<and> sh_mounted fair_wait"
proof -
  have "shut_steps one_each yes fair_stop fair_wait" unfolding fair_wait_def
    by (intro r_into_rtranclp shut_step.work shut_work.close) (simp add: fair_run_defs)
  moreover have "(load0, OnFair 0) \<in># xp_busy (sh_tasks fair_stop)" by (simp add: fair_run_defs)
  moreover have "sh_disp fair_stop = Some (fair_close (fair_run 1 (fair_init 1)))" by (simp add: fair_run_defs)
  moreover have "fd_stop (fair_close (fair_run 1 (fair_init 1)))" "0 \<in> dom (fd_queues (fair_close (fair_run 1 (fair_init 1))))"
    by (simp_all add: fair_run_defs)
  moreover have "close_next fair_wait = None" by (simp add: fair_wait_def fair_run_defs xp_idle_def)
  ultimately show ?thesis using l2_close_fair_hangs [OF fair_stop_steps] by blast
qed

theorem l2_close_accounting_witness:
  "sh_inflight fair_stop = 1 \<and> open_tasks fair_stop = {#load0#}"
proof -
  have "open_tasks fair_stop = {#load0#}" by (simp add: open_tasks_def fair_run_defs)
  with l2_close_accounting [OF fair_stop_steps, of 1] show ?thesis by simp
qed

end
