(* ===== verification/Spec2Isabelle.thy ===== *)
theory Spec2Isabelle
  imports Conn_Batch L2_Fair Mp_Stream Daos_Event Gds_Props Gds_Commit Gds_Pool Lib_Load L2_Close
begin

text \<open>
  A verification of \<^verbatim>\<open>lmcache_daos\<close>, the DAOS storage backends of LMCache: the byte formats, the bindings
  to \<^verbatim>\<open>libdfs\<close> and \<^verbatim>\<open>libdaos\<close>, the remote connector with its thread pool, its batches and its streaming
  reads, the event queue, the GPU-direct storage plugin, and the second-level adapter of the multiprocess
  server with its fair dispatcher and the streaming proxy in front of it.

  \<^bold>\<open>How the program is modelled.\<close> A Python method is a computation \<open>('s, 'a) io\<close>: a function from the
  state to an outcome, a value or an exception of type \<open>exn\<close>, and the state after it
  (\<open>Daos_Prelude\<close>). \<open>bind_io\<close>, \<open>catch_io\<close> and \<open>finally_io\<close> are sequencing, \<^verbatim>\<open>try ... except\<close> and
  \<^verbatim>\<open>try ... finally\<close>, and \<open>wp\<close> is the weakest precondition with total correctness: every run ends. The
  C libraries, LMCache's memory objects and allocator, \<^verbatim>\<open>torch\<close>'s element sizes and the clocks are
  parameters; the laws relied on are the locales \<open>dfs_lib\<close>, \<open>dfs_full\<close>, \<open>dfs_live\<close> (\<open>Libdfs\<close>, \<open>Dfs_Binding\<close>),
  \<open>obj_lib\<close>, \<open>obj_live\<close>, \<open>obj_handles\<close> (\<open>Obj_Binding\<close>), \<open>lm_env\<close> (\<open>Lmcache\<close>) and \<open>l2_bufs\<close> (\<open>L2_Sound\<close>). The
  laws allow every call to fail and every write to be cut off after any number of bytes; only the
  locales with \<open>live\<close> in their name speak of servers that are up. Each is interpreted on a reference
  implementation (\<open>Mem_Dfs\<close>, \<open>Mem_Obj\<close>, \<open>mem_lm\<close>, \<open>ref_bufs\<close>), on which the witnesses run the program.

  \<^bold>\<open>Formats.\<close> \<open>Py_Struct\<close> has \<^verbatim>\<open>struct.pack\<close> and the CRC-32 of \<^verbatim>\<open>zlib\<close>, \<open>Sha256\<close> the hash with the constants
  of the standard, \<open>Py_Key\<close> and \<open>Py_Url\<close> the key and URL strings. \<open>Serde\<close>, \<open>Serde_V2\<close> and \<open>Serde_V3\<close> are
  \<^verbatim>\<open>serde.py\<close>, \<^verbatim>\<open>serde_v2.py\<close> and \<^verbatim>\<open>serde_v3.py\<close>: round trips, torn and corrupted headers, distinct akeys,
  paths. The locale \<open>header_codec\<close> is the contract the v2 page and the v3 record share.

  \<^bold>\<open>Bindings.\<close> \<open>Dfs_Binding\<close> is the class \<^verbatim>\<open>DfsSys\<close> of \<^verbatim>\<open>dfs_binding.py\<close> and the warm-up of all targets;
  \<open>Obj_Binding\<close> is \<^verbatim>\<open>obj_binding.py\<close>, from the building of the C structures to the open and close of the
  container and the layout probe. \<open>Daos_Event\<close> is \<^verbatim>\<open>daos_event.py\<close> with the asynchronous submit of \<^verbatim>\<open>DfsSys\<close>: event
  slots with their guard bytes, the queue, one asynchronous read, and the start-up check of the event
  layout, proved sound against every library of the locale \<open>event_lib\<close> and run on \<open>ref_ev\<close>. \<open>Lib_Load\<close> is how the three
  modules find and open the C libraries and declare their prototypes: what a load leaves, what it leaves
  when it fails, and which files the two bindings choose.

  \<^bold>\<open>Connector\<close> (\<^verbatim>\<open>connector.py\<close>). \<open>Conn_Addr\<close>: URL, key addressing, choice of the backend. \<open>Conn_Io\<close>: store, load,
  presence and removal as they run on the pool, for both backends and with layers folded into one
  request. \<open>Conn_Mem\<close>, \<open>Conn_Dfs\<close>, \<open>Conn_Raw\<close>: what one call does, on every branch. \<open>Conn_Cache\<close>: the locale
  \<open>cache_backend\<close>, the contract of a cache, is shown for both backends; its theorems say that in every
  state reached by any sequence of operations with failures anywhere a hit returns exactly the object
  of its key, and that with the servers up a load returns what was stored. \<open>Conn_Pool\<close>: the gate that
  detects a wedged pool, the batched operations, the health check, construction and close. \<open>Conn_Stream\<close>
  is \<^verbatim>\<open>streaming.py\<close> as a step relation: every index once, a bounded number of steps, a full window.
  \<open>Conn_Batch\<close> puts them together: batched and streamed loads return the object of their own key.

  \<^bold>\<open>GPU-direct backend\<close> (\<^verbatim>\<open>gds_backend.py\<close>). \<open>Py_Json\<close> is \<^verbatim>\<open>json.dumps\<close> and \<^verbatim>\<open>json.loads\<close> as far as the object metadata
  needs them, with the round trip. \<open>Gds_Backend\<close>: the state of \<^verbatim>\<open>DaosGdsBackend\<close> as the record \<open>gds\<close> and one
  definition per method; a put is \<open>put_one\<close>, from \<open>write_temp\<close> to the rename in \<open>publish_temp\<close>, a load is
  \<open>get_blocking\<close>. \<open>Gds_Sound\<close>: the contracts \<open>torch_names\<close> (names of element types and formats), \<open>gds_lib\<close> (GPU
  transfers and directory calls of the library) and \<open>gds_conn\<close> (with allocator and driver), and what one
  call does on every branch. \<open>Gds_Cache\<close>: the relation \<open>gds_reach\<close> of all sequences of calls and its
  invariant, in the locale \<open>gds_cache\<close>. \<open>Gds_Live\<close>: with the servers up (\<open>gds_live\<close>) a store makes the object
  visible and a load finds it. \<open>Gds_Batch\<close>: the batched loads, which keep a prefix of hits and give back
  the rest. \<open>Gds_Ref\<close>: the reference library, allocator, driver and names on which the five locales are
  interpreted. \<open>Gds_Props\<close>: the properties with their runs. \<open>Gds_Commit\<close>: puts, loads and
  removals of many threads and clients interleaved at the library calls (\<open>commit_step\<close>), on a name space of
  objects with handles; an object is complete whenever its final name leads to it. \<open>Gds_Pool\<close>: the thread pool all calls share as a
  step relation; lookups wait on it for jobs of their own, so that a pool with a spare worker completes
  and a burst of as many lookups as workers never does.

  \<^bold>\<open>L2 adapter\<close> (\<^verbatim>\<open>mp/l2_adapter.py\<close>). \<open>L2_Names\<close> and \<open>L2_Config\<close>: object names, sizes, configuration. \<open>L2_Adapter\<close>:
  the state of \<^verbatim>\<open>DaosL2Adapter\<close> as a record and one definition per method. \<open>L2_Sound\<close>: what store, lookup and
  load promise about the bytes, per key, per task and over all interleavings of single-key calls
  (\<open>l2_reach\<close>). \<open>L2_Tasks\<close>: bookkeeping that holds whatever the library does, by the preorder argument of
  the locale \<open>step_order\<close> (\<open>Daos_Prelude\<close>): task ids and results (\<open>l2_step\<close>), locks, deletion, health, status log. \<open>L2_Fair\<close>: the
  threads of \<^verbatim>\<open>_FairDispatcher\<close> as a step relation, with safety, a bound on the number of steps, and
  completion. \<open>L2_Close\<close>: \<^verbatim>\<open>close\<close> against callers, task threads, the pools and the dispatcher (\<open>shut_step\<close>): the
  container is unmounted only when nothing uses it, \<^verbatim>\<open>close\<close> returns with the default schedule and may hang
  with the fair one. \<open>Mp_Stream\<close> is \<^verbatim>\<open>mp/streaming_patch.py\<close>: the proxy that splits a load into sub-batches, over any
  adapter of the locale \<open>load_service\<close>, interpreted on the L2 adapter; the finish that skips published
  keys, the early status, and the transfer to the device by sub-batches. Calls of LMCache's first-level
  manager are recorded in the state (\<open>px_published\<close>).

  \<^bold>\<open>Concurrency.\<close> A call into the pool runs as one step, and the order in which the pool finishes the
  calls of a batch is an argument that ranges over all schedules (\<open>is_schedule\<close>; \<open>may_run\<close> where
  a failed \<^verbatim>\<open>pool.map\<close> cancels calls; the events of \<open>gather_run\<close>). The relations \<open>conn_reach\<close>, \<open>gds_reach\<close> and \<open>l2_reach\<close> interleave single calls of all callers. In
  \<open>stream_step\<close>, \<open>fair_work\<close>, \<open>shut_step\<close>, \<open>commit_step\<close> and \<open>pool_step\<close> a step is one section between synchronisation points. Counters that the
  source updates without its lock are not interleaved.

  \<^bold>\<open>Loops\<close> are structural recursion or total computations. Only the JSON parser has fuel, two
  units per character and one: it never runs out (\<open>fuel_enough\<close>), and the round trip is unconditional.
  The bounds on runs of the step relations are theorems (\<open>stream_terminates\<close>, \<open>fair_terminates\<close>,
  \<open>l2_close_returns\<close>, \<open>gds_pool_completes\<close>).

  \<^bold>\<open>Not modelled.\<close> Replacing methods and names of LMCache (\<^verbatim>\<open>apply\<close> in \<^verbatim>\<open>mp/streaming_patch.py\<close>, the prefetch
  serializer in \<^verbatim>\<open>gds_backend.py\<close>, \<^verbatim>\<open>register\<close> in \<^verbatim>\<open>mp/l2_adapter.py\<close>) is glue. The pool of the GPU-direct backend is modelled with its jobs, not
  with their effects.
  Logging and profiling output, the entry points
  \<^verbatim>\<open>mp/server.py\<close> and \<^verbatim>\<open>mp/vllm_connector.py\<close>, and everything outside \<^verbatim>\<open>lmcache_daos/\<close> (benchmarks, figures,
  deployment, tests, C and C++ sources) are glue, measurement or code of another language.
\<close>

end
